(* ===== verification/Prelude.thy ===== *)
theory Prelude
  imports Main "HOL-Library.Word"
begin

text \<open>
  Shared vocabulary of the development: the machine integers of the C++ code, the error
  strings its operations fill in, the lemma collections the component proofs draw on, and a
  few generic facts about lists and words.

  Conventions used by every theory:
  \<^item> a \<^verbatim>\<open>std::string &errMsg\<close> out-parameter is an \<open>errmsg\<close>; the
    empty string means success, exactly as in the code (\<^verbatim>\<open>errMsg.empty()\<close>);
  \<^item> an operation that would dereference a null pointer, read outside a vector or abort the
    process returns an \<open>option\<close>, and \<open>None\<close> stands for that crash;
  \<^item> a class is a record whose fields carry the names of the data members without the trailing
    underscore, and a method \<^verbatim>\<open>C::m\<close> is the definition \<open>C_m\<close>.
\<close>

type_synonym u64 = "64 word"
type_synonym u32 = "32 word"
type_synonym errmsg = string

named_theorems model_defs "definitions of the operations of the model"
named_theorems inv_intros "an operation keeps an invariant"

section \<open>Results\<close>

text \<open>Sequencing of operations that end in a fault or in a state.\<close>

definition rbind :: "'e + 'a \<Rightarrow> ('a \<Rightarrow> 'e + 'b) \<Rightarrow> 'e + 'b" where
  "rbind r f = (case r of Inl e \<Rightarrow> Inl e | Inr x \<Rightarrow> f x)"

lemma rbind_simps [simp]: "rbind (Inl e) f = Inl e" "rbind (Inr x) f = f x"
  by (simp_all add: rbind_def)

lemma rbind_Inr: "rbind r f = Inr y \<longleftrightarrow> (\<exists>x. r = Inr x \<and> f x = Inr y)"
  by (cases r) auto

fun fold_r :: "('a \<Rightarrow> 's \<Rightarrow> 'e + 's) \<Rightarrow> 'a list \<Rightarrow> 's \<Rightarrow> 'e + 's" where
  "fold_r f [] s = Inr s"
| "fold_r f (x # xs) s = rbind (f x s) (fold_r f xs)"

text \<open>
  A sequence of calls that each report an error string, left at the first that is not empty: the
  calls made, and the error.
\<close>

fun call_seq :: "('a \<times> errmsg) list \<Rightarrow> 'a list \<times> errmsg" where
  "call_seq [] = ([], '''')"
| "call_seq ((a, e) # cs) = (if e \<noteq> '''' then ([a], e) else (let (as, e') = call_seq cs in (a # as, e')))"

section \<open>Lists\<close>

text \<open>\<open>std::vector::insert(begin() + i, first, last)\<close>.\<close>

definition insert_at :: "nat \<Rightarrow> 'a list \<Rightarrow> 'a list \<Rightarrow> 'a list" where
  "insert_at i ys xs = take i xs @ ys @ drop i xs"

lemma length_insert_at [simp]: "length (insert_at i ys xs) = length xs + length ys"
  by (simp add: insert_at_def)

lemma take_insert_at [simp]: "i \<le> length xs \<Longrightarrow> take (i + length ys) (insert_at i ys xs) = take i xs @ ys"
  by (simp add: insert_at_def)

lemma distinct_split_unique:
  assumes "distinct (xs @ a # ys)" "xs @ a # ys = xs' @ a # ys'"
  shows "xs = xs' \<and> ys = ys'"
  using assms by (fastforce simp: append_eq_append_conv2 append_eq_Cons_conv Cons_eq_append_conv)

lemma remove1_middle [simp]: "a \<notin> set xs \<Longrightarrow> remove1 a (xs @ a # ys) = xs @ ys"
  by (induction xs) auto

lemma in_set_remove1_distinct [simp]:
  "distinct xs \<Longrightarrow> b \<in> set (remove1 a xs) \<longleftrightarrow> b \<in> set xs \<and> b \<noteq> a"
  by (induction xs) auto

lemma foldl_snoc_concat: "foldl (\<lambda>acc x. acc @ f x) acc xs = acc @ concat (map f xs)"
  by (induction xs arbitrary: acc) auto

section \<open>Words\<close>

lemma unat_add_exact:
  fixes a b :: "'a::len word"
  assumes "unat a + unat b < 2 ^ LENGTH('a)"
  shows "unat (a + b) = unat a + unat b"
  using assms by (simp add: unat_word_ariths)

lemma unat_lt64: "unat (w :: u64) < 2 ^ 64"
proof -
  have "unat w < 2 ^ LENGTH(64)" by (rule unsigned_less)
  then show ?thesis by simp
qed

lemma unat_of_nat64: "n < 2 ^ 64 \<Longrightarrow> unat (of_nat n :: u64) = n"
  by (simp add: unat_of_nat)

lemma unat_sub_exact:
  fixes a b :: "'a::len word"
  assumes "b \<le> a"
  shows "unat (a - b) = unat a - unat b"
  using assms by (rule unat_sub)

lemma unat_minus_one:
  fixes w :: "'a::len word"
  assumes "w \<noteq> 0"
  shows "unat (w + - 1) = unat w - 1"
proof -
  have "1 \<le> w" using assms by (simp add: word_le_nat_alt Suc_le_eq unat_gt_0)
  from unat_sub_exact [OF this] show ?thesis by simp
qed

lemma sint_eq_uint_63:
  fixes w :: u64
  assumes "unat w < 2 ^ 63"
  shows "sint w = int (unat w)"
proof -
  have u: "uint w = int (unat w)" by (simp only: of_nat_unat)
  have "int (unat w) < int (2 ^ 63)" using assms by (simp only: of_nat_less_iff)
  then have "int (unat w) < 2 ^ 63" by simp
  moreover have "- (2 ^ 63) \<le> int (unat w)" by (rule order_trans [of _ 0]) simp_all
  ultimately have "signed_take_bit 63 (int (unat w)) = int (unat w)"
    by (simp only: signed_take_bit_int_eq_self_iff simp_thms)
  then show ?thesis by (simp only: sint_uint u) simp
qed

end
