(* ===== verification/Net_Event.thy ===== *)
theory Net_Event
  imports Prelude
begin

text \<open>
  Events and the poller interface: \<^verbatim>\<open>src/net/common/event.h\<close>,
  \<^verbatim>\<open>event.cpp\<close>, \<^verbatim>\<open>event_id.h\<close> and \<^verbatim>\<open>poller.h\<close>.
  An event belongs to one poller for life; enabling or disabling a notification writes a flag and
  then tells the poller (\<^verbatim>\<open>Event::update\<close>), which either (re-)registers the event or
  removes it.  The callbacks of an event are modelled where they are run, in the event loop.

  File descriptors, deadlines and event ids are \<^verbatim>\<open>int64_t\<close>.  They are compared and
  stored, never computed with here, and are integers in the model; the counter of ids, which would wrap
  after \<open>2 ^ 63\<close> events, does not.
\<close>

section \<open>Event\<close>

record event =
  fd :: int
  eid :: int
  readAble :: bool
  writeAble :: bool
  readNotify :: bool
  writeNotify :: bool

text \<open>\<^verbatim>\<open>EventIdCreator::Create\<close>: the next id, and the counter after it.\<close>

definition EventIdCreator_Create :: "int \<Rightarrow> int \<times> int" where
  "EventIdCreator_Create current = (current, current + 1)"

definition Event_new :: "int \<Rightarrow> int \<Rightarrow> event \<times> int" where
  "Event_new f current =
     (let (i, current) = EventIdCreator_Create current
      in (\<lparr>fd = f, eid = i, readAble = False, writeAble = False, readNotify = False, writeNotify = False\<rparr>,
          current))"

definition Event_SetReadAble :: "event \<Rightarrow> event" where
  "Event_SetReadAble e = e\<lparr>readAble := True\<rparr>"

definition Event_SetWriteAble :: "event \<Rightarrow> event" where
  "Event_SetWriteAble e = e\<lparr>writeAble := True\<rparr>"

text \<open>
  A poller is the pair of its two operations \<^verbatim>\<open>UpdateEvent\<close> and
  \<^verbatim>\<open>RemoveEvent\<close> over a state \<open>'p\<close>; \<open>None\<close> as poller state is the poller that was
  destroyed before the event (\<^verbatim>\<open>poller_.lock()\<close> fails and the code only logs).
\<close>

type_synonym 'p poller_op = "event \<Rightarrow> 'p \<Rightarrow> 'p option"

definition Event_update :: "'p poller_op \<Rightarrow> 'p poller_op \<Rightarrow> event \<Rightarrow> 'p option \<Rightarrow> 'p option option" where
  "Event_update upd rem e pl =
     (case pl of
        None \<Rightarrow> Some None
      | Some p \<Rightarrow>
          if \<not> readNotify e \<and> \<not> writeNotify e then map_option Some (rem e p)
          else map_option Some (upd e p))"

definition Event_EnableReadNotify ::
    "'p poller_op \<Rightarrow> 'p poller_op \<Rightarrow> event \<Rightarrow> 'p option \<Rightarrow> (event \<times> 'p option) option" where
  "Event_EnableReadNotify upd rem e pl =
     (let e = e\<lparr>readNotify := True\<rparr> in map_option (Pair e) (Event_update upd rem e pl))"

definition Event_EnableWriteNotify ::
    "'p poller_op \<Rightarrow> 'p poller_op \<Rightarrow> event \<Rightarrow> 'p option \<Rightarrow> (event \<times> 'p option) option" where
  "Event_EnableWriteNotify upd rem e pl =
     (let e = e\<lparr>writeNotify := True\<rparr> in map_option (Pair e) (Event_update upd rem e pl))"

definition Event_DisableReadNotify ::
    "'p poller_op \<Rightarrow> 'p poller_op \<Rightarrow> event \<Rightarrow> 'p option \<Rightarrow> (event \<times> 'p option) option" where
  "Event_DisableReadNotify upd rem e pl =
     (let e = e\<lparr>readNotify := False\<rparr> in map_option (Pair e) (Event_update upd rem e pl))"

definition Event_DisableWriteNotify ::
    "'p poller_op \<Rightarrow> 'p poller_op \<Rightarrow> event \<Rightarrow> 'p option \<Rightarrow> (event \<times> 'p option) option" where
  "Event_DisableWriteNotify upd rem e pl =
     (let e = e\<lparr>writeNotify := False\<rparr> in map_option (Pair e) (Event_update upd rem e pl))"

text \<open>The destructor: deregister unless both notifications are already off.\<close>

definition Event_destroy :: "'p poller_op \<Rightarrow> event \<Rightarrow> 'p option \<Rightarrow> 'p option option" where
  "Event_destroy rem e pl =
     (case pl of
        None \<Rightarrow> Some None
      | Some p \<Rightarrow>
          if readNotify e \<or> writeNotify e
          then map_option Some (rem (e\<lparr>readNotify := False, writeNotify := False\<rparr>) p)
          else Some (Some p))"

lemmas Event_op_defs [model_defs] =
  Event_EnableReadNotify_def Event_EnableWriteNotify_def Event_DisableReadNotify_def
  Event_DisableWriteNotify_def Event_update_def

lemma Event_ids_fresh:
  "Event_new f c = (e, c') \<Longrightarrow> Event_new g c' = (e', c'') \<Longrightarrow> eid e < eid e'"
  by (auto simp: Event_new_def EventIdCreator_Create_def)

text \<open>The notification calls as data, so that a life of an event is a list.\<close>

datatype notify_op = EnableRead | EnableWrite | DisableRead | DisableWrite

fun notify_flags :: "notify_op \<Rightarrow> event \<Rightarrow> event" where
  "notify_flags EnableRead e = e\<lparr>readNotify := True\<rparr>"
| "notify_flags EnableWrite e = e\<lparr>writeNotify := True\<rparr>"
| "notify_flags DisableRead e = e\<lparr>readNotify := False\<rparr>"
| "notify_flags DisableWrite e = e\<lparr>writeNotify := False\<rparr>"

fun Event_op ::
    "'p poller_op \<Rightarrow> 'p poller_op \<Rightarrow> notify_op \<Rightarrow> event \<Rightarrow> 'p option \<Rightarrow> (event \<times> 'p option) option" where
  "Event_op upd rem EnableRead = Event_EnableReadNotify upd rem"
| "Event_op upd rem EnableWrite = Event_EnableWriteNotify upd rem"
| "Event_op upd rem DisableRead = Event_DisableReadNotify upd rem"
| "Event_op upd rem DisableWrite = Event_DisableWriteNotify upd rem"

fun Event_ops ::
    "'p poller_op \<Rightarrow> 'p poller_op \<Rightarrow> notify_op list \<Rightarrow> event \<Rightarrow> 'p option \<Rightarrow> (event \<times> 'p option) option" where
  "Event_ops upd rem [] e pl = Some (e, pl)"
| "Event_ops upd rem (n # ns) e pl =
     (case Event_op upd rem n e pl of None \<Rightarrow> None | Some (e', pl') \<Rightarrow> Event_ops upd rem ns e' pl')"

lemma Event_op_eq:
  "Event_op upd rem n e pl =
     map_option (Pair (notify_flags n e)) (Event_update upd rem (notify_flags n e) pl)"
  by (cases n) (simp_all add: Event_op_defs Let_def)

lemma notify_flags_const [simp]: "fd (notify_flags n e) = fd e" "eid (notify_flags n e) = eid e"
  by (cases n; simp)+

lemma fold_notify_flags_const [simp]:
  "fd (fold notify_flags ns e) = fd e" "eid (fold notify_flags ns e) = eid e"
  by (induction ns arbitrary: e) auto

text \<open>A history of a poller: the calls it received, in order.\<close>

datatype poller_call = CUpdate event | CRemove event

fun poller_calls :: "'p poller_op \<Rightarrow> 'p poller_op \<Rightarrow> poller_call list \<Rightarrow> 'p \<Rightarrow> 'p option" where
  "poller_calls upd rem [] p = Some p"
| "poller_calls upd rem (CUpdate e # cs) p = Option.bind (upd e p) (poller_calls upd rem cs)"
| "poller_calls upd rem (CRemove e # cs) p = Option.bind (rem e p) (poller_calls upd rem cs)"

section \<open>The poller interface\<close>

text \<open>
  What an event relies on.  \<open>key\<close> is what the poller identifies an event by (its id, or its file
  descriptor for epoll), \<open>regd\<close> the keys currently registered, \<open>ok\<close> the events the poller accepts.
\<close>

locale poller =
  fixes upd rem :: "'p poller_op"
    and inv :: "'p \<Rightarrow> bool"
    and key :: "event \<Rightarrow> int"
    and regd :: "'p \<Rightarrow> int set"
    and ok :: "event \<Rightarrow> bool"
  assumes upd_law: "inv p \<Longrightarrow> ok e \<Longrightarrow> readNotify e \<or> writeNotify e \<Longrightarrow>
      \<exists>p'. upd e p = Some p' \<and> inv p' \<and> regd p' = insert (key e) (regd p)"
    and rem_law: "inv p \<Longrightarrow> ok e \<Longrightarrow> \<exists>p'. rem e p = Some p' \<and> inv p' \<and> regd p' = regd p - {key e}"
    and key_const: "key (notify_flags n e) = key e"
    and ok_const: "ok (notify_flags n e) = ok e"
begin

lemma Event_update_law:
  assumes "inv p" "ok e"
  shows "\<exists>p'. Event_update upd rem e (Some p) = Some (Some p') \<and> inv p' \<and>
           regd p' = (if readNotify e \<or> writeNotify e then insert (key e) (regd p) else regd p - {key e})"
proof (cases "readNotify e \<or> writeNotify e")
  case True
  with upd_law [OF assms True] show ?thesis by (auto simp: Event_update_def)
next
  case False
  with rem_law [OF assms] show ?thesis by (auto simp: Event_update_def)
qed

text \<open>After any non-empty series of notification calls the event is registered exactly when one of
  its two flags is on, and no other registration has changed.\<close>

lemma Event_ops_registered:
  assumes "inv p" "ok e" "ns \<noteq> []"
  shows "\<exists>p'. Event_ops upd rem ns e (Some p) = Some (fold notify_flags ns e, Some p') \<and> inv p' \<and>
           (key e \<in> regd p' \<longleftrightarrow>
              readNotify (fold notify_flags ns e) \<or> writeNotify (fold notify_flags ns e)) \<and>
           regd p' - {key e} = regd p - {key e}"
  using assms
proof (induction ns arbitrary: e p)
  case (Cons n ns)
  let ?e = "notify_flags n e"
  from Event_update_law [of p ?e] Cons.prems ok_const key_const obtain p1 where
    p1: "Event_update upd rem ?e (Some p) = Some (Some p1)" "inv p1"
    "regd p1 = (if readNotify ?e \<or> writeNotify ?e then insert (key e) (regd p) else regd p - {key e})"
    by auto
  show ?case
  proof (cases "ns = []")
    case True
    with p1 show ?thesis by (auto simp: Event_op_eq)
  next
    case False
    from Cons.IH [OF p1(2) _ False, of ?e] Cons.prems ok_const key_const p1 obtain p' where
      "Event_ops upd rem ns ?e (Some p1) = Some (fold notify_flags ns ?e, Some p')" "inv p'"
      "key e \<in> regd p' \<longleftrightarrow> readNotify (fold notify_flags ns ?e) \<or> writeNotify (fold notify_flags ns ?e)"
      "regd p' - {key e} = regd p1 - {key e}"
      by auto
    with p1 show ?thesis by (auto simp: Event_op_eq split: if_splits)
  qed
qed simp

text \<open>A destroyed event is never left registered.\<close>

lemma Event_destroy_law:
  assumes "inv p" "ok e" "key e \<in> regd p \<longrightarrow> readNotify e \<or> writeNotify e"
  shows "\<exists>p'. Event_destroy rem e (Some p) = Some (Some p') \<and> inv p' \<and> regd p' = regd p - {key e}"
proof -
  have "e\<lparr>readNotify := False, writeNotify := False\<rparr> = notify_flags DisableWrite (notify_flags DisableRead e)"
    by simp
  then have "ok (e\<lparr>readNotify := False, writeNotify := False\<rparr>) = ok e"
    "key (e\<lparr>readNotify := False, writeNotify := False\<rparr>) = key e"
    using ok_const key_const by metis+
  with assms rem_law [of p "e\<lparr>readNotify := False, writeNotify := False\<rparr>"]
  show ?thesis by (auto simp: Event_destroy_def)
qed

lemma Event_destroyed_poller: "Event_ops upd rem ns e None = Some (fold notify_flags ns e, None)"
  by (induction ns arbitrary: e) (auto simp: Event_op_eq Event_update_def)

end

end
