(* ===== verification/Asyncer_Poller.thy ===== *)
theory Asyncer_Poller
  imports Net_Event
begin

text \<open>
  The poller behind cross-thread calls, \<^verbatim>\<open>src/net/common/poller/asyncer_poller.h\<close> and
  \<^verbatim>\<open>asyncer_poller.cpp\<close>: a \<^verbatim>\<open>std::list\<close> of weak event pointers in
  registration order, and a hash map from event id to list iterator.  A list node is an address and
  the id of the event its weak pointer refers to; an iterator is such an address, and erasing
  through an iterator that is no longer in the list is undefined behaviour, \<open>None\<close> here.
\<close>

section \<open>State and operations\<close>

record AsyncerPoller =
  alist :: "(nat \<times> int) list"
  eventMap :: "int \<Rightarrow> nat option"
  nextNode :: nat

definition AsyncerPoller_new :: AsyncerPoller where
  "AsyncerPoller_new = \<lparr>alist = [], eventMap = Map.empty, nextNode = 0\<rparr>"

definition list_erase :: "nat \<Rightarrow> (nat \<times> int) list \<Rightarrow> (nat \<times> int) list option" where
  "list_erase a xs = (if a \<in> fst ` set xs then Some (filter (\<lambda>n. fst n \<noteq> a) xs) else None)"

definition AsyncerPoller_removeEvent :: "event \<Rightarrow> AsyncerPoller \<Rightarrow> AsyncerPoller option" where
  "AsyncerPoller_removeEvent event p =
     (case eventMap p (eid event) of
        None \<Rightarrow> Some p
      | Some iter \<Rightarrow>
          (case list_erase iter (alist p) of
             None \<Rightarrow> None
           | Some xs \<Rightarrow> Some (p\<lparr>alist := xs, eventMap := (eventMap p)(eid event := None)\<rparr>)))"

text \<open>\<^verbatim>\<open>updateEvent\<close> calls itself after removing an event it already knows; that the
  recursion stops is a theorem below.\<close>

partial_function (option) AsyncerPoller_updateEvent ::
    "event \<Rightarrow> AsyncerPoller \<Rightarrow> AsyncerPoller option" where
  "AsyncerPoller_updateEvent event p =
     (if eventMap p (eid event) = None
      then Some (p\<lparr>alist := alist p @ [(nextNode p, eid event)],
                   eventMap := (eventMap p)(eid event \<mapsto> nextNode p),
                   nextNode := Suc (nextNode p)\<rparr>)
      else case AsyncerPoller_removeEvent event p of
             None \<Rightarrow> None
           | Some p' \<Rightarrow> AsyncerPoller_updateEvent event p')"

text \<open>
  \<^verbatim>\<open>Poll\<close> copies the list, marks every event that is still alive readable and returns
  it; \<open>alive\<close> answers \<^verbatim>\<open>weakEvent.lock()\<close>.  The result is the list of marked events.
\<close>

definition AsyncerPoller_Poll :: "(int \<Rightarrow> bool) \<Rightarrow> AsyncerPoller \<Rightarrow> int list" where
  "AsyncerPoller_Poll alive p = filter alive (map snd (alist p))"

section \<open>Invariant\<close>

definition AsyncerPoller_inv :: "AsyncerPoller \<Rightarrow> bool" where
  "AsyncerPoller_inv p \<longleftrightarrow>
     distinct (map fst (alist p)) \<and> distinct (map snd (alist p)) \<and>
     (\<forall>n \<in> set (alist p). fst n < nextNode p) \<and>
     (\<forall>i a. eventMap p i = Some a \<longleftrightarrow> (a, i) \<in> set (alist p))"

definition AsyncerPoller_ids :: "AsyncerPoller \<Rightarrow> int list" where
  "AsyncerPoller_ids p = map snd (alist p)"

lemma AsyncerPoller_new_inv [inv_intros]: "AsyncerPoller_inv AsyncerPoller_new"
  by (simp add: AsyncerPoller_inv_def AsyncerPoller_new_def)

lemma eventMap_dom: "AsyncerPoller_inv p \<Longrightarrow> eventMap p i = None \<longleftrightarrow> i \<notin> set (AsyncerPoller_ids p)"
  unfolding AsyncerPoller_inv_def AsyncerPoller_ids_def
  by (cases "eventMap p i") force+

lemma distinct_map_filter_neq:
  assumes "distinct (map fst xs)" "distinct (map snd xs)" "(a, i) \<in> set xs"
  shows "map snd (filter (\<lambda>n. fst n \<noteq> a) xs) = remove1 i (map snd xs)"
  using assms
proof (induction xs)
  case (Cons x xs)
  show ?case
  proof (cases "x = (a, i)")
    case True
    with Cons.prems have "filter (\<lambda>n. fst n \<noteq> a) xs = xs"
      by (intro filter_True) (auto simp: image_iff)
    with True show ?thesis by simp
  next
    case False
    with Cons.prems have "fst x \<noteq> a" "snd x \<noteq> i" by (auto simp: image_iff)
    with Cons False show ?thesis by auto
  qed
qed simp

lemma AsyncerPoller_removeEvent_ok:
  assumes inv: "AsyncerPoller_inv p"
  shows "\<exists>p'. AsyncerPoller_removeEvent e p = Some p' \<and> AsyncerPoller_inv p' \<and>
           AsyncerPoller_ids p' = remove1 (eid e) (AsyncerPoller_ids p)"
proof (cases "eventMap p (eid e)")
  case None
  then show ?thesis
    using inv eventMap_dom [OF inv, of "eid e"]
    by (simp add: AsyncerPoller_removeEvent_def remove1_idem)
next
  case (Some a)
  with inv have a: "(a, eid e) \<in> set (alist p)" by (simp add: AsyncerPoller_inv_def)
  let ?p' = "p\<lparr>alist := filter (\<lambda>n. fst n \<noteq> a) (alist p), eventMap := (eventMap p)(eid e := None)\<rparr>"
  have r: "AsyncerPoller_removeEvent e p = Some ?p'"
    using Some a by (force simp: AsyncerPoller_removeEvent_def list_erase_def)
  have da: "distinct (map fst (alist p))" and di: "distinct (map snd (alist p))"
    using inv by (auto simp: AsyncerPoller_inv_def)
  have uniq: "b = a \<longleftrightarrow> i = eid e" if "(b, i) \<in> set (alist p)" for b i
    using that a da di by (metis eq_key_imp_eq_value distinct_map fst_conv inj_on_contraD snd_conv)
  have "AsyncerPoller_inv ?p'"
    using inv uniq by (auto simp: AsyncerPoller_inv_def distinct_map_filter)
  moreover have "AsyncerPoller_ids ?p' = remove1 (eid e) (AsyncerPoller_ids p)"
    using distinct_map_filter_neq [OF da di a] by (simp add: AsyncerPoller_ids_def)
  ultimately show ?thesis using r by blast
qed

lemma AsyncerPoller_push_inv:
  assumes "AsyncerPoller_inv p" "i \<notin> set (AsyncerPoller_ids p)"
  shows "AsyncerPoller_inv (p\<lparr>alist := alist p @ [(nextNode p, i)],
           eventMap := (eventMap p)(i \<mapsto> nextNode p), nextNode := Suc (nextNode p)\<rparr>)"
  using assms by (auto simp: AsyncerPoller_inv_def AsyncerPoller_ids_def image_iff less_Suc_eq)

text \<open>The recursion of \<^verbatim>\<open>updateEvent\<close> returns, and moves the event to the back.\<close>

lemma AsyncerPoller_updateEvent_ok:
  assumes inv: "AsyncerPoller_inv p"
  shows "\<exists>p'. AsyncerPoller_updateEvent e p = Some p' \<and> AsyncerPoller_inv p' \<and>
           AsyncerPoller_ids p' = remove1 (eid e) (AsyncerPoller_ids p) @ [eid e]"
proof -
  have fresh: "\<exists>p'. AsyncerPoller_updateEvent e p = Some p' \<and> AsyncerPoller_inv p' \<and>
      AsyncerPoller_ids p' = AsyncerPoller_ids p @ [eid e]"
    if "AsyncerPoller_inv p" "eid e \<notin> set (AsyncerPoller_ids p)" for p
    using AsyncerPoller_push_inv [OF that] eventMap_dom [OF that(1)] that(2)
    by (simp add: AsyncerPoller_updateEvent.simps AsyncerPoller_ids_def)
  show ?thesis
  proof (cases "eid e \<in> set (AsyncerPoller_ids p)")
    case False
    with fresh [OF inv] show ?thesis by (simp add: remove1_idem)
  next
    case True
    from AsyncerPoller_removeEvent_ok [OF inv] obtain p1 where
      p1: "AsyncerPoller_removeEvent e p = Some p1" "AsyncerPoller_inv p1"
      "AsyncerPoller_ids p1 = remove1 (eid e) (AsyncerPoller_ids p)"
      by blast
    have "eid e \<notin> set (AsyncerPoller_ids p1)"
      using inv p1(3) by (simp add: AsyncerPoller_inv_def AsyncerPoller_ids_def)
    with fresh [OF p1(2)] p1 True eventMap_dom [OF inv] show ?thesis
      by (subst AsyncerPoller_updateEvent.simps) simp
  qed
qed

interpretation ap: poller AsyncerPoller_updateEvent AsyncerPoller_removeEvent AsyncerPoller_inv eid
  "\<lambda>p. set (AsyncerPoller_ids p)" "\<lambda>_. True"
proof unfold_locales
  fix p e assume inv: "AsyncerPoller_inv p"
  have d: "distinct (AsyncerPoller_ids p)" using inv by (simp add: AsyncerPoller_inv_def AsyncerPoller_ids_def)
  show "\<exists>p'. AsyncerPoller_updateEvent e p = Some p' \<and> AsyncerPoller_inv p' \<and>
     set (AsyncerPoller_ids p') = insert (eid e) (set (AsyncerPoller_ids p))"
    using AsyncerPoller_updateEvent_ok [OF inv, of e] d by auto
  show "\<exists>p'. AsyncerPoller_removeEvent e p = Some p' \<and> AsyncerPoller_inv p' \<and>
     set (AsyncerPoller_ids p') = set (AsyncerPoller_ids p) - {eid e}"
    using AsyncerPoller_removeEvent_ok [OF inv, of e] d by auto
qed auto

section \<open>Abstract specification\<close>

text \<open>The queue of pending events without iterators: an update moves the id to the back.\<close>

fun pending_step :: "int list \<Rightarrow> poller_call \<Rightarrow> int list" where
  "pending_step xs (CUpdate e) = remove1 (eid e) xs @ [eid e]"
| "pending_step xs (CRemove e) = remove1 (eid e) xs"

lemma AsyncerPoller_calls_refine:
  assumes "AsyncerPoller_inv p"
  shows "\<exists>p'. poller_calls AsyncerPoller_updateEvent AsyncerPoller_removeEvent cs p = Some p' \<and>
           AsyncerPoller_inv p' \<and>
           AsyncerPoller_ids p' = foldl pending_step (AsyncerPoller_ids p) cs"
  using assms
proof (induction cs arbitrary: p)
  case (Cons c cs)
  show ?case
  proof (cases c)
    case (CUpdate e)
    with AsyncerPoller_updateEvent_ok [OF Cons.prems, of e] Cons.IH show ?thesis by auto metis
  next
    case (CRemove e)
    with AsyncerPoller_removeEvent_ok [OF Cons.prems, of e] Cons.IH show ?thesis by auto metis
  qed
qed simp

section \<open>Properties\<close>

text \<open>
  C3.  The iterator-based asyncer poller refines a plain queue of event ids: for every sequence of
  \<^verbatim>\<open>UpdateEvent\<close> and \<^verbatim>\<open>RemoveEvent\<close> calls, no call touches a dangling
  iterator and the recursion of \<^verbatim>\<open>updateEvent\<close> returns, and \<^verbatim>\<open>Poll\<close>
  then yields the events still alive, each once, in the order of their latest update.
\<close>

theorem AsyncerPoller_refines_queue:
  "\<exists>p. poller_calls AsyncerPoller_updateEvent AsyncerPoller_removeEvent cs AsyncerPoller_new = Some p \<and>
       AsyncerPoller_Poll alive p = filter alive (foldl pending_step [] cs) \<and>
       distinct (AsyncerPoller_Poll alive p)"
proof -
  from AsyncerPoller_calls_refine [OF AsyncerPoller_new_inv, of cs] obtain p where
    p: "poller_calls AsyncerPoller_updateEvent AsyncerPoller_removeEvent cs AsyncerPoller_new = Some p"
    "AsyncerPoller_inv p" "AsyncerPoller_ids p = foldl pending_step (AsyncerPoller_ids AsyncerPoller_new) cs"
    by blast
  have n: "AsyncerPoller_ids AsyncerPoller_new = []"
    by (simp add: AsyncerPoller_ids_def AsyncerPoller_new_def)
  have "distinct (AsyncerPoller_ids p)"
    using p(2) by (simp add: AsyncerPoller_inv_def AsyncerPoller_ids_def)
  then have "distinct (AsyncerPoller_Poll alive p)"
    by (simp add: AsyncerPoller_Poll_def AsyncerPoller_ids_def)
  with p n show ?thesis by (auto simp: AsyncerPoller_Poll_def AsyncerPoller_ids_def)
qed

end
