(* ===== verification/Ordered_Map.thy ===== *)
theory Ordered_Map
  imports Prelude "HOL-Library.List_Lexorder" "HOL-Library.Char_ord"
begin

text \<open>
  \<^verbatim>\<open>std::map\<close> as the code uses it: an association list in ascending key order, so that
  iteration visits the keys in the order the C++ container does.  \<open>map_insert\<close> is
  \<^verbatim>\<open>insert({k, v})\<close>, which keeps the value of a key that is already present.  String keys
  are ordered lexicographically by byte (\<open>List_Lexorder\<close>, \<open>Char_ord\<close>), as
  \<^verbatim>\<open>std::string\<close> orders them.
\<close>

type_synonym ('k, 'v) omap = "('k \<times> 'v) list"

section \<open>Operations\<close>

definition map_find :: "'k \<Rightarrow> ('k, 'v) omap \<Rightarrow> 'v option" where
  "map_find k m = map_of m k"

fun map_insert :: "'k::linorder \<Rightarrow> 'v \<Rightarrow> ('k, 'v) omap \<Rightarrow> ('k, 'v) omap" where
  "map_insert k v [] = [(k, v)]"
| "map_insert k v ((k', v') # m) =
     (if k < k' then (k, v) # (k', v') # m
      else if k = k' then (k', v') # m
      else (k', v') # map_insert k v m)"

definition map_erase :: "'k \<Rightarrow> ('k, 'v) omap \<Rightarrow> ('k, 'v) omap" where
  "map_erase k m = filter (\<lambda>p. fst p \<noteq> k) m"

text \<open>Writing through the iterator that \<^verbatim>\<open>find\<close> returned.\<close>

definition map_assign :: "'k \<Rightarrow> 'v \<Rightarrow> ('k, 'v) omap \<Rightarrow> ('k, 'v) omap" where
  "map_assign k v m = map (\<lambda>(k', v'). (k', if k' = k then v else v')) m"

definition map_keys :: "('k, 'v) omap \<Rightarrow> 'k list" where
  "map_keys m = map fst m"

definition map_dom :: "('k, 'v) omap \<Rightarrow> 'k set" where
  "map_dom m = set (map_keys m)"

definition omap_ok :: "('k::linorder, 'v) omap \<Rightarrow> bool" where
  "omap_ok m \<longleftrightarrow> sorted_wrt (<) (map_keys m)"

section \<open>Laws\<close>

lemma map_dom_simps [simp]:
  "map_dom [] = {}"
  "map_dom ((k, v) # m) = insert k (map_dom m)"
  by (simp_all add: map_dom_def map_keys_def)

lemma map_dom_iff: "k \<in> map_dom m \<longleftrightarrow> (\<exists>v. (k, v) \<in> set m)"
  by (induction m) auto

lemma finite_map_dom [simp]: "finite (map_dom m)"
  by (simp add: map_dom_def)

lemma omap_ok_simps [simp]:
  "omap_ok []"
  "omap_ok ((k, v) # m) \<longleftrightarrow> (\<forall>k' \<in> map_dom m. k < k') \<and> omap_ok m"
  by (simp_all add: omap_ok_def map_keys_def map_dom_def)

lemma omap_ok_distinct: "omap_ok m \<Longrightarrow> distinct (map fst m)"
  by (simp add: omap_ok_def map_keys_def strict_sorted_iff)

lemma map_dom_insert [simp]: "map_dom (map_insert k v m) = insert k (map_dom m)"
  by (induction k v m rule: map_insert.induct) (simp_all add: insert_commute)

lemma map_dom_erase [simp]: "map_dom (map_erase k m) = map_dom m - {k}"
  by (auto simp: map_erase_def map_dom_iff)

lemma map_dom_assign [simp]: "map_dom (map_assign k v m) = map_dom m"
  by (simp add: map_assign_def map_dom_def map_keys_def case_prod_unfold)

lemma omap_ok_insert [simp]: "omap_ok m \<Longrightarrow> omap_ok (map_insert k v m)"
proof (induction k v m rule: map_insert.induct)
  case (2 k v k' v' m)
  consider "k < k'" | "k = k'" | "k' < k" "\<not> k < k'" "k \<noteq> k'" by (meson less_asym linorder_less_linear)
  then show ?case
  proof cases
    case 1
    with 2 have "\<forall>x \<in> map_dom m. k < x" by (simp) (meson order.strict_trans)
    with 1 2 show ?thesis by simp
  qed (use 2 in simp_all)
qed simp

lemma omap_ok_filter: "omap_ok m \<Longrightarrow> omap_ok (filter P m)"
proof (induction m)
  case (Cons p m)
  have "map_dom (filter P m) \<subseteq> map_dom m" by (auto simp: map_dom_iff)
  with Cons show ?case by (cases p) auto
qed simp

lemma omap_ok_erase [simp]: "omap_ok m \<Longrightarrow> omap_ok (map_erase k m)"
  by (simp add: map_erase_def omap_ok_filter)

lemma map_keys_assign [simp]: "map_keys (map_assign k v m) = map_keys m"
  by (induction m) (auto simp: map_assign_def map_keys_def)

lemma omap_ok_assign [simp]: "omap_ok (map_assign k v m) = omap_ok m"
  by (simp add: omap_ok_def)

lemma map_find_simps [simp]:
  "map_find k [] = None"
  "map_find k ((k', v) # m) = (if k = k' then Some v else map_find k m)"
  by (auto simp: map_find_def)

lemma map_find_None: "map_find k m = None \<longleftrightarrow> k \<notin> map_dom m"
  by (induction m) (auto split: if_splits)

lemma map_find_dom: "map_find k m = Some v \<Longrightarrow> k \<in> map_dom m"
  by (metis map_find_None option.distinct(1))

lemma map_find_insert:
  "omap_ok m \<Longrightarrow> map_find k' (map_insert k v m) =
     (if k' = k \<and> k \<notin> map_dom m then Some v else map_find k' m)"
  by (induction k v m rule: map_insert.induct) (auto dest: less_imp_neq)

lemma map_find_erase: "map_find k' (map_erase k m) = (if k' = k then None else map_find k' m)"
  by (induction m) (auto simp: map_erase_def)

lemma map_find_assign:
  "map_find k' (map_assign k v m) = (if k' = k \<and> k \<in> map_dom m then Some v else map_find k' m)"
  by (induction m) (auto simp: map_assign_def)

lemma map_find_in_set: "omap_ok m \<Longrightarrow> map_find k m = Some v \<longleftrightarrow> (k, v) \<in> set m"
  by (simp add: map_find_def omap_ok_distinct)

lemma set_map_insert_fresh:
  "k \<notin> map_dom m \<Longrightarrow> set (map_insert k v m) = insert (k, v) (set m)"
  by (induction k v m rule: map_insert.induct) auto

lemma set_map_erase: "set (map_erase k m) = {p \<in> set m. fst p \<noteq> k}"
  by (auto simp: map_erase_def)

lemma set_map_assign:
  "k \<in> map_dom m \<Longrightarrow> set (map_assign k v m) = insert (k, v) {p \<in> set m. fst p \<noteq> k}"
  by (force simp: map_assign_def map_dom_iff image_def)

lemma map_insert_present: "omap_ok m \<Longrightarrow> k \<in> map_dom m \<Longrightarrow> map_insert k v m = m"
  by (induction k v m rule: map_insert.induct) (auto simp: less_le_not_le)

section \<open>The interface: a dictionary that keeps the first value of a key\<close>

text \<open>
  What the clients of \<^verbatim>\<open>std::map\<close> in this program rely on: the header map of the HTTP
  formatter, the factory registries, the client manager's pool table.
\<close>

locale first_wins_map =
  fixes empty :: "'m"
    and find :: "'k \<Rightarrow> 'm \<Rightarrow> 'v option"
    and ins :: "'k \<Rightarrow> 'v \<Rightarrow> 'm \<Rightarrow> 'm"
    and erase :: "'k \<Rightarrow> 'm \<Rightarrow> 'm"
    and ok :: "'m \<Rightarrow> bool"
  assumes ok_empty: "ok empty"
    and ok_ins: "ok m \<Longrightarrow> ok (ins k v m)"
    and ok_erase: "ok m \<Longrightarrow> ok (erase k m)"
    and find_empty: "find k empty = None"
    and find_ins: "ok m \<Longrightarrow> find k' (ins k v m) = (if k' = k \<and> find k m = None then Some v else find k' m)"
    and find_erase: "ok m \<Longrightarrow> find k' (erase k m) = (if k' = k then None else find k' m)"
begin

lemma ins_keeps_first: "ok m \<Longrightarrow> find k m = Some v \<Longrightarrow> find k (ins k w m) = Some v"
  by (simp add: find_ins)

lemma fold_ins_ok: "ok m \<Longrightarrow> ok (fold (\<lambda>(k, v). ins k v) ps m)"
  by (induction ps arbitrary: m) (auto simp: ok_ins)

lemma fold_ins_find:
  "ok m \<Longrightarrow> find k (fold (\<lambda>(k, v). ins k v) ps m) =
     (case find k m of Some v \<Rightarrow> Some v | None \<Rightarrow> map_of ps k)"
proof (induction ps arbitrary: m)
  case (Cons p ps)
  then show ?case by (cases p) (auto simp: ok_ins find_ins split: option.splits)
qed (auto split: option.splits)

lemma fold_erase_ok: "ok m \<Longrightarrow> ok (fold erase ks m)"
  by (induction ks arbitrary: m) (auto simp: ok_erase)

lemma fold_erase_find:
  "ok m \<Longrightarrow> find k (fold erase ks m) = (if k \<in> set ks then None else find k m)"
  by (induction ks arbitrary: m) (auto simp: ok_erase find_erase)

end

interpretation om: first_wins_map "[]" map_find map_insert map_erase omap_ok
  by unfold_locales (auto simp: map_find_insert map_find_erase map_find_None)

end
