(* ===== verification/Timer_Poller.thy ===== *)
theory Timer_Poller
  imports Net_Event Ordered_Map
begin

text \<open>
  The poller behind timers, \<^verbatim>\<open>src/net/common/poller/timer_poller.h\<close> and
  \<^verbatim>\<open>timer_poller.cpp\<close>: an ordered map from deadline (the \<open>fd\<close> of a timer event) to
  a bucket, itself an ordered map from event id to weak event pointer, and the set of known ids.
  The branch the code marks \<^verbatim>\<open>can't reach\<close> logs at level FATAL, which ends the
  process; it is \<open>None\<close> here, and the invariant shows it is never taken.
\<close>

section \<open>State and operations\<close>

record TimerPoller =
  tevents :: "(int, (int, int) omap) omap"
  eventSet :: "int set"

definition TimerPoller_new :: TimerPoller where
  "TimerPoller_new = \<lparr>tevents = [], eventSet = {}\<rparr>"

definition TimerPoller_removeEvent :: "event \<Rightarrow> TimerPoller \<Rightarrow> TimerPoller option" where
  "TimerPoller_removeEvent event p =
     (let timeFd = fd event; id = eid event in
      if id \<notin> eventSet p then Some p
      else let p = p\<lparr>eventSet := eventSet p - {id}\<rparr> in
        case map_find timeFd (tevents p) of
          None \<Rightarrow> None
        | Some m \<Rightarrow>
            if length m = 1 then Some (p\<lparr>tevents := map_erase timeFd (tevents p)\<rparr>)
            else Some (p\<lparr>tevents := map_assign timeFd (map_erase id m) (tevents p)\<rparr>))"

partial_function (option) TimerPoller_updateEvent :: "event \<Rightarrow> TimerPoller \<Rightarrow> TimerPoller option" where
  "TimerPoller_updateEvent event p =
     (if eid event \<notin> eventSet p
      then let p = p\<lparr>eventSet := insert (eid event) (eventSet p)\<rparr> in
        case map_find (fd event) (tevents p) of
          None \<Rightarrow>
            Some (p\<lparr>tevents := map_insert (fd event) (map_insert (eid event) (eid event) []) (tevents p)\<rparr>)
        | Some m \<Rightarrow>
            Some (p\<lparr>tevents := map_assign (fd event) (map_insert (eid event) (eid event) m) (tevents p)\<rparr>)
      else case TimerPoller_removeEvent event p of
             None \<Rightarrow> None
           | Some p' \<Rightarrow> TimerPoller_updateEvent event p')"

text \<open>\<^verbatim>\<open>Poll\<close>: the buckets before \<^verbatim>\<open>upper_bound(now)\<close>, flattened, less the
  events already destroyed.\<close>

definition TimerPoller_Poll :: "int \<Rightarrow> (int \<Rightarrow> bool) \<Rightarrow> TimerPoller \<Rightarrow> int list" where
  "TimerPoller_Poll now alive p =
     filter alive (concat (map (\<lambda>(_, m). map snd m) (takeWhile (\<lambda>(t, _). t \<le> now) (tevents p))))"

section \<open>Invariant\<close>

text \<open>The deadline of an event never changes after construction; \<open>fdof\<close> is that assignment.\<close>

definition bucket_ok :: "(int \<Rightarrow> int) \<Rightarrow> int set \<Rightarrow> int \<Rightarrow> (int, int) omap \<Rightarrow> bool" where
  "bucket_ok fdof ids t m \<longleftrightarrow>
     omap_ok m \<and> m \<noteq> [] \<and> (\<forall>(i, j) \<in> set m. j = i) \<and> map_dom m = {i \<in> ids. fdof i = t}"

definition TimerPoller_inv :: "(int \<Rightarrow> int) \<Rightarrow> TimerPoller \<Rightarrow> bool" where
  "TimerPoller_inv fdof p \<longleftrightarrow>
     omap_ok (tevents p) \<and> (\<forall>(t, m) \<in> set (tevents p). bucket_ok fdof (eventSet p) t m) \<and>
     fdof ` eventSet p \<subseteq> map_dom (tevents p)"

lemma TimerPoller_new_inv [inv_intros]: "TimerPoller_inv fdof TimerPoller_new"
  by (simp add: TimerPoller_inv_def TimerPoller_new_def)

lemma bucket_ok_other: "bucket_ok fdof ids t m \<Longrightarrow> fdof i \<noteq> t \<Longrightarrow>
    bucket_ok fdof (insert i ids) t m \<and> bucket_ok fdof (ids - {i}) t m"
  by (auto simp: bucket_ok_def)

lemma TimerPoller_find_bucket:
  "TimerPoller_inv fdof p \<Longrightarrow> map_find t (tevents p) = Some m \<Longrightarrow> bucket_ok fdof (eventSet p) t m"
  by (auto simp: TimerPoller_inv_def map_find_in_set)

lemma single_bucket:
  assumes "length m = 1" "map_dom m = S" "i \<in> S"
  shows "S = {i}"
  using assms by (cases m) auto

lemma TimerPoller_removeEvent_ok:
  assumes inv: "TimerPoller_inv fdof p" and fd: "fd e = fdof (eid e)"
  shows "\<exists>p'. TimerPoller_removeEvent e p = Some p' \<and> TimerPoller_inv fdof p' \<and>
           eventSet p' = eventSet p - {eid e}"
proof (cases "eid e \<in> eventSet p")
  case False
  with inv show ?thesis by (simp add: TimerPoller_removeEvent_def)
next
  case True
  let ?t = "fdof (eid e)"
  from inv True have "?t \<in> map_dom (tevents p)" by (auto simp: TimerPoller_inv_def)
  then obtain m where m: "map_find ?t (tevents p) = Some m"
    using map_find_None [of ?t "tevents p"] by (cases "map_find ?t (tevents p)") auto
  note b = TimerPoller_find_bucket [OF inv m]
  have others: "bucket_ok fdof (eventSet p - {eid e}) t' m'"
    if "(t', m') \<in> set (tevents p)" "t' \<noteq> ?t" for t' m'
    using inv that bucket_ok_other [of fdof "eventSet p" t' m' "eid e"]
    by (auto simp: TimerPoller_inv_def)
  have ok: "omap_ok (tevents p)" using inv by (simp add: TimerPoller_inv_def)
  show ?thesis
  proof (cases "length m = 1")
    case one: True
    have "{i \<in> eventSet p. fdof i = ?t} = {eid e}"
      by (rule single_bucket [OF one]) (use b True in \<open>auto simp: bucket_ok_def\<close>)
    then have gone: "fdof i \<noteq> ?t" if "i \<in> eventSet p - {eid e}" for i using that by blast
    let ?p' = "p\<lparr>eventSet := eventSet p - {eid e}, tevents := map_erase ?t (tevents p)\<rparr>"
    have "TimerPoller_removeEvent e p = Some ?p'"
      using True m one fd by (simp add: TimerPoller_removeEvent_def Let_def)
    moreover have "TimerPoller_inv fdof ?p'"
      using inv ok gone others by (auto simp: TimerPoller_inv_def set_map_erase)
    ultimately show ?thesis by (intro exI [of _ ?p']) simp
  next
    case False
    let ?p' = "p\<lparr>eventSet := eventSet p - {eid e}, tevents := map_assign ?t (map_erase (eid e) m) (tevents p)\<rparr>"
    have "TimerPoller_removeEvent e p = Some ?p'"
      using True m False fd by (simp add: TimerPoller_removeEvent_def Let_def)
    moreover have "map_erase (eid e) m \<noteq> []"
    proof
      assume "map_erase (eid e) m = []"
      then have "map_dom m \<subseteq> {eid e}" using map_dom_erase [of "eid e" m] by auto
      then have "set (map fst m) \<subseteq> {eid e}" by (simp add: map_dom_def map_keys_def)
      moreover have "distinct (map fst m)" using b omap_ok_distinct by (auto simp: bucket_ok_def)
      ultimately have "length (map fst m) \<le> 1"
        by (metis card_mono distinct_card finite.emptyI finite_insert is_singletonI is_singleton_altdef)
      with False b show False by (cases m) (auto simp: bucket_ok_def)
    qed
    then have "bucket_ok fdof (eventSet p - {eid e}) ?t (map_erase (eid e) m)"
      using b by (auto simp: bucket_ok_def set_map_erase)
    moreover have "?t \<in> map_dom (tevents p)" by fact
    ultimately show ?thesis
      using inv ok others
      by (intro exI [of _ ?p']) (auto simp: TimerPoller_inv_def set_map_assign)
  qed
qed

lemma TimerPoller_updateEvent_fresh:
  assumes inv: "TimerPoller_inv fdof p" and fd: "fd e = fdof (eid e)" and new: "eid e \<notin> eventSet p"
  shows "\<exists>p'. TimerPoller_updateEvent e p = Some p' \<and> TimerPoller_inv fdof p' \<and>
           eventSet p' = insert (eid e) (eventSet p)"
proof -
  let ?t = "fdof (eid e)" and ?S = "insert (eid e) (eventSet p)"
  have ok: "omap_ok (tevents p)" using inv by (simp add: TimerPoller_inv_def)
  have others: "bucket_ok fdof ?S t' m'" if "(t', m') \<in> set (tevents p)" "t' \<noteq> ?t" for t' m'
    using inv that bucket_ok_other [of fdof "eventSet p" t' m' "eid e"]
    by (auto simp: TimerPoller_inv_def)
  show ?thesis
  proof (cases "map_find ?t (tevents p)")
    case None
    then have nt: "?t \<notin> map_dom (tevents p)" by (simp add: map_find_None)
    with inv have none: "{i \<in> eventSet p. fdof i = ?t} = {}" by (auto simp: TimerPoller_inv_def)
    let ?p' = "p\<lparr>eventSet := ?S, tevents := map_insert ?t [(eid e, eid e)] (tevents p)\<rparr>"
    have "TimerPoller_updateEvent e p = Some ?p'"
      using None new fd by (simp add: TimerPoller_updateEvent.simps)
    moreover have "bucket_ok fdof ?S ?t [(eid e, eid e)]" using none by (auto simp: bucket_ok_def)
    then have "TimerPoller_inv fdof ?p'"
      using inv ok nt others
      by (auto simp: TimerPoller_inv_def set_map_insert_fresh) (metis map_dom_iff others)
    ultimately show ?thesis by (intro exI [of _ ?p']) simp
  next
    case (Some m)
    note b = TimerPoller_find_bucket [OF inv Some]
    then have nm: "eid e \<notin> map_dom m" using new by (auto simp: bucket_ok_def)
    have t: "?t \<in> map_dom (tevents p)" using Some by (rule map_find_dom)
    let ?p' = "p\<lparr>eventSet := ?S, tevents := map_assign ?t (map_insert (eid e) (eid e) m) (tevents p)\<rparr>"
    have "TimerPoller_updateEvent e p = Some ?p'"
      using Some new fd by (simp add: TimerPoller_updateEvent.simps)
    moreover have "map_insert (eid e) (eid e) m \<noteq> []"
      using set_map_insert_fresh [OF nm, of "eid e"] by auto
    then have "bucket_ok fdof ?S ?t (map_insert (eid e) (eid e) m)"
      using b nm by (auto simp: bucket_ok_def set_map_insert_fresh)
    then have "TimerPoller_inv fdof ?p'"
      using inv ok t others by (auto simp: TimerPoller_inv_def set_map_assign)
    ultimately show ?thesis by (intro exI [of _ ?p']) simp
  qed
qed

lemma TimerPoller_updateEvent_ok:
  assumes inv: "TimerPoller_inv fdof p" and fd: "fd e = fdof (eid e)"
  shows "\<exists>p'. TimerPoller_updateEvent e p = Some p' \<and> TimerPoller_inv fdof p' \<and>
           eventSet p' = insert (eid e) (eventSet p)"
proof (cases "eid e \<in> eventSet p")
  case False
  then show ?thesis using TimerPoller_updateEvent_fresh assms by blast
next
  case True
  from TimerPoller_removeEvent_ok [OF assms] obtain p1 where
    p1: "TimerPoller_removeEvent e p = Some p1" "TimerPoller_inv fdof p1" "eventSet p1 = eventSet p - {eid e}"
    by blast
  with TimerPoller_updateEvent_fresh [OF p1(2) fd] True show ?thesis
    by (subst TimerPoller_updateEvent.simps) auto
qed

interpretation tp: poller TimerPoller_updateEvent TimerPoller_removeEvent "TimerPoller_inv fdof" eid
  eventSet "\<lambda>e. fd e = fdof (eid e)" for fdof
  by unfold_locales (auto intro: TimerPoller_updateEvent_ok TimerPoller_removeEvent_ok)

section \<open>What \<open>Poll\<close> returns\<close>

text \<open>Events in firing order: by deadline, then by id.\<close>

definition fires_before :: "(int \<Rightarrow> int) \<Rightarrow> int \<Rightarrow> int \<Rightarrow> bool" where
  "fires_before fdof i j \<longleftrightarrow> fdof i < fdof j \<or> fdof i = fdof j \<and> i < j"

lemma bucket_ids: "bucket_ok fdof ids t m \<Longrightarrow> map snd m = map_keys m"
  by (auto simp: bucket_ok_def map_keys_def)

lemma bucket_mem: "bucket_ok fdof ids t m \<Longrightarrow> i \<in> set (map snd m) \<longleftrightarrow> i \<in> ids \<and> fdof i = t"
  using bucket_ids [of fdof ids t m] by (auto simp: bucket_ok_def map_dom_def simp del: set_map)

lemma buckets_sorted:
  assumes "omap_ok ms" "\<forall>(t, m) \<in> set ms. bucket_ok fdof ids t m"
  shows "sorted_wrt (fires_before fdof) (concat (map (\<lambda>(_, m). map snd m) ms))"
  using assms
proof (induction ms)
  case (Cons tm ms)
  obtain t m where tm: "tm = (t, m)" by (cases tm)
  with Cons.prems have b: "bucket_ok fdof ids t m" by simp
  have "sorted_wrt (<) (map_keys m)" using b by (simp add: bucket_ok_def omap_ok_def)
  then have "sorted_wrt (fires_before fdof) (map snd m)"
    unfolding bucket_ids [OF b]
    by (rule sorted_wrt_mono_rel [rotated]) (use b in \<open>auto simp: fires_before_def bucket_ok_def map_dom_def\<close>)
  moreover have "\<forall>i \<in> set (map snd m). \<forall>j \<in> set (concat (map (\<lambda>(_, m). map snd m) ms)). fires_before fdof i j"
  proof -
    have "fires_before fdof i j"
      if "i \<in> set (map snd m)" "(t', m') \<in> set ms" "j \<in> set (map snd m')" for i j t' m'
    proof -
      from that Cons.prems tm have "bucket_ok fdof ids t' m'" "t < t'"
        by (auto simp: map_dom_iff)
      with that b show ?thesis
        by (simp add: fires_before_def bucket_mem del: set_map)
    qed
    then show ?thesis by (fastforce simp del: set_map simp: list.set_map [of "\<lambda>(_, m). map snd m"])
  qed
  ultimately show ?case
    using Cons tm by (simp add: sorted_wrt_append)
qed simp

lemma takeWhile_deadline: "omap_ok ms \<Longrightarrow> takeWhile (\<lambda>(t, _). t \<le> now) ms = filter (\<lambda>(t, _). t \<le> (now :: int)) ms"
proof (induction ms)
  case (Cons tm ms)
  show ?case
  proof (cases "fst tm \<le> now")
    case True
    with Cons show ?thesis by (cases tm) auto
  next
    case False
    with Cons.prems have "\<forall>k \<in> map_dom ms. now < k" by (cases tm) force
    then have "filter (\<lambda>(t, _). t \<le> now) ms = []"
      by (auto simp: filter_empty_conv map_dom_iff dest: leD)
    with False show ?thesis by (cases tm) auto
  qed
qed simp

lemma Poll_due:
  assumes inv: "TimerPoller_inv fdof p"
  shows "set (TimerPoller_Poll now alive p) = {i \<in> eventSet p. fdof i \<le> now \<and> alive i} \<and>
         sorted_wrt (fires_before fdof) (TimerPoller_Poll now alive p)"
proof
  have ok: "omap_ok (tevents p)" and b: "\<forall>(t, m) \<in> set (tevents p). bucket_ok fdof (eventSet p) t m"
    and dom: "fdof ` eventSet p \<subseteq> map_dom (tevents p)"
    using inv by (auto simp: TimerPoller_inv_def)
  let ?due = "filter (\<lambda>(t, _). t \<le> now) (tevents p)"
  have poll: "TimerPoller_Poll now alive p = filter alive (concat (map (\<lambda>(_, m). map snd m) ?due))"
    by (simp add: TimerPoller_Poll_def takeWhile_deadline [OF ok])
  have "sorted_wrt (fires_before fdof) (concat (map (\<lambda>(_, m). map snd m) ?due))"
    by (rule buckets_sorted) (use ok b omap_ok_filter in auto)
  then show "sorted_wrt (fires_before fdof) (TimerPoller_Poll now alive p)"
    unfolding poll by (rule sorted_wrt_filter)
  have mem: "i \<in> set (map snd m) \<longleftrightarrow> i \<in> eventSet p \<and> fdof i = t"
    if "(t, m) \<in> set (tevents p)" for i t m
    using that b by (intro bucket_mem) auto
  show "set (TimerPoller_Poll now alive p) = {i \<in> eventSet p. fdof i \<le> now \<and> alive i}"
  proof (intro set_eqI iffI)
    fix i assume "i \<in> set (TimerPoller_Poll now alive p)"
    then obtain t m where "(t, m) \<in> set (tevents p)" "t \<le> now" "i \<in> set (map snd m)" "alive i"
      by (auto simp: poll)
    then show "i \<in> {i \<in> eventSet p. fdof i \<le> now \<and> alive i}" using mem [of t m i] by simp
  next
    fix i assume i: "i \<in> {i \<in> eventSet p. fdof i \<le> now \<and> alive i}"
    with dom obtain m where m: "(fdof i, m) \<in> set (tevents p)" by (auto simp: map_dom_iff image_subset_iff)
    with mem [OF m, of i] i have "i \<in> set (map snd m)" by simp
    with m i show "i \<in> set (TimerPoller_Poll now alive p)" unfolding poll by fastforce
  qed
qed

section \<open>Properties\<close>

text \<open>
  C4.  A timer poll fires exactly the due timers, in order: the result holds precisely the
  registered events whose deadline is at most the current time and whose owner is still alive, each
  once, sorted by deadline and, within a millisecond, by creation order.
\<close>

theorem TimerPoller_Poll_due:
  assumes inv: "TimerPoller_inv fdof p"
  shows "set (TimerPoller_Poll now alive p) = {i \<in> eventSet p. fdof i \<le> now \<and> alive i} \<and>
         sorted_wrt (fires_before fdof) (TimerPoller_Poll now alive p)"
  using Poll_due [OF inv] .

definition sample_timers :: TimerPoller where
  "sample_timers = \<lparr>tevents = [(10, [(1, 1), (4, 4)]), (25, [(2, 2)])], eventSet = {1, 2, 4}\<rparr>"

theorem TimerPoller_Poll_due_witness:
  "TimerPoller_inv (\<lambda>i. if i = 2 then 25 else 10) sample_timers \<and>
   TimerPoller_Poll 24 (\<lambda>_. True) sample_timers = [1, 4] \<and>
   set (TimerPoller_Poll 24 (\<lambda>_. True) sample_timers) =
     {i \<in> eventSet sample_timers. (if i = 2 then 25 else 10) \<le> (24 :: int) \<and> True}"
proof -
  have i: "TimerPoller_inv (\<lambda>i. if i = 2 then 25 else 10) sample_timers"
    by (auto simp: TimerPoller_inv_def sample_timers_def bucket_ok_def)
  from TimerPoller_Poll_due [OF i, of 24 "\<lambda>_. True"] i show ?thesis
    by (auto simp: TimerPoller_Poll_def sample_timers_def)
qed

end
