(* ===== verification/Epoller.thy ===== *)
theory Epoller
  imports Net_Event
begin

text \<open>
  The poller behind sockets, \<^verbatim>\<open>src/net/common/poller/epoller.h\<close> and
  \<^verbatim>\<open>epoller.cpp\<close>: a vector of weak event pointers indexed by file descriptor, the
  array \<^verbatim>\<open>epoll_wait\<close> fills, and the kernel's interest set.  The kernel is not part
  of the repository: its state is a parameter \<open>'k\<close>, \<^verbatim>\<open>epoll_ctl\<close> a parameter \<open>ctl\<close>
  and the result of \<^verbatim>\<open>epoll_wait\<close> an argument of \<open>Epoller_Poll\<close>.  The locale
  \<open>epoll_kernel\<close> states what the manual page of \<^verbatim>\<open>epoll_ctl\<close> documents.
\<close>

section \<open>State and operations\<close>

datatype epoll_op = EPOLL_CTL_ADD | EPOLL_CTL_MOD | EPOLL_CTL_DEL

text \<open>Interest in \<^verbatim>\<open>EPOLLIN\<close> and in \<^verbatim>\<open>EPOLLOUT\<close>.\<close>

type_synonym interest_mask = "bool \<times> bool"

record poll_flags =
  EPOLLIN :: bool
  EPOLLOUT :: bool
  EPOLLERR :: bool
  EPOLLHUP :: bool

record 'k Epoller =
  slots :: "int \<Rightarrow> int option"
  pollEvents :: "(int \<times> poll_flags) list"
  kern :: 'k

definition MaxSize :: int where
  "MaxSize = 100000"

text \<open>Indexing the vector of \<open>MaxSize\<close> slots outside its range is undefined behaviour.\<close>

definition in_slots :: "int \<Rightarrow> bool" where
  "in_slots f \<longleftrightarrow> 0 \<le> f \<and> f < MaxSize"

definition slot_lock :: "(int \<Rightarrow> bool) \<Rightarrow> int option \<Rightarrow> int option" where
  "slot_lock alive w = (case w of Some i \<Rightarrow> if alive i then Some i else None | None \<Rightarrow> None)"

definition Epoller_UpdateEvent ::
    "(epoll_op \<Rightarrow> int \<Rightarrow> interest_mask \<Rightarrow> 'k \<Rightarrow> 'k) \<Rightarrow> (int \<Rightarrow> bool) \<Rightarrow> 'k Epoller poller_op" where
  "Epoller_UpdateEvent ctl alive event p =
     (let mask = (readNotify event, writeNotify event); f = fd event in
      if \<not> in_slots f then None
      else if slot_lock alive (slots p f) = None
      then Some (p\<lparr>slots := (slots p)(f := Some (eid event)), kern := ctl EPOLL_CTL_ADD f mask (kern p)\<rparr>)
      else Some (p\<lparr>kern := ctl EPOLL_CTL_MOD f mask (kern p)\<rparr>))"

definition Epoller_RemoveEvent ::
    "(epoll_op \<Rightarrow> int \<Rightarrow> interest_mask \<Rightarrow> 'k \<Rightarrow> 'k) \<Rightarrow> 'k Epoller poller_op" where
  "Epoller_RemoveEvent ctl event p =
     (let f = fd event in
      if \<not> in_slots f then None
      else Some (p\<lparr>slots := (slots p)(f := None),
                   kern := ctl EPOLL_CTL_DEL f (False, False) (kern p)\<rparr>))"

text \<open>
  The scan of the result array.  It walks the whole array and stops once \<open>num\<close> entries were
  \<^emph>\<open>used\<close>: an entry whose event is gone is skipped without being counted, exactly as the
  \<^verbatim>\<open>continue\<close> in the code skips the \<^verbatim>\<open>i++\<close>.  A mark says which flag of
  which event \<^verbatim>\<open>Poll\<close> sets; the entry with none of the four flags is the
  \<^verbatim>\<open>LOG(FATAL)\<close> branch.
\<close>

datatype mark = MarkRead int | MarkWrite int

fun Epoller_scan ::
    "(int \<Rightarrow> bool) \<Rightarrow> (int \<Rightarrow> int option) \<Rightarrow> nat \<Rightarrow> (int \<times> poll_flags) list \<Rightarrow> nat \<Rightarrow> mark list \<Rightarrow> mark list option"
where
  "Epoller_scan alive sl num [] i events = Some events"
| "Epoller_scan alive sl num ((f, ev) # rest) i events =
     (if i = num then Some events
      else if \<not> in_slots f then None
      else case slot_lock alive (sl f) of
             None \<Rightarrow> Epoller_scan alive sl num rest i events
           | Some e \<Rightarrow>
               if EPOLLIN ev then Epoller_scan alive sl num rest (Suc i) (events @ [MarkRead e])
               else if EPOLLOUT ev \<or> EPOLLERR ev \<or> EPOLLHUP ev
               then Epoller_scan alive sl num rest (Suc i) (events @ [MarkWrite e])
               else None)"

text \<open>\<open>wait\<close> is what \<^verbatim>\<open>epoll_wait\<close> did: it failed, or it wrote these entries to the
  front of the array.\<close>

definition Epoller_Poll ::
    "(int \<Rightarrow> bool) \<Rightarrow> (int \<times> poll_flags) list option \<Rightarrow> 'k Epoller \<Rightarrow>
     ('k Epoller \<times> errmsg \<times> mark list) option" where
  "Epoller_Poll alive wait p =
     (case wait of
        None \<Rightarrow> Some (p, ''epoll_wait returns -1'', [])
      | Some ready \<Rightarrow>
          (let p = p\<lparr>pollEvents := ready @ drop (length ready) (pollEvents p)\<rparr> in
           case Epoller_scan alive (slots p) (length ready) (pollEvents p) 0 [] of
             None \<Rightarrow> None
           | Some events \<Rightarrow> Some (p, '''', events)))"

lemmas Epoller_defs [model_defs] = Epoller_UpdateEvent_def Epoller_RemoveEvent_def slot_lock_def

section \<open>The kernel interface\<close>

locale epoll_kernel =
  fixes ctl :: "epoll_op \<Rightarrow> int \<Rightarrow> interest_mask \<Rightarrow> 'k \<Rightarrow> 'k"
    and interest :: "'k \<Rightarrow> int \<Rightarrow> interest_mask option"
  assumes ctl_add: "interest (ctl EPOLL_CTL_ADD f m k) =
      (if interest k f = None then (interest k)(f := Some m) else interest k)"
    and ctl_mod: "interest (ctl EPOLL_CTL_MOD f m k) =
      (if interest k f = None then interest k else (interest k)(f := Some m))"
    and ctl_del: "interest (ctl EPOLL_CTL_DEL f m k) = (interest k)(f := None)"

text \<open>A live pointer in a slot stands for a registration in the kernel.\<close>

definition Epoller_inv :: "('k \<Rightarrow> int \<Rightarrow> interest_mask option) \<Rightarrow> (int \<Rightarrow> bool) \<Rightarrow> 'k Epoller \<Rightarrow> bool" where
  "Epoller_inv interest alive p \<longleftrightarrow>
     (\<forall>f. slot_lock alive (slots p f) \<noteq> None \<longrightarrow> interest (kern p) f \<noteq> None)"

text \<open>An event and its slot agree, flags included.\<close>

definition Epoller_sync :: "('k \<Rightarrow> int \<Rightarrow> interest_mask option) \<Rightarrow> event \<Rightarrow> 'k Epoller \<Rightarrow> bool" where
  "Epoller_sync interest e p \<longleftrightarrow>
     (if readNotify e \<or> writeNotify e
      then slots p (fd e) = Some (eid e) \<and> interest (kern p) (fd e) = Some (readNotify e, writeNotify e)
      else slots p (fd e) = None \<and> interest (kern p) (fd e) = None)"

context epoll_kernel
begin

lemmas ctl_laws = ctl_add ctl_mod ctl_del

sublocale poller "Epoller_UpdateEvent ctl alive" "Epoller_RemoveEvent ctl" "Epoller_inv interest alive"
  fd "\<lambda>p. {f. interest (kern p) f \<noteq> None}" "\<lambda>e. in_slots (fd e)" for alive
  by unfold_locales
    (auto simp: Epoller_UpdateEvent_def Epoller_RemoveEvent_def Let_def ctl_laws Epoller_inv_def
      slot_lock_def split: if_splits option.splits)

lemma Epoller_update_sync:
  assumes "alive (eid e)" "in_slots (fd e)"
    and "slots p (fd e) = None \<and> interest (kern p) (fd e) = None \<or>
         slots p (fd e) = Some (eid e) \<and> interest (kern p) (fd e) \<noteq> None"
  shows "\<exists>p'. Event_update (Epoller_UpdateEvent ctl alive) (Epoller_RemoveEvent ctl) e (Some p) = Some (Some p') \<and>
           Epoller_sync interest e p' \<and>
           (\<forall>g. g \<noteq> fd e \<longrightarrow> slots p' g = slots p g \<and> interest (kern p') g = interest (kern p) g)"
  using assms
  by (auto simp: Event_update_def Epoller_UpdateEvent_def Epoller_RemoveEvent_def Let_def ctl_laws
      Epoller_sync_def slot_lock_def)

lemma Epoller_ops_sync:
  assumes "alive (eid e)" "in_slots (fd e)" "Epoller_sync interest e p"
  shows "\<exists>p'. Event_ops (Epoller_UpdateEvent ctl alive) (Epoller_RemoveEvent ctl) ns e (Some p) =
             Some (fold notify_flags ns e, Some p') \<and>
           Epoller_sync interest (fold notify_flags ns e) p' \<and>
           (\<forall>g. g \<noteq> fd e \<longrightarrow> slots p' g = slots p g \<and> interest (kern p') g = interest (kern p) g)"
  using assms
proof (induction ns arbitrary: e p)
  case (Cons n ns)
  let ?e = "notify_flags n e"
  have "slots p (fd ?e) = None \<and> interest (kern p) (fd ?e) = None \<or>
        slots p (fd ?e) = Some (eid ?e) \<and> interest (kern p) (fd ?e) \<noteq> None"
    using Cons.prems(3) by (auto simp: Epoller_sync_def split: if_splits)
  with Epoller_update_sync [of alive ?e p] Cons.prems obtain p1 where
    p1: "Event_update (Epoller_UpdateEvent ctl alive) (Epoller_RemoveEvent ctl) ?e (Some p) = Some (Some p1)"
    "Epoller_sync interest ?e p1"
    "\<forall>g. g \<noteq> fd e \<longrightarrow> slots p1 g = slots p g \<and> interest (kern p1) g = interest (kern p) g"
    by auto
  from Cons.IH [of ?e p1] Cons.prems p1 show ?case by (fastforce simp: Event_op_eq)
qed simp

end

text \<open>A kernel that is nothing but its interest set.\<close>

fun ref_ctl :: "epoll_op \<Rightarrow> int \<Rightarrow> interest_mask \<Rightarrow> (int \<Rightarrow> interest_mask option) \<Rightarrow> (int \<Rightarrow> interest_mask option)" where
  "ref_ctl EPOLL_CTL_ADD f m k = (if k f = None then k(f := Some m) else k)"
| "ref_ctl EPOLL_CTL_MOD f m k = (if k f = None then k else k(f := Some m))"
| "ref_ctl EPOLL_CTL_DEL f m k = k(f := None)"

interpretation rk: epoll_kernel ref_ctl "\<lambda>k. k"
  by unfold_locales auto

section \<open>The scan\<close>

definition mark_of :: "int \<Rightarrow> poll_flags \<Rightarrow> mark" where
  "mark_of e ev = (if EPOLLIN ev then MarkRead e else MarkWrite e)"

definition some_flag :: "poll_flags \<Rightarrow> bool" where
  "some_flag ev \<longleftrightarrow> EPOLLIN ev \<or> EPOLLOUT ev \<or> EPOLLERR ev \<or> EPOLLHUP ev"

lemma Epoller_scan_live:
  assumes "\<forall>(f, ev) \<in> set ready. in_slots f \<and> slot_lock alive (sl f) \<noteq> None \<and> some_flag ev"
  shows "Epoller_scan alive sl (i + length ready) (ready @ stale) i acc =
           Some (acc @ map (\<lambda>(f, ev). mark_of (the (slot_lock alive (sl f))) ev) ready)"
  using assms
proof (induction ready arbitrary: i acc)
  case Nil
  then show ?case by (cases stale) auto
next
  case (Cons r ready)
  obtain f ev where r: "r = (f, ev)" by (cases r)
  with Cons.prems obtain e where "slot_lock alive (sl f) = Some e" "in_slots f" "some_flag ev" by auto
  with Cons.IH [of "Suc i" "acc @ [mark_of e ev]"] Cons.prems r show ?case
    by (auto simp: mark_of_def some_flag_def)
qed

text \<open>
  When a reported descriptor's event is gone, the scan reads past the entries the kernel wrote:
  here the kernel reports descriptor 7 only, but the event of descriptor 3, an entry left over from
  an earlier poll, is marked writable.
\<close>

lemma Epoller_scan_reads_stale_entry:
  "Epoller_Poll (\<lambda>i. i = 30)
     (Some [(7, \<lparr>EPOLLIN = True, EPOLLOUT = False, EPOLLERR = False, EPOLLHUP = False\<rparr>)])
     \<lparr>slots = [7 \<mapsto> 70, 3 \<mapsto> 30],
      pollEvents = [(5, ev), (3, \<lparr>EPOLLIN = False, EPOLLOUT = True, EPOLLERR = False, EPOLLHUP = False\<rparr>)],
      kern = k\<rparr> =
   Some (\<lparr>slots = [7 \<mapsto> 70, 3 \<mapsto> 30],
          pollEvents = [(7, \<lparr>EPOLLIN = True, EPOLLOUT = False, EPOLLERR = False, EPOLLHUP = False\<rparr>),
                        (3, \<lparr>EPOLLIN = False, EPOLLOUT = True, EPOLLERR = False, EPOLLHUP = False\<rparr>)],
          kern = k\<rparr>, '''', [MarkWrite 30])"
  by (simp add: Epoller_Poll_def in_slots_def MaxSize_def slot_lock_def)

section \<open>Properties\<close>

text \<open>
  C5.  The kernel's interest set follows an event's flags: whatever series of enable and disable
  calls the owner of a descriptor makes, afterwards the kernel watches the descriptor for exactly
  the notifications that are on, the slot refers to this event (or the descriptor is fully
  deregistered when both are off), and no other descriptor is affected.
\<close>

theorem Epoller_interest_follows_flags:
  assumes "epoll_kernel ctl interest" "alive (eid e)" "in_slots (fd e)" "Epoller_sync interest e p"
  shows "\<exists>p'. Event_ops (Epoller_UpdateEvent ctl alive) (Epoller_RemoveEvent ctl) ns e (Some p) =
             Some (fold notify_flags ns e, Some p') \<and>
           Epoller_sync interest (fold notify_flags ns e) p' \<and>
           (\<forall>g. g \<noteq> fd e \<longrightarrow> slots p' g = slots p g \<and> interest (kern p') g = interest (kern p) g)"
  using assms by (intro epoll_kernel.Epoller_ops_sync)

definition sample_event :: event where
  "sample_event = \<lparr>fd = 5, eid = 9, readAble = False, writeAble = False, readNotify = False, writeNotify = False\<rparr>"

definition empty_epoller :: "(int \<Rightarrow> interest_mask option) Epoller" where
  "empty_epoller = \<lparr>slots = (\<lambda>_. None), pollEvents = [], kern = (\<lambda>_. None)\<rparr>"

theorem Epoller_interest_follows_flags_witness:
  "\<exists>p'. Event_ops (Epoller_UpdateEvent ref_ctl (\<lambda>_. True)) (Epoller_RemoveEvent ref_ctl)
          [EnableRead, EnableWrite, DisableRead] sample_event (Some empty_epoller) =
          Some (sample_event\<lparr>writeNotify := True\<rparr>, Some p') \<and>
        kern p' 5 = Some (False, True) \<and> slots p' 5 = Some 9"
proof -
  have k: "epoll_kernel ref_ctl (\<lambda>k. k)" by unfold_locales
  have s: "in_slots (fd sample_event)" "Epoller_sync (\<lambda>k. k) sample_event empty_epoller"
    by (simp_all add: in_slots_def MaxSize_def sample_event_def Epoller_sync_def empty_epoller_def)
  from Epoller_interest_follows_flags [OF k _ s, of "\<lambda>_. True" "[EnableRead, EnableWrite, DisableRead]"]
  show ?thesis by (auto simp: Epoller_sync_def sample_event_def)
qed

text \<open>
  C6.  When every descriptor the kernel reports belongs to a live event, \<^verbatim>\<open>Poll\<close>
  returns exactly the reported events, in the kernel's order, each marked readable if
  \<^verbatim>\<open>EPOLLIN\<close> is set and writable otherwise (so never both); leftovers of earlier polls
  are not looked at.
\<close>

theorem Epoller_Poll_reported:
  assumes "\<forall>(f, ev) \<in> set ready. in_slots f \<and> slot_lock alive (slots p f) \<noteq> None \<and> some_flag ev"
  shows "\<exists>p'. Epoller_Poll alive (Some ready) p =
           Some (p', '''', map (\<lambda>(f, ev). mark_of (the (slot_lock alive (slots p f))) ev) ready)"
  using Epoller_scan_live [OF assms, of 0 "drop (length ready) (pollEvents p)" "[]"]
  by (simp add: Epoller_Poll_def Let_def)

theorem Epoller_Poll_reported_witness:
  "\<exists>p'. Epoller_Poll (\<lambda>_. True)
      (Some [(5, \<lparr>EPOLLIN = False, EPOLLOUT = False, EPOLLERR = True, EPOLLHUP = False\<rparr>),
             (6, \<lparr>EPOLLIN = True, EPOLLOUT = True, EPOLLERR = False, EPOLLHUP = False\<rparr>)])
      \<lparr>slots = [5 \<mapsto> 1, 6 \<mapsto> 2], pollEvents = [], kern = ()\<rparr> = Some (p', '''', [MarkWrite 1, MarkRead 2])"
proof -
  let ?ready = "[(5 :: int, \<lparr>EPOLLIN = False, EPOLLOUT = False, EPOLLERR = True, EPOLLHUP = False\<rparr>),
             (6, \<lparr>EPOLLIN = True, EPOLLOUT = True, EPOLLERR = False, EPOLLHUP = False\<rparr>)]"
  let ?p = "\<lparr>slots = [5 \<mapsto> 1, 6 \<mapsto> 2], pollEvents = [], kern = ()\<rparr>"
  have h: "\<forall>(f, ev) \<in> set ?ready. in_slots f \<and> slot_lock (\<lambda>_. True) (slots ?p f) \<noteq> None \<and> some_flag ev"
    by (simp add: in_slots_def MaxSize_def slot_lock_def some_flag_def)
  from Epoller_Poll_reported [OF h] show ?thesis by (simp add: slot_lock_def mark_of_def)
qed

end
