(* ===== verification/Event_Loop.thy ===== *)
theory Event_Loop
  imports Asyncer_Poller Timer_Poller Epoller "HOL-Library.Sublist"
begin

text \<open>
  The event loop, \<^verbatim>\<open>src/net/common/event_loop.h\<close>, \<^verbatim>\<open>event_loop.cpp\<close>
  and \<^verbatim>\<open>Event::Do\<close> of \<^verbatim>\<open>event.cpp\<close>: poll each poller in turn, lock
  the weak pointer of every event it returned and run the event's callback.

  The store of event objects maps the id of a live event to its state.  An event has owners (strong
  pointers outside the loop); while the loop runs \<^verbatim>\<open>Do\<close> it holds a strong pointer itself,
  so an event released inside its own callback is destroyed when \<^verbatim>\<open>Do\<close> returns.
  Callbacks are user code: \<open>cb i True\<close> and \<open>cb i False\<close> are the read and the write callback of
  event \<open>i\<close>, arbitrary functions on the loop state, \<open>None\<close> if they crash.
\<close>

section \<open>State\<close>

datatype poller_kind = EpollKind | TimerKind | AsyncerKind

record 'k EventLoop =
  evs :: "int \<Rightarrow> event option"
  ekind :: "int \<Rightarrow> poller_kind"
  owned :: "int \<Rightarrow> bool"
  holding :: "int option"
  epoller :: "'k Epoller"
  timerPoller :: TimerPoller
  asyncerPoller :: AsyncerPoller
  stop :: bool

text \<open>\<^verbatim>\<open>GetPollerType\<close> of the three factories; the loop visits them in this order.\<close>

fun GetPollerType :: "poller_kind \<Rightarrow> nat" where
  "GetPollerType EpollKind = 0"
| "GetPollerType TimerKind = 1"
| "GetPollerType AsyncerKind = 2"

definition EventLoop_pollers :: "poller_kind list" where
  "EventLoop_pollers = [EpollKind, TimerKind, AsyncerKind]"

definition ev_alive :: "'k EventLoop \<Rightarrow> int \<Rightarrow> bool" where
  "ev_alive l i \<longleftrightarrow> evs l i \<noteq> None"

definition EventLoop_Stop :: "'k EventLoop \<Rightarrow> 'k EventLoop" where
  "EventLoop_Stop l = l\<lparr>stop := True\<rparr>"

section \<open>Life of an event object\<close>

definition EventLoop_destroy ::
    "(epoll_op \<Rightarrow> int \<Rightarrow> interest_mask \<Rightarrow> 'k \<Rightarrow> 'k) \<Rightarrow> int \<Rightarrow> 'k EventLoop \<Rightarrow> 'k EventLoop option" where
  "EventLoop_destroy ctl i l =
     (case evs l i of
        None \<Rightarrow> Some l
      | Some e \<Rightarrow>
          let l' = l\<lparr>evs := (evs l)(i := None)\<rparr> in
          (case ekind l i of
             EpollKind \<Rightarrow>
               (case Event_destroy (Epoller_RemoveEvent ctl) e (Some (epoller l)) of
                  Some (Some p) \<Rightarrow> Some (l'\<lparr>epoller := p\<rparr>) | _ \<Rightarrow> None)
           | TimerKind \<Rightarrow>
               (case Event_destroy TimerPoller_removeEvent e (Some (timerPoller l)) of
                  Some (Some p) \<Rightarrow> Some (l'\<lparr>timerPoller := p\<rparr>) | _ \<Rightarrow> None)
           | AsyncerKind \<Rightarrow>
               (case Event_destroy AsyncerPoller_removeEvent e (Some (asyncerPoller l)) of
                  Some (Some p) \<Rightarrow> Some (l'\<lparr>asyncerPoller := p\<rparr>) | _ \<Rightarrow> None)))"

text \<open>An owner drops its strong pointer.\<close>

definition EventLoop_release ::
    "(epoll_op \<Rightarrow> int \<Rightarrow> interest_mask \<Rightarrow> 'k \<Rightarrow> 'k) \<Rightarrow> int \<Rightarrow> 'k EventLoop \<Rightarrow> 'k EventLoop option" where
  "EventLoop_release ctl i l =
     (let l = l\<lparr>owned := (owned l)(i := False)\<rparr>
      in if holding l = Some i then Some l else EventLoop_destroy ctl i l)"

section \<open>Polling\<close>

fun apply_mark :: "mark \<Rightarrow> (int \<Rightarrow> event option) \<Rightarrow> (int \<Rightarrow> event option)" where
  "apply_mark (MarkRead i) es = es(i := map_option Event_SetReadAble (es i))"
| "apply_mark (MarkWrite i) es = es(i := map_option Event_SetWriteAble (es i))"

fun mark_id :: "mark \<Rightarrow> int" where
  "mark_id (MarkRead i) = i"
| "mark_id (MarkWrite i) = i"

text \<open>The environment of one round: what \<^verbatim>\<open>epoll_wait\<close> reports and the clock.\<close>

record round_env =
  env_wait :: "(int \<times> poll_flags) list option"
  env_now :: int

definition EventLoop_Poll ::
    "round_env \<Rightarrow> poller_kind \<Rightarrow> 'k EventLoop \<Rightarrow> ('k EventLoop \<times> errmsg \<times> mark list) option" where
  "EventLoop_Poll env kind l =
     (case kind of
        EpollKind \<Rightarrow>
          (case Epoller_Poll (ev_alive l) (env_wait env) (epoller l) of
             None \<Rightarrow> None
           | Some (p, errMsg, ms) \<Rightarrow> Some (l\<lparr>epoller := p, evs := fold apply_mark ms (evs l)\<rparr>, errMsg, ms))
      | TimerKind \<Rightarrow>
          (let ms = map MarkRead (TimerPoller_Poll (env_now env) (ev_alive l) (timerPoller l))
           in Some (l\<lparr>evs := fold apply_mark ms (evs l)\<rparr>, '''', ms))
      | AsyncerKind \<Rightarrow>
          (let ms = map MarkRead (AsyncerPoller_Poll (ev_alive l) (asyncerPoller l))
           in Some (l\<lparr>evs := fold apply_mark ms (evs l)\<rparr>, '''', ms)))"

section \<open>Dispatching\<close>

type_synonym 'k callback = "int \<Rightarrow> bool \<Rightarrow> 'k EventLoop \<Rightarrow> 'k EventLoop option"

definition upd_event :: "int \<Rightarrow> (event \<Rightarrow> event) \<Rightarrow> 'k EventLoop \<Rightarrow> 'k EventLoop" where
  "upd_event i f l = l\<lparr>evs := (evs l)(i := map_option f (evs l i))\<rparr>"

text \<open>\<^verbatim>\<open>Event::Do\<close>, with the list of callbacks it cbs.\<close>

definition Event_Do :: "'k callback \<Rightarrow> int \<Rightarrow> event \<Rightarrow> 'k EventLoop \<Rightarrow> ('k EventLoop \<times> (int \<times> bool) list) option" where
  "Event_Do cb i e l =
     (if readAble e \<and> readNotify e
      then map_option (\<lambda>l. (upd_event i (\<lambda>e. e\<lparr>readAble := False\<rparr>) l, [(i, True)])) (cb i True l)
      else if writeAble e \<and> writeNotify e
      then map_option (\<lambda>l. (upd_event i (\<lambda>e. e\<lparr>writeAble := False\<rparr>) l, [(i, False)])) (cb i False l)
      else Some (l, []))"

text \<open>One iteration of the loop in \<^verbatim>\<open>doPoller\<close>: lock, run, drop the loop's pointer.\<close>

definition EventLoop_one ::
    "(epoll_op \<Rightarrow> int \<Rightarrow> interest_mask \<Rightarrow> 'k \<Rightarrow> 'k) \<Rightarrow> 'k callback \<Rightarrow> int \<Rightarrow> 'k EventLoop \<Rightarrow>
     ('k EventLoop \<times> (int \<times> bool) list) option" where
  "EventLoop_one ctl cb i l =
     (case evs l i of
        None \<Rightarrow> Some (l, [])
      | Some e \<Rightarrow>
          (case Event_Do cb i e (l\<lparr>holding := Some i\<rparr>) of
             None \<Rightarrow> None
           | Some (l, cbs) \<Rightarrow>
               (let l = l\<lparr>holding := None\<rparr> in
                if owned l i then Some (l, cbs)
                else map_option (\<lambda>l. (l, cbs)) (EventLoop_destroy ctl i l))))"

fun EventLoop_dispatch ::
    "(epoll_op \<Rightarrow> int \<Rightarrow> interest_mask \<Rightarrow> 'k \<Rightarrow> 'k) \<Rightarrow> 'k callback \<Rightarrow> int list \<Rightarrow> 'k EventLoop \<Rightarrow>
     ('k EventLoop \<times> (int \<times> bool) list) option" where
  "EventLoop_dispatch ctl cb [] l = Some (l, [])"
| "EventLoop_dispatch ctl cb (i # is) l =
     (case EventLoop_one ctl cb i l of
        None \<Rightarrow> None
      | Some (l, cbs) \<Rightarrow> map_option (\<lambda>(l, rest). (l, cbs @ rest)) (EventLoop_dispatch ctl cb is l))"

definition EventLoop_doPoller ::
    "(epoll_op \<Rightarrow> int \<Rightarrow> interest_mask \<Rightarrow> 'k \<Rightarrow> 'k) \<Rightarrow> 'k callback \<Rightarrow> round_env \<Rightarrow> poller_kind \<Rightarrow> 'k EventLoop \<Rightarrow>
     ('k EventLoop \<times> (int \<times> bool) list) option" where
  "EventLoop_doPoller ctl cb env kind l =
     (case EventLoop_Poll env kind l of
        None \<Rightarrow> None
      | Some (l, errMsg, ms) \<Rightarrow>
          if errMsg \<noteq> '''' then Some (l, []) else EventLoop_dispatch ctl cb (map mark_id ms) l)"

fun run_pollers ::
    "(epoll_op \<Rightarrow> int \<Rightarrow> interest_mask \<Rightarrow> 'k \<Rightarrow> 'k) \<Rightarrow> 'k callback \<Rightarrow> round_env \<Rightarrow> poller_kind list \<Rightarrow> 'k EventLoop \<Rightarrow>
     ('k EventLoop \<times> (int \<times> bool) list) option" where
  "run_pollers ctl cb env [] l = Some (l, [])"
| "run_pollers ctl cb env (k # ks) l =
     (case EventLoop_doPoller ctl cb env k l of
        None \<Rightarrow> None
      | Some (l, cbs) \<Rightarrow> map_option (\<lambda>(l, rest). (l, cbs @ rest)) (run_pollers ctl cb env ks l))"

definition EventLoop_runOnce ::
    "(epoll_op \<Rightarrow> int \<Rightarrow> interest_mask \<Rightarrow> 'k \<Rightarrow> 'k) \<Rightarrow> 'k callback \<Rightarrow> round_env \<Rightarrow> 'k EventLoop \<Rightarrow>
     ('k EventLoop \<times> (int \<times> bool) list) option" where
  "EventLoop_runOnce ctl cb env l = run_pollers ctl cb env EventLoop_pollers l"

text \<open>The loop itself: it runs over the rounds the environment provides until it is stopped.\<close>

fun EventLoop_loop ::
    "(epoll_op \<Rightarrow> int \<Rightarrow> interest_mask \<Rightarrow> 'k \<Rightarrow> 'k) \<Rightarrow> 'k callback \<Rightarrow> round_env list \<Rightarrow> 'k EventLoop \<Rightarrow>
     ('k EventLoop \<times> (int \<times> bool) list) option" where
  "EventLoop_loop ctl cb [] l = Some (l, [])"
| "EventLoop_loop ctl cb (env # envs) l =
     (if stop l then Some (l, [])
      else case EventLoop_runOnce ctl cb env l of
             None \<Rightarrow> None
           | Some (l, cbs) \<Rightarrow> map_option (\<lambda>(l, rest). (l, cbs @ rest)) (EventLoop_loop ctl cb envs l))"

section \<open>Lemmas\<close>

lemma pollers_in_key_order: "map GetPollerType EventLoop_pollers = [0, 1, 2]"
  by (simp add: EventLoop_pollers_def)

lemma Event_Do_ran: "Event_Do cb i e l = Some (l', cbs) \<Longrightarrow> cbs = [] \<or> cbs = [(i, True)] \<or> cbs = [(i, False)]"
  by (auto simp: Event_Do_def split: if_splits)

lemma EventLoop_one_ran:
  "EventLoop_one ctl cb i l = Some (l', cbs) \<Longrightarrow> cbs = [] \<or> cbs = [(i, True)] \<or> cbs = [(i, False)]"
  by (auto simp: EventLoop_one_def Let_def split: option.splits if_splits prod.splits dest: Event_Do_ran)

lemma EventLoop_dispatch_ConsD:
  "EventLoop_dispatch ctl cb (i # is) l = Some (l', cbs) \<Longrightarrow>
     \<exists>l1 c1 c2. EventLoop_one ctl cb i l = Some (l1, c1) \<and>
       EventLoop_dispatch ctl cb is l1 = Some (l', c2) \<and> cbs = c1 @ c2"
  by (auto split: option.splits prod.splits)

lemma EventLoop_dispatch_subseq:
  "EventLoop_dispatch ctl cb is l = Some (l', cbs) \<Longrightarrow> subseq (map fst cbs) is"
proof (induction "is" arbitrary: l l' cbs)
  case (Cons i "is")
  from EventLoop_dispatch_ConsD [OF Cons.prems] obtain l1 c1 c2 where
    o: "EventLoop_one ctl cb i l = Some (l1, c1)" "EventLoop_dispatch ctl cb is l1 = Some (l', c2)"
    "cbs = c1 @ c2"
    by blast
  from Cons.IH [OF o(2)] have "subseq (map fst c2) is" .
  with EventLoop_one_ran [OF o(1)] o(3) show ?case by auto
qed simp

lemma EventLoop_dispatch_append:
  "EventLoop_dispatch ctl cb (is @ js) l =
     (case EventLoop_dispatch ctl cb is l of
        None \<Rightarrow> None
      | Some (l1, c1) \<Rightarrow> map_option (\<lambda>(l2, c2). (l2, c1 @ c2)) (EventLoop_dispatch ctl cb js l1))"
proof (induction "is" arbitrary: l)
  case Nil
  show ?case by (cases "EventLoop_dispatch ctl cb js l") auto
next
  case (Cons i "is")
  show ?case
  proof (cases "EventLoop_one ctl cb i l")
    case (Some lc)
    obtain l1 c1 where lc: "lc = (l1, c1)" by (cases lc)
    show ?thesis
    proof (cases "EventLoop_dispatch ctl cb is l1")
      case None
      with Some lc Cons.IH [of l1] show ?thesis by simp
    next
      case (Some r)
      obtain l2 c2 where "r = (l2, c2)" by (cases r)
      with \<open>EventLoop_one ctl cb i l = Some lc\<close> Some lc Cons.IH [of l1] show ?thesis
        by (cases "EventLoop_dispatch ctl cb js l2") auto
    qed
  qed simp
qed

text \<open>
  Ids come from a counter, so an id is not used again: callbacks may create events, but in this pass none with an id of
  \<open>D\<close> whose event has been destroyed.
\<close>

fun no_reuse ::
    "int set \<Rightarrow> (epoll_op \<Rightarrow> int \<Rightarrow> interest_mask \<Rightarrow> 'k \<Rightarrow> 'k) \<Rightarrow> 'k callback \<Rightarrow> int list \<Rightarrow> 'k EventLoop \<Rightarrow> bool" where
  "no_reuse D ctl cb [] l \<longleftrightarrow> True"
| "no_reuse D ctl cb (i # is) l \<longleftrightarrow>
     (case EventLoop_one ctl cb i l of
        None \<Rightarrow> True
      | Some (l', cbs) \<Rightarrow> (\<forall>j\<in>D. evs l j = None \<longrightarrow> evs l' j = None) \<and> no_reuse D ctl cb is l')"

lemma EventLoop_destroy_evs: "EventLoop_destroy ctl i l = Some l' \<Longrightarrow> evs l' = (evs l)(i := None)"
  by (auto simp: EventLoop_destroy_def Let_def split: option.splits poller_kind.splits)

lemma EventLoop_one_dead: "EventLoop_one ctl cb i l = Some (l', cbs) \<Longrightarrow> evs l j = None \<Longrightarrow> j \<notin> fst ` set cbs"
  using EventLoop_one_ran [of ctl cb i l l' cbs] by (cases "evs l i") (auto simp: EventLoop_one_def)

lemma EventLoop_dispatch_dead:
  assumes "no_reuse D ctl cb is l" "EventLoop_dispatch ctl cb is l = Some (l', cbs)" "evs l j = None" "j \<in> D"
  shows "j \<notin> fst ` set cbs"
  using assms(1-3)
proof (induction "is" arbitrary: l l' cbs)
  case (Cons i "is")
  from EventLoop_dispatch_ConsD [OF Cons.prems(2)] obtain l1 c1 c2 where
    o: "EventLoop_one ctl cb i l = Some (l1, c1)" "EventLoop_dispatch ctl cb is l1 = Some (l', c2)"
    "cbs = c1 @ c2"
    by blast
  with Cons.prems(1,3) assms(4) have "no_reuse D ctl cb is l1" "evs l1 j = None" by simp_all
  from Cons.IH [OF this(1) o(2) this(2)] EventLoop_one_dead [OF o(1) Cons.prems(3)] o(3) show ?case by auto
qed simp

lemma no_reuse_append:
  "no_reuse D ctl cb (is @ js) l \<Longrightarrow> EventLoop_dispatch ctl cb is l = Some (l1, c1) \<Longrightarrow> no_reuse D ctl cb js l1"
proof (induction "is" arbitrary: l c1)
  case (Cons i "is")
  from EventLoop_dispatch_ConsD [OF Cons.prems(2)] obtain l2 c2 c3 where
    "EventLoop_one ctl cb i l = Some (l2, c2)" "EventLoop_dispatch ctl cb is l2 = Some (l1, c3)" by blast
  with Cons.prems(1) Cons.IH show ?case by auto
qed simp

text \<open>What an event is due, from its state alone.\<close>

definition due_callback :: "int \<Rightarrow> event option \<Rightarrow> (int \<times> bool) list" where
  "due_callback i e =
     (case e of
        None \<Rightarrow> []
      | Some e \<Rightarrow> if readAble e \<and> readNotify e then [(i, True)]
                  else if writeAble e \<and> writeNotify e then [(i, False)] else [])"

lemma EventLoop_one_due: "EventLoop_one ctl cb i l = Some (l', cbs) \<Longrightarrow> cbs = due_callback i (evs l i)"
  by (auto simp: EventLoop_one_def Event_Do_def due_callback_def Let_def split: option.splits if_splits prod.splits)

section \<open>Properties\<close>

text \<open>
  C7.  Stale events are never run.  For any callbacks (arbitrary user code, which may create, change and destroy events,
  except that in this pass it does not use the id of a destroyed event again; ids come from a counter) and any point of a
  pass over the polled events: what the loop runs for the next event is decided by that event's state \<^emph>\<open>now\<close>,
  after the callbacks of the earlier events of the same pass, not by what the poller saw.  It runs the read callback if the
  event lives and is readable with read notification on, else the write callback if it is writable with write notification
  on, else nothing; and no event that is gone by now is run later in the pass, although the poller had returned it.
\<close>

theorem EventLoop_no_stale_callback:
  assumes "no_reuse (set (is @ j # js)) ctl cb (is @ j # js) l"
    and "EventLoop_dispatch ctl cb (is @ j # js) l = Some (l', cbs)"
    and "EventLoop_dispatch ctl cb is l = Some (l1, cbs1)"
  shows "\<exists>cbs2. cbs = cbs1 @ due_callback j (evs l1 j) @ cbs2 \<and> subseq (map fst cbs) (is @ j # js) \<and>
           (\<forall>k. evs l1 k = None \<longrightarrow> k \<notin> fst ` set cbs2)"
proof -
  let ?D = "set (is @ j # js)"
  from assms(2,3) obtain c where r: "EventLoop_dispatch ctl cb (j # js) l1 = Some (l', c)" "cbs = cbs1 @ c"
    by (auto simp: EventLoop_dispatch_append)
  from EventLoop_dispatch_ConsD [OF r(1)] obtain l2 c1 c2 where
    o: "EventLoop_one ctl cb j l1 = Some (l2, c1)" "EventLoop_dispatch ctl cb js l2 = Some (l', c2)" "c = c1 @ c2"
    by blast
  from no_reuse_append [OF assms(1,3)] o(1) have n: "\<forall>k\<in>?D. evs l1 k = None \<longrightarrow> evs l2 k = None" "no_reuse ?D ctl cb js l2"
    by simp_all
  have "set (map fst c2) \<subseteq> set js" using list_emb_set [OF EventLoop_dispatch_subseq [OF o(2)]] by blast
  then have polled: "k \<in> ?D" if "k \<in> fst ` set c2" for k using that by auto
  have "c1 = due_callback j (evs l1 j)" by (rule EventLoop_one_due [OF o(1)])
  moreover have "k \<notin> fst ` set c2" if "evs l1 k = None" for k
    using EventLoop_dispatch_dead [OF n(2) o(2)] n(1) polled that by blast
  ultimately show ?thesis using EventLoop_dispatch_subseq [OF assms(2)] r(2) o(3) by blast
qed

text \<open>In the witness the first event's callback destroys the second, which had been polled, and makes a third.\<close>

definition two_events :: "(int \<Rightarrow> interest_mask option) EventLoop" where
  "two_events =
     \<lparr>evs = [1 \<mapsto> \<lparr>fd = 5, eid = 1, readAble = True, writeAble = False, readNotify = True, writeNotify = False\<rparr>,
             2 \<mapsto> \<lparr>fd = 6, eid = 2, readAble = True, writeAble = False, readNotify = True, writeNotify = False\<rparr>],
      ekind = (\<lambda>_. EpollKind), owned = (\<lambda>_. True), holding = None, epoller = empty_epoller,
      timerPoller = TimerPoller_new, asyncerPoller = AsyncerPoller_new, stop = False\<rparr>"

definition killer :: "(int \<Rightarrow> interest_mask option) callback" where
  "killer i r l =
     (if i = 1 then EventLoop_release ref_ctl 2 (l\<lparr>evs := (evs l)(3 \<mapsto> fst (Event_new 7 3))\<rparr>) else Some l)"

theorem EventLoop_no_stale_callback_witness:
  "\<exists>l' cbs l1 cbs1. EventLoop_dispatch ref_ctl killer ([1] @ [2]) two_events = Some (l', cbs) \<and>
      EventLoop_dispatch ref_ctl killer [1] two_events = Some (l1, cbs1) \<and>
      cbs = [(1, True)] \<and> evs l1 2 = None \<and> evs l1 3 \<noteq> None"
proof -
  note defs = EventLoop_one_def Event_Do_def killer_def EventLoop_release_def EventLoop_destroy_def
        Event_destroy_def Epoller_RemoveEvent_def in_slots_def MaxSize_def two_events_def upd_event_def Let_def Event_new_def
        EventIdCreator_Create_def
  obtain l1 cbs1 where d1: "EventLoop_dispatch ref_ctl killer [1] two_events = Some (l1, cbs1)"
    and r1: "cbs1 = [(1, True)]" "evs l1 2 = None" "evs l1 3 \<noteq> None" "evs l1 1 \<noteq> None"
    by (simp add: defs)
  then obtain l' cbs where d: "EventLoop_dispatch ref_ctl killer ([1] @ 2 # []) two_events = Some (l', cbs)"
    by (simp only: EventLoop_dispatch_append) (simp add: EventLoop_one_def)
  have "no_reuse (set ([1] @ 2 # [])) ref_ctl killer ([1] @ 2 # []) two_events" by (simp add: defs)
  from EventLoop_no_stale_callback [OF this d d1] r1 obtain cbs2 where
    c: "cbs = (1, True) # cbs2" "subseq (map fst cbs) [1, 2]" "2 \<notin> fst ` set cbs2"
    by (auto simp: due_callback_def)
  moreover have "cbs2 = []"
  proof (rule ccontr)
    assume "cbs2 \<noteq> []"
    then obtain x ys where "cbs2 = x # ys" by (cases cbs2) auto
    with c show False by (auto split: if_splits)
  qed
  ultimately show ?thesis using d d1 r1 by auto
qed

end
