(* ===== verification/Event_Callbacks.thy ===== *)
theory Event_Callbacks
  imports Event_Loop
begin

text \<open>
  The rest of \<^verbatim>\<open>event.cpp\<close> and \<^verbatim>\<open>event_loop.cpp\<close>: an event object with its two callbacks, its
  setters and getters, \<^verbatim>\<open>Do\<close> on the object, and \<^verbatim>\<open>GetPoller\<close>.  \<open>Event_Loop\<close> takes
  what a callback does as an argument; here it is what was set last, and the two descriptions agree.
\<close>

section \<open>The event object\<close>

text \<open>\<open>None\<close> is an empty \<^verbatim>\<open>std::function\<close>, whose call throws.\<close>

record 'c event_object = event +
  ev_readCb :: "'c option"
  ev_writeCb :: "'c option"

definition Event_object :: "event \<Rightarrow> 'c event_object" where
  "Event_object e = event.extend e \<lparr>ev_readCb = None, ev_writeCb = None\<rparr>"

definition Event_SetReadEvent :: "'c \<Rightarrow> 'c event_object \<Rightarrow> 'c event_object" where
  "Event_SetReadEvent cb e = e\<lparr>ev_readCb := Some cb\<rparr>"

definition Event_SetWriteEvent :: "'c \<Rightarrow> 'c event_object \<Rightarrow> 'c event_object" where
  "Event_SetWriteEvent cb e = e\<lparr>ev_writeCb := Some cb\<rparr>"

definition Event_GetReadNotify :: "'c event_object \<Rightarrow> bool" where "Event_GetReadNotify e = readNotify e"
definition Event_GetWriteNotify :: "'c event_object \<Rightarrow> bool" where "Event_GetWriteNotify e = writeNotify e"
definition Event_GetFd :: "'c event_object \<Rightarrow> int" where "Event_GetFd e = fd e"
definition Event_GetId :: "'c event_object \<Rightarrow> int" where "Event_GetId e = eid e"

text \<open>\<^verbatim>\<open>Do\<close>: the callback called, if any, and the object after it, for a callback that leaves it alone.\<close>

definition Event_Do_object :: "'c event_object \<Rightarrow> ('c event_object \<times> 'c list) option" where
  "Event_Do_object e =
     (if readAble e \<and> readNotify e
      then map_option (\<lambda>cb. (e\<lparr>readAble := False\<rparr>, [cb])) (ev_readCb e)
      else if writeAble e \<and> writeNotify e
      then map_option (\<lambda>cb. (e\<lparr>writeAble := False\<rparr>, [cb])) (ev_writeCb e)
      else Some (e, []))"

datatype 'c event_set = SetRead 'c | SetWrite 'c

fun event_do_set :: "'c event_set \<Rightarrow> 'c event_object \<Rightarrow> 'c event_object" where
  "event_do_set (SetRead cb) = Event_SetReadEvent cb"
| "event_do_set (SetWrite cb) = Event_SetWriteEvent cb"

fun reads_of :: "'c event_set list \<Rightarrow> 'c list" where
  "reads_of [] = []"
| "reads_of (SetRead cb # xs) = cb # reads_of xs"
| "reads_of (SetWrite cb # xs) = reads_of xs"

fun writes_of :: "'c event_set list \<Rightarrow> 'c list" where
  "writes_of [] = []"
| "writes_of (SetWrite cb # xs) = cb # writes_of xs"
| "writes_of (SetRead cb # xs) = writes_of xs"

text \<open>The callbacks of a program, as the loop sees them.\<close>

definition event_callback :: "(int \<Rightarrow> ('k EventLoop \<Rightarrow> 'k EventLoop option) event_object option) \<Rightarrow> 'k callback" where
  "event_callback objs i isRead l =
     (case objs i of
        None \<Rightarrow> None
      | Some e \<Rightarrow> Option.bind (if isRead then ev_readCb e else ev_writeCb e) (\<lambda>f. f l))"

section \<open>Pollers\<close>

text \<open>
  \<^verbatim>\<open>pollers_[pollerType]\<close>: the poller of the type, and the map afterwards, into which a type that has none
  is put with a null pointer; a pass over a map with a null pointer dereferences it.
\<close>

type_synonym poller_map = "(nat \<times> poller_kind option) list"

definition EventLoop_new_pollers :: poller_map where
  "EventLoop_new_pollers = map (\<lambda>k. (GetPollerType k, Some k)) EventLoop_pollers"

definition EventLoop_GetPoller :: "nat \<Rightarrow> poller_map \<Rightarrow> poller_kind option \<times> poller_map" where
  "EventLoop_GetPoller t m =
     (case map_of m t of
        Some p \<Rightarrow> (p, m)
      | None \<Rightarrow> (None, sort_key fst (m @ [(t, None)])))"

fun pass_kinds :: "poller_map \<Rightarrow> poller_kind list option" where
  "pass_kinds [] = Some []"
| "pass_kinds ((t, None) # m) = None"
| "pass_kinds ((t, Some k) # m) = map_option (Cons k) (pass_kinds m)"

section \<open>Properties\<close>

lemma event_sets:
  "fold event_do_set xs e = e\<lparr>ev_readCb := if reads_of xs = [] then ev_readCb e else Some (last (reads_of xs)),
     ev_writeCb := if writes_of xs = [] then ev_writeCb e else Some (last (writes_of xs))\<rparr>"
proof (induction xs arbitrary: e)
  case (Cons x xs)
  then show ?case by (cases x) (simp_all add: Event_SetReadEvent_def Event_SetWriteEvent_def)
qed simp

text \<open>
  An event that is ready both ways runs the callbacks that were set last, whatever was set before: the read callback,
  and the write callback in the next \<^verbatim>\<open>Do\<close>; the write is put off, not lost.  With no
  callback set, an enabled notification ends in an exception.
\<close>

theorem Event_Do_last_set:
  assumes "readAble e" "readNotify e" "writeAble e" "writeNotify e" "reads_of xs \<noteq> []" "writes_of xs \<noteq> []"
  shows "\<exists>e1 e2. Event_Do_object (fold event_do_set xs e) = Some (e1, [last (reads_of xs)]) \<and>
    Event_Do_object e1 = Some (e2, [last (writes_of xs)]) \<and> Event_Do_object e2 = Some (e2, []) \<and>
    Event_GetReadNotify e2 \<and> Event_GetWriteNotify e2 \<and> Event_GetFd e2 = fd e \<and> Event_GetId e2 = eid e"
  using assms
  by (simp add: event_sets Event_Do_object_def Event_GetReadNotify_def Event_GetWriteNotify_def Event_GetFd_def Event_GetId_def)

theorem Event_Do_last_set_witness:
  "\<exists>e e1. Event_Do_object (fold event_do_set [SetRead 1, SetWrite 2, SetRead (3 :: nat)] e) = Some (e1, [3])"
proof -
  let ?e = "\<lparr>fd = 5, eid = 0, readAble = True, writeAble = True, readNotify = True, writeNotify = True,
    ev_readCb = None, ev_writeCb = None\<rparr> :: nat event_object"
  have "\<exists>e1 e2. Event_Do_object (fold event_do_set [SetRead 1, SetWrite 2, SetRead 3] ?e) = Some (e1, [last (reads_of [SetRead 1, SetWrite 2, SetRead 3])]) \<and>
      Event_Do_object e1 = Some (e2, [last (writes_of [SetRead 1, SetWrite 2, SetRead (3 :: nat)])]) \<and> Event_Do_object e2 = Some (e2, []) \<and>
      Event_GetReadNotify e2 \<and> Event_GetWriteNotify e2 \<and> Event_GetFd e2 = fd ?e \<and> Event_GetId e2 = eid ?e"
    by (rule Event_Do_last_set) simp_all
  then show ?thesis by auto
qed

text \<open>
  The loop's \<^verbatim>\<open>Do\<close> with the callbacks of the objects runs what the object's does, and leaves the same flags
  when the callback leaves the event alone.
\<close>

theorem Event_Do_agrees:
  assumes "objs i = Some e" "evs l i = Some (event.truncate e)" "Event_Do_object e = Some (e', fs)"
    and "\<forall>f\<in>set fs. \<exists>l'. f l = Some l' \<and> evs l' i = evs l i"
  shows "\<exists>l' cbs. Event_Do (event_callback objs) i (event.truncate e) l = Some (l', cbs) \<and>
    length cbs = length fs \<and> evs l' i = Some (event.truncate e')"
  using assms
  by (auto simp: Event_Do_object_def Event_Do_def event_callback_def upd_event_def event.truncate_def split: if_splits)

theorem Event_Do_agrees_witness:
  "\<exists>l' cbs. Event_Do (event_callback (\<lambda>_. Some \<lparr>fd = 5, eid = 0, readAble = True, writeAble = False, readNotify = True,
      writeNotify = False, ev_readCb = Some Some, ev_writeCb = None\<rparr>)) 0
      \<lparr>fd = 5, eid = 0, readAble = True, writeAble = False, readNotify = True, writeNotify = False\<rparr>
      (l\<lparr>evs := [0 \<mapsto> \<lparr>fd = 5, eid = 0, readAble = True, writeAble = False, readNotify = True, writeNotify = False\<rparr>]\<rparr> :: 'k EventLoop)
    = Some (l', cbs) \<and> length cbs = 1"
proof -
  let ?e = "\<lparr>fd = 5, eid = 0, readAble = True, writeAble = False, readNotify = True, writeNotify = False,
    ev_readCb = Some Some, ev_writeCb = None\<rparr> :: ('k EventLoop \<Rightarrow> 'k EventLoop option) event_object"
  let ?t = "\<lparr>fd = 5, eid = 0, readAble = True, writeAble = False, readNotify = True, writeNotify = False\<rparr> :: event"
  have t: "event.truncate ?e = ?t" by (simp add: event.truncate_def)
  have "\<exists>l' cbs. Event_Do (event_callback (\<lambda>_. Some ?e)) 0 (event.truncate ?e) (l\<lparr>evs := [0 \<mapsto> ?t]\<rparr>) = Some (l', cbs) \<and>
      length cbs = length [Some :: 'k EventLoop \<Rightarrow> 'k EventLoop option] \<and> evs l' 0 = Some (event.truncate (?e\<lparr>readAble := False\<rparr>))"
    by (rule Event_Do_agrees) (simp_all add: t Event_Do_object_def)
  then show ?thesis by (auto simp: t)
qed

text \<open>
  Asking for one of the three types gives its poller and leaves the loop alone; asking for any other type makes the
  next pass dereference a null pointer.
\<close>

theorem EventLoop_GetPoller_types:
  "EventLoop_GetPoller (GetPollerType k) EventLoop_new_pollers = (Some k, EventLoop_new_pollers)"
  "pass_kinds EventLoop_new_pollers = Some EventLoop_pollers"
  "t > 2 \<Longrightarrow> fst (EventLoop_GetPoller t EventLoop_new_pollers) = None \<and>
     pass_kinds (snd (EventLoop_GetPoller t EventLoop_new_pollers)) = None"
  by (cases k; simp add: EventLoop_GetPoller_def EventLoop_new_pollers_def EventLoop_pollers_def)+

end
