(* ===== verification/Byte_Buffer.thy ===== *)
theory Byte_Buffer
  imports Prelude
begin

text \<open>
  The byte queue of a connection, \<^verbatim>\<open>src/net/common/tcp/buffer.h\<close> and
  \<^verbatim>\<open>buffer.cpp\<close>: a vector with a read and a write index, both 64-bit unsigned.
  \<open>Buffer_Write\<close> inserts at the write index, \<open>Buffer_Read\<close> copies from the read index without
  consuming, \<open>Buffer_UpdateReadIndex\<close> consumes and drops the whole vector once everything is
  read.  A copy or an insertion outside the vector is \<open>None\<close>.  The abstraction \<open>Buffer_data\<close>
  is the list of unread bytes.
\<close>

section \<open>State and operations\<close>

record Buffer =
  readIndex :: u64
  writeIndex :: u64
  bytes :: "char list"

definition InitSize :: nat where
  "InitSize = 1024"

definition Buffer_new :: Buffer where
  "Buffer_new = \<lparr>readIndex = 0, writeIndex = 0, bytes = replicate InitSize (CHR 0x00)\<rparr>"

definition Buffer_Reset :: "Buffer \<Rightarrow> Buffer" where
  "Buffer_Reset b = b\<lparr>readIndex := 0, writeIndex := 0, bytes := []\<rparr>"

definition Buffer_Write :: "char list \<Rightarrow> Buffer \<Rightarrow> Buffer option" where
  "Buffer_Write buf b =
     (if unat (writeIndex b) \<le> length (bytes b)
      then Some (b\<lparr>bytes := insert_at (unat (writeIndex b)) buf (bytes b),
                   writeIndex := writeIndex b + of_nat (length buf)\<rparr>)
      else None)"

definition Buffer_Read :: "u64 \<Rightarrow> Buffer \<Rightarrow> (char list \<times> u64) option" where
  "Buffer_Read len b =
     (if readIndex b = writeIndex b then Some ([], 0)
      else let len = (if readIndex b + len > writeIndex b then writeIndex b - readIndex b else len)
           in if unat (readIndex b) + unat len \<le> length (bytes b)
              then Some (take (unat len) (drop (unat (readIndex b)) (bytes b)), len)
              else None)"

definition Buffer_UpdateReadIndex :: "u64 \<Rightarrow> Buffer \<Rightarrow> Buffer \<times> u64" where
  "Buffer_UpdateReadIndex len b =
     (let b = b\<lparr>readIndex := readIndex b + len\<rparr>
      in (if readIndex b = writeIndex b then Buffer_Reset b else b, len))"

definition Buffer_Push :: "char list \<Rightarrow> Buffer \<Rightarrow> Buffer option" where
  "Buffer_Push buf b = Buffer_Write buf b"

definition Buffer_PopHead :: "u64 \<Rightarrow> Buffer \<Rightarrow> (Buffer \<times> char list \<times> u64) option" where
  "Buffer_PopHead len b =
     (case Buffer_Read len b of
        None \<Rightarrow> None
      | Some (out, len) \<Rightarrow> (let (b', len) = Buffer_UpdateReadIndex len b in Some (b', out, len)))"

lemmas Buffer_defs [model_defs] =
  Buffer_new_def Buffer_Reset_def Buffer_Write_def Buffer_Read_def Buffer_UpdateReadIndex_def
  Buffer_Push_def Buffer_PopHead_def

section \<open>Invariant and abstraction\<close>

definition Buffer_ok :: "Buffer \<Rightarrow> bool" where
  "Buffer_ok b \<longleftrightarrow> readIndex b \<le> writeIndex b \<and> unat (writeIndex b) \<le> length (bytes b)"

definition Buffer_data :: "Buffer \<Rightarrow> char list" where
  "Buffer_data b = drop (unat (readIndex b)) (take (unat (writeIndex b)) (bytes b))"

text \<open>How many more bytes fit before the write index wraps around.\<close>

definition Buffer_room :: "Buffer \<Rightarrow> nat" where
  "Buffer_room b = 2 ^ 64 - 1 - unat (writeIndex b)"

lemma Buffer_okD:
  assumes "Buffer_ok b"
  shows "unat (readIndex b) \<le> unat (writeIndex b)" "unat (writeIndex b) \<le> length (bytes b)"
    "unat (writeIndex b) + Buffer_room b = 2 ^ 64 - 1"
proof -
  show "unat (readIndex b) \<le> unat (writeIndex b)" "unat (writeIndex b) \<le> length (bytes b)"
    using assms by (auto simp: Buffer_ok_def word_le_nat_alt)
  show "unat (writeIndex b) + Buffer_room b = 2 ^ 64 - 1"
    using unat_lt64 [of "writeIndex b"] by (simp add: Buffer_room_def)
qed

lemma length_Buffer_data:
  "Buffer_ok b \<Longrightarrow> length (Buffer_data b) = unat (writeIndex b) - unat (readIndex b)"
  using Buffer_okD [of b] by (simp add: Buffer_data_def)

lemma Buffer_data_empty: "Buffer_ok b \<Longrightarrow> readIndex b = writeIndex b \<longleftrightarrow> Buffer_data b = []"
  using Buffer_okD [of b] length_Buffer_data [of b]
  by (metis diff_is_0_eq le_antisym length_0_conv order_refl word_unat_eq_iff)

lemma Buffer_new_ok [inv_intros]: "Buffer_ok Buffer_new" "Buffer_data Buffer_new = []"
  by (simp_all add: Buffer_ok_def Buffer_data_def Buffer_new_def)

lemma Buffer_Reset_ok [inv_intros]: "Buffer_ok (Buffer_Reset b)" "Buffer_data (Buffer_Reset b) = []"
  by (simp_all add: Buffer_ok_def Buffer_data_def Buffer_Reset_def)

lemma Buffer_room_Reset: "Buffer_room (Buffer_Reset b) = 2 ^ 64 - 1"
  by (simp add: Buffer_room_def Buffer_Reset_def)

lemma Buffer_Write_ok:
  assumes ok: "Buffer_ok b" and room: "length buf \<le> Buffer_room b"
  shows "\<exists>b'. Buffer_Write buf b = Some b' \<and> Buffer_ok b' \<and>
           Buffer_data b' = Buffer_data b @ buf \<and> Buffer_room b' = Buffer_room b - length buf"
proof -
  note b = Buffer_okD [OF ok]
  have lb: "unat (of_nat (length buf) :: u64) = length buf"
    using room b(3) by (simp add: unat_of_nat)
  have w: "unat (writeIndex b + of_nat (length buf)) = unat (writeIndex b) + length buf"
    using room b(3) by (subst unat_add_exact) (auto simp: lb)
  show ?thesis
    using b by (simp add: Buffer_Write_def Buffer_ok_def Buffer_data_def Buffer_room_def
        word_le_nat_alt w insert_at_def)
qed

lemma Buffer_Read_ok:
  assumes ok: "Buffer_ok b" and room: "unat len \<le> Buffer_room b"
  shows "Buffer_Read len b =
           Some (take (unat len) (Buffer_data b), of_nat (min (unat len) (length (Buffer_data b))))"
proof (cases "readIndex b = writeIndex b")
  case True
  with Buffer_data_empty [OF ok] show ?thesis by (simp add: Buffer_Read_def)
next
  case False
  note b = Buffer_okD [OF ok]
  have s: "unat (readIndex b + len) = unat (readIndex b) + unat len"
    using b room by (intro unat_add_exact) simp
  have d: "unat (writeIndex b - readIndex b) = unat (writeIndex b) - unat (readIndex b)"
    using ok by (simp add: unat_sub_exact Buffer_ok_def)
  show ?thesis
  proof (cases "unat (readIndex b) + unat len > unat (writeIndex b)")
    case True
    then have m: "min (unat len) (length (Buffer_data b)) = unat (writeIndex b - readIndex b)"
      and all: "take (unat len) (Buffer_data b) = Buffer_data b"
      by (simp_all add: length_Buffer_data [OF ok] d)
    have "readIndex b + len > writeIndex b" using True by (simp add: word_less_nat_alt s)
    then show ?thesis
      using False b by (simp only: m all) (simp add: Buffer_Read_def Buffer_data_def d drop_take)
  next
    case le: False
    then have "min (unat len) (length (Buffer_data b)) = unat len"
      by (simp add: length_Buffer_data [OF ok])
    with le False b show ?thesis
      by (simp add: Buffer_Read_def Buffer_data_def word_less_nat_alt s drop_take min_def)
  qed
qed

lemma Buffer_UpdateReadIndex_ok:
  assumes ok: "Buffer_ok b" and len: "unat len \<le> length (Buffer_data b)"
  shows "Buffer_ok (fst (Buffer_UpdateReadIndex len b)) \<and>
         Buffer_data (fst (Buffer_UpdateReadIndex len b)) = drop (unat len) (Buffer_data b) \<and>
         Buffer_room b \<le> Buffer_room (fst (Buffer_UpdateReadIndex len b))"
proof -
  note b = Buffer_okD [OF ok]
  have s: "unat (readIndex b + len) = unat (readIndex b) + unat len"
    using b len length_Buffer_data [OF ok] unat_lt64 [of "writeIndex b"]
    by (intro unat_add_exact) simp
  have le: "unat (readIndex b) + unat len \<le> unat (writeIndex b)"
    using b len length_Buffer_data [OF ok] by simp
  show ?thesis
  proof (cases "readIndex b + len = writeIndex b")
    case True
    then have "unat len = length (Buffer_data b)"
      using s length_Buffer_data [OF ok] by simp
    with True show ?thesis
      by (simp add: Buffer_UpdateReadIndex_def Buffer_Reset_ok Buffer_room_Reset)
         (simp add: Buffer_room_def)
  next
    case False
    then have f: "fst (Buffer_UpdateReadIndex len b) = b\<lparr>readIndex := readIndex b + len\<rparr>"
      by (simp add: Buffer_UpdateReadIndex_def)
    from b le show ?thesis
      unfolding f by (simp add: Buffer_ok_def Buffer_data_def Buffer_room_def word_le_nat_alt s
          drop_drop add.commute [of "unat len"] del: unat_plus_if')
  qed
qed

lemma Buffer_PopHead_ok:
  assumes ok: "Buffer_ok b" and room: "unat len \<le> Buffer_room b"
  shows "\<exists>b' n. Buffer_PopHead len b = Some (b', take (unat len) (Buffer_data b), n) \<and>
           unat n = min (unat len) (length (Buffer_data b)) \<and> Buffer_ok b' \<and>
           Buffer_data b' = drop (unat len) (Buffer_data b) \<and> Buffer_room b \<le> Buffer_room b'"
proof -
  let ?n = "of_nat (min (unat len) (length (Buffer_data b))) :: u64"
  have n: "unat ?n = min (unat len) (length (Buffer_data b))"
    by (rule unat_of_nat64) (use unat_lt64 [of len] in simp)
  have dr: "drop (unat ?n) (Buffer_data b) = drop (unat len) (Buffer_data b)"
    unfolding n by (simp add: min_def)
  from Buffer_UpdateReadIndex_ok [OF ok, of ?n] n dr Buffer_Read_ok [OF ok room]
  show ?thesis
    by (auto simp: Buffer_PopHead_def Buffer_UpdateReadIndex_def Let_def split: prod.splits)
qed

text \<open>
  What consuming \<open>-1\<close> bytes does (the connection's write handler does it when the socket
  reports that it would block): a read index above zero moves one byte \<^emph>\<open>back\<close>, so the byte sent
  last is unread again; a read index of zero becomes \<open>2 ^ 64 - 1\<close>, past the write index, and
  the indices no longer describe a range.
\<close>

lemma Buffer_UpdateReadIndex_minus_one:
  assumes "Buffer_ok b" "readIndex b \<noteq> writeIndex b + 1"
  shows "if readIndex b = 0
         then readIndex (fst (Buffer_UpdateReadIndex (-1) b)) = 2 ^ 64 - 1 \<and>
              \<not> Buffer_ok (fst (Buffer_UpdateReadIndex (-1) b))
         else Buffer_ok (fst (Buffer_UpdateReadIndex (-1) b)) \<and>
              Buffer_data (fst (Buffer_UpdateReadIndex (-1) b)) =
                bytes b ! (unat (readIndex b) - 1) # Buffer_data b"
proof (cases "readIndex b = 0")
  case True
  with assms(2) have "readIndex b + -1 \<noteq> writeIndex b"
    by (metis add.commute add.right_inverse add_0 add_left_cancel)
  then have "fst (Buffer_UpdateReadIndex (-1) b) = b\<lparr>readIndex := -1\<rparr>"
    using True by (simp add: Buffer_UpdateReadIndex_def)
  moreover have "writeIndex b \<noteq> -1" using assms(2) True by auto
  ultimately show ?thesis using True by (simp add: Buffer_ok_def word_order.extremum_unique)
next
  case False
  note b = Buffer_okD [OF assms(1)]
  have pos: "0 < unat (readIndex b)" using False by (simp add: unat_gt_0)
  have r: "unat (readIndex b + -1) = unat (readIndex b) - 1" by (rule unat_minus_one [OF False])
  then have ne: "readIndex b + -1 \<noteq> writeIndex b" using b pos by (metis diff_less leD less_one)
  then have f: "fst (Buffer_UpdateReadIndex (-1) b) = b\<lparr>readIndex := readIndex b + -1\<rparr>"
    by (simp add: Buffer_UpdateReadIndex_def)
  have lt: "unat (readIndex b) - 1 < length (take (unat (writeIndex b)) (bytes b))"
    using b pos by simp
  have "drop (unat (readIndex b) - 1) (take (unat (writeIndex b)) (bytes b)) =
        bytes b ! (unat (readIndex b) - 1) # Buffer_data b"
    using Cons_nth_drop_Suc [OF lt] b pos by (simp add: Buffer_data_def)
  then show ?thesis
    using False b r by (simp only: f if_False) (simp add: Buffer_ok_def Buffer_data_def word_le_nat_alt)
qed

section \<open>The interface the connection uses\<close>

text \<open>
  A first-in first-out byte queue with bounded room.  A connection pushes what the peer or the
  user sends and pops what is read; nothing else of the buffer matters to it.
\<close>

datatype queue_op = QPush "char list" | QPop u64

fun queue_run ::
    "(char list \<Rightarrow> 'q \<Rightarrow> 'q option) \<Rightarrow> (u64 \<Rightarrow> 'q \<Rightarrow> ('q \<times> char list \<times> u64) option) \<Rightarrow>
     queue_op list \<Rightarrow> 'q \<Rightarrow> ('q \<times> char list) option" where
  "queue_run push pop [] q = Some (q, [])"
| "queue_run push pop (QPush xs # ops) q =
     (case push xs q of None \<Rightarrow> None | Some q' \<Rightarrow> queue_run push pop ops q')"
| "queue_run push pop (QPop n # ops) q =
     (case pop n q of
        None \<Rightarrow> None
      | Some (q', out, _) \<Rightarrow>
          map_option (\<lambda>(q'', rest). (q'', out @ rest)) (queue_run push pop ops q'))"

fun pushed :: "queue_op list \<Rightarrow> char list" where
  "pushed [] = []"
| "pushed (QPush xs # ops) = xs @ pushed ops"
| "pushed (QPop _ # ops) = pushed ops"

fun pops_within :: "nat \<Rightarrow> queue_op list \<Rightarrow> bool" where
  "pops_within m [] = True"
| "pops_within m (QPush _ # ops) = pops_within m ops"
| "pops_within m (QPop n # ops) = (unat n \<le> m \<and> pops_within m ops)"

locale byte_queue =
  fixes push :: "char list \<Rightarrow> 'q \<Rightarrow> 'q option"
    and pop :: "u64 \<Rightarrow> 'q \<Rightarrow> ('q \<times> char list \<times> u64) option"
    and abs :: "'q \<Rightarrow> char list"
    and inv :: "'q \<Rightarrow> bool"
    and room :: "'q \<Rightarrow> nat"
  assumes push_law: "inv q \<Longrightarrow> length xs \<le> room q \<Longrightarrow>
      \<exists>q'. push xs q = Some q' \<and> inv q' \<and> abs q' = abs q @ xs \<and> room q' = room q - length xs"
    and pop_law: "inv q \<Longrightarrow> unat n \<le> room q \<Longrightarrow>
      \<exists>q' k. pop n q = Some (q', take (unat n) (abs q), k) \<and> unat k = min (unat n) (length (abs q)) \<and>
        inv q' \<and> abs q' = drop (unat n) (abs q) \<and> room q \<le> room q'"
begin

text \<open>No byte is lost, duplicated or reordered, whatever the interleaving.\<close>

lemma queue_run_stream:
  assumes "inv q" "length (pushed ops) + m \<le> room q" "pops_within m ops"
  shows "\<exists>q' out. queue_run push pop ops q = Some (q', out) \<and> inv q' \<and>
           out @ abs q' = abs q @ pushed ops"
  using assms
proof (induction ops arbitrary: q)
  case Nil
  then show ?case by simp
next
  case (Cons op ops)
  show ?case
  proof (cases op)
    case (QPush xs)
    with Cons.prems obtain q1 where
      "push xs q = Some q1" "inv q1" "abs q1 = abs q @ xs" "room q1 = room q - length xs"
      using push_law [of q xs] by auto
    with Cons.IH [of q1] Cons.prems QPush show ?thesis by auto
  next
    case (QPop n)
    with Cons.prems obtain q1 k where
      q1: "pop n q = Some (q1, take (unat n) (abs q), k)" "inv q1"
      "abs q1 = drop (unat n) (abs q)" "room q \<le> room q1"
      using pop_law [of q n] by auto
    with Cons.prems QPop obtain q' out where
      "queue_run push pop ops q1 = Some (q', out)" "inv q'" "out @ abs q' = abs q1 @ pushed ops"
      using Cons.IH [of q1] by auto
    with q1 QPop show ?thesis by auto
  qed
qed

end

interpretation bq: byte_queue Buffer_Push Buffer_PopHead Buffer_data Buffer_ok Buffer_room
  by unfold_locales (use Buffer_Write_ok Buffer_PopHead_ok in \<open>auto simp: Buffer_Push_def\<close>)

section \<open>Properties\<close>

text \<open>
  C2.  The buffer is a faithful byte stream: for any interleaving of \<^verbatim>\<open>Push\<close> and
  \<^verbatim>\<open>PopHead\<close> that stays below the 64-bit index range, no operation leaves the vector,
  and the bytes popped followed by the bytes still unread are exactly the bytes that were unread at
  the start followed by the bytes pushed, in order.
\<close>

theorem Buffer_stream:
  assumes "Buffer_ok b" "length (pushed ops) + m \<le> Buffer_room b" "pops_within m ops"
  shows "\<exists>b' out. queue_run Buffer_Push Buffer_PopHead ops b = Some (b', out) \<and> Buffer_ok b' \<and>
           out @ Buffer_data b' = Buffer_data b @ pushed ops"
  using assms by (rule bq.queue_run_stream)

theorem Buffer_stream_witness:
  "\<exists>b' out. queue_run Buffer_Push Buffer_PopHead [QPush ''abc'', QPop 2, QPush ''de'', QPop 8] Buffer_new
     = Some (b', out) \<and> Buffer_ok b' \<and> out @ Buffer_data b' = ''abcde''"
proof -
  let ?ops = "[QPush ''abc'', QPop 2, QPush ''de'', QPop 8]"
  have "length (pushed ?ops) + 8 \<le> Buffer_room Buffer_new" "pops_within 8 ?ops"
    by (simp_all add: Buffer_room_def Buffer_new_def)
  from Buffer_stream [OF Buffer_new_ok(1) this] show ?thesis by (simp only: Buffer_new_ok pushed.simps append.simps)
qed

end
