(* ===== verification/Net_Socket.thy ===== *)
theory Net_Socket
  imports Prelude
begin

unbundle bit_operations_syntax

text \<open>
  \<^verbatim>\<open>src/net/common/tcp/socket.h\<close> and \<^verbatim>\<open>socket.cpp\<close>: the wrapper around
  the socket system calls.  The calls themselves belong to the kernel; a method is modelled as the
  function from the results of its calls (return value, \<^verbatim>\<open>errno\<close>, out-parameters) to
  what it reports, together with the arguments it passes.  \<open>strerror\<close> is a parameter.

  An \<^verbatim>\<open>int\<close> result is an \<open>int\<close>; the file status flags are a 32-bit word; a duration
  is a 64-bit word.
\<close>

section \<open>The socket and its error messages\<close>

record Socket =
  sfd :: int
  addr :: string
  port :: int

definition EAGAIN :: int where "EAGAIN = 11"
definition EINPROGRESS :: int where "EINPROGRESS = 115"
definition O_NONBLOCK :: u32 where "O_NONBLOCK = 2048"
definition BackLog :: int where "BackLog = 522"

definition formatErrMsg :: "(int \<Rightarrow> string) \<Rightarrow> string \<Rightarrow> int \<Rightarrow> errmsg" where
  "formatErrMsg strerror option result = ''call sys '' @ option @ '' failed: '' @ strerror result"

text \<open>Both constructors log at level FATAL, which aborts, when the descriptor is negative.\<close>

definition Socket_new :: "int \<Rightarrow> Socket option" where
  "Socket_new f = (if f < 0 then None else Some \<lparr>sfd = f, addr = [], port = 0\<rparr>)"

text \<open>The destructor: the descriptor it closes, if any.\<close>

definition Socket_destroy :: "Socket \<Rightarrow> int option" where
  "Socket_destroy s = (if sfd s \<noteq> 0 then Some (sfd s) else None)"

section \<open>Calls of the acceptor and the connector\<close>

definition Socket_Bind :: "(int \<Rightarrow> string) \<Rightarrow> int \<Rightarrow> errmsg" where
  "Socket_Bind strerror result = (if result < 0 then formatErrMsg strerror ''bind'' result else '''')"

definition Socket_Listen :: "(int \<Rightarrow> string) \<Rightarrow> int \<Rightarrow> errmsg" where
  "Socket_Listen strerror result = (if result < 0 then formatErrMsg strerror ''listen'' result else '''')"

definition Socket_Accept :: "(int \<Rightarrow> string) \<Rightarrow> int \<Rightarrow> int \<Rightarrow> int \<times> errmsg" where
  "Socket_Accept strerror newFd errno =
     (newFd, if newFd < 0 \<and> errno \<noteq> EAGAIN then formatErrMsg strerror ''accpet'' errno else '''')"

definition Socket_Connect ::
    "(int \<Rightarrow> string) \<Rightarrow> string \<Rightarrow> int \<Rightarrow> int \<Rightarrow> int \<Rightarrow> Socket \<Rightarrow> Socket \<times> errmsg" where
  "Socket_Connect strerror a p result errno s =
     (s\<lparr>addr := a, port := p\<rparr>,
      if result < 0 then if errno = EINPROGRESS then '''' else formatErrMsg strerror ''connect'' errno
      else '''')"

text \<open>\<open>showInt\<close> stands for \<^verbatim>\<open>std::to_string\<close>.\<close>

definition Socket_CheckConnect ::
    "(int \<Rightarrow> string) \<Rightarrow> (int \<Rightarrow> string) \<Rightarrow> int \<Rightarrow> int \<Rightarrow> Socket \<Rightarrow> errmsg" where
  "Socket_CheckConnect strerror showInt result error s =
     (if result < 0 \<or> error \<noteq> 0 then
        let result = (if error \<noteq> 0 then error else result) in
        if addr s \<noteq> [] then
          formatErrMsg strerror (addr s @ '':'' @ showInt (port s) @ '' connected'') result
        else formatErrMsg strerror ''getsockopt SO_ERROR'' result
      else '''')"

section \<open>Reading and writing\<close>

definition Socket_Read :: "(int \<Rightarrow> string) \<Rightarrow> int \<Rightarrow> int \<Rightarrow> int \<times> errmsg" where
  "Socket_Read strerror result errno =
     (result, if result < 0 \<and> errno \<noteq> EAGAIN then formatErrMsg strerror ''read'' errno else '''')"

definition Socket_Write :: "(int \<Rightarrow> string) \<Rightarrow> int \<Rightarrow> int \<Rightarrow> int \<times> errmsg" where
  "Socket_Write strerror result errno =
     (result, if result < 0 \<and> errno \<noteq> EAGAIN then formatErrMsg strerror ''read'' errno else '''')"

definition Socket_GetLocalIp :: "(int \<Rightarrow> string) \<Rightarrow> int \<Rightarrow> string option \<Rightarrow> string \<Rightarrow> errmsg \<times> string" where
  "Socket_GetLocalIp strerror result printed ip =
     (if result < 0 then (formatErrMsg strerror ''getsockname'' result, ip)
      else case printed of
             None \<Rightarrow> (formatErrMsg strerror ''inet_ntop'' 1, ip)
           | Some p \<Rightarrow> ('''', p))"

section \<open>Options\<close>

text \<open>
  \<open>getfl\<close> is what \<^verbatim>\<open>fcntl(F_GETFL)\<close> returned; the result is the argument of
  \<^verbatim>\<open>fcntl(F_SETFL)\<close>, if that is reached, and the error.  Note the second check: it looks at
  \<open>flags\<close> once more, not at \<open>setfl\<close>, the result of the second call.
\<close>

definition Socket_SetBlockWithFlag ::
    "(int \<Rightarrow> string) \<Rightarrow> bool \<Rightarrow> u32 \<Rightarrow> int \<Rightarrow> u32 option \<times> errmsg" where
  "Socket_SetBlockWithFlag strerror block getfl setfl =
     (let flags = getfl in
      if sint flags < 0 then (None, formatErrMsg strerror ''fctnl F_GETFL'' (sint flags))
      else
        let flags = (if \<not> block then flags OR O_NONBLOCK else flags AND NOT O_NONBLOCK);
            result = setfl in
        (Some flags, if sint flags < 0 then formatErrMsg strerror ''fctnl F_SETFL'' (sint flags) else ''''))"

definition Socket_SetBlock :: "(int \<Rightarrow> string) \<Rightarrow> u32 \<Rightarrow> int \<Rightarrow> u32 option \<times> errmsg" where
  "Socket_SetBlock strerror = Socket_SetBlockWithFlag strerror True"

definition Socket_SetNoblock :: "(int \<Rightarrow> string) \<Rightarrow> u32 \<Rightarrow> int \<Rightarrow> u32 option \<times> errmsg" where
  "Socket_SetNoblock strerror = Socket_SetBlockWithFlag strerror False"

text \<open>The value written to \<^verbatim>\<open>TCP_NODELAY\<close>, and the error.\<close>

definition Socket_SetDelayWithFlag :: "(int \<Rightarrow> string) \<Rightarrow> bool \<Rightarrow> int \<Rightarrow> int \<Rightarrow> int \<times> errmsg" where
  "Socket_SetDelayWithFlag strerror delay result errno =
     (let val = (if delay then 1 else 0) in
      (val, if result < 0 then formatErrMsg strerror ''setsockopt TCP_NODELAY'' errno else ''''))"

definition Socket_SetDelay :: "(int \<Rightarrow> string) \<Rightarrow> int \<Rightarrow> int \<Rightarrow> int \<times> errmsg" where
  "Socket_SetDelay strerror = Socket_SetDelayWithFlag strerror True"

definition Socket_SetNoDelay :: "(int \<Rightarrow> string) \<Rightarrow> int \<Rightarrow> int \<Rightarrow> int \<times> errmsg" where
  "Socket_SetNoDelay strerror = Socket_SetDelayWithFlag strerror False"

definition Socket_SetReuseAddr :: "(int \<Rightarrow> string) \<Rightarrow> int \<Rightarrow> errmsg" where
  "Socket_SetReuseAddr strerror result =
     (if result < 0 then formatErrMsg strerror ''setsockopt SO_REUSEADDR'' result else '''')"

definition Socket_SetNoTimewait :: "(int \<Rightarrow> string) \<Rightarrow> int \<Rightarrow> errmsg" where
  "Socket_SetNoTimewait strerror result =
     (if result < 0 then formatErrMsg strerror ''setsockopt SO_LINGER'' result else '''')"

text \<open>Seconds and microseconds of the receive timeout, and the error.\<close>

definition Socket_SetRcvTimeout :: "(int \<Rightarrow> string) \<Rightarrow> u64 \<Rightarrow> int \<Rightarrow> int \<Rightarrow> (u64 \<times> u64) \<times> errmsg" where
  "Socket_SetRcvTimeout strerror ms result errno =
     ((ms div 1000, ms mod 1000 * 1000),
      if result < 0 then formatErrMsg strerror ''setsockopt SO_LINGER'' errno else '''')"

lemmas Socket_defs [model_defs] =
  Socket_new_def Socket_Read_def Socket_Write_def Socket_Accept_def Socket_Connect_def
  Socket_CheckConnect_def Socket_SetBlockWithFlag_def Socket_SetBlock_def Socket_SetNoblock_def
  Socket_SetDelayWithFlag_def Socket_SetDelay_def Socket_SetNoDelay_def

lemma formatErrMsg_nonempty [simp]: "formatErrMsg strerror o' r \<noteq> ''''"
  by (simp add: formatErrMsg_def)

lemma Socket_Read_cases:
  "Socket_Read strerror r e = (c, m) \<Longrightarrow> c = r \<and> (m = '''' \<longleftrightarrow> 0 \<le> r \<or> e = EAGAIN)"
  by (auto simp: Socket_Read_def split: if_splits)

lemma Socket_Write_cases:
  "Socket_Write strerror r e = (c, m) \<Longrightarrow> c = r \<and> (m = '''' \<longleftrightarrow> 0 \<le> r \<or> e = EAGAIN)"
  by (auto simp: Socket_Write_def split: if_splits)

lemma sint_nonneg_bit31: "0 \<le> sint (w :: u32) \<longleftrightarrow> \<not> bit w 31"
  by (simp add: sint_uint bit_uint_iff signed_take_bit_nonnegative_iff)

lemma bit_O_NONBLOCK: "bit O_NONBLOCK n \<longleftrightarrow> n = 11"
proof -
  have "(2048 :: u32) = 2 ^ 11" by simp
  then show ?thesis unfolding O_NONBLOCK_def by (simp only: bit_exp_iff possible_bit_word) auto
qed

section \<open>Properties\<close>

text \<open>
  \<^verbatim>\<open>SetNoblock\<close> and \<^verbatim>\<open>SetBlock\<close> set and clear exactly the
  non-blocking bit of the descriptor's flags and keep every other bit, whenever the flags could be
  read; the argument of the second \<^verbatim>\<open>fcntl\<close> is right even though its result
  is never looked at: whether it succeeds or fails, no error is reported.
\<close>

theorem Socket_SetBlock_flags:
  assumes "0 \<le> sint getfl"
  shows "(\<exists>fl. Socket_SetNoblock strerror getfl setfl = (Some fl, '''') \<and>
            (\<forall>n. bit fl n \<longleftrightarrow> bit getfl n \<or> n = 11)) \<and>
         (\<exists>fl. Socket_SetBlock strerror getfl setfl = (Some fl, '''') \<and>
            (\<forall>n. bit fl n \<longleftrightarrow> bit getfl n \<and> n \<noteq> 11))"
proof -
  have s: "\<not> bit getfl 31" using assms unfolding sint_nonneg_bit31 .
  then have "0 \<le> sint (getfl OR O_NONBLOCK)" "0 \<le> sint (getfl AND NOT O_NONBLOCK)"
    unfolding sint_nonneg_bit31 by (simp_all add: bit_or_iff bit_and_iff bit_O_NONBLOCK)
  with assms show ?thesis
    by (auto simp: Socket_SetNoblock_def Socket_SetBlock_def Socket_SetBlockWithFlag_def Let_def not_less
        bit_or_iff bit_and_iff bit_not_iff bit_O_NONBLOCK dest: bit_imp_le_length)
qed

theorem Socket_SetBlock_flags_witness:
  "\<exists>fl. Socket_SetNoblock (\<lambda>_. ''e'') 2 (-1) = (Some fl, '''') \<and> (\<forall>n. bit fl n \<longleftrightarrow> bit (2::u32) n \<or> n = 11)"
  using Socket_SetBlock_flags [of 2 "\<lambda>_. ''e''" "-1"] by simp

text \<open>
  \<^verbatim>\<open>SetNoDelay\<close> switches \<^verbatim>\<open>TCP_NODELAY\<close> \<^emph>\<open>off\<close> and
  \<^verbatim>\<open>SetDelay\<close> switches it on, the opposite of their names, whatever the call returns: an
  accepted connection, for which \<^verbatim>\<open>SetNoDelay\<close> is called, keeps Nagle's delay.
\<close>

theorem Socket_SetNoDelay_inverted:
  "fst (Socket_SetNoDelay strerror result errno) = 0 \<and> fst (Socket_SetDelay strerror result errno) = 1 \<and>
   (snd (Socket_SetNoDelay strerror result errno) = '''' \<longleftrightarrow> 0 \<le> result)"
  by (simp add: Socket_SetDelay_def Socket_SetNoDelay_def Socket_SetDelayWithFlag_def not_less)

end
