(* ===== verification/Async_Timer.thy ===== *)
theory Async_Timer
  imports Prelude
begin

text \<open>
  One-shot callbacks: \<^verbatim>\<open>Asyncer\<close> (\<^verbatim>\<open>src/net/common/asyncer\<close>), which
  runs a handler in the loop thread, and \<^verbatim>\<open>Timer\<close>
  (\<^verbatim>\<open>src/net/common/timer\<close>), which uses an asyncer to reach the loop and then
  registers a deadline with the timer poller.

  Every method of the two classes calls a handler only as its last action, so a handler that calls
  back into the object is the same as the next operation of a history; operations therefore return
  the handler calls they make, as pairs of handler and error string.  Calling an empty
  \<^verbatim>\<open>std::function\<close> throws; that is \<open>None\<close>.  The data member \<^verbatim>\<open>done_\<close>
  is not initialised by the constructors, so the models start with an arbitrary value of it.
\<close>

section \<open>Asyncer\<close>

type_synonym 'h calls = "('h \<times> errmsg) list"

text \<open>\<open>a_event\<close> is the read-notification flag of \<^verbatim>\<open>event_\<close>, or no event yet.\<close>

record 'h Asyncer =
  a_handler :: "'h option"
  a_event :: "bool option"
  a_done :: bool
  a_used :: bool

definition Asyncer_new :: "bool \<Rightarrow> 'h Asyncer" where
  "Asyncer_new garbage = \<lparr>a_handler = None, a_event = None, a_done = garbage, a_used = False\<rparr>"

definition call_handler :: "'h option \<Rightarrow> errmsg \<Rightarrow> 'h calls option" where
  "call_handler h msg = map_option (\<lambda>h. [(h, msg)]) h"

definition Asyncer_Cancel :: "'h Asyncer \<Rightarrow> ('h Asyncer \<times> 'h calls) option" where
  "Asyncer_Cancel a =
     (if a_event a = None then Some (a, [])
      else let a = a\<lparr>a_event := Some False\<rparr> in
        if \<not> a_done a
        then map_option (Pair (a\<lparr>a_done := True\<rparr>)) (call_handler (a_handler a) ''Asyncer Canceled'')
        else Some (a, []))"

definition Asyncer_AsyncDo :: "'h \<Rightarrow> 'h Asyncer \<Rightarrow> ('h Asyncer \<times> 'h calls) option" where
  "Asyncer_AsyncDo h a =
     (if a_used a then Some (a, [(h, ''Asyncer can't reuse'')])
      else let a = a\<lparr>a_used := True, a_done := False\<rparr> in
        case Asyncer_Cancel a of
          None \<Rightarrow> None
        | Some (a, cs) \<Rightarrow> Some (a\<lparr>a_handler := Some h, a_event := Some True\<rparr>, cs))"

text \<open>The read callback of the event; the loop runs it only while the notification is on.\<close>

definition Asyncer_fire :: "'h Asyncer \<Rightarrow> ('h Asyncer \<times> 'h calls) option" where
  "Asyncer_fire a =
     (if a_event a \<noteq> Some True then Some (a, [])
      else let a = a\<lparr>a_event := Some False\<rparr> in
        if \<not> a_done a then map_option (Pair (a\<lparr>a_done := True\<rparr>)) (call_handler (a_handler a) '''')
        else Some (a, []))"

definition Asyncer_destroy :: "'h Asyncer \<Rightarrow> 'h calls" where
  "Asyncer_destroy a =
     (case a_handler a of Some h \<Rightarrow> if \<not> a_done a then [(h, ''Asyncer Canceled'')] else [] | None \<Rightarrow> [])"

lemmas Asyncer_defs [model_defs] =
  Asyncer_new_def Asyncer_Cancel_def Asyncer_AsyncDo_def Asyncer_fire_def Asyncer_destroy_def
  call_handler_def

subsection \<open>Histories\<close>

datatype 'h asyncer_op = ADo 'h | AFire | ACancel

fun Asyncer_op :: "'h asyncer_op \<Rightarrow> 'h Asyncer \<Rightarrow> ('h Asyncer \<times> 'h calls) option" where
  "Asyncer_op (ADo h) = Asyncer_AsyncDo h"
| "Asyncer_op AFire = Asyncer_fire"
| "Asyncer_op ACancel = Asyncer_Cancel"

text \<open>A whole life: the operations, then the destructor.\<close>

fun Asyncer_life :: "'h asyncer_op list \<Rightarrow> 'h Asyncer \<Rightarrow> 'h calls option" where
  "Asyncer_life [] a = Some (Asyncer_destroy a)"
| "Asyncer_life (x # xs) a =
     (case Asyncer_op x a of None \<Rightarrow> None | Some (a, cs) \<Rightarrow> map_option ((@) cs) (Asyncer_life xs a))"

text \<open>What the handler should hear: the first of run and cancel decides; destruction cancels.\<close>

fun asyncer_outcome :: "'h asyncer_op list \<Rightarrow> errmsg" where
  "asyncer_outcome [] = ''Asyncer Canceled''"
| "asyncer_outcome (AFire # _) = ''''"
| "asyncer_outcome (ACancel # _) = ''Asyncer Canceled''"
| "asyncer_outcome (ADo _ # xs) = asyncer_outcome xs"

definition not_reuse :: "'h \<times> errmsg \<Rightarrow> bool" where
  "not_reuse c \<longleftrightarrow> snd c \<noteq> ''Asyncer can't reuse'' \<and> snd c \<noteq> ''Timer can't reuse''"

lemma not_reuse_simps [simp]:
  "not_reuse (h, '''')"
  "not_reuse (h, ''Asyncer Canceled'')"
  "not_reuse (h, ''Timer Canceled'')"
  "\<not> not_reuse (h, ''Asyncer can't reuse'')"
  "\<not> not_reuse (h, ''Timer can't reuse'')"
  by (simp_all add: not_reuse_def)

lemma Asyncer_life_done:
  "a_used a \<Longrightarrow> a_done a \<Longrightarrow> a_handler a = Some h \<Longrightarrow> \<exists>cs. Asyncer_life xs a = Some cs \<and> filter not_reuse cs = []"
proof (induction xs arbitrary: a)
  case (Cons x xs)
  have "\<exists>a' cs. Asyncer_op x a = Some (a', cs) \<and> filter not_reuse cs = [] \<and>
    a_used a' \<and> a_done a' \<and> a_handler a' = Some h"
    using Cons.prems by (cases x; cases "a_event a") (simp_all add: Asyncer_defs Let_def)
  then obtain a' cs where "Asyncer_op x a = Some (a', cs)" "filter not_reuse cs = []"
    "a_used a'" "a_done a'" "a_handler a' = Some h" by blast
  with Cons.IH [of a'] show ?case by auto
qed (simp add: Asyncer_destroy_def)

lemma Asyncer_life_armed:
  "a_used a \<Longrightarrow> \<not> a_done a \<Longrightarrow> a_handler a = Some h \<Longrightarrow> a_event a = Some True \<Longrightarrow>
     \<exists>cs. Asyncer_life xs a = Some cs \<and> filter not_reuse cs = [(h, asyncer_outcome xs)]"
proof (induction xs)
  case Nil
  then show ?case by (simp add: Asyncer_destroy_def)
next
  case (Cons x xs)
  show ?case
  proof (cases x)
    case (ADo h')
    with Cons show ?thesis by (auto simp: Asyncer_AsyncDo_def)
  next
    case AFire
    with Cons.prems Asyncer_life_done [of "a\<lparr>a_event := Some False, a_done := True\<rparr>" h xs] show ?thesis
      by (auto simp: Asyncer_fire_def call_handler_def)
  next
    case ACancel
    with Cons.prems Asyncer_life_done [of "a\<lparr>a_event := Some False, a_done := True\<rparr>" h xs] show ?thesis
      by (auto simp: Asyncer_Cancel_def call_handler_def)
  qed
qed

section \<open>Timer\<close>

text \<open>\<open>t_event\<close>: the deadline and the read-notification flag of \<^verbatim>\<open>event_\<close>.  The asyncer's
  handler is the closure over the delay and the user's handler.\<close>

record 'h Timer =
  t_handler :: "'h option"
  t_event :: "(int \<times> bool) option"
  t_asyncer :: "(u64 \<times> 'h) Asyncer option"
  t_done :: bool
  t_used :: bool

definition Timer_new :: "bool \<Rightarrow> 'h Timer" where
  "Timer_new garbage = \<lparr>t_handler = None, t_event = None, t_asyncer = None, t_done = garbage, t_used = False\<rparr>"

text \<open>The deadline: 64-bit unsigned sum, stored in the event's \<^verbatim>\<open>int64_t\<close>.\<close>

definition timer_deadline :: "u64 \<Rightarrow> u64 \<Rightarrow> int" where
  "timer_deadline now ms = sint (now + ms)"

text \<open>The lambda \<^verbatim>\<open>AsyncWait\<close> hands to the asyncer, run at time \<open>now\<close>.\<close>

definition Timer_onLoop :: "u64 \<Rightarrow> (u64 \<times> 'h) \<times> errmsg \<Rightarrow> 'h Timer \<Rightarrow> 'h Timer \<times> 'h calls" where
  "Timer_onLoop now c t =
     (let ((ms, h), errMsg) = c in
      if errMsg \<noteq> '''' then
        (if \<not> t_done t then (t\<lparr>t_done := True\<rparr>, [(h, errMsg)]) else (t, []))
      else (t\<lparr>t_event := Some (timer_deadline now ms, True)\<rparr>, []))"

fun Timer_onLoops :: "u64 \<Rightarrow> (u64 \<times> 'h) calls \<Rightarrow> 'h Timer \<Rightarrow> 'h Timer \<times> 'h calls" where
  "Timer_onLoops now [] t = (t, [])"
| "Timer_onLoops now (c # cs) t =
     (let (t, o1) = Timer_onLoop now c t; (t, o2) = Timer_onLoops now cs t in (t, o1 @ o2))"

definition Timer_cancel :: "'h Timer \<Rightarrow> ('h Timer \<times> 'h calls) option" where
  "Timer_cancel t =
     (case (case t_asyncer t of
              None \<Rightarrow> Some (t, [])
            | Some a \<Rightarrow>
                (case Asyncer_Cancel a of
                   None \<Rightarrow> None
                 | Some (a, cs) \<Rightarrow> Some (Timer_onLoops 0 cs (t\<lparr>t_asyncer := Some a\<rparr>))))
      of None \<Rightarrow> None
       | Some (t, cs) \<Rightarrow>
           (case t_event t of
              None \<Rightarrow> Some (t, cs)
            | Some (d, _) \<Rightarrow>
                let t = t\<lparr>t_event := Some (d, False)\<rparr> in
                (case t_handler t of
                   Some h \<Rightarrow> if \<not> t_done t then Some (t\<lparr>t_done := True\<rparr>, cs @ [(h, ''Timer Canceled'')])
                             else Some (t, cs)
                 | None \<Rightarrow> Some (t, cs))))"

definition Timer_AsyncWait :: "bool \<Rightarrow> u64 \<Rightarrow> 'h \<Rightarrow> 'h Timer \<Rightarrow> ('h Timer \<times> 'h calls) option" where
  "Timer_AsyncWait garbage ms h t =
     (if t_used t then Some (t, [(h, ''Timer can't reuse'')])
      else let t = t\<lparr>t_used := True, t_done := False\<rparr> in
        case Timer_cancel t of
          None \<Rightarrow> None
        | Some (t, cs) \<Rightarrow>
            (case Asyncer_AsyncDo (ms, h) (Asyncer_new garbage) of
               None \<Rightarrow> None
             | Some (a, acs) \<Rightarrow>
                 (let (t, cs') = Timer_onLoops 0 acs (t\<lparr>t_handler := Some h, t_asyncer := Some a\<rparr>)
                  in Some (t, cs @ cs'))))"

text \<open>The loop thread runs the asyncer's event at time \<open>now\<close>.\<close>

definition Timer_asyncFire :: "u64 \<Rightarrow> 'h Timer \<Rightarrow> ('h Timer \<times> 'h calls) option" where
  "Timer_asyncFire now t =
     (case t_asyncer t of
        None \<Rightarrow> Some (t, [])
      | Some a \<Rightarrow>
          (case Asyncer_fire a of
             None \<Rightarrow> None
           | Some (a, cs) \<Rightarrow> Some (Timer_onLoops now cs (t\<lparr>t_asyncer := Some a\<rparr>))))"

text \<open>The timer event's read callback; the loop runs it once the poller has found it due.\<close>

definition Timer_fire :: "int \<Rightarrow> 'h Timer \<Rightarrow> ('h Timer \<times> 'h calls) option" where
  "Timer_fire now t =
     (case t_event t of
        Some (d, True) \<Rightarrow>
          if d \<le> now then
            (let t = t\<lparr>t_event := Some (d, False)\<rparr> in
             if \<not> t_done t then map_option (Pair (t\<lparr>t_done := True\<rparr>)) (call_handler (t_handler t) '''')
             else Some (t, []))
          else Some (t, [])
      | _ \<Rightarrow> Some (t, []))"

text \<open>The destructor.  The asyncer dies with the timer, but its closure holds a weak pointer to the
  timer that no longer locks, so it reports nothing.\<close>

definition Timer_destroy :: "'h Timer \<Rightarrow> 'h calls" where
  "Timer_destroy t =
     (case t_handler t of Some h \<Rightarrow> if \<not> t_done t then [(h, ''Timer Canceled'')] else [] | None \<Rightarrow> [])"

lemmas Timer_defs [model_defs] =
  Timer_new_def Timer_onLoop_def Timer_cancel_def Timer_AsyncWait_def Timer_asyncFire_def
  Timer_fire_def Timer_destroy_def

subsection \<open>Histories\<close>

datatype 'h timer_op = TWait bool u64 'h | TLoop u64 | TFire int | TCancel

fun Timer_op :: "'h timer_op \<Rightarrow> 'h Timer \<Rightarrow> ('h Timer \<times> 'h calls) option" where
  "Timer_op (TWait g ms h) = Timer_AsyncWait g ms h"
| "Timer_op (TLoop now) = Timer_asyncFire now"
| "Timer_op (TFire now) = Timer_fire now"
| "Timer_op TCancel = Timer_cancel"

fun Timer_life :: "'h timer_op list \<Rightarrow> 'h Timer \<Rightarrow> 'h calls option" where
  "Timer_life [] t = Some (Timer_destroy t)"
| "Timer_life (x # xs) t =
     (case Timer_op x t of None \<Rightarrow> None | Some (t, cs) \<Rightarrow> map_option ((@) cs) (Timer_life xs t))"

text \<open>
  What the handler should hear.  Before the loop has picked the request up (\<open>timer_outcome ms None\<close>)
  a cancel is reported as the asyncer's; afterwards there is a deadline, and the first of a cancel
  and a sufficiently late firing decides.
\<close>

fun timer_outcome :: "u64 \<Rightarrow> int option \<Rightarrow> 'h timer_op list \<Rightarrow> errmsg" where
  "timer_outcome ms d [] = ''Timer Canceled''"
| "timer_outcome ms d (TWait _ _ _ # xs) = timer_outcome ms d xs"
| "timer_outcome ms None (TLoop now # xs) = timer_outcome ms (Some (timer_deadline now ms)) xs"
| "timer_outcome ms (Some d) (TLoop now # xs) = timer_outcome ms (Some d) xs"
| "timer_outcome ms None (TFire now # xs) = timer_outcome ms None xs"
| "timer_outcome ms (Some d) (TFire now # xs) = (if d \<le> now then '''' else timer_outcome ms (Some d) xs)"
| "timer_outcome ms None (TCancel # xs) = ''Asyncer Canceled''"
| "timer_outcome ms (Some d) (TCancel # xs) = ''Timer Canceled''"

definition timer_finished :: "'h \<Rightarrow> 'h Timer \<Rightarrow> bool" where
  "timer_finished h t \<longleftrightarrow> t_used t \<and> t_done t \<and> t_handler t = Some h \<and>
     (\<exists>a. t_asyncer t = Some a \<and> (\<exists>b. a_event a = Some b) \<and> a_handler a \<noteq> None \<and> (a_done a \<or> a_event a = Some True))"

definition timer_armed :: "u64 \<Rightarrow> 'h \<Rightarrow> int option \<Rightarrow> 'h Timer \<Rightarrow> bool" where
  "timer_armed ms h d t \<longleftrightarrow> t_used t \<and> \<not> t_done t \<and> t_handler t = Some h \<and>
     t_event t = map_option (\<lambda>d. (d, True)) d \<and>
     t_asyncer t = Some \<lparr>a_handler = Some (ms, h), a_event = Some (d = None), a_done = (d \<noteq> None), a_used = True\<rparr>"

lemma Timer_op_finished:
  assumes "timer_finished h t"
  shows "\<exists>t' cs. Timer_op x t = Some (t', cs) \<and> timer_finished h t' \<and> filter not_reuse cs = []"
  using assms
  by (cases x; cases "t_event t")
     (auto simp: timer_finished_def Timer_defs Asyncer_defs Let_def
        split: option.splits bool.splits prod.splits)

lemma Timer_life_finished:
  "timer_finished h t \<Longrightarrow> \<exists>cs. Timer_life xs t = Some cs \<and> filter not_reuse cs = []"
proof (induction xs arbitrary: t)
  case Nil
  then show ?case by (simp add: timer_finished_def Timer_destroy_def)
next
  case (Cons x xs)
  from Timer_op_finished [OF Cons.prems, of x] obtain t' cs where
    "Timer_op x t = Some (t', cs)" "timer_finished h t'" "filter not_reuse cs = []"
    by blast
  with Cons.IH [of t'] show ?case by auto
qed

text \<open>One operation on an armed timer either keeps it armed, silently, or settles it with one call.\<close>

lemma Timer_op_armed:
  assumes "timer_armed ms h d t"
  shows "(\<exists>t' cs d'. Timer_op x t = Some (t', cs) \<and> filter not_reuse cs = [] \<and> timer_armed ms h d' t' \<and>
            (\<forall>xs. timer_outcome ms d (x # xs) = timer_outcome ms d' xs)) \<or>
         (\<exists>t' cs m. Timer_op x t = Some (t', cs) \<and> filter not_reuse cs = [(h, m)] \<and> timer_finished h t' \<and>
            (\<forall>xs. timer_outcome ms d (x # xs) = m))"
proof (cases x)
  case (TLoop now)
  show ?thesis
  proof (cases d)
    case None
    with assms TLoop show ?thesis
      by (intro disjI1) (auto simp: timer_armed_def Timer_defs Asyncer_defs intro!: exI [of _ "Some (timer_deadline now ms)"])
  next
    case (Some e)
    with assms TLoop have "Timer_op x t = Some (t, [])"
      by (auto simp: timer_armed_def Timer_defs Asyncer_defs)
    with assms TLoop Some show ?thesis
      by (intro disjI1) (auto intro!: exI [of _ "Some e"])
  qed
next
  case (TFire now)
  show ?thesis
  proof (cases "\<exists>e. d = Some e \<and> e \<le> now")
    case True
    with assms TFire show ?thesis
      by (auto simp: timer_armed_def timer_finished_def Timer_defs Asyncer_defs)
  next
    case False
    with assms TFire have "Timer_op x t = Some (t, [])"
      by (cases d) (auto simp: timer_armed_def Timer_defs)
    moreover have "\<forall>xs. timer_outcome ms d (x # xs) = timer_outcome ms d xs"
      using False TFire by (cases d) auto
    ultimately show ?thesis using assms by (metis filter.simps(1))
  qed
qed (use assms in \<open>cases d; force simp: timer_armed_def timer_finished_def Timer_defs Asyncer_defs\<close>)+

lemma Timer_life_armed:
  "timer_armed ms h d t \<Longrightarrow> \<exists>cs. Timer_life xs t = Some cs \<and> filter not_reuse cs = [(h, timer_outcome ms d xs)]"
proof (induction xs arbitrary: t d)
  case Nil
  then show ?case by (auto simp: timer_armed_def Timer_destroy_def)
next
  case (Cons x xs)
  from Timer_op_armed [OF Cons.prems, of x] show ?case
  proof (elim disjE exE conjE)
    fix t' cs d'
    assume "Timer_op x t = Some (t', cs)" "filter not_reuse cs = []" "timer_armed ms h d' t'"
      "\<forall>xs. timer_outcome ms d (x # xs) = timer_outcome ms d' xs"
    with Cons.IH [of d' t'] show ?thesis by auto
  next
    fix t' cs m
    assume "Timer_op x t = Some (t', cs)" "filter not_reuse cs = [(h, m)]" "timer_finished h t'"
      "\<forall>xs. timer_outcome ms d (x # xs) = m"
    with Timer_life_finished [of h t' xs] show ?thesis by auto
  qed
qed

lemma Timer_AsyncWait_armed:
  "Timer_AsyncWait g ms h (Timer_new g') = Some (t, cs) \<Longrightarrow> cs = [] \<and> timer_armed ms h None t"
  by (auto simp: Timer_defs Asyncer_defs timer_armed_def)

lemma Timer_AsyncWait_returns: "\<exists>t cs. Timer_AsyncWait g ms h (Timer_new g') = Some (t, cs)"
  by (simp add: Timer_defs Asyncer_defs)

lemma Timer_life_once:
  "\<exists>cs. Timer_life (TWait g ms h # xs) (Timer_new g') = Some cs \<and>
        filter not_reuse cs = [(h, timer_outcome ms None xs)]"
proof -
  obtain t where w: "Timer_AsyncWait g ms h (Timer_new g') = Some (t, [])" "timer_armed ms h None t"
    using Timer_AsyncWait_armed Timer_AsyncWait_returns by metis
  from Timer_life_armed [OF w(2)] w(1) show ?thesis by auto
qed

text \<open>Success implies that the loop had picked the request up and a firing at or after the deadline.\<close>

lemma timer_outcome_success:
  "timer_outcome ms d xs = '''' \<Longrightarrow>
     \<exists>d' now. TFire now \<in> set xs \<and> d' \<le> now \<and>
       (d = Some d' \<or> d = None \<and> (\<exists>start. TLoop start \<in> set xs \<and> d' = timer_deadline start ms))"
  by (induction ms d xs rule: timer_outcome.induct) (auto split: if_splits)

section \<open>Properties\<close>

text \<open>
  An asyncer's handler is called exactly once in its life, whatever mixture of running,
  cancelling, attempted reuse and destruction follows: with the empty error if the loop ran it before
  any cancel, and with \<^verbatim>\<open>Asyncer Canceled\<close> otherwise.  (Calls that only report a
  forbidden reuse to the second handler are left out of the count.)
\<close>

theorem Asyncer_exactly_once:
  "\<exists>cs. Asyncer_life (ADo h # xs) (Asyncer_new garbage) = Some cs \<and>
        filter not_reuse cs = [(h, asyncer_outcome xs)]"
  using Asyncer_life_armed
    [of "\<lparr>a_handler = Some h, a_event = Some True, a_done = False, a_used = True\<rparr>" h xs]
  by (auto simp: Asyncer_new_def Asyncer_AsyncDo_def Asyncer_Cancel_def)

text \<open>
  A timer's handler is called exactly once in its life: with the empty error if it fired at or
  after its deadline before any cancel, with the cancellation message of the stage it was in
  otherwise; no history crashes.
\<close>

theorem Timer_exactly_once:
  "\<exists>cs. Timer_life (TWait g ms h # xs) (Timer_new g') = Some cs \<and>
        filter not_reuse cs = [(h, timer_outcome ms None xs)]"
  by (rule Timer_life_once)

text \<open>
  A timer never fires early: if its handler hears success, the loop picked the request up at
  some time \<open>start\<close> and fired it at a time not before \<open>start + ms\<close>.  The bound is the range of the
  signed 64-bit deadline.
\<close>

theorem Timer_never_early:
  assumes "Timer_life (TWait g ms h # xs) (Timer_new g') = Some cs" "(h, '''') \<in> set cs"
    and "\<forall>start. TLoop start \<in> set xs \<longrightarrow> unat start + unat ms < 2 ^ 63"
  shows "\<exists>start now. TLoop start \<in> set xs \<and> TFire now \<in> set xs \<and> int (unat start) + int (unat ms) \<le> now"
proof -
  from Timer_life_once [of g ms h xs g'] assms(1)
  have "filter not_reuse cs = [(h, timer_outcome ms None xs)]" by simp
  moreover have "(h, '''') \<in> set (filter not_reuse cs)" using assms(2) by (simp add:)
  ultimately have "timer_outcome ms None xs = ''''" by simp
  from timer_outcome_success [OF this] obtain start now where
    s: "TLoop start \<in> set xs" "TFire now \<in> set xs" "timer_deadline start ms \<le> now"
    by auto
  from s(1) assms(3) have lt: "unat start + unat ms < 2 ^ 63" by blast
  then have u: "unat (start + ms) = unat start + unat ms"
    by (intro unat_add_exact) simp
  have "timer_deadline start ms = int (unat start) + int (unat ms)"
    unfolding timer_deadline_def using u lt sint_eq_uint_63 [of "start + ms"] by simp
  with s show ?thesis by auto
qed

theorem Timer_never_early_witness:
  "\<exists>cs. Timer_life [TWait True 50 (7::nat), TLoop 1000, TFire 1049, TFire 1051, TCancel] (Timer_new True) = Some cs \<and>
     (7, '''') \<in> set cs \<and>
     (\<exists>start now. TLoop start \<in> set [TLoop 1000, TFire 1049, TFire 1051, TCancel :: nat timer_op] \<and>
        TFire now \<in> set [TLoop 1000, TFire 1049, TFire 1051, TCancel :: nat timer_op] \<and>
        int (unat start) + int (unat (50::u64)) \<le> now)"
proof -
  let ?xs = "[TLoop 1000, TFire 1049, TFire 1051, TCancel :: nat timer_op]"
  from Timer_life_once [of True 50 "7::nat" ?xs True] obtain cs where
    cs: "Timer_life (TWait True 50 7 # ?xs) (Timer_new True) = Some cs"
    "filter not_reuse cs = [(7, timer_outcome 50 None ?xs)]" by blast
  have "timer_outcome 50 None ?xs = ''''" by (simp add: timer_deadline_def)
  with cs(2) have m: "(7, '''') \<in> set cs" by (metis filter_is_subset list.set_intros(1) subsetD)
  have "\<forall>start. TLoop start \<in> set ?xs \<longrightarrow> unat start + unat (50::u64) < 2 ^ 63" by simp
  from Timer_never_early [OF cs(1) m this] cs(1) m show ?thesis by blast
qed

end
