(* ===== verification/Tcp_Connection.thy ===== *)
theory Tcp_Connection
  imports Byte_Buffer Net_Event Net_Socket Async_Timer
begin

text \<open>
  \<^verbatim>\<open>src/net/common/tcp/tcp_connection.h\<close> and \<^verbatim>\<open>tcp_connection.cpp\<close>.

  The user's callbacks may call back into the connection.  A callback is therefore a name with a
  script: the calls on the connection it makes.  Running a method is small-step: a definition
  executes the statements of a method up to the next callback and returns the frames that remain,
  innermost first (the C++ call stack).  \<open>None\<close> is a crash: a null \<^verbatim>\<open>event_\<close>, an empty
  \<^verbatim>\<open>std::function\<close>, or an access outside a buffer.

  The event's flags are those of \<open>Net_Event\<close>, the socket results go through \<open>Net_Socket\<close>, and the
  write request reaches the loop thread through the asyncer of \<open>Async_Timer\<close>.
\<close>

section \<open>State\<close>

datatype handler = Handler nat "cmd list"
  and cmd =
    CAsyncRead u64 handler
  | CAsyncReadAny handler
  | CAsyncWrite handler
  | CWriteBufferPush "char list"
  | CReadBufferPopHead u64
  | CFinish errmsg
  | CReset

text \<open>
  The fields after \<open>c_asyncer\<close> are a record of what the connection did: the callbacks it ran, the
  bytes pushed, the bytes given to the socket and how many \<^verbatim>\<open>write(2)\<close> calls it refused since the last
  \<^verbatim>\<open>Reset\<close>, how often the finish handler ran and how often \<^verbatim>\<open>Reset\<close> revived a
  finished connection.
\<close>

record connection =
  ReadBuffer :: Buffer
  WriteBuffer :: Buffer
  expectSize :: u64
  readedSize :: u64
  anyFlag :: bool
  finished :: bool
  userReadHandler :: "handler option"
  writeDone :: bool
  userWriteHandler :: "handler option"
  finishHandler :: "handler option"
  c_event :: "event option"
  c_asyncer :: "handler Asyncer option"
  ran :: "(handler \<times> errmsg) list"
  pushed_bytes :: "char list"
  sent_bytes :: "char list"
  refused :: nat
  finishes :: nat
  revivals :: nat

datatype frame =
    FCmds "cmd list"
  | FCall handler errmsg
  | FAsyncClosure handler errmsg
  | FAsyncDo handler
  | FFinish errmsg
  | FFinishWrite
  | FFinishEnd errmsg

type_synonym machine = "connection \<times> frame list"
type_synonym effect = "(connection \<times> frame list) option"

definition TcpConnection_new :: "event \<Rightarrow> handler \<Rightarrow> connection" where
  "TcpConnection_new e fin =
     \<lparr>ReadBuffer = Buffer_new, WriteBuffer = Buffer_new, expectSize = 0, readedSize = 0, anyFlag = False,
      finished = False, userReadHandler = None, writeDone = False, userWriteHandler = None,
      finishHandler = Some fin, c_event = Some e, c_asyncer = None,
      ran = [], pushed_bytes = [], sent_bytes = [], refused = 0, finishes = 0, revivals = 0\<rparr>"

section \<open>The methods\<close>

definition TcpConnection_ResetRead :: "connection \<Rightarrow> connection" where
  "TcpConnection_ResetRead c = c\<lparr>expectSize := 0, readedSize := 0\<rparr>"

definition TcpConnection_Reset :: "connection \<Rightarrow> connection" where
  "TcpConnection_Reset c = TcpConnection_ResetRead
     (c\<lparr>finished := False, userReadHandler := None, writeDone := False, userWriteHandler := None,
        anyFlag := False, ReadBuffer := Buffer_Reset (ReadBuffer c),
        WriteBuffer := Buffer_Reset (WriteBuffer c),
        pushed_bytes := [], sent_bytes := [], refused := 0,
        revivals := revivals c + (if finished c then 1 else 0)\<rparr>)"

text \<open>
  \<^verbatim>\<open>InitAccepted\<close> and \<^verbatim>\<open>InitConnected\<close>; \<open>e1\<close> and \<open>e2\<close> are what \<^verbatim>\<open>SetNoblock\<close>
  and \<^verbatim>\<open>SetNoDelay\<close> reported.
\<close>

definition TcpConnection_InitConnected :: "connection \<Rightarrow> (connection \<times> errmsg) option" where
  "TcpConnection_InitConnected c =
     (if finishHandler c = None then Some (c, ''invalid finish handler'')
      else map_option (\<lambda>e. (c\<lparr>c_event := Some (notify_flags EnableRead e)\<rparr>, '''')) (c_event c))"

definition TcpConnection_InitAccepted ::
    "errmsg \<Rightarrow> errmsg \<Rightarrow> connection \<Rightarrow> (connection \<times> errmsg) option" where
  "TcpConnection_InitAccepted e1 e2 c =
     (if finishHandler c = None then Some (c, ''invalid finish handler'')
      else if e1 \<noteq> '''' then Some (c, e1)
      else if e2 \<noteq> '''' then Some (c, e2)
      else map_option (\<lambda>e. (c\<lparr>c_event := Some (notify_flags EnableRead e)\<rparr>, '''')) (c_event c))"

definition TcpConnection_AsyncRead :: "u64 \<Rightarrow> handler \<Rightarrow> connection \<Rightarrow> effect" where
  "TcpConnection_AsyncRead expect h c =
     (let c = c\<lparr>anyFlag := False\<rparr> in
      if readedSize c \<ge> expect then Some (TcpConnection_ResetRead c, [FCall h ''''])
      else Some (c\<lparr>expectSize := expect, userReadHandler := Some h\<rparr>, []))"

definition TcpConnection_AsyncReadAny :: "handler \<Rightarrow> connection \<Rightarrow> effect" where
  "TcpConnection_AsyncReadAny h c =
     (let c = c\<lparr>anyFlag := True\<rparr> in
      if readedSize c \<noteq> 0
      then Some (TcpConnection_ResetRead (c\<lparr>userReadHandler := Some h\<rparr>), [FCall h ''''])
      else Some (c\<lparr>userReadHandler := Some h\<rparr>, []))"

text \<open>The calls an asyncer makes reach the closure that \<^verbatim>\<open>AsyncWrite\<close> gave it.\<close>

definition closures :: "handler calls \<Rightarrow> frame list" where
  "closures cs = map (\<lambda>(h, m). FAsyncClosure h m) cs"

text \<open>
  \<^verbatim>\<open>AsyncWrite\<close> replaces the asyncer, which destroys the previous one, and then starts the new
  one.  The new asyncer needs the looper of the event, so the event must be there.
\<close>

definition TcpConnection_AsyncWrite :: "handler \<Rightarrow> connection \<Rightarrow> effect" where
  "TcpConnection_AsyncWrite h c =
     (if finished c then Some (c, [FCall h ''Finished''])
      else if c_event c = None then None
      else Some (c\<lparr>c_asyncer := Some (Asyncer_new False)\<rparr>,
                 (case c_asyncer c of None \<Rightarrow> [] | Some a \<Rightarrow> closures (Asyncer_destroy a)) @ [FAsyncDo h]))"

definition TcpConnection_AsyncWrite_do :: "handler \<Rightarrow> connection \<Rightarrow> effect" where
  "TcpConnection_AsyncWrite_do h c =
     (case c_asyncer c of
        None \<Rightarrow> None
      | Some a \<Rightarrow>
          map_option (\<lambda>(a, cs). (c\<lparr>c_asyncer := Some a\<rparr>, closures cs)) (Asyncer_AsyncDo h a))"

definition TcpConnection_AsyncWrite_closure :: "handler \<Rightarrow> errmsg \<Rightarrow> connection \<Rightarrow> effect" where
  "TcpConnection_AsyncWrite_closure h errMsg c =
     (if errMsg \<noteq> '''' then Some (c, [FCall h errMsg])
      else case c_event c of
             None \<Rightarrow> None
           | Some e \<Rightarrow> Some (c\<lparr>userWriteHandler := Some h, c_event := Some (notify_flags EnableWrite e)\<rparr>, []))"

definition TcpConnection_Finish :: "errmsg \<Rightarrow> connection \<Rightarrow> effect" where
  "TcpConnection_Finish errMsg c =
     (if finished c then Some (c, [])
      else let c = c\<lparr>finished := True\<rparr> in
        case c_asyncer c of
          None \<Rightarrow> Some (c, [FFinishWrite, FFinishEnd errMsg])
        | Some a \<Rightarrow>
            map_option (\<lambda>(a, cs). (c\<lparr>c_asyncer := Some a\<rparr>, closures cs @ [FFinishWrite, FFinishEnd errMsg]))
              (Asyncer_Cancel a))"

definition TcpConnection_Finish_write :: "connection \<Rightarrow> effect" where
  "TcpConnection_Finish_write c =
     (case userWriteHandler c of
        Some h \<Rightarrow> if \<not> writeDone c then Some (c\<lparr>writeDone := True\<rparr>, [FCall h ''Finished'']) else Some (c, [])
      | None \<Rightarrow> Some (c, []))"

definition TcpConnection_Finish_end :: "errmsg \<Rightarrow> connection \<Rightarrow> effect" where
  "TcpConnection_Finish_end errMsg c =
     (case finishHandler c of
        None \<Rightarrow> None
      | Some h \<Rightarrow> Some (c\<lparr>c_event := None, finishes := finishes c + 1\<rparr>, [FCall h errMsg]))"

text \<open>\<open>result\<close>, \<open>errno\<close> and \<open>data\<close>: what \<^verbatim>\<open>read(2)\<close> returned and put into the buffer.\<close>

definition TcpConnection_readHandler ::
    "(int \<Rightarrow> string) \<Rightarrow> int \<Rightarrow> int \<Rightarrow> char list \<Rightarrow> connection \<Rightarrow> effect" where
  "TcpConnection_readHandler strerror result errno data c =
     (let (count, errMsg) = Socket_Read strerror result errno;
          errMsg = (if count = 0 then ''Finished'' else errMsg)
      in if errMsg \<noteq> '''' then
           (case userReadHandler c of
              Some h \<Rightarrow> Some (TcpConnection_ResetRead c, [FCall h errMsg, FFinish errMsg])
            | None \<Rightarrow> Some (c, [FFinish errMsg]))
         else if count < 0 then Some (c, [])
         else case Buffer_Write (take (nat count) data) (ReadBuffer c) of
                None \<Rightarrow> None
              | Some b \<Rightarrow>
                  let c = c\<lparr>ReadBuffer := b, readedSize := readedSize c + of_int count\<rparr> in
                  if anyFlag c \<or> readedSize c \<ge> expectSize c then
                    (case userReadHandler c of
                       Some h \<Rightarrow> Some (TcpConnection_ResetRead c, [FCall h ''''])
                     | None \<Rightarrow> Some (c, []))
                  else Some (c, []))"

text \<open>\<open>result\<close> and \<open>errno\<close>: what \<^verbatim>\<open>write(2)\<close> returned for the bytes offered.\<close>

definition TcpConnection_writeHandler :: "(int \<Rightarrow> string) \<Rightarrow> int \<Rightarrow> int \<Rightarrow> connection \<Rightarrow> effect" where
  "TcpConnection_writeHandler strerror result errno c =
     (case Buffer_Read 1024 (WriteBuffer c) of
        None \<Rightarrow> None
      | Some (buf, n) \<Rightarrow>
          if n = 0 then
            (case (c_event c, userWriteHandler c) of
               (Some e, Some h) \<Rightarrow>
                 Some (c\<lparr>writeDone := True, c_event := Some (notify_flags DisableWrite e)\<rparr>, [FCall h ''''])
             | _ \<Rightarrow> None)
          else
            let (count, errMsg) = Socket_Write strerror result errno;
                c = c\<lparr>WriteBuffer := fst (Buffer_UpdateReadIndex (of_int count) (WriteBuffer c)),
                      sent_bytes := sent_bytes c @ take (nat count) buf,
                      refused := refused c + (if count < 0 then 1 else 0)\<rparr>
            in if errMsg \<noteq> '''' then
                 (case userWriteHandler c of
                    Some h \<Rightarrow> Some (c\<lparr>writeDone := True\<rparr>, [FCall h errMsg, FFinish errMsg])
                  | None \<Rightarrow> None)
               else Some (c, []))"

definition TcpConnection_WriteBufferPush :: "char list \<Rightarrow> connection \<Rightarrow> effect" where
  "TcpConnection_WriteBufferPush buf c =
     map_option (\<lambda>b. (c\<lparr>WriteBuffer := b, pushed_bytes := pushed_bytes c @ buf\<rparr>, []))
       (Buffer_Push buf (WriteBuffer c))"

definition TcpConnection_ReadBufferPopHead :: "u64 \<Rightarrow> connection \<Rightarrow> effect" where
  "TcpConnection_ReadBufferPopHead len c =
     map_option (\<lambda>(b, _, _). (c\<lparr>ReadBuffer := b\<rparr>, [])) (Buffer_PopHead len (ReadBuffer c))"

definition TcpConnection_GetLocalIp :: "(int \<Rightarrow> string) \<Rightarrow> Socket option \<Rightarrow> int \<Rightarrow> string option \<Rightarrow> string \<Rightarrow> errmsg \<times> string" where
  "TcpConnection_GetLocalIp strerror s result printed ip =
     (case s of None \<Rightarrow> (''socket is nullptr'', ip) | Some _ \<Rightarrow> Socket_GetLocalIp strerror result printed ip)"

section \<open>Running\<close>

fun conn_cmd :: "cmd \<Rightarrow> connection \<Rightarrow> effect" where
  "conn_cmd (CAsyncRead n h) c = TcpConnection_AsyncRead n h c"
| "conn_cmd (CAsyncReadAny h) c = TcpConnection_AsyncReadAny h c"
| "conn_cmd (CAsyncWrite h) c = TcpConnection_AsyncWrite h c"
| "conn_cmd (CWriteBufferPush bs) c = TcpConnection_WriteBufferPush bs c"
| "conn_cmd (CReadBufferPopHead n) c = TcpConnection_ReadBufferPopHead n c"
| "conn_cmd (CFinish m) c = TcpConnection_Finish m c"
| "conn_cmd CReset c = Some (TcpConnection_Reset c, [])"

text \<open>One step of the top frame.\<close>

fun conn_frame :: "frame \<Rightarrow> connection \<Rightarrow> effect" where
  "conn_frame (FCmds []) c = Some (c, [])"
| "conn_frame (FCmds (x # xs)) c = map_option (\<lambda>(c, fs). (c, fs @ [FCmds xs])) (conn_cmd x c)"
| "conn_frame (FCall (Handler i xs) m) c = Some (c\<lparr>ran := ran c @ [(Handler i xs, m)]\<rparr>, [FCmds xs])"
| "conn_frame (FAsyncClosure h m) c = TcpConnection_AsyncWrite_closure h m c"
| "conn_frame (FAsyncDo h) c = TcpConnection_AsyncWrite_do h c"
| "conn_frame (FFinish m) c = TcpConnection_Finish m c"
| "conn_frame FFinishWrite c = TcpConnection_Finish_write c"
| "conn_frame (FFinishEnd m) c = TcpConnection_Finish_end m c"

fun conn_step :: "machine \<Rightarrow> machine option" where
  "conn_step (c, []) = None"
| "conn_step (c, f # fs) = map_option (\<lambda>(c, gs). (c, gs @ fs)) (conn_frame f c)"

text \<open>
  With an empty stack the connection waits for the outside: a call by its owner, the event loop
  running one of the event's callbacks (only while that notification is on), or the loop thread
  running the asyncer.
\<close>

datatype conn_input =
    IUser cmd
  | IReadable int int "char list"
  | IWritable int int
  | IAsync

fun conn_feed :: "(int \<Rightarrow> string) \<Rightarrow> conn_input \<Rightarrow> connection \<Rightarrow> effect" where
  "conn_feed se (IUser x) c = conn_cmd x c"
| "conn_feed se (IReadable r e bs) c =
     (case c_event c of
        Some ev \<Rightarrow> if readNotify ev then TcpConnection_readHandler se r e bs c else Some (c, [])
      | None \<Rightarrow> Some (c, []))"
| "conn_feed se (IWritable r e) c =
     (case c_event c of
        Some ev \<Rightarrow> if writeNotify ev then TcpConnection_writeHandler se r e c else Some (c, [])
      | None \<Rightarrow> Some (c, []))"
| "conn_feed se IAsync c =
     (case c_asyncer c of
        None \<Rightarrow> Some (c, [])
      | Some a \<Rightarrow> map_option (\<lambda>(a, cs). (c\<lparr>c_asyncer := Some a\<rparr>, closures cs)) (Asyncer_fire a))"

text \<open>Runs: \<open>ok\<close> restricts the inputs of the outside.\<close>

inductive conn_reach :: "(int \<Rightarrow> string) \<Rightarrow> (connection \<Rightarrow> conn_input \<Rightarrow> bool) \<Rightarrow> connection \<Rightarrow> machine \<Rightarrow> bool"
  for se ok c0 where
  start: "conn_reach se ok c0 (c0, [])"
| step: "conn_reach se ok c0 m \<Longrightarrow> conn_step m = Some m' \<Longrightarrow> conn_reach se ok c0 m'"
| input: "conn_reach se ok c0 (c, []) \<Longrightarrow> ok c i \<Longrightarrow> conn_feed se i c = Some m' \<Longrightarrow> conn_reach se ok c0 m'"

lemmas TcpConnection_quiet_defs =
  TcpConnection_ResetRead_def TcpConnection_AsyncRead_def TcpConnection_AsyncReadAny_def
  TcpConnection_AsyncWrite_def TcpConnection_AsyncWrite_do_def TcpConnection_AsyncWrite_closure_def
  TcpConnection_Finish_def TcpConnection_Finish_write_def TcpConnection_Finish_end_def
  TcpConnection_ReadBufferPopHead_def

subsection \<open>The write side\<close>

definition offered :: "connection \<Rightarrow> char list" where
  "offered c = take 1024 (Buffer_data (WriteBuffer c))"

definition stream_inv :: "connection \<Rightarrow> bool" where
  "stream_inv c \<longleftrightarrow> refused c = 0 \<and> length (pushed_bytes c) + 1024 < 2 ^ 64 \<longrightarrow>
     Buffer_ok (WriteBuffer c) \<and> sent_bytes c @ Buffer_data (WriteBuffer c) = pushed_bytes c \<and>
     2 ^ 64 - 1 \<le> Buffer_room (WriteBuffer c) + length (pushed_bytes c)"

text \<open>What the kernel may answer: an error or \<^verbatim>\<open>EAGAIN\<close>, or at most what it was offered.\<close>

fun kernel_takes :: "connection \<Rightarrow> conn_input \<Rightarrow> bool" where
  "kernel_takes c (IWritable r e) = (r = -1 \<or> 0 \<le> r \<and> nat r \<le> length (offered c))"
| "kernel_takes c _ = True"

abbreviation same_write_side :: "connection \<Rightarrow> connection \<Rightarrow> bool" where
  "same_write_side c c' \<equiv>
     WriteBuffer c' = WriteBuffer c \<and> pushed_bytes c' = pushed_bytes c \<and> sent_bytes c' = sent_bytes c \<and> refused c' = refused c"

lemma stream_inv_same: "stream_inv c \<Longrightarrow> same_write_side c c' \<Longrightarrow> stream_inv c'"
  by (simp add: stream_inv_def)

lemma stream_inv_Reset: "stream_inv (TcpConnection_Reset c)"
  by (simp add: stream_inv_def TcpConnection_Reset_def TcpConnection_ResetRead_def Buffer_Reset_ok
      Buffer_room_Reset)

lemma stream_inv_Push:
  assumes "stream_inv c" "TcpConnection_WriteBufferPush bs c = Some (c', gs)"
  shows "stream_inv c'"
  unfolding stream_inv_def
proof
  assume b: "refused c' = 0 \<and> length (pushed_bytes c') + 1024 < 2 ^ 64"
  from assms(2) obtain w where w: "Buffer_Write bs (WriteBuffer c) = Some w"
    and c': "c' = c\<lparr>WriteBuffer := w, pushed_bytes := pushed_bytes c @ bs\<rparr>"
    by (auto simp: TcpConnection_WriteBufferPush_def Buffer_Push_def)
  from b c' assms(1) have i: "Buffer_ok (WriteBuffer c)"
    "sent_bytes c @ Buffer_data (WriteBuffer c) = pushed_bytes c"
    "2 ^ 64 - 1 \<le> Buffer_room (WriteBuffer c) + length (pushed_bytes c)"
    by (auto simp: stream_inv_def)
  with b c' have room: "length bs \<le> Buffer_room (WriteBuffer c)" by simp
  from Buffer_Write_ok [OF i(1) room] w i room
  show "Buffer_ok (WriteBuffer c') \<and> sent_bytes c' @ Buffer_data (WriteBuffer c') = pushed_bytes c' \<and>
     2 ^ 64 - 1 \<le> Buffer_room (WriteBuffer c') + length (pushed_bytes c')"
    by (auto simp: c')
qed

lemma conn_cmd_write_side:
  "conn_cmd x c = Some (c', gs) \<Longrightarrow> x \<noteq> CReset \<Longrightarrow> (\<And>bs. x \<noteq> CWriteBufferPush bs) \<Longrightarrow> same_write_side c c'"
  by (cases x) (auto simp: TcpConnection_quiet_defs Let_def split: if_splits option.splits)

lemma stream_inv_cmd: "stream_inv c \<Longrightarrow> conn_cmd x c = Some (c', gs) \<Longrightarrow> stream_inv c'"
  using conn_cmd_write_side [of x c c' gs] stream_inv_same [of c c'] stream_inv_Push [of c _ c' gs]
    stream_inv_Reset [of c]
  by (cases x) auto

lemma conn_frame_write_side:
  "conn_frame f c = Some (c', gs) \<Longrightarrow> (\<And>x xs. f \<noteq> FCmds (x # xs)) \<Longrightarrow> same_write_side c c'"
  by (induction f c rule: conn_frame.induct)
     (auto simp: TcpConnection_quiet_defs Let_def split: if_splits option.splits)

lemma stream_inv_frame: "stream_inv c \<Longrightarrow> conn_frame f c = Some (c', gs) \<Longrightarrow> stream_inv c'"
proof (cases "\<exists>x xs. f = FCmds (x # xs)")
  case True
  assume "stream_inv c" "conn_frame f c = Some (c', gs)"
  with True stream_inv_cmd show ?thesis by auto
next
  case False
  assume "stream_inv c" "conn_frame f c = Some (c', gs)"
  with False conn_frame_write_side [of f c c' gs] stream_inv_same [of c c'] show ?thesis by blast
qed

lemma stream_inv_writeHandler:
  assumes "stream_inv c" "kernel_takes c (IWritable r e)"
    and "TcpConnection_writeHandler se r e c = Some (c', gs)"
  shows "stream_inv c'"
  unfolding stream_inv_def
proof
  assume b: "refused c' = 0 \<and> length (pushed_bytes c') + 1024 < 2 ^ 64"
  have p: "pushed_bytes c' = pushed_bytes c"
    using assms(3) by (auto simp: TcpConnection_writeHandler_def Let_def split: if_splits option.splits prod.splits)
  have rf: "refused c = 0"
    using assms(3) b by (auto simp: TcpConnection_writeHandler_def Let_def split: if_splits option.splits prod.splits)
  with b p assms(1) have i: "Buffer_ok (WriteBuffer c)"
    "sent_bytes c @ Buffer_data (WriteBuffer c) = pushed_bytes c"
    "2 ^ 64 - 1 \<le> Buffer_room (WriteBuffer c) + length (pushed_bytes c)"
    by (auto simp: stream_inv_def)
  then have room: "unat (1024 :: u64) \<le> Buffer_room (WriteBuffer c)" using b p by simp
  obtain n where rd: "Buffer_Read 1024 (WriteBuffer c) = Some (offered c, n)"
    using Buffer_Read_ok [OF i(1) room] by (simp add: offered_def)
  have "\<not> (r = -1 \<and> n \<noteq> 0)"
    using assms(3) rd b by (auto simp: TcpConnection_writeHandler_def Socket_Write_def Let_def split: if_splits option.splits)
  then consider "n = 0" | "0 \<le> r" "nat r \<le> length (offered c)" using assms(2) by auto
  then show "Buffer_ok (WriteBuffer c') \<and> sent_bytes c' @ Buffer_data (WriteBuffer c') = pushed_bytes c' \<and>
     2 ^ 64 - 1 \<le> Buffer_room (WriteBuffer c') + length (pushed_bytes c')"
  proof cases
    case 1
    with assms(3) rd have "same_write_side c c'" by (auto simp: TcpConnection_writeHandler_def split: option.splits)
    with i show ?thesis by simp
  next
    case r: 2
    have k: "unat (of_int r :: u64) = nat r"
    proof -
      have "of_int r = (of_nat (nat r) :: u64)" using r(1) by simp
      moreover have "nat r < 2 ^ 64" using r(2) by (simp add: offered_def)
      ultimately show ?thesis by (simp add: unat_of_nat64)
    qed
    let ?w = "fst (Buffer_UpdateReadIndex (of_int r) (WriteBuffer c))"
    have "nat r \<le> length (Buffer_data (WriteBuffer c))" using r(2) by (simp add: offered_def)
    from Buffer_UpdateReadIndex_ok [OF i(1), of "of_int r"] this
    have w: "Buffer_ok ?w" "Buffer_data ?w = drop (nat r) (Buffer_data (WriteBuffer c))"
      "Buffer_room (WriteBuffer c) \<le> Buffer_room ?w" by (simp_all add: k)
    have t: "take (nat r) (offered c) = take (nat r) (Buffer_data (WriteBuffer c))"
      using r(2) by (simp add: offered_def min_def split: if_splits)
    have "same_write_side c c' \<or>
      (WriteBuffer c' = ?w \<and> sent_bytes c' = sent_bytes c @ take (nat r) (Buffer_data (WriteBuffer c)))"
      using assms(3) rd r(1)
      by (auto simp: TcpConnection_writeHandler_def Socket_Write_def t Let_def split: if_splits option.splits)
    then show ?thesis using i w p by auto
  qed
qed

lemma conn_feed_write_side:
  "conn_feed se i c = Some (c', gs) \<Longrightarrow> (\<And>x. i \<noteq> IUser x) \<Longrightarrow> (\<And>r e. i \<noteq> IWritable r e) \<Longrightarrow> same_write_side c c'"
  by (cases i) (auto simp: TcpConnection_readHandler_def TcpConnection_ResetRead_def Let_def
      split: if_splits option.splits prod.splits)

lemma stream_inv_feed:
  assumes "stream_inv c" "kernel_takes c i" "conn_feed se i c = Some (c', gs)"
  shows "stream_inv c'"
proof (cases i)
  case (IUser x)
  with assms stream_inv_cmd show ?thesis by auto
next
  case (IWritable r e)
  then have "c' = c \<or> TcpConnection_writeHandler se r e c = Some (c', gs)"
    using assms(3) by (auto split: option.splits if_splits)
  with stream_inv_writeHandler [OF assms(1)] assms(1,2) IWritable show ?thesis by blast
next
  case (IReadable r e bs)
  with assms conn_feed_write_side [of se i c c' gs] stream_inv_same [of c c'] show ?thesis by blast
next
  case IAsync
  with assms conn_feed_write_side [of se i c c' gs] stream_inv_same [of c c'] show ?thesis by blast
qed

lemma conn_step_Some:
  "conn_step m = Some m' \<Longrightarrow> \<exists>c f fs c' gs. m = (c, f # fs) \<and> conn_frame f c = Some (c', gs) \<and> m' = (c', gs @ fs)"
  by (induction m rule: conn_step.induct) auto

lemma stream_inv_reach:
  "conn_reach se kernel_takes (TcpConnection_new e fin) m \<Longrightarrow> stream_inv (fst m)"
proof (induction rule: conn_reach.induct)
  case start
  show ?case by (simp add: TcpConnection_new_def stream_inv_def Buffer_new_ok)
     (simp add: Buffer_new_def Buffer_room_def)
next
  case (step m m')
  from conn_step_Some [OF step.hyps(2)] step.IH stream_inv_frame show ?case by fastforce
next
  case (input c i m')
  then show ?case using stream_inv_feed [of c i se "fst m'" "snd m'"] by simp
qed

subsection \<open>Finishing\<close>

definition pending_end :: "frame list \<Rightarrow> nat" where
  "pending_end fs = length (filter (\<lambda>f. case f of FFinishEnd _ \<Rightarrow> True | _ \<Rightarrow> False) fs)"

lemma pending_end_simps [simp]:
  "pending_end [] = 0"
  "pending_end (FFinishEnd m # fs) = Suc (pending_end fs)"
  "(\<And>m. f \<noteq> FFinishEnd m) \<Longrightarrow> pending_end (f # fs) = pending_end fs"
  "pending_end (fs @ gs) = pending_end fs + pending_end gs"
  by (auto simp: pending_end_def split: frame.splits)

lemma pending_end_closures [simp]: "pending_end (closures cs) = 0"
  by (induction cs) (auto simp: closures_def)

text \<open>
  Finish calls started are finish handlers run plus those still to be run; the event is gone only
  after a finish, and a finished connection has lost its event unless that is still to happen.
\<close>

definition finish_inv :: "machine \<Rightarrow> bool" where
  "finish_inv m \<longleftrightarrow> (case m of (c, fs) \<Rightarrow>
     finishes c + pending_end fs = revivals c + (if finished c then 1 else 0) \<and>
     (finished c \<longrightarrow> c_event c = None \<or> 0 < pending_end fs) \<and>
     (c_event c = None \<longrightarrow> finished c \<or> 0 < revivals c))"

abbreviation same_life :: "connection \<Rightarrow> connection \<Rightarrow> bool" where
  "same_life c c' \<equiv> finishes c' = finishes c \<and> revivals c' = revivals c \<and> finished c' = finished c \<and>
     (c_event c' = None \<longleftrightarrow> c_event c = None)"

lemma conn_cmd_life:
  "conn_cmd x c = Some (c', gs) \<Longrightarrow> x \<noteq> CReset \<Longrightarrow> (\<And>m. x \<noteq> CFinish m) \<Longrightarrow>
     same_life c c' \<and> pending_end gs = 0"
  by (cases x) (auto simp: TcpConnection_quiet_defs TcpConnection_WriteBufferPush_def Let_def
      split: if_splits option.splits)

lemma finish_inv_Finish:
  "finish_inv (c, fs) \<Longrightarrow> TcpConnection_Finish m c = Some (c', gs) \<Longrightarrow> finish_inv (c', gs @ fs)"
  by (auto simp: finish_inv_def TcpConnection_Finish_def Let_def split: if_splits option.splits)

lemma finish_inv_Reset: "finish_inv (c, fs) \<Longrightarrow> finish_inv (TcpConnection_Reset c, fs)"
  by (auto simp: finish_inv_def TcpConnection_Reset_def TcpConnection_ResetRead_def)

lemma finish_inv_cmd:
  assumes "finish_inv (c, fs)" "conn_cmd x c = Some (c', gs)"
  shows "finish_inv (c', gs @ fs)"
proof (cases "x = CReset \<or> (\<exists>m. x = CFinish m)")
  case True
  with assms finish_inv_Finish finish_inv_Reset show ?thesis by auto
next
  case False
  with conn_cmd_life [OF assms(2)] assms(1) show ?thesis by (auto simp: finish_inv_def)
qed

lemma finish_inv_cmds: "finish_inv (c, FCmds xs # fs) \<longleftrightarrow> finish_inv (c, fs)"
  by (simp add: finish_inv_def)

lemma finish_inv_frame:
  assumes "finish_inv (c, f # fs)" "conn_frame f c = Some (c', gs)"
  shows "finish_inv (c', gs @ fs)"
proof (cases f)
  case (FCmds xs)
  show ?thesis
  proof (cases xs)
    case (Cons x ys)
    with FCmds assms(2) obtain hs where hs: "conn_cmd x c = Some (c', hs)" "gs = hs @ [FCmds ys]" by auto
    from assms(1) FCmds have "finish_inv (c, FCmds ys # fs)" by (simp add: finish_inv_cmds)
    from finish_inv_cmd [OF this hs(1)] hs(2) show ?thesis by simp
  qed (use assms FCmds in \<open>simp add: finish_inv_cmds\<close>)
next
  case (FFinish m)
  from assms FFinish have "finish_inv (c, fs)" by (simp add: finish_inv_def)
  with finish_inv_Finish assms(2) FFinish show ?thesis by simp
next
  case (FFinishEnd m)
  with assms show ?thesis
    by (auto simp: finish_inv_def TcpConnection_Finish_end_def split: option.splits if_splits)
next
  case (FCall h m)
  with assms show ?thesis by (cases h) (auto simp: finish_inv_def)
qed (use assms in \<open>auto simp: finish_inv_def TcpConnection_quiet_defs
       split: option.splits if_splits\<close>)

lemma finish_inv_feed:
  assumes "finish_inv (c, [])" "conn_feed se i c = Some (c', gs)"
  shows "finish_inv (c', gs)"
proof (cases i)
  case (IUser x)
  with finish_inv_cmd [OF assms(1), of x c' gs] assms(2) show ?thesis by simp
qed (use assms in \<open>auto simp: finish_inv_def TcpConnection_readHandler_def TcpConnection_writeHandler_def
       TcpConnection_ResetRead_def Let_def split: option.splits if_splits prod.splits\<close>)

lemma finish_inv_reach:
  "conn_reach se ok (TcpConnection_new e fin) m \<Longrightarrow> finish_inv m"
proof (induction rule: conn_reach.induct)
  case start
  show ?case by (simp add: TcpConnection_new_def finish_inv_def)
next
  case (step m m')
  from conn_step_Some [OF step.hyps(2)] step.IH finish_inv_frame show ?case by blast
next
  case (input c i m')
  then show ?case using finish_inv_feed [of c se i "fst m'" "snd m'"] by simp
qed

subsection \<open>Concrete runs\<close>

text \<open>Feed the inputs one after the other, running the stack empty in between.\<close>

fun conn_run :: "(int \<Rightarrow> string) \<Rightarrow> nat \<Rightarrow> conn_input list \<Rightarrow> machine \<Rightarrow> machine option" where
  "conn_run se 0 is m = (if is = [] \<and> snd m = [] then Some m else None)"
| "conn_run se (Suc n) is (c, f # fs) = Option.bind (conn_step (c, f # fs)) (conn_run se n is)"
| "conn_run se (Suc n) [] (c, []) = Some (c, [])"
| "conn_run se (Suc n) (i # is) (c, []) = Option.bind (conn_feed se i c) (conn_run se n is)"

lemma conn_run_reach:
  "conn_run se n is m = Some m' \<Longrightarrow> conn_reach se (\<lambda>_ _. True) c0 m \<Longrightarrow> conn_reach se (\<lambda>_ _. True) c0 m'"
  by (induction se n "is" m rule: conn_run.induct)
     (auto simp del: conn_step.simps split: bind_splits if_splits intro: conn_reach.intros)

section \<open>Properties\<close>

text \<open>
  C8.  The write side loses, duplicates and reorders nothing until a write is refused: whatever the callbacks do, in
  whatever order the loop runs them and whatever \<^verbatim>\<open>write(2)\<close> answers, in every reachable state in which no
  \<^verbatim>\<open>write(2)\<close> has returned \<open>-1\<close> (\<^verbatim>\<open>EAGAIN\<close> or an error) since the last
  \<^verbatim>\<open>Reset\<close>, the bytes handed to the socket followed by the bytes still buffered are the bytes pushed since
  then, and whenever the write handler finds nothing to send (the case in which it reports success) all of them have been
  handed over.  What a refused write does is \<open>TcpConnection_eagain_resends\<close>.
\<close>

theorem TcpConnection_write_stream:
  assumes "conn_reach se kernel_takes (TcpConnection_new e fin) (c, fs)"
    and "refused c = 0" "length (pushed_bytes c) + 1024 < 2 ^ 64"
  shows "sent_bytes c @ Buffer_data (WriteBuffer c) = pushed_bytes c \<and>
    (\<forall>buf. Buffer_Read 1024 (WriteBuffer c) = Some (buf, 0) \<longrightarrow> sent_bytes c = pushed_bytes c)"
proof -
  from stream_inv_reach [OF assms(1)] assms(2,3) have i: "Buffer_ok (WriteBuffer c)"
    "sent_bytes c @ Buffer_data (WriteBuffer c) = pushed_bytes c"
    "2 ^ 64 - 1 \<le> Buffer_room (WriteBuffer c) + length (pushed_bytes c)"
    by (auto simp: stream_inv_def)
  then have room: "unat (1024 :: u64) \<le> Buffer_room (WriteBuffer c)" using assms(3) by simp
  have "Buffer_data (WriteBuffer c) = []" if "Buffer_Read 1024 (WriteBuffer c) = Some (buf, 0)" for buf
  proof -
    let ?k = "min 1024 (length (Buffer_data (WriteBuffer c)))"
    from that Buffer_Read_ok [OF i(1) room] have "of_nat ?k = (0 :: u64)" by simp
    then have "unat (of_nat ?k :: u64) = 0" by simp
    moreover have "unat (of_nat ?k :: u64) = ?k" by (rule unat_of_nat64) simp
    ultimately show ?thesis by (simp add: min_def split: if_splits)
  qed
  with i(2) show ?thesis by auto
qed

theorem TcpConnection_write_stream_witness:
  "\<exists>c. conn_reach (\<lambda>_. '''') kernel_takes (TcpConnection_new (fst (Event_new 5 0)) (Handler 0 [])) (c, []) \<and>
     pushed_bytes c = ''abc'' \<and> sent_bytes c @ Buffer_data (WriteBuffer c) = ''abc''"
proof -
  let ?c0 = "TcpConnection_new (fst (Event_new 5 0)) (Handler 0 [])"
  obtain c where f: "conn_feed (\<lambda>_. '''') (IUser (CWriteBufferPush ''abc'')) ?c0 = Some (c, [])"
    and p: "pushed_bytes c = ''abc''" "refused c = 0"
    by (simp add: TcpConnection_WriteBufferPush_def Buffer_Push_def Buffer_Write_def TcpConnection_new_def
        Buffer_new_def)
  have r: "conn_reach (\<lambda>_. '''') kernel_takes ?c0 (c, [])"
    by (rule conn_reach.input [OF conn_reach.start _ f]) simp
  from TcpConnection_write_stream [OF r] p r show ?thesis by auto
qed

text \<open>
  C11.  The finish handler runs exactly once per life of the connection: whatever the owner, the peer,
  the loop and the callbacks do, once no callback is running the number of finish-handler runs is the
  number of finished lives that \<^verbatim>\<open>Reset\<close> has revived plus one if the connection is finished now; and a
  connection that is not finished still has its event, provided \<^verbatim>\<open>Reset\<close> has never revived it (a revived one
  has none: \<open>TcpConnection_reset_after_finish\<close>).
\<close>

theorem TcpConnection_finish_once:
  assumes "conn_reach se ok (TcpConnection_new e fin) (c, [])"
  shows "finishes c = revivals c + (if finished c then 1 else 0) \<and>
         (\<not> finished c \<and> revivals c = 0 \<longrightarrow> c_event c \<noteq> None)"
  using finish_inv_reach [OF assms] by (auto simp: finish_inv_def)

theorem TcpConnection_finish_once_witness:
  "\<exists>c. conn_reach (\<lambda>_. '''') (\<lambda>_ _. True) (TcpConnection_new (fst (Event_new 5 0)) (Handler 0 [CFinish ''x''])) (c, []) \<and>
     finished c \<and> finishes c = 1 \<and> revivals c = 0"
proof -
  let ?c0 = "TcpConnection_new (fst (Event_new 5 0)) (Handler 0 [CFinish ''x''])"
  obtain c where c: "conn_run (\<lambda>_. '''') 20 [IUser (CFinish ''bye'')] (?c0, []) = Some (c, [])"
    and fin: "finished c" "revivals c = 0"
    by (simp add: TcpConnection_new_def TcpConnection_Finish_def TcpConnection_Finish_write_def
        TcpConnection_Finish_end_def numeral_nat)
  have r: "conn_reach (\<lambda>_. '''') (\<lambda>_ _. True) ?c0 (c, [])"
    by (rule conn_run_reach [OF c conn_reach.start])
  from TcpConnection_finish_once [OF r] r fin show ?thesis by auto
qed

text \<open>
  \<^verbatim>\<open>Reset\<close> does not bring a finished connection back to work: it clears \<^verbatim>\<open>finished_\<close>
  but the event stays null, so the next \<^verbatim>\<open>AsyncWrite\<close> dereferences a null pointer.
\<close>

theorem TcpConnection_reset_after_finish:
  assumes "conn_reach se ok (TcpConnection_new e fin) (c, [])" "finished c"
  shows "conn_feed se (IUser CReset) c = Some (TcpConnection_Reset c, []) \<and>
         \<not> finished (TcpConnection_Reset c) \<and>
         conn_feed se (IUser (CAsyncWrite h)) (TcpConnection_Reset c) = None"
  using finish_inv_reach [OF assms(1)] assms(2)
  by (simp add: finish_inv_def TcpConnection_AsyncWrite_def TcpConnection_Reset_def TcpConnection_ResetRead_def)

theorem TcpConnection_reset_after_finish_witness:
  "\<exists>c. conn_reach (\<lambda>_. '''') (\<lambda>_ _. True) (TcpConnection_new (fst (Event_new 5 0)) (Handler 0 [])) (c, []) \<and>
     conn_feed (\<lambda>_. '''') (IUser (CAsyncWrite (Handler 1 []))) (TcpConnection_Reset c) = None"
proof -
  let ?c0 = "TcpConnection_new (fst (Event_new 5 0)) (Handler 0 [])"
  obtain c where c: "conn_run (\<lambda>_. '''') 20 [IUser (CFinish ''bye'')] (?c0, []) = Some (c, [])"
    and fin: "finished c"
    by (simp add: TcpConnection_new_def TcpConnection_Finish_def TcpConnection_Finish_write_def
        TcpConnection_Finish_end_def numeral_nat)
  have r: "conn_reach (\<lambda>_. '''') (\<lambda>_ _. True) ?c0 (c, [])"
    by (rule conn_run_reach [OF c conn_reach.start])
  from TcpConnection_reset_after_finish [OF r fin, of "Handler 1 []"] r show ?thesis by blast
qed

text \<open>
  After a first write has completed, a second one that the loop has picked up is never answered
  if the connection is finished before it completes: \<^verbatim>\<open>writeDone_\<close> still stands from the
  first write, and \<^verbatim>\<open>Finish\<close> takes it for the second's.
\<close>

theorem TcpConnection_second_write_unanswered:
  "\<exists>c. conn_reach se (\<lambda>_ _. True) (TcpConnection_new e (Handler 0 [])) (c, []) \<and> finished c \<and>
     userWriteHandler c = Some (Handler 2 []) \<and> a_done (the (c_asyncer c)) \<and>
     ran c = [(Handler 1 [], ''''), (Handler 0 [], ''bye'')]"
proof -
  let ?is = "[IUser (CAsyncWrite (Handler 1 [])), IAsync, IWritable 0 0,
    IUser (CAsyncWrite (Handler 2 [])), IAsync, IUser (CFinish ''bye'')]"
  obtain c where c: "conn_run se 40 ?is (TcpConnection_new e (Handler 0 []), []) = Some (c, [])"
    and p: "finished c" "userWriteHandler c = Some (Handler 2 [])" "a_done (the (c_asyncer c))"
     "ran c = [(Handler 1 [], ''''), (Handler 0 [], ''bye'')]"
    by (simp add: TcpConnection_new_def TcpConnection_Finish_def TcpConnection_Finish_write_def
        TcpConnection_Finish_end_def TcpConnection_AsyncWrite_def TcpConnection_AsyncWrite_do_def
        TcpConnection_AsyncWrite_closure_def TcpConnection_writeHandler_def Buffer_Read_def Buffer_new_def
        closures_def Asyncer_defs numeral_nat)
  from conn_run_reach [OF c conn_reach.start] p show ?thesis by blast
qed

text \<open>
  When the socket would block, the write handler consumes \<open>-1\<close> bytes: if part of the buffer has
  been sent already, the last byte sent is put back and will be sent twice; if nothing has, the read
  index becomes \<open>2 ^ 64 - 1\<close> and the buffer is no longer well formed.
\<close>

theorem TcpConnection_eagain_resends:
  assumes "Buffer_ok (WriteBuffer c)" "Buffer_data (WriteBuffer c) \<noteq> []" "1024 \<le> Buffer_room (WriteBuffer c)"
  shows "\<exists>c'. TcpConnection_writeHandler se (-1) EAGAIN c = Some (c', []) \<and> sent_bytes c' = sent_bytes c \<and>
    (if readIndex (WriteBuffer c) = 0
     then readIndex (WriteBuffer c') = 2 ^ 64 - 1 \<and> \<not> Buffer_ok (WriteBuffer c')
     else Buffer_data (WriteBuffer c') =
       bytes (WriteBuffer c) ! (unat (readIndex (WriteBuffer c)) - 1) # Buffer_data (WriteBuffer c))"
proof -
  let ?b = "WriteBuffer c"
  have room: "unat (1024 :: u64) \<le> Buffer_room ?b" using assms(3) by simp
  let ?k = "min 1024 (length (Buffer_data ?b))"
  have "unat (of_nat ?k :: u64) = ?k" by (rule unat_of_nat64) simp
  moreover have "?k \<noteq> 0" using assms(2) by (simp add: min_def)
  ultimately have k: "of_nat ?k \<noteq> (0 :: u64)" by (metis unat_0)
  have "unat (readIndex ?b) \<noteq> unat (writeIndex ?b + 1)"
  proof -
    have "unat (writeIndex ?b + 1) = unat (writeIndex ?b) + 1"
      using Buffer_okD(3) [OF assms(1)] assms(3) by (subst unat_add_exact) auto
    with Buffer_okD(1) [OF assms(1)] show ?thesis by simp
  qed
  then have ne: "readIndex ?b \<noteq> writeIndex ?b + 1" by auto
  from Buffer_UpdateReadIndex_minus_one [OF assms(1) ne] Buffer_Read_ok [OF assms(1) room] k
  show ?thesis by (simp add: TcpConnection_writeHandler_def Socket_Write_def)
qed

theorem TcpConnection_eagain_resends_witness:
  "\<exists>c c'. TcpConnection_writeHandler (\<lambda>_. '''') (-1) EAGAIN c = Some (c', []) \<and>
     Buffer_data (WriteBuffer c) = ''bc'' \<and> Buffer_data (WriteBuffer c') = ''abc''"
proof -
  let ?c = "(TcpConnection_new (fst (Event_new 5 0)) (Handler 0 []))
    \<lparr>WriteBuffer := \<lparr>readIndex = 1, writeIndex = 3, bytes = ''abc''\<rparr>\<rparr>"
  have "Buffer_ok (WriteBuffer ?c)" "Buffer_data (WriteBuffer ?c) \<noteq> []" "1024 \<le> Buffer_room (WriteBuffer ?c)"
    by (simp_all add: Buffer_ok_def Buffer_data_def Buffer_room_def)
  from TcpConnection_eagain_resends [OF this, of "\<lambda>_. ''''"] obtain c' where
    "TcpConnection_writeHandler (\<lambda>_. '''') (-1) EAGAIN ?c = Some (c', [])"
    "Buffer_data (WriteBuffer c') = ''a'' @ Buffer_data (WriteBuffer ?c)" by auto
  moreover have "Buffer_data (WriteBuffer ?c) = ''bc''" by (simp add: Buffer_data_def)
  ultimately show ?thesis by (intro exI [of _ ?c] exI [of _ c']) simp
qed

text \<open>
  Bytes that arrive beyond what a read asked for are kept in the buffer but forgotten in the
  count: a following \<^verbatim>\<open>AsyncRead\<close> for exactly those bytes does not complete, it waits for as
  many new ones.
\<close>

theorem TcpConnection_read_surplus_forgotten:
  assumes "Buffer_ok (ReadBuffer c)" "length data \<le> Buffer_room (ReadBuffer c)"
    and "userReadHandler c = Some h" "readedSize c = 0" "\<not> anyFlag c"
    and "expectSize c = of_nat n" "length data = n + k" "0 < n" "0 < k" "n + k \<le> 1024"
  shows "\<exists>c1 c2. TcpConnection_readHandler se (int (n + k)) 0 data c = Some (c1, [FCall h '''']) \<and>
    Buffer_data (ReadBuffer c1) = Buffer_data (ReadBuffer c) @ data \<and>
    TcpConnection_AsyncRead (of_nat k) h' c1 = Some (c2, []) \<and>
    expectSize c2 = of_nat k \<and> readedSize c2 = 0 \<and> ReadBuffer c2 = ReadBuffer c1"
proof -
  from Buffer_Write_ok [OF assms(1,2)] obtain b where b: "Buffer_Write data (ReadBuffer c) = Some b"
    "Buffer_data b = Buffer_data (ReadBuffer c) @ data" by blast
  have w: "unat (of_nat m :: u64) = m" if "m \<le> 1024" for m
    by (rule unat_of_nat64) (use that in simp)
  have le: "(of_nat n :: u64) \<le> of_nat n + of_nat k"
    using w [of n] w [of "n + k"] assms(7-10) by (simp add: word_le_nat_alt flip: of_nat_add)
  have pos: "\<not> (of_nat k :: u64) \<le> 0"
    using w [of k] assms(9,10) by (simp add: word_le_nat_alt)
  from assms b le pos show ?thesis
    by (simp add: TcpConnection_readHandler_def Socket_Read_def TcpConnection_AsyncRead_def
        TcpConnection_ResetRead_def)
qed

theorem TcpConnection_read_surplus_forgotten_witness:
  "\<exists>c c1 c2. TcpConnection_readHandler (\<lambda>_. '''') 3 0 ''abc'' c = Some (c1, [FCall (Handler 1 []) '''']) \<and>
     Buffer_data (ReadBuffer c1) = ''abc'' \<and> TcpConnection_AsyncRead 2 (Handler 2 []) c1 = Some (c2, [])"
proof -
  let ?c = "(TcpConnection_new (fst (Event_new 5 0)) (Handler 0 []))
    \<lparr>userReadHandler := Some (Handler 1 []), expectSize := 1\<rparr>"
  have "Buffer_ok (ReadBuffer ?c)" "length ''abc'' \<le> Buffer_room (ReadBuffer ?c)"
    "userReadHandler ?c = Some (Handler 1 [])" "readedSize ?c = 0" "\<not> anyFlag ?c"
    "expectSize ?c = of_nat 1" "length ''abc'' = 1 + 2" "0 < (1::nat)" "0 < (2::nat)" "1 + 2 \<le> (1024::nat)"
    by (simp_all add: TcpConnection_new_def Buffer_new_ok) (simp add: Buffer_room_def Buffer_new_def)
  from TcpConnection_read_surplus_forgotten [OF this, of "\<lambda>_. ''''" "Handler 2 []"]
  show ?thesis by (auto simp: TcpConnection_new_def Buffer_new_ok)
qed

text \<open>
  A read handler is not used up: once its read has completed, the next bytes that arrive call it
  again although no read was asked for, because \<^verbatim>\<open>userReadHandler_\<close> is never cleared and the
  expected size is back to zero.
\<close>

theorem TcpConnection_read_handler_repeats:
  assumes "Buffer_ok (ReadBuffer c)" "length d1 + length d2 \<le> Buffer_room (ReadBuffer c)"
    and "userReadHandler c = Some h" "readedSize c = 0" "expectSize c = of_nat (length d1)" "\<not> anyFlag c"
    and "d1 \<noteq> []" "d2 \<noteq> []" "length d1 \<le> 1024" "length d2 \<le> 1024"
  shows "\<exists>c1 c2. TcpConnection_readHandler se (int (length d1)) 0 d1 c = Some (c1, [FCall h '''']) \<and>
    TcpConnection_readHandler se (int (length d2)) 0 d2 c1 = Some (c2, [FCall h ''''])"
proof -
  from Buffer_Write_ok [OF assms(1), of d1] assms(2) obtain b1 where b1: "Buffer_Write d1 (ReadBuffer c) = Some b1"
    "Buffer_ok b1" "length d2 \<le> Buffer_room b1" by force
  from Buffer_Write_ok [OF b1(2,3)] obtain b2 where b2: "Buffer_Write d2 b1 = Some b2" by blast
  show ?thesis
    using assms(3-8) b1(1) b2
    by (simp add: TcpConnection_readHandler_def Socket_Read_def TcpConnection_ResetRead_def)
qed

theorem TcpConnection_read_handler_repeats_witness:
  "\<exists>c c1 c2. TcpConnection_readHandler (\<lambda>_. '''') 1 0 ''a'' c = Some (c1, [FCall (Handler 1 []) '''']) \<and>
    TcpConnection_readHandler (\<lambda>_. '''') 2 0 ''bc'' c1 = Some (c2, [FCall (Handler 1 []) ''''])"
proof -
  let ?c = "(TcpConnection_new (fst (Event_new 5 0)) (Handler 0 []))
    \<lparr>userReadHandler := Some (Handler 1 []), expectSize := 1\<rparr>"
  have "Buffer_ok (ReadBuffer ?c)" "length ''a'' + length ''bc'' \<le> Buffer_room (ReadBuffer ?c)"
    "userReadHandler ?c = Some (Handler 1 [])" "readedSize ?c = 0" "expectSize ?c = of_nat (length ''a'')"
    "\<not> anyFlag ?c" "''a'' \<noteq> []" "''bc'' \<noteq> []" "length ''a'' \<le> 1024" "length ''bc'' \<le> 1024"
    by (simp_all add: TcpConnection_new_def Buffer_new_ok) (simp add: Buffer_room_def Buffer_new_def)
  from TcpConnection_read_handler_repeats [OF this, of "\<lambda>_. ''''"] obtain c1 c2 where
    "TcpConnection_readHandler (\<lambda>_. '''') 1 0 ''a'' ?c = Some (c1, [FCall (Handler 1 []) ''''])"
    "TcpConnection_readHandler (\<lambda>_. '''') 2 0 ''bc'' c1 = Some (c2, [FCall (Handler 1 []) ''''])"
    by auto
  then show ?thesis by blast
qed

end
