(* ===== verification/Tcp_Stream.thy ===== *)
theory Tcp_Stream
  imports Tcp_Connection
begin

text \<open>
  Two connections joined by the kernel's two byte streams.  Each end is the connection of
  \<open>Tcp_Connection\<close> with its call stack, so the owners' calls and the callbacks of both ends interleave
  freely.  A wire holds the bytes its end has given to \<^verbatim>\<open>write(2)\<close> and the other end has not read:
  what is used of TCP is that it delivers them in order.
\<close>

section \<open>The system\<close>

datatype side = Near | Far

fun peer :: "side \<Rightarrow> side" where
  "peer Near = Far"
| "peer Far = Near"

lemma peer_simps [simp]: "peer (peer s) = s" "peer s \<noteq> s" "s \<noteq> peer s"
  by (cases s; simp)+

text \<open>\<open>taken s\<close>: the bytes that \<^verbatim>\<open>ReadBufferPopHead\<close> has returned to the owner of end \<open>s\<close>.\<close>

datatype 'a both = Both 'a 'a

fun at :: "side \<Rightarrow> 'a both \<Rightarrow> 'a" where
  "at Near (Both x y) = x"
| "at Far (Both x y) = y"

fun put :: "side \<Rightarrow> 'a \<Rightarrow> 'a both \<Rightarrow> 'a both" where
  "put Near z (Both x y) = Both z y"
| "put Far z (Both x y) = Both x z"

lemma at_put [simp]: "at s (put s z b) = z" "t \<noteq> s \<Longrightarrow> at t (put s z b) = at t b"
  by (cases s; cases t; cases b; simp)+

lemma put_at [simp]: "put s (at s b) b = b"
  by (cases s; cases b) simp_all

lemma put_put [simp]: "put s y (put s x b) = put s y b"
  by (cases s; cases b) simp_all

lemma at_Both [simp]: "at s (Both x x) = x"
  by (cases s) simp_all

record duplex =
  d_ends :: "machine both"
  d_wire :: "char list both"
  d_taken :: "char list both"

abbreviation ends :: "duplex \<Rightarrow> side \<Rightarrow> machine" where
  "ends w s \<equiv> at s (d_ends w)"

abbreviation wire :: "duplex \<Rightarrow> side \<Rightarrow> char list" where
  "wire w s \<equiv> at s (d_wire w)"

abbreviation taken :: "duplex \<Rightarrow> side \<Rightarrow> char list" where
  "taken w s \<equiv> at s (d_taken w)"

abbreviation conn_of :: "duplex \<Rightarrow> side \<Rightarrow> connection" where
  "conn_of w s \<equiv> fst (ends w s)"

text \<open>A connection as \<^verbatim>\<open>InitAccepted\<close> and \<^verbatim>\<open>InitConnected\<close> leave it.\<close>

definition connected :: "event \<Rightarrow> handler \<Rightarrow> connection" where
  "connected e fin = TcpConnection_new (notify_flags EnableRead e) fin"

lemma connected_init:
  "TcpConnection_InitConnected (TcpConnection_new e fin) = Some (connected e fin, '''')"
  "TcpConnection_InitAccepted '''' '''' (TcpConnection_new e fin) = Some (connected e fin, '''')"
  by (simp_all add: TcpConnection_InitConnected_def TcpConnection_InitAccepted_def connected_def TcpConnection_new_def)

definition duplex_new :: "event \<Rightarrow> event \<Rightarrow> handler \<Rightarrow> handler \<Rightarrow> duplex" where
  "duplex_new e1 e2 f1 f2 =
     \<lparr>d_ends = Both (connected e1 f1, []) (connected e2 f2, []), d_wire = Both [] [], d_taken = Both [] []\<rparr>"

text \<open>What a call, and the top frame of a stack, takes out of the read buffer.\<close>

fun cmd_pops :: "cmd \<Rightarrow> connection \<Rightarrow> char list" where
  "cmd_pops (CReadBufferPopHead n) c =
     (case Buffer_PopHead n (ReadBuffer c) of Some (_, xs, _) \<Rightarrow> xs | None \<Rightarrow> [])"
| "cmd_pops _ c = []"

fun frame_pops :: "frame \<Rightarrow> connection \<Rightarrow> char list" where
  "frame_pops (FCmds (x # xs)) c = cmd_pops x c"
| "frame_pops _ c = []"

definition reads :: "connection \<Rightarrow> bool" where
  "reads c \<longleftrightarrow> (case c_event c of None \<Rightarrow> False | Some e \<Rightarrow> readNotify e)"

definition writes :: "connection \<Rightarrow> bool" where
  "writes c \<longleftrightarrow> (case c_event c of None \<Rightarrow> False | Some e \<Rightarrow> writeNotify e)"

text \<open>
  What happens at an end: its stack goes on; or, when the stack is empty, its owner calls, its loop runs the
  asyncer, the kernel takes up to \<open>k + 1\<close> bytes of those offered or refuses them with an error, or there is something to read, up to
  \<open>k + 1\<close> bytes and never more than the 1024 of the handler's array.  A read of a wire that is empty finds
  the end of the stream when the peer has closed, and else an error or nothing (\<open>DNoData\<close>).
\<close>

datatype duplex_input =
    DRun side
  | DUser side cmd
  | DLoop side
  | DWritable side nat
  | DRefused side int
  | DReadable side nat
  | DNoData side int

definition put_end :: "side \<Rightarrow> machine \<Rightarrow> duplex \<Rightarrow> duplex" where
  "put_end s m w = w\<lparr>d_ends := put s m (d_ends w)\<rparr>"

definition take_from :: "side \<Rightarrow> char list \<Rightarrow> duplex \<Rightarrow> duplex" where
  "take_from s xs w = w\<lparr>d_taken := put s (taken w s @ xs) (d_taken w)\<rparr>"

definition set_wire :: "side \<Rightarrow> char list \<Rightarrow> duplex \<Rightarrow> duplex" where
  "set_wire s xs w = w\<lparr>d_wire := put s xs (d_wire w)\<rparr>"

definition idle :: "side \<Rightarrow> duplex \<Rightarrow> bool" where
  "idle s w \<longleftrightarrow> snd (ends w s) = []"

fun duplex_do :: "(int \<Rightarrow> string) \<Rightarrow> duplex_input \<Rightarrow> duplex \<Rightarrow> duplex option" where
  "duplex_do se (DRun s) w =
     (case ends w s of
        (c, []) \<Rightarrow> Some w
      | (c, f # fs) \<Rightarrow>
          map_option (\<lambda>m. take_from s (frame_pops f c) (put_end s m w)) (conn_step (c, f # fs)))"
| "duplex_do se (DUser s x) w =
     (if \<not> idle s w then Some w
      else map_option (\<lambda>m. take_from s (cmd_pops x (conn_of w s)) (put_end s m w))
             (conn_feed se (IUser x) (conn_of w s)))"
| "duplex_do se (DLoop s) w =
     (if \<not> idle s w then Some w
      else map_option (\<lambda>m. put_end s m w) (conn_feed se IAsync (conn_of w s)))"
| "duplex_do se (DWritable s k) w =
     (if \<not> idle s w \<or> \<not> writes (conn_of w s) then Some w
      else let sent = take (Suc k) (offered (conn_of w s)) in
        map_option (\<lambda>m. set_wire s (wire w s @ sent) (put_end s m w))
          (conn_feed se (IWritable (int (length sent)) 0) (conn_of w s)))"
| "duplex_do se (DRefused s errno) w =
     (if \<not> idle s w \<or> \<not> writes (conn_of w s) then Some w
      else map_option (\<lambda>m. put_end s m w) (conn_feed se (IWritable (-1) errno) (conn_of w s)))"
| "duplex_do se (DReadable s k) w =
     (if \<not> idle s w \<or> \<not> reads (conn_of w s) then Some w
      else let n = min (Suc k) 1024; data = take n (wire w (peer s)) in
        if data = [] \<and> c_event (conn_of w (peer s)) \<noteq> None then Some w
        else map_option (\<lambda>m. set_wire (peer s) (drop n (wire w (peer s))) (put_end s m w))
               (conn_feed se (IReadable (int (length data)) 0 data) (conn_of w s)))"
| "duplex_do se (DNoData s errno) w =
     (if \<not> idle s w then Some w
      else map_option (\<lambda>m. put_end s m w) (conn_feed se (IReadable (-1) errno []) (conn_of w s)))"

text \<open>
  The histories considered: no connection is reset (a reset drops the bytes it holds), and no call asks for
  more than \<open>2 ^ 63\<close> bytes at once.
\<close>

fun cmd_calm :: "cmd \<Rightarrow> bool" where
  "cmd_calm CReset = False"
| "cmd_calm (CReadBufferPopHead n) = (n \<le> 0x8000000000000000)"
| "cmd_calm _ = True"

fun calm :: "duplex_input \<Rightarrow> duplex \<Rightarrow> bool" where
  "calm (DRun s) w = (case ends w s of (c, FCmds (x # xs) # fs) \<Rightarrow> cmd_calm x | _ \<Rightarrow> True)"
| "calm (DUser s x) w = cmd_calm x"
| "calm _ w = True"

fun duplex_run :: "(int \<Rightarrow> string) \<Rightarrow> duplex_input list \<Rightarrow> duplex \<Rightarrow> duplex option" where
  "duplex_run se [] w = Some w"
| "duplex_run se (i # is) w = (if \<not> calm i w then None else Option.bind (duplex_do se i w) (duplex_run se is))"

section \<open>The read side of a connection\<close>

abbreviation pushed_of :: "duplex \<Rightarrow> side \<Rightarrow> char list" where
  "pushed_of w s \<equiv> pushed_bytes (conn_of w s)"

lemma conn_cmd_read_side:
  "conn_cmd x c = Some (c', gs) \<Longrightarrow> cmd_calm x \<Longrightarrow> (\<And>n. x \<noteq> CReadBufferPopHead n) \<Longrightarrow> ReadBuffer c' = ReadBuffer c"
  by (cases x) (auto simp: TcpConnection_quiet_defs TcpConnection_WriteBufferPush_def Let_def split: if_splits option.splits)

lemma conn_frame_read_side:
  "conn_frame f c = Some (c', gs) \<Longrightarrow> (\<And>x xs. f \<noteq> FCmds (x # xs)) \<Longrightarrow> ReadBuffer c' = ReadBuffer c"
  by (induction f c rule: conn_frame.induct)
     (auto simp: TcpConnection_quiet_defs Let_def split: if_splits option.splits)

lemma conn_feed_read_side:
  "conn_feed se i c = Some (c', gs) \<Longrightarrow> (\<And>x. i \<noteq> IUser x) \<Longrightarrow> (\<And>r e bs. i \<noteq> IReadable r e bs) \<Longrightarrow> ReadBuffer c' = ReadBuffer c"
  by (cases i) (auto simp: TcpConnection_writeHandler_def Let_def split: if_splits option.splits prod.splits)

definition read_inv :: "connection \<Rightarrow> char list \<Rightarrow> char list \<Rightarrow> bool" where
  "read_inv c got rcvd \<longleftrightarrow> length rcvd < 2 ^ 63 \<longrightarrow>
     Buffer_ok (ReadBuffer c) \<and> got @ Buffer_data (ReadBuffer c) = rcvd \<and>
     2 ^ 64 - 1 \<le> Buffer_room (ReadBuffer c) + length rcvd"

lemma read_inv_same: "read_inv c got rcvd \<Longrightarrow> ReadBuffer c' = ReadBuffer c \<Longrightarrow> read_inv c' got rcvd"
  by (simp add: read_inv_def)

lemma read_inv_pop:
  assumes "read_inv c got rcvd" "TcpConnection_ReadBufferPopHead n c = Some (c', gs)" "n \<le> 0x8000000000000000"
  shows "read_inv c' (got @ cmd_pops (CReadBufferPopHead n) c) rcvd"
  unfolding read_inv_def
proof
  assume b: "length rcvd < 2 ^ 63"
  with assms(1) have i: "Buffer_ok (ReadBuffer c)" "got @ Buffer_data (ReadBuffer c) = rcvd"
    "2 ^ 64 - 1 \<le> Buffer_room (ReadBuffer c) + length rcvd" by (auto simp: read_inv_def)
  have "unat n \<le> 2 ^ 63" using assms(3) by (simp add: word_le_nat_alt)
  with i(3) b have "unat n \<le> Buffer_room (ReadBuffer c)" by simp
  from Buffer_PopHead_ok [OF i(1) this] assms(2) i(2,3)
  show "Buffer_ok (ReadBuffer c') \<and> (got @ cmd_pops (CReadBufferPopHead n) c) @ Buffer_data (ReadBuffer c') = rcvd \<and>
      2 ^ 64 - 1 \<le> Buffer_room (ReadBuffer c') + length rcvd"
    by (auto simp: TcpConnection_ReadBufferPopHead_def)
qed

lemma read_inv_cmd:
  assumes "read_inv c got rcvd" "conn_cmd x c = Some (c', gs)" "cmd_calm x"
  shows "read_inv c' (got @ cmd_pops x c) rcvd"
proof (cases "\<exists>n. x = CReadBufferPopHead n")
  case True
  with assms read_inv_pop show ?thesis by auto
next
  case False
  then have "cmd_pops x c = []" by (cases x) simp_all
  with False conn_cmd_read_side [OF assms(2,3)] read_inv_same [OF assms(1)] show ?thesis by simp
qed

lemma read_inv_frame:
  assumes "read_inv c got rcvd" "conn_frame f c = Some (c', gs)" "\<And>x xs. f = FCmds (x # xs) \<Longrightarrow> cmd_calm x"
  shows "read_inv c' (got @ frame_pops f c) rcvd"
proof (cases "\<exists>x xs. f = FCmds (x # xs)")
  case True
  with assms read_inv_cmd show ?thesis by auto
next
  case False
  then have "frame_pops f c = []" by (cases "(f, c)" rule: frame_pops.cases) auto
  with False conn_frame_read_side [OF assms(2)] read_inv_same [OF assms(1)] show ?thesis by simp
qed

lemma read_inv_data:
  assumes "read_inv c got rcvd" "length data \<le> 1024"
    and "TcpConnection_readHandler se (int (length data)) 0 data c = Some (c', gs)"
  shows "read_inv c' got (rcvd @ data)"
  unfolding read_inv_def
proof
  assume b: "length (rcvd @ data) < 2 ^ 63"
  with assms(1) have i: "Buffer_ok (ReadBuffer c)" "got @ Buffer_data (ReadBuffer c) = rcvd"
    "2 ^ 64 - 1 \<le> Buffer_room (ReadBuffer c) + length rcvd" by (auto simp: read_inv_def)
  show "Buffer_ok (ReadBuffer c') \<and> got @ Buffer_data (ReadBuffer c') = rcvd @ data \<and>
      2 ^ 64 - 1 \<le> Buffer_room (ReadBuffer c') + length (rcvd @ data)"
  proof (cases "data = []")
    case True
    with assms(3) have "ReadBuffer c' = ReadBuffer c"
      by (auto simp: TcpConnection_readHandler_def Socket_Read_def TcpConnection_ResetRead_def Let_def split: option.splits)
    with i True show ?thesis by simp
  next
    case False
    from i(3) b have "length data \<le> Buffer_room (ReadBuffer c)" by simp
    from Buffer_Write_ok [OF i(1) this] obtain b' where b': "Buffer_Write data (ReadBuffer c) = Some b'"
      "Buffer_ok b'" "Buffer_data b' = Buffer_data (ReadBuffer c) @ data"
      "Buffer_room b' = Buffer_room (ReadBuffer c) - length data" by blast
    with assms(3) False have "ReadBuffer c' = b'"
      by (auto simp: TcpConnection_readHandler_def Socket_Read_def TcpConnection_ResetRead_def Let_def
          split: option.splits if_splits)
    with b' i \<open>length data \<le> Buffer_room (ReadBuffer c)\<close> show ?thesis by simp
  qed
qed

section \<open>The write side of a connection\<close>

lemma conn_cmd_sent:
  "conn_cmd x c = Some (c', gs) \<Longrightarrow> cmd_calm x \<Longrightarrow>
     sent_bytes c' = sent_bytes c \<and> refused c' = refused c \<and> length (pushed_bytes c) \<le> length (pushed_bytes c')"
  by (cases x) (auto simp: TcpConnection_quiet_defs TcpConnection_WriteBufferPush_def Let_def split: if_splits option.splits)

lemma conn_frame_sent:
  assumes "conn_frame f c = Some (c', gs)" "\<And>x xs. f = FCmds (x # xs) \<Longrightarrow> cmd_calm x"
  shows "sent_bytes c' = sent_bytes c \<and> refused c' = refused c \<and> length (pushed_bytes c) \<le> length (pushed_bytes c')"
proof (cases "\<exists>x xs. f = FCmds (x # xs)")
  case True
  with assms conn_cmd_sent show ?thesis by auto
next
  case False
  with conn_frame_write_side [OF assms(1)] show ?thesis by simp
qed

lemma writeHandler_sent:
  assumes "stream_inv c" "refused c = 0" "length (pushed_bytes c) < 2 ^ 63" "data = take k (offered c)"
    and "TcpConnection_writeHandler se (int (length data)) 0 c = Some (c', gs)"
  shows "sent_bytes c' = sent_bytes c @ data"
proof -
  from assms(1-3) have i: "Buffer_ok (WriteBuffer c)" "2 ^ 64 - 1 \<le> Buffer_room (WriteBuffer c) + length (pushed_bytes c)"
    by (auto simp: stream_inv_def)
  with assms(3) have "unat (1024 :: u64) \<le> Buffer_room (WriteBuffer c)" by simp
  from Buffer_Read_ok [OF i(1) this] have rd: "Buffer_Read 1024 (WriteBuffer c) =
      Some (offered c, of_nat (min 1024 (length (Buffer_data (WriteBuffer c)))))" by (simp add: offered_def)
  have "unat (of_nat (min 1024 (length (Buffer_data (WriteBuffer c)))) :: u64) = min 1024 (length (Buffer_data (WriteBuffer c)))"
    by (rule unat_of_nat64) simp
  then have "(of_nat (min 1024 (length (Buffer_data (WriteBuffer c)))) :: u64) = 0 \<longleftrightarrow> offered c = []"
    by (cases "Buffer_data (WriteBuffer c)") (auto simp: offered_def unat_eq_0)
  moreover have "take (min (length xs) k) xs = take k xs" for xs :: "char list" by (simp add: min_def)
  ultimately show ?thesis using assms(4,5) rd
    by (auto simp: TcpConnection_writeHandler_def Socket_Write_def Let_def split: if_splits option.splits)
qed

section \<open>The system's invariant\<close>

definition bounded :: "duplex \<Rightarrow> bool" where
  "bounded w \<longleftrightarrow> (\<forall>s. length (pushed_of w s) < 2 ^ 63)"

definition duplex_inv :: "duplex \<Rightarrow> bool" where
  "duplex_inv w \<longleftrightarrow> (\<forall>s. stream_inv (conn_of w s)) \<and>
     (bounded w \<longrightarrow> (\<forall>s. refused (conn_of w (peer s)) = 0 \<longrightarrow> (\<exists>rcvd. sent_bytes (conn_of w (peer s)) = rcvd @ wire w (peer s) \<and> read_inv (conn_of w s) (taken w s) rcvd)))"

lemma side_eq: "t = s \<or> t = peer s"
  by (cases s; cases t) simp_all

text \<open>
  A step of one end keeps the invariant if it keeps what the end has pushed, extends what it has sent and put
  on its wire by the same bytes, and turns what it drops of the other wire into received bytes.
\<close>

lemma duplex_inv_step:
  assumes inv: "duplex_inv w" and here: "conn_of w s = c" and stream: "stream_inv c'"
    and mono: "length (pushed_bytes c) \<le> length (pushed_bytes c')" "refused c \<le> refused c'"
    and sent: "length (pushed_bytes c) < 2 ^ 63 \<Longrightarrow> refused c' = 0 \<Longrightarrow> sent_bytes c' = sent_bytes c @ out"
    and wires: "wire w (peer s) = inn @ rest"
    and reading: "\<And>rcvd. read_inv c (taken w s) rcvd \<Longrightarrow> read_inv c' (taken w s @ xs) (rcvd @ inn)"
    and w': "w' = take_from s xs (set_wire (peer s) rest (set_wire s (wire w s @ out) (put_end s (c', gs) w)))"
  shows "duplex_inv w'"
proof -
  note w' = w' [unfolded take_from_def set_wire_def put_end_def]
  have conns: "conn_of w' s = c'" "conn_of w' (peer s) = conn_of w (peer s)" by (simp_all add: w')
  have "stream_inv (conn_of w' t)" for t
    using side_eq [of t s] stream inv conns by (auto simp: duplex_inv_def)
  moreover have "\<exists>rcvd. sent_bytes (conn_of w' (peer t)) = rcvd @ wire w' (peer t) \<and> read_inv (conn_of w' t) (taken w' t) rcvd"
    if b: "bounded w'" and rf: "refused (conn_of w' (peer t)) = 0" for t
  proof -
    have bd: "length (pushed_bytes c) < 2 ^ 63"
      using b mono(1) conns(1) unfolding bounded_def by (metis le_less_trans)
    moreover have "length (pushed_of w (peer s)) < 2 ^ 63" using b conns(2) unfolding bounded_def by metis
    ultimately have "bounded w" unfolding bounded_def using here side_eq by metis
    then have rc: "\<exists>rcvd. sent_bytes (conn_of w (peer u)) = rcvd @ wire w (peer u) \<and> read_inv (conn_of w u) (taken w u) rcvd"
      if "refused (conn_of w (peer u)) = 0" for u
      using inv that by (auto simp: duplex_inv_def)
    from side_eq [of t s] show ?thesis
    proof
      assume t: "t = s"
      have "refused (conn_of w (peer s)) = 0" using rf t conns(2) by simp
      from rc [OF this] obtain rcvd where "sent_bytes (conn_of w (peer s)) = rcvd @ wire w (peer s)" "read_inv c (taken w s) rcvd"
        using here by auto
      with reading [of rcvd] wires show ?thesis
        by (intro exI [of _ "rcvd @ inn"]) (simp add: t w')
    next
      assume t: "t = peer s"
      have r0: "refused c' = 0" "refused c = 0" using rf t conns(1) mono(2) by simp_all
      with rc [of "peer s"] obtain rcvd where "sent_bytes c = rcvd @ wire w s" "read_inv (conn_of w (peer s)) (taken w (peer s)) rcvd"
        using here by auto
      with sent [OF bd r0(1)] show ?thesis by (intro exI [of _ rcvd]) (simp add: t w')
    qed
  qed
  ultimately show ?thesis unfolding duplex_inv_def by blast
qed

lemma set_wire_same [simp]: "set_wire s (wire w s) w = w"
  by (cases w) (simp add: set_wire_def)

lemma wire_put [simp]: "d_wire (put_end s m w) = d_wire w" "d_wire (set_wire s xs w) = put s xs (d_wire w)"
  by (simp_all add: put_end_def set_wire_def)

lemma set_wire_same_end [simp]: "set_wire t (wire w t) (put_end s m w) = put_end s m w"
  using set_wire_same [of t "put_end s m w"] by simp

lemma set_wire_same_peer [simp]: "set_wire (peer s) (wire w (peer s)) (set_wire s xs w) = set_wire s xs w"
  using set_wire_same [of "peer s" "set_wire s xs w"] by simp

lemma take_from_Nil [simp]: "take_from s [] w = w"
  by (simp add: take_from_def)

lemma duplex_inv_quiet:
  assumes "duplex_inv w" "conn_of w s = c" "stream_inv c'"
    and "sent_bytes c' = sent_bytes c \<and> refused c' = refused c \<and> length (pushed_bytes c) \<le> length (pushed_bytes c')"
    and "\<And>rcvd. read_inv c (taken w s) rcvd \<Longrightarrow> read_inv c' (taken w s @ xs) rcvd"
  shows "duplex_inv (take_from s xs (put_end s (c', gs) w))"
  by (rule duplex_inv_step [OF assms(1-3), where out = "[]" and inn = "[]" and rest = "wire w (peer s)" and gs = gs])
    (use assms(4,5) in simp_all)

lemma duplex_do_readable:
  assumes "idle s w" "reads (conn_of w s)" "data = take (min (Suc k) 1024) (wire w (peer s))"
    and "\<not> (data = [] \<and> c_event (conn_of w (peer s)) \<noteq> None)"
    and "duplex_do se (DReadable s k) w = Some w'"
  obtains c' gs where "TcpConnection_readHandler se (int (length data)) 0 data (conn_of w s) = Some (c', gs)"
    "conn_feed se (IReadable (int (length data)) 0 data) (conn_of w s) = Some (c', gs)"
    "w' = set_wire (peer s) (drop (min (Suc k) 1024) (wire w (peer s))) (put_end s (c', gs) w)"
proof -
  from assms(1,2) have c: "\<not> (\<not> idle s w \<or> \<not> reads (conn_of w s))" by simp
  from assms(5) have "map_option (\<lambda>m. set_wire (peer s) (drop (min (Suc k) 1024) (wire w (peer s))) (put_end s m w))
      (conn_feed se (IReadable (int (length data)) 0 data) (conn_of w s)) = Some w'"
    unfolding duplex_do.simps Let_def assms(3) [symmetric] if_not_P [OF c] if_not_P [OF assms(4)] .
  then obtain m where m: "conn_feed se (IReadable (int (length data)) 0 data) (conn_of w s) = Some m"
    "w' = set_wire (peer s) (drop (min (Suc k) 1024) (wire w (peer s))) (put_end s m w)" by auto
  obtain c' gs where "m = (c', gs)" by fastforce
  moreover have "TcpConnection_readHandler se (int (length data)) 0 data (conn_of w s) = Some m"
    using m(1) assms(2) by (auto simp: reads_def split: option.splits)
  ultimately show ?thesis using m that by blast
qed

lemma duplex_do_unreadable:
  assumes "\<not> (idle s w \<and> reads (conn_of w s) \<and>
    \<not> (take (min (Suc k) 1024) (wire w (peer s)) = [] \<and> c_event (conn_of w (peer s)) \<noteq> None))"
  shows "duplex_do se (DReadable s k) w = Some w"
proof (cases "\<not> idle s w \<or> \<not> reads (conn_of w s)")
  case False
  with assms have "take (min (Suc k) 1024) (wire w (peer s)) = [] \<and> c_event (conn_of w (peer s)) \<noteq> None" by blast
  then show ?thesis unfolding duplex_do.simps Let_def if_not_P [OF False] by (rule if_P)
qed (simp only: duplex_do.simps if_True simp_thms)

lemma duplex_inv_do:
  assumes "duplex_inv w" "calm i w" "duplex_do se i w = Some w'"
  shows "duplex_inv w'"
proof -
  note stream = assms(1) [unfolded duplex_inv_def, THEN conjunct1, rule_format]
  show ?thesis
  proof (cases i)
    case (DRun s)
    show ?thesis
    proof (cases "snd (ends w s)")
      case Nil
      with DRun assms(1,3) show ?thesis by (cases "ends w s") simp
    next
      case (Cons f fs)
      then obtain c where c: "ends w s = (c, f # fs)" by (cases "ends w s") simp
      with assms(3) DRun obtain c' gs where c': "conn_frame f c = Some (c', gs)"
        "w' = take_from s (frame_pops f c) (put_end s (c', gs @ fs) w)" by auto
      have "cmd_calm x" if "f = FCmds (x # xs)" for x xs
        using assms(2) DRun c that by simp
      then show ?thesis
        unfolding c'(2) using assms(1) c stream_inv_frame [OF _ c'(1)] stream [of s] conn_frame_sent [OF c'(1)]
          read_inv_frame [OF _ c'(1)]
        by (intro duplex_inv_quiet [where c = c]) auto
    qed
  next
    case (DUser s x)
    show ?thesis
    proof (cases "idle s w")
      case True
      with assms(3) DUser obtain c' gs where c': "conn_cmd x (conn_of w s) = Some (c', gs)"
        "w' = take_from s (cmd_pops x (conn_of w s)) (put_end s (c', gs) w)" by auto
      have "cmd_calm x" using assms(2) DUser by simp
      then show ?thesis
        unfolding c'(2) using assms(1) stream_inv_cmd [OF stream c'(1)] conn_cmd_sent [OF c'(1)] read_inv_cmd [OF _ c'(1)]
        by (intro duplex_inv_quiet [where c = "conn_of w s"]) auto
    qed (use assms DUser in simp)
  next
    case (DLoop s)
    show ?thesis
    proof (cases "idle s w")
      case True
      with assms(3) DLoop obtain c' gs where c': "conn_feed se IAsync (conn_of w s) = Some (c', gs)"
        "w' = take_from s [] (put_end s (c', gs) w)" by (auto simp del: conn_feed.simps)
      show ?thesis
        unfolding c'(2) using assms(1) stream_inv_feed [OF stream _ c'(1)] conn_feed_write_side [OF c'(1)]
          read_inv_same [OF _ conn_feed_read_side [OF c'(1)]]
        by (intro duplex_inv_quiet [where c = "conn_of w s"]) auto
    qed (use assms DLoop in simp)
  next
    case (DWritable s k)
    show ?thesis
    proof (cases "idle s w \<and> writes (conn_of w s)")
      case True
      let ?sent = "take (Suc k) (offered (conn_of w s))"
      from True assms(3) DWritable obtain c' gs where c': "conn_feed se (IWritable (int (length ?sent)) 0) (conn_of w s) = Some (c', gs)"
        "w' = set_wire s (wire w s @ ?sent) (put_end s (c', gs) w)" by (auto simp: Let_def simp del: conn_feed.simps)
      from True c'(1) have h: "TcpConnection_writeHandler se (int (length ?sent)) 0 (conn_of w s) = Some (c', gs)"
        by (auto simp: writes_def split: option.splits)
      then have p: "pushed_bytes c' = pushed_of w s"
        by (auto simp: TcpConnection_writeHandler_def Let_def split: if_splits option.splits prod.splits)
      have rfm: "refused (conn_of w s) \<le> refused c'"
        using h by (auto simp: TcpConnection_writeHandler_def Let_def split: if_splits option.splits prod.splits)
      show ?thesis
      proof (rule duplex_inv_step [OF assms(1) refl, where out = ?sent and inn = "[]" and xs = "[]" and gs = gs and rest = "wire w (peer s)"])
        show "stream_inv c'" by (rule stream_inv_feed [OF stream _ c'(1)]) simp
        show "read_inv c' (taken w s @ []) (rcvd @ [])" if "read_inv (conn_of w s) (taken w s) rcvd" for rcvd
          using read_inv_same [OF that conn_feed_read_side [OF c'(1)]] by simp
        show "sent_bytes c' = sent_bytes (conn_of w s) @ ?sent" if "length (pushed_of w s) < 2 ^ 63" "refused c' = 0"
          by (rule writeHandler_sent [OF stream _ that(1) refl h]) (use that(2) rfm in simp)
        show "w' = take_from s [] (set_wire (peer s) (wire w (peer s)) (set_wire s (wire w s @ ?sent) (put_end s (c', gs) w)))"
          using set_wire_same_peer [of s "put_end s (c', gs) w"] by (simp add: c'(2))
      qed (simp_all add: p rfm)
    qed (use assms DWritable in auto)
  next
    case (DRefused s e)
    show ?thesis
    proof (cases "idle s w \<and> writes (conn_of w s)")
      case True
      with assms(3) DRefused obtain c' gs where c': "conn_feed se (IWritable (-1) e) (conn_of w s) = Some (c', gs)"
        "w' = put_end s (c', gs) w" by (auto simp: Let_def simp del: conn_feed.simps)
      from True c'(1) have h: "TcpConnection_writeHandler se (-1) e (conn_of w s) = Some (c', gs)"
        by (auto simp: writes_def split: option.splits)
      have q: "pushed_bytes c' = pushed_of w s" "refused (conn_of w s) \<le> refused c'"
        "refused c' = 0 \<Longrightarrow> sent_bytes c' = sent_bytes (conn_of w s)"
        using h by (auto simp: TcpConnection_writeHandler_def Socket_Write_def Let_def split: if_splits option.splits prod.splits)
      show ?thesis
      proof (rule duplex_inv_step [OF assms(1) refl, where out = "[]" and inn = "[]" and xs = "[]" and gs = gs and rest = "wire w (peer s)"])
        show "stream_inv c'" by (rule stream_inv_feed [OF stream _ c'(1)]) simp
        show "read_inv c' (taken w s @ []) (rcvd @ [])" if "read_inv (conn_of w s) (taken w s) rcvd" for rcvd
          using read_inv_same [OF that conn_feed_read_side [OF c'(1)]] by simp
      qed (use q in \<open>simp_all add: c'(2)\<close>)
    qed (use assms DRefused in auto)
  next
    case (DReadable s k)
    show ?thesis
    proof (cases "idle s w \<and> reads (conn_of w s) \<and>
        \<not> (take (min (Suc k) 1024) (wire w (peer s)) = [] \<and> c_event (conn_of w (peer s)) \<noteq> None)")
      case True
      let ?n = "min (Suc k) 1024"
      let ?data = "take ?n (wire w (peer s))"
      from True assms(3) DReadable obtain c' gs where
        h: "TcpConnection_readHandler se (int (length ?data)) 0 ?data (conn_of w s) = Some (c', gs)"
        and c': "conn_feed se (IReadable (int (length ?data)) 0 ?data) (conn_of w s) = Some (c', gs)"
        "w' = set_wire (peer s) (drop ?n (wire w (peer s))) (put_end s (c', gs) w)"
        using duplex_do_readable [OF _ _ refl, of s w k se w'] by blast
      have ws: "same_write_side (conn_of w s) c'" by (rule conn_feed_write_side [OF c'(1)]) simp_all
      show ?thesis
      proof (rule duplex_inv_step [OF assms(1) refl, where out = "[]" and inn = ?data and xs = "[]" and gs = gs
          and rest = "drop ?n (wire w (peer s))"])
        show "stream_inv c'" by (rule stream_inv_same [OF stream ws])
        show "read_inv c' (taken w s @ []) (rcvd @ ?data)" if "read_inv (conn_of w s) (taken w s) rcvd" for rcvd
          using read_inv_data [OF that _ h] by simp
      qed (use ws in \<open>simp_all add: c'(2)\<close>)
    next
      case False
      from duplex_do_unreadable [OF False] assms(1,3) DReadable show ?thesis by simp
    qed
  next
    case (DNoData s e)
    show ?thesis
    proof (cases "idle s w")
      case True
      with assms(3) DNoData obtain c' gs where c': "conn_feed se (IReadable (-1) e []) (conn_of w s) = Some (c', gs)"
        "w' = take_from s [] (put_end s (c', gs) w)" by (auto simp del: conn_feed.simps)
      have "ReadBuffer c' = ReadBuffer (conn_of w s)"
        using c'(1) by (auto simp: TcpConnection_readHandler_def Socket_Read_def TcpConnection_ResetRead_def Let_def
            split: option.splits if_splits)
      then show ?thesis
        unfolding c'(2) using assms(1) stream_inv_feed [OF stream _ c'(1)] conn_feed_write_side [OF c'(1)]
          read_inv_same by (intro duplex_inv_quiet [where c = "conn_of w s"]) auto
    qed (use assms DNoData in simp)
  qed
qed

lemma duplex_run_append: "duplex_run se (is @ js) w = Option.bind (duplex_run se is w) (duplex_run se js)"
  by (induction "is" arbitrary: w) (auto simp del: calm.simps split: Option.bind_splits)

lemma duplex_inv_run:
  "duplex_run se is w = Some w' \<Longrightarrow> duplex_inv w \<Longrightarrow> duplex_inv w'"
proof (induction "is" arbitrary: w)
  case (Cons i "is")
  then obtain w1 where w1: "calm i w" "duplex_do se i w = Some w1" "duplex_run se is w1 = Some w'"
    by (auto simp: bind_eq_Some_conv simp del: calm.simps split: if_splits)
  with Cons.IH [OF w1(3)] duplex_inv_do [OF Cons.prems(2) w1(1,2)] show ?case by blast
qed simp

lemma duplex_inv_new: "duplex_inv (duplex_new e1 e2 f1 f2)"
proof -
  have "stream_inv (TcpConnection_new e f)" "read_inv (TcpConnection_new e f) [] []" "sent_bytes (TcpConnection_new e f) = []" for e f
    by (simp_all add: TcpConnection_new_def stream_inv_def read_inv_def Buffer_new_ok)
      (simp_all add: Buffer_new_def Buffer_room_def)
  then have "stream_inv (connected e f)" "read_inv (connected e f) [] []" "sent_bytes (connected e f) = []" for e f
    by (simp_all add: connected_def)
  moreover have "conn_of (duplex_new e1 e2 f1 f2) s = (case s of Near \<Rightarrow> connected e1 f1 | Far \<Rightarrow> connected e2 f2)" for s
    by (cases s) (simp_all add: duplex_new_def)
  ultimately have "stream_inv (conn_of (duplex_new e1 e2 f1 f2) s)" "read_inv (conn_of (duplex_new e1 e2 f1 f2) s) [] []"
    "sent_bytes (conn_of (duplex_new e1 e2 f1 f2) s) = []" for s
    by (simp_all split: side.splits)
  then show ?thesis by (simp add: duplex_inv_def) (simp add: duplex_new_def)
qed

section \<open>Delivery\<close>

lemma write_once:
  assumes "stream_inv c" "refused c = 0" "length (pushed_bytes c) < 2 ^ 63" "offered c \<noteq> []"
  shows "\<exists>c'. TcpConnection_writeHandler se (int (length (offered c))) 0 c = Some (c', []) \<and>
    Buffer_data (WriteBuffer c') = drop 1024 (Buffer_data (WriteBuffer c)) \<and> c_event c' = c_event c \<and>
    pushed_bytes c' = pushed_bytes c \<and> refused c' = 0"
proof -
  from assms(1-3) have i: "Buffer_ok (WriteBuffer c)" "2 ^ 64 - 1 \<le> Buffer_room (WriteBuffer c) + length (pushed_bytes c)"
    by (auto simp: stream_inv_def)
  let ?d = "Buffer_data (WriteBuffer c)"
  from i(2) assms(3) have "unat (1024 :: u64) \<le> Buffer_room (WriteBuffer c)" by simp
  from Buffer_Read_ok [OF i(1) this] have rd: "Buffer_Read 1024 (WriteBuffer c) =
      Some (offered c, of_nat (min 1024 (length ?d)))" by (simp add: offered_def)
  have u: "unat (of_nat (min 1024 (length ?d)) :: u64) = min 1024 (length ?d)" by (rule unat_of_nat64) simp
  then have nz: "(of_nat (min 1024 (length ?d)) :: u64) \<noteq> 0" using assms(4) by (cases "Buffer_data (WriteBuffer c)") (auto simp: offered_def)
  have l: "length (offered c) = min 1024 (length ?d)" by (simp add: offered_def)
  have o: "(of_int (int (length (offered c))) :: u64) = of_nat (min 1024 (length ?d))" by (simp add: l)
  have "Buffer_data (fst (Buffer_UpdateReadIndex (of_nat (min 1024 (length ?d))) (WriteBuffer c))) = drop 1024 ?d"
    using Buffer_UpdateReadIndex_ok [OF i(1), of "of_nat (min 1024 (length ?d))"] u by (simp add: min_def)
  with rd nz show ?thesis
    by (simp add: TcpConnection_writeHandler_def Socket_Write_def Let_def l assms(2))
qed

lemma bounded_iff: "bounded w \<longleftrightarrow> length (pushed_of w p) < 2 ^ 63 \<and> length (pushed_of w (peer p)) < 2 ^ 63"
proof
  assume b: "length (pushed_of w p) < 2 ^ 63 \<and> length (pushed_of w (peer p)) < 2 ^ 63"
  have "length (pushed_of w t) < 2 ^ 63" for t by (rule disjE [OF side_eq [of t p]]) (use b in simp_all)
  then show "bounded w" by (simp add: bounded_def)
qed (simp add: bounded_def)

lemma drain_writes:
  assumes "duplex_inv w" "bounded w" "idle p w" "writes (conn_of w p)" "refused (conn_of w p) = 0"
  shows "\<exists>n w'. duplex_run se (replicate n (DWritable p 1023)) w = Some w' \<and> Buffer_data (WriteBuffer (conn_of w' p)) = [] \<and>
    ends w' (peer p) = ends w (peer p) \<and> idle p w' \<and> pushed_of w' p = pushed_of w p \<and>
    c_event (conn_of w' p) = c_event (conn_of w p) \<and> duplex_inv w' \<and> refused (conn_of w' p) = 0"
  using assms
proof (induction "length (Buffer_data (WriteBuffer (conn_of w p)))" arbitrary: w rule: less_induct)
  case less
  let ?c = "conn_of w p"
  show ?case
  proof (cases "Buffer_data (WriteBuffer ?c) = []")
    case True
    with less.prems show ?thesis by (intro exI [of _ 0] exI [of _ w]) simp
  next
    case False
    then have o: "offered ?c \<noteq> []" by (simp add: offered_def)
    have "stream_inv ?c" "refused ?c = 0" "length (pushed_bytes ?c) < 2 ^ 63"
      using less.prems(1,2,5) by (auto simp: duplex_inv_def bounded_def)
    from write_once [OF this o, of se] obtain c' where c':
      "TcpConnection_writeHandler se (int (length (offered ?c))) 0 ?c = Some (c', [])"
      "Buffer_data (WriteBuffer c') = drop 1024 (Buffer_data (WriteBuffer ?c))" "c_event c' = c_event ?c"
      "pushed_bytes c' = pushed_bytes ?c" "refused c' = 0" by blast
    let ?w = "set_wire p (wire w p @ offered ?c) (put_end p (c', []) w)"
    have "take (Suc 1023) (offered ?c) = offered ?c" by (simp add: offered_def)
    moreover have "conn_feed se (IWritable (int (length (offered ?c))) 0) ?c = Some (c', [])"
      using less.prems(4) c'(1) by (auto simp: writes_def split: option.splits)
    ultimately have step: "duplex_do se (DWritable p 1023) w = Some ?w"
      using less.prems(3,4) by (simp add: Let_def del: conn_feed.simps)
    have inv: "duplex_inv ?w" by (rule duplex_inv_do [OF less.prems(1) _ step]) simp
    have e: "conn_of ?w p = c'" "ends ?w (peer p) = ends w (peer p)" "snd (ends ?w p) = []" by (simp_all add: put_end_def set_wire_def)
    have b: "bounded ?w" using less.prems(2) unfolding bounded_iff [of _ p] e(1,2) c'(4) .
    have "length (Buffer_data (WriteBuffer (conn_of ?w p))) < length (Buffer_data (WriteBuffer ?c))"
      using False by (simp add: e c'(2))
    moreover have "idle p ?w" "writes (conn_of ?w p)" "refused (conn_of ?w p) = 0" using e less.prems(4) c'(3,5) by (simp_all add: idle_def writes_def)
    ultimately obtain n w' where
      "duplex_run se (replicate n (DWritable p 1023)) ?w = Some w'" "Buffer_data (WriteBuffer (conn_of w' p)) = []"
      "ends w' (peer p) = ends ?w (peer p)" "idle p w'" "pushed_of w' p = pushed_of ?w p"
      "c_event (conn_of w' p) = c_event (conn_of ?w p)" "duplex_inv w'" "refused (conn_of w' p) = 0"
      using less.hyps [OF _ inv b] by blast
    with step e c'(3,4) show ?thesis
      by (intro exI [of _ "Suc n"] exI [of _ w']) (simp del: duplex_do.simps)
  qed
qed

text \<open>A reader whose handler, if there is one, makes no calls.\<close>

definition quiet_reader :: "connection \<Rightarrow> bool" where
  "quiet_reader c \<longleftrightarrow> (case userReadHandler c of None \<Rightarrow> True | Some (Handler n xs) \<Rightarrow> xs = [])"

lemma read_once:
  assumes "read_inv c got rcvd" "length (rcvd @ data) < 2 ^ 63" "data \<noteq> []" "length data \<le> 1024" "quiet_reader c"
  shows "\<exists>c' gs. TcpConnection_readHandler se (int (length data)) 0 data c = Some (c', gs) \<and>
    (gs = [] \<or> (\<exists>n. gs = [FCall (Handler n []) ''''])) \<and> c_event c' = c_event c \<and> quiet_reader c'"
proof -
  from assms(1,2) have i: "Buffer_ok (ReadBuffer c)" "2 ^ 64 - 1 \<le> Buffer_room (ReadBuffer c) + length rcvd"
    by (auto simp: read_inv_def)
  from i(2) assms(2) have "length data \<le> Buffer_room (ReadBuffer c)" by simp
  from Buffer_Write_ok [OF i(1) this] obtain b' where "Buffer_Write data (ReadBuffer c) = Some b'" by blast
  with assms(3,5) show ?thesis
    by (auto simp: TcpConnection_readHandler_def Socket_Read_def TcpConnection_ResetRead_def Let_def quiet_reader_def
        split: option.splits handler.splits)
qed

lemma settle_read:
  assumes "ends w s = (c, gs)" "gs = [] \<or> (\<exists>n. gs = [FCall (Handler n []) m])"
  shows "\<exists>c'. duplex_run se [DRun s, DRun s] w = Some (put_end s (c', []) w) \<and> c_event c' = c_event c \<and>
    userReadHandler c' = userReadHandler c \<and> pushed_bytes c' = pushed_bytes c \<and> ReadBuffer c' = ReadBuffer c"
  using assms(2)
proof
  assume "gs = []"
  with assms(1) show ?thesis by (intro exI [of _ c]) (cases w; use put_at [of s "d_ends w"] in \<open>auto simp: put_end_def\<close>)
next
  assume "\<exists>n. gs = [FCall (Handler n []) m]"
  then obtain n where "gs = [FCall (Handler n []) m]" by blast
  with assms(1) show ?thesis
    by (intro exI [of _ "c\<lparr>ran := ran c @ [(Handler n [], m)]\<rparr>"]) (simp add: put_end_def)
qed

lemma put_end_simps [simp]:
  "ends (put_end s m w) s = m" "t \<noteq> s \<Longrightarrow> ends (put_end s m w) t = ends w t" "d_taken (put_end s m w) = d_taken w"
  "d_ends (set_wire s xs w) = d_ends w" "d_taken (set_wire s xs w) = d_taken w"
  by (simp_all add: put_end_def set_wire_def)

lemma drain_reads:
  assumes "duplex_inv w" "bounded w" "idle s w" "reads (conn_of w s)" "quiet_reader (conn_of w s)"
    "refused (conn_of w (peer s)) = 0"
  shows "\<exists>is w'. duplex_run se is w = Some w' \<and> wire w' (peer s) = [] \<and> ends w' (peer s) = ends w (peer s) \<and>
    d_taken w' = d_taken w \<and> bounded w' \<and> duplex_inv w' \<and> idle s w'"
  using assms
proof (induction "length (wire w (peer s))" arbitrary: w rule: less_induct)
  case less
  let ?c = "conn_of w s"
  let ?data = "take 1024 (wire w (peer s))"
  show ?case
  proof (cases "wire w (peer s) = []")
    case True
    with less.prems show ?thesis by (intro exI [of _ "[]"] exI [of _ w]) simp
  next
    case False
    then have ne: "?data \<noteq> []" by simp
    from less.prems(1,2,6) obtain rcvd where r: "sent_bytes (conn_of w (peer s)) = rcvd @ wire w (peer s)"
      "read_inv ?c (taken w s) rcvd" by (auto simp: duplex_inv_def)
    have "stream_inv (conn_of w (peer s))" "length (pushed_of w (peer s)) < 2 ^ 63"
      using less.prems(1,2) by (auto simp: duplex_inv_def bounded_def)
    then have "sent_bytes (conn_of w (peer s)) @ Buffer_data (WriteBuffer (conn_of w (peer s))) = pushed_of w (peer s)"
      using less.prems(6) by (simp add: stream_inv_def)
    from arg_cong [OF this, of length] r(1) \<open>length (pushed_of w (peer s)) < 2 ^ 63\<close>
    have "length (rcvd @ ?data) < 2 ^ 63" by simp
    from read_once [OF r(2) this ne _ less.prems(5), of se] obtain c' gs where c':
      "TcpConnection_readHandler se (int (length ?data)) 0 ?data ?c = Some (c', gs)"
      "gs = [] \<or> (\<exists>n. gs = [FCall (Handler n []) ''''])" "c_event c' = c_event ?c" "quiet_reader c'" by auto
    let ?w1 = "set_wire (peer s) (drop 1024 (wire w (peer s))) (put_end s (c', gs) w)"
    have feed: "conn_feed se (IReadable (int (length ?data)) 0 ?data) ?c = Some (c', gs)"
      using less.prems(4) c'(1) by (auto simp: reads_def split: option.splits)
    have m: "min (Suc 1023) 1024 = (1024 :: nat)" by simp
    have nb: "\<not> (?data = [] \<and> c_event (conn_of w (peer s)) \<noteq> None)" using ne by simp
    have nc: "\<not> (\<not> idle s w \<or> \<not> reads ?c)" using less.prems(3,4) by simp
    have step: "duplex_do se (DReadable s 1023) w = Some ?w1"
      unfolding duplex_do.simps Let_def m if_not_P [OF nc] if_not_P [OF nb] feed by simp
    have inv1: "duplex_inv ?w1" by (rule duplex_inv_do [OF less.prems(1) _ step]) simp
    have "ends ?w1 s = (c', gs)" by simp
    from settle_read [OF this c'(2)] obtain c2 where c2: "duplex_run se [DRun s, DRun s] ?w1 = Some (put_end s (c2, []) ?w1)"
      "c_event c2 = c_event c'" "userReadHandler c2 = userReadHandler c'" "pushed_bytes c2 = pushed_bytes c'" by blast
    let ?w2 = "put_end s (c2, []) ?w1"
    from duplex_inv_run [OF c2(1) inv1] have inv2: "duplex_inv ?w2" .
    have ws: "same_write_side ?c c'" by (rule conn_feed_write_side [OF feed]) simp_all
    have b2: "bounded ?w2" using less.prems(2) ws c2(4) unfolding bounded_iff [of _ s] by simp
    have "length (wire ?w2 (peer s)) < length (wire w (peer s))" using False by simp
    moreover have "idle s ?w2" "reads (conn_of ?w2 s)" "quiet_reader (conn_of ?w2 s)" "refused (conn_of ?w2 (peer s)) = 0"
      using less.prems(4,6) c'(3,4) c2(2,3) by (simp_all add: idle_def reads_def quiet_reader_def)
    ultimately obtain is2 w' where w': "duplex_run se is2 ?w2 = Some w'" "wire w' (peer s) = []" "ends w' (peer s) = ends ?w2 (peer s)"
      "d_taken w' = d_taken ?w2" "bounded w'" "duplex_inv w'" "idle s w'"
      using less.hyps [OF _ inv2 b2] by blast
    have "duplex_run se [DReadable s 1023] w = Some ?w1" using step by (simp del: duplex_do.simps)
    with c2(1) w'(1) have "duplex_run se ([DReadable s 1023] @ [DRun s, DRun s] @ is2) w = Some w'"
      by (simp only: duplex_run_append Option.bind.bind_lunit)
    with w'(2-) show ?thesis by (intro exI [of _ "[DReadable s 1023] @ [DRun s, DRun s] @ is2"] exI [of _ w']) simp
  qed
qed

lemma duplex_stream:
  assumes "duplex_inv w" "bounded w" "refused (conn_of w (peer s)) = 0"
  shows "taken w s @ Buffer_data (ReadBuffer (conn_of w s)) @ wire w (peer s) @
      Buffer_data (WriteBuffer (conn_of w (peer s))) = pushed_of w (peer s)"
proof -
  from assms(1,2,3) obtain rcvd where r: "sent_bytes (conn_of w (peer s)) = rcvd @ wire w (peer s)" "read_inv (conn_of w s) (taken w s) rcvd"
    by (auto simp: duplex_inv_def)
  have st: "sent_bytes (conn_of w (peer s)) @ Buffer_data (WriteBuffer (conn_of w (peer s))) = pushed_of w (peer s)"
    using assms(1)[unfolded duplex_inv_def, THEN conjunct1, rule_format, of "peer s"] assms(2)[unfolded bounded_def, rule_format, of "peer s"]
    assms(3) by (simp add: stream_inv_def)
  from arg_cong [OF this, of length] r(1) assms(2) [unfolded bounded_def, rule_format, of "peer s"] have "length rcvd < 2 ^ 63" by simp
  with r(2) have "taken w s @ Buffer_data (ReadBuffer (conn_of w s)) = rcvd" by (simp add: read_inv_def)
  then show ?thesis unfolding st [symmetric] r(1) by (metis append_assoc)
qed

lemma reachable_stream:
  assumes "duplex_run se is (duplex_new e1 e2 f1 f2) = Some w"
    and "\<forall>s. length (pushed_of w s) < 2 ^ 63"
  shows "duplex_inv w" "bounded w"
  using assms(2) duplex_inv_run [OF assms(1) duplex_inv_new] by (simp_all add: bounded_def)

section \<open>Properties\<close>

text \<open>
  C9.  Two connections are a pair of byte queues, in each direction until a write is refused.  However the calls of the two
  owners (other than \<^verbatim>\<open>Reset\<close>), the callbacks of both ends and the kernel's deliveries, refusals and errors
  interleave, and however the kernel divides what is written and read: as long as none of the sender's \<^verbatim>\<open>write(2)\<close>
  calls has returned \<open>-1\<close>, the bytes the receiver has taken, followed by those in its read buffer, on the wire, and in
  the sender's write buffer, are the bytes the sender's owner has pushed: none is lost, duplicated or
  reordered.  After a refused write the sender re-sends a byte (\<open>TcpConnection_eagain_resends\<close>).
\<close>

theorem Tcp_end_to_end_stream:
  assumes "duplex_run se is (duplex_new e1 e2 f1 f2) = Some w"
    and "\<forall>s. length (pushed_of w s) < 2 ^ 63" "refused (conn_of w (peer s)) = 0"
  shows "taken w s @ Buffer_data (ReadBuffer (conn_of w s)) @ wire w (peer s) @
      Buffer_data (WriteBuffer (conn_of w (peer s))) = pushed_of w (peer s)"
  using reachable_stream [OF assms(1,2)] assms(3) by (rule duplex_stream)

theorem Tcp_end_to_end_stream_witness:
  "let is = [DUser Near (CWriteBufferPush ''hello''), DUser Near (CAsyncWrite (Handler 1 [])), DRun Near, DLoop Near, DRun Near,
      DWritable Near 2, DReadable Far 9, DUser Far (CReadBufferPopHead 2)];
       w0 = duplex_new (fst (Event_new 5 0)) (fst (Event_new 6 1)) (Handler 0 []) (Handler 0 [])
   in \<exists>w. duplex_run (\<lambda>_. '''') is w0 = Some w \<and> taken w Far = ''he'' \<and>
     taken w Far @ Buffer_data (ReadBuffer (conn_of w Far)) @ wire w Near @ Buffer_data (WriteBuffer (conn_of w Near)) = ''hello''"
proof -
  let ?is = "[DUser Near (CWriteBufferPush ''hello''), DUser Near (CAsyncWrite (Handler 1 [])), DRun Near, DLoop Near, DRun Near,
      DWritable Near 2, DReadable Far 9, DUser Far (CReadBufferPopHead 2)]"
  let ?w0 = "duplex_new (fst (Event_new 5 0)) (fst (Event_new 6 1)) (Handler 0 []) (Handler 0 [])"
  have "case duplex_run (\<lambda>_. '''') ?is ?w0 of None \<Rightarrow> False | Some w \<Rightarrow>
     taken w Far = ''he'' \<and> pushed_of w Near = ''hello'' \<and> pushed_of w Far = '''' \<and> refused (conn_of w Near) = 0"
    by code_simp
  then obtain w where w: "duplex_run (\<lambda>_. '''') ?is ?w0 = Some w" "taken w Far = ''he''" "pushed_of w Near = ''hello''"
    "pushed_of w Far = ''''" "refused (conn_of w (peer Far)) = 0" by (auto split: option.splits)
  have "\<forall>s. length (pushed_of w s) < 2 ^ 63"
  proof
    fix s show "length (pushed_of w s) < 2 ^ 63" using w(3,4) by (cases s) simp_all
  qed
  from Tcp_end_to_end_stream [OF w(1) this w(5)] w(1-3) show ?thesis by (simp add: Let_def del: duplex_run.simps)
qed

text \<open>
  C10.  Everything pushed can arrive.  In every reachable state in which no callback runs, no \<^verbatim>\<open>write(2)\<close> of
  the writer has returned \<open>-1\<close>, the writer's loop has taken up its request to write, and the reader reads and its handler
  makes no calls, the kernel and the loops can go on in such a way that the reader holds every byte the writer has
  pushed.
\<close>

theorem Tcp_delivers:
  assumes "duplex_run se is (duplex_new e1 e2 f1 f2) = Some w"
    and "\<forall>s. length (pushed_of w s) < 2 ^ 63" "\<forall>s. idle s w"
    and "writes (conn_of w (peer s))" "reads (conn_of w s)" "quiet_reader (conn_of w s)"
    and "refused (conn_of w (peer s)) = 0"
  shows "\<exists>js w'. duplex_run se js w = Some w' \<and>
    taken w' s @ Buffer_data (ReadBuffer (conn_of w' s)) = pushed_of w (peer s)"
proof -
  note inv = reachable_stream [OF assms(1,2)]
  from drain_writes [OF inv, of "peer s" se] assms(3,4,7) obtain n w1 where
    w1: "duplex_run se (replicate n (DWritable (peer s) 1023)) w = Some w1" "Buffer_data (WriteBuffer (conn_of w1 (peer s))) = []"
    "ends w1 s = ends w s" "pushed_of w1 (peer s) = pushed_of w (peer s)" "duplex_inv w1"
    "refused (conn_of w1 (peer s)) = 0" by auto
  have b1: "bounded w1" using assms(2) w1(3,4) unfolding bounded_iff [of _ s] by simp
  have "idle s w1" "reads (conn_of w1 s)" "quiet_reader (conn_of w1 s)" "refused (conn_of w1 (peer s)) = 0"
    using assms(3,5,6) w1(3,6) by (simp_all add: idle_def)
  from drain_reads [OF w1(5) b1 this, of se] obtain js w2 where
    w2: "duplex_run se js w1 = Some w2" "wire w2 (peer s) = []" "ends w2 (peer s) = ends w1 (peer s)" "bounded w2" "duplex_inv w2"
    by blast
  have "refused (conn_of w2 (peer s)) = 0" using w1(6) w2(3) by simp
  from duplex_stream [OF w2(5,4) this] w1(2,4) w2(2,3)
  have "taken w2 s @ Buffer_data (ReadBuffer (conn_of w2 s)) = pushed_of w (peer s)" by simp
  moreover have "duplex_run se (replicate n (DWritable (peer s) 1023) @ js) w = Some w2"
    using w1(1) w2(1) by (simp add: duplex_run_append)
  ultimately show ?thesis by blast
qed

theorem Tcp_delivers_witness:
  "let is = [DUser Near (CWriteBufferPush ''hello''), DUser Near (CAsyncWrite (Handler 1 [])), DRun Near, DLoop Near, DRun Near,
      DWritable Near 2];
       w0 = duplex_new (fst (Event_new 5 0)) (fst (Event_new 6 1)) (Handler 0 []) (Handler 0 [])
   in \<exists>w js w'. duplex_run (\<lambda>_. '''') is w0 = Some w \<and> taken w Far = '''' \<and> wire w Near = ''hel'' \<and>
     duplex_run (\<lambda>_. '''') js w = Some w' \<and> taken w' Far @ Buffer_data (ReadBuffer (conn_of w' Far)) = ''hello''"
proof -
  let ?is = "[DUser Near (CWriteBufferPush ''hello''), DUser Near (CAsyncWrite (Handler 1 [])), DRun Near, DLoop Near, DRun Near,
      DWritable Near 2]"
  let ?w0 = "duplex_new (fst (Event_new 5 0)) (fst (Event_new 6 1)) (Handler 0 []) (Handler 0 [])"
  have "case duplex_run (\<lambda>_. '''') ?is ?w0 of None \<Rightarrow> False | Some w \<Rightarrow>
     taken w Far = '''' \<and> wire w Near = ''hel'' \<and> pushed_of w Near = ''hello'' \<and> pushed_of w Far = '''' \<and>
     idle Near w \<and> idle Far w \<and> writes (conn_of w Near) \<and> reads (conn_of w Far) \<and>
     quiet_reader (conn_of w Far) \<and> refused (conn_of w Near) = 0"
    by code_simp
  then obtain w where w: "duplex_run (\<lambda>_. '''') ?is ?w0 = Some w" "taken w Far = ''''" "wire w Near = ''hel''"
    "pushed_of w Near = ''hello''" "pushed_of w Far = ''''"
    "idle Near w" "idle Far w" "writes (conn_of w (peer Far))" "reads (conn_of w Far)" "quiet_reader (conn_of w Far)" "refused (conn_of w (peer Far)) = 0"
    by (auto split: option.splits)
  have "length (pushed_of w s) < 2 ^ 63 \<and> idle s w" for s using w(4-7) by (cases s) simp_all
  then have "\<forall>s. length (pushed_of w s) < 2 ^ 63" "\<forall>s. idle s w" by simp_all
  from Tcp_delivers [OF w(1) this w(8-11)] w(1-4) show ?thesis by (simp add: Let_def del: duplex_run.simps)
qed

end
