(* ===== verification/Text_Util.thy ===== *)
theory Text_Util
  imports Prelude
begin

text \<open>
  String helpers: the URL coder of \<^verbatim>\<open>src/extends/small_http_parser/urlcode.h\<close> and
  \<^verbatim>\<open>split\<close>, \<^verbatim>\<open>TrimLeft\<close> of \<^verbatim>\<open>src/extends/small_packages/small_strings\<close>.

  A \<^verbatim>\<open>char\<close> is signed where it takes part in arithmetic (\<open>schar\<close>); a C string ends at its first
  zero byte, and the character classes are those of the C locale.
\<close>

section \<open>Characters\<close>

abbreviation NUL :: char where "NUL \<equiv> CHR 0x00"

definition code_of :: "char \<Rightarrow> int" where
  "code_of c = int (of_char c :: nat)"

definition schar :: "char \<Rightarrow> int" where
  "schar c = (if code_of c < 128 then code_of c else code_of c - 256)"

definition char_of_int :: "int \<Rightarrow> char" where
  "char_of_int i = char_of (nat (i mod 256))"

definition isdigit :: "char \<Rightarrow> bool" where
  "isdigit c \<longleftrightarrow> 48 \<le> code_of c \<and> code_of c \<le> 57"

definition isalnum :: "char \<Rightarrow> bool" where
  "isalnum c \<longleftrightarrow> isdigit c \<or> 65 \<le> code_of c \<and> code_of c \<le> 90 \<or> 97 \<le> code_of c \<and> code_of c \<le> 122"

definition tolower :: "int \<Rightarrow> int" where
  "tolower i = (if 65 \<le> i \<and> i \<le> 90 then i + 32 else i)"

lemma code_of_range: "0 \<le> code_of c" "code_of c < 256"
proof -
  show "0 \<le> code_of c" by (simp add: code_of_def)
  have "(of_char c :: nat) < 256" by (metis mod_less_divisor of_char_mod_256 zero_less_numeral)
  then show "code_of c < 256" by (simp add: code_of_def)
qed

lemma char_of_code [simp]: "char_of_int (code_of c) = c"
  using code_of_range [of c] by (simp add: char_of_int_def) (simp add: code_of_def)

lemma code_of_eq: "code_of c = code_of d \<longleftrightarrow> c = d"
  by (metis char_of_code)

section \<open>URL coding\<close>

definition from_hex :: "char \<Rightarrow> int" where
  "from_hex ch = (if isdigit ch then schar ch - 48 else tolower (schar ch) - 97 + 10)"

definition to_hex :: "int \<Rightarrow> char" where
  "to_hex c = ''0123456789abcdef'' ! nat (c mod 16)"

definition unreserved :: "char \<Rightarrow> bool" where
  "unreserved c \<longleftrightarrow> isalnum c \<or> c = CHR ''-'' \<or> c = CHR ''_'' \<or> c = CHR ''.'' \<or> c = CHR ''~''"

fun url_encode :: "string \<Rightarrow> string" where
  "url_encode [] = []"
| "url_encode (c # cs) =
     (if c = NUL then []
      else if unreserved c then c # url_encode cs
      else if c = CHR '' '' then CHR ''+'' # url_encode cs
      else CHR ''%'' # to_hex (schar c div 16) # to_hex (schar c mod 16) # url_encode cs)"

fun url_decode :: "string \<Rightarrow> string" where
  "url_decode [] = []"
| "url_decode (c # cs) =
     (if c = NUL then []
      else if c = CHR ''%'' then
        (case cs of
           h # l # rest \<Rightarrow>
             if h \<noteq> NUL \<and> l \<noteq> NUL
             then char_of_int (or (from_hex h * 16) (from_hex l)) # url_decode rest
             else url_decode cs
         | _ \<Rightarrow> url_decode cs)
      else if c = CHR ''+'' then CHR '' '' # url_decode cs
      else c # url_decode cs)"

text \<open>The wrappers measure the result with \<^verbatim>\<open>strlen\<close>.\<close>

definition c_str :: "string \<Rightarrow> string" where
  "c_str s = takeWhile (\<lambda>c. c \<noteq> NUL) s"

definition UrlEncode :: "string \<Rightarrow> string" where
  "UrlEncode s = c_str (url_encode s)"

definition UrlDecode :: "string \<Rightarrow> string" where
  "UrlDecode s = c_str (url_decode s)"

subsection \<open>Hexadecimal digits\<close>

lemma schar_nibbles:
  "schar c div 16 mod 16 = code_of c div 16" "schar c mod 16 mod 16 = code_of c mod 16"
proof -
  have d: "(x - 256) div 16 = x div 16 - 16" "(x - 256) mod 16 = x mod 16" for x :: int
    using div_mult_self2 [of 16 x "-16"] mod_mult_self2 [of x 16 "-16"] by simp_all
  have "0 \<le> code_of c div 16" "code_of c div 16 < 16" using code_of_range [of c] by auto
  then show "schar c div 16 mod 16 = code_of c div 16"
    by (simp add: schar_def d mod_pos_pos_trivial)
  show "schar c mod 16 mod 16 = code_of c mod 16" by (simp add: schar_def d)
qed

lemma hex_digits:
  assumes "0 \<le> i" "i < 16"
  shows "from_hex (to_hex i) = i" "to_hex i \<noteq> NUL" "isalnum (to_hex i)"
proof -
  have "\<forall>n\<in>set [0..<16]. from_hex (to_hex (int n)) = int n \<and> to_hex (int n) \<noteq> NUL \<and> isalnum (to_hex (int n))"
    by (simp add: upt_rec from_hex_def to_hex_def isdigit_def isalnum_def tolower_def schar_def code_of_def)
  moreover have "nat i \<in> set [0..<16]" "int (nat i) = i" using assms by auto
  ultimately have "from_hex (to_hex i) = i \<and> to_hex i \<noteq> NUL \<and> isalnum (to_hex i)" by fastforce
  then show "from_hex (to_hex i) = i" "to_hex i \<noteq> NUL" "isalnum (to_hex i)" by auto
qed

lemma to_hex_mod: "to_hex (i mod 16) = to_hex i"
  by (simp add: to_hex_def)

lemma or_nibbles:
  fixes h l :: int
  assumes "0 \<le> l" "l < 16"
  shows "or (h * 16) l = h * 16 + l"
proof -
  have p: "h * 16 = push_bit 4 h" by (simp add: push_bit_eq_mult)
  have "l = take_bit 4 l" using assms by (simp add: take_bit_int_eq_self)
  then have "\<not> bit l n" if "4 \<le> n" for n using that by (metis bit_take_bit_iff not_le)
  then have n: "\<not> (bit (push_bit 4 h) n \<and> bit l n)" for n by (auto simp: bit_push_bit_iff)
  have "and (push_bit 4 h) l = 0" by (rule bit_eqI) (simp only: bit_and_iff n bit_0_eq bot_apply bot_bool_def)
  then show ?thesis unfolding p by (simp add: disjunctive_add_eq_or)
qed

lemma nibbles_back: "code_of c div 16 * 16 + code_of c mod 16 = code_of c"
  by (rule div_mult_mod_eq)

lemma char_from_nibbles:
  "char_of_int (or (from_hex (to_hex (schar c div 16)) * 16) (from_hex (to_hex (schar c mod 16)))) = c"
proof -
  let ?h = "code_of c div 16" and ?l = "code_of c mod 16"
  have r: "0 \<le> ?h" "?h < 16" "0 \<le> ?l" "?l < 16" using code_of_range [of c] by presburger+
  have "to_hex (schar c div 16) = to_hex ?h" "to_hex (schar c mod 16) = to_hex ?l"
    by (simp_all only: schar_nibbles [of c, symmetric] to_hex_mod)
  then have "or (from_hex (to_hex (schar c div 16)) * 16) (from_hex (to_hex (schar c mod 16))) = ?h * 16 + ?l"
    by (simp only: hex_digits(1) [OF r(1,2)] hex_digits(1) [OF r(3,4)] or_nibbles [OF r(3,4)])
  then show ?thesis by (simp only: nibbles_back char_of_code)
qed

lemma to_hex_schar: "to_hex i \<noteq> NUL" "isalnum (to_hex i)"
  using hex_digits(2,3) [of "i mod 16"] by (simp_all add: to_hex_mod)

lemma unreserved_plain: "unreserved c \<Longrightarrow> c \<noteq> NUL \<and> c \<noteq> CHR ''%'' \<and> c \<noteq> CHR ''+''"
  by (auto simp: unreserved_def isalnum_def isdigit_def code_of_def)

text \<open>The characters an encoded string can contain.\<close>

lemma url_encode_chars: "d \<in> set (url_encode s) \<Longrightarrow> unreserved d \<or> d = CHR ''+'' \<or> d = CHR ''%''"
  by (induction s rule: url_encode.induct) (auto simp: unreserved_def to_hex_schar split: if_splits)

lemma url_encode_no_NUL: "NUL \<notin> set (url_encode s)"
  using url_encode_chars [of NUL s] by (auto simp: unreserved_def isalnum_def isdigit_def code_of_def)

lemma UrlEncode_eq: "UrlEncode s = url_encode s"
  using url_encode_no_NUL [of s] by (auto simp: UrlEncode_def c_str_def takeWhile_eq_all_conv)

lemma UrlEncode_delims:
  "d \<in> {CHR ''&'', CHR ''='', CHR ''?'', CHR '' '', CHR ''/'', CHR 0x0D, CHR 0x0A} \<Longrightarrow> d \<notin> set (UrlEncode s)"
  using url_encode_chars [of d s] by (auto simp: UrlEncode_eq unreserved_def isalnum_def isdigit_def code_of_def)

lemma url_decode_encode: "url_decode (url_encode s) = c_str s"
proof (induction s rule: url_encode.induct)
  case (2 c cs)
  consider "c = NUL" | "c \<noteq> NUL" "unreserved c" | "c = CHR '' ''"
    | "c \<noteq> NUL" "\<not> unreserved c" "c \<noteq> CHR '' ''" by blast
  then show ?case
  proof cases
    case 1
    then show ?thesis by (simp add: c_str_def)
  next
    case 2
    with "2.IH" unreserved_plain [of c] show ?thesis by (simp add: c_str_def)
  next
    case 3
    have "\<not> unreserved c" using 3 by (simp add: unreserved_def isalnum_def isdigit_def code_of_def)
    with 3 "2.IH" show ?thesis by (simp add: c_str_def)
  next
    case 4
    with "2.IH" char_from_nibbles [of c] to_hex_schar show ?thesis by (simp add: c_str_def)
  qed
qed (simp add: c_str_def)

section \<open>Splitting and trimming\<close>

text \<open>\<^verbatim>\<open>getline\<close> until it fails: a final delimiter does not start another piece.\<close>

function split_str :: "string \<Rightarrow> char \<Rightarrow> string list" where
  "split_str str c =
     (if str = [] then []
      else takeWhile (\<lambda>x. x \<noteq> c) str # split_str (tl (dropWhile (\<lambda>x. x \<noteq> c) str)) c)"
  by auto
termination
proof (relation "measure (\<lambda>(str, c). length str)", simp_all)
  fix str :: string and c
  assume "str \<noteq> []"
  then have "0 < length str" by simp
  moreover have "length (dropWhile (\<lambda>x. x \<noteq> c) str) \<le> length str" by (rule length_dropWhile_le)
  ultimately show "length (dropWhile (\<lambda>x. x \<noteq> c) str) - Suc 0 < length str" by linarith
qed

declare split_str.simps [simp del]

text \<open>\<^verbatim>\<open>std::string::find\<close> of a string: an index, or \<^verbatim>\<open>npos\<close>, the largest 64-bit word.\<close>

fun find_str :: "nat \<Rightarrow> string \<Rightarrow> string \<Rightarrow> u64" where
  "find_str i [] t = (if t = [] then of_nat i else -1)"
| "find_str i (c # cs) t = (if take (length t) (c # cs) = t then of_nat i else find_str (Suc i) cs t)"

text \<open>
  \<^verbatim>\<open>TrimLeft\<close>.  The index is unsigned, so the test \<^verbatim>\<open>index < 0\<close> is never true;
  \<^verbatim>\<open>substr\<close> throws if its start is past the end.
\<close>

definition TrimLeft :: "string \<Rightarrow> string \<Rightarrow> string option" where
  "TrimLeft str trimStr =
     (let index = find_str 0 str trimStr in
      if index < 0 then Some ''''
      else let pos = unat (index + of_nat (length trimStr));
               n = unat (of_nat (length str) - of_nat (length trimStr) :: u64)
           in if pos > length str then None else Some (take n (drop pos str)))"

lemma split_str_append:
  assumes "c \<notin> set t"
  shows "split_str (t @ c # rest) c = t # split_str rest c"
proof -
  have "takeWhile (\<lambda>x. x \<noteq> c) (t @ c # rest) = t" "dropWhile (\<lambda>x. x \<noteq> c) (t @ c # rest) = c # rest"
    using assms by (induction t) auto
  then show ?thesis by (subst split_str.simps) simp
qed

lemma split_str_last: "c \<notin> set t \<Longrightarrow> t \<noteq> [] \<Longrightarrow> split_str t c = [t]"
proof -
  assume t: "c \<notin> set t" "t \<noteq> []"
  then have "takeWhile (\<lambda>x. x \<noteq> c) t = t" "dropWhile (\<lambda>x. x \<noteq> c) t = []"
    by (auto simp: takeWhile_eq_all_conv dropWhile_eq_Nil_conv)
  with t show ?thesis by (subst split_str.simps) (simp add: split_str.simps del: dropWhile_eq_Nil_conv)
qed

fun join_str :: "char \<Rightarrow> string list \<Rightarrow> string" where
  "join_str c [] = []"
| "join_str c [t] = t"
| "join_str c (t # ts) = t @ c # join_str c ts"

lemma split_join:
  "\<forall>t\<in>set ts. c \<notin> set t \<Longrightarrow> ts = [] \<or> last ts \<noteq> [] \<Longrightarrow> split_str (join_str c ts) c = ts"
proof (induction c ts rule: join_str.induct)
  case (3 c t u us)
  then show ?case by (simp add: split_str_append)
qed (simp_all add: split_str_last, simp add: split_str.simps)

section \<open>Decimal numbers\<close>

text \<open>\<^verbatim>\<open>std::to_string\<close> of an unsigned number.\<close>

function to_string :: "nat \<Rightarrow> string" where
  "to_string n = (if n < 10 then [char_of (48 + n)] else to_string (n div 10) @ [char_of (48 + n mod 10)])"
  by auto
termination
  by (relation "measure id") simp_all

declare to_string.simps [simp del]

text \<open>
  \<^verbatim>\<open>std::stoi\<close> and \<^verbatim>\<open>std::stoll\<close>: white space, a sign, at least one digit; they throw
  when there is no digit or the value does not fit the 32 or 64 bits of the result.
\<close>

definition isspace :: "char \<Rightarrow> bool" where
  "isspace c \<longleftrightarrow> c = CHR '' '' \<or> 9 \<le> code_of c \<and> code_of c \<le> 13"

definition digits_value :: "string \<Rightarrow> int" where
  "digits_value ds = foldl (\<lambda>v c. v * 10 + (code_of c - 48)) 0 ds"

definition parse_int :: "nat \<Rightarrow> string \<Rightarrow> int option" where
  "parse_int b s =
     (let s = dropWhile isspace s;
          (neg, s) = (case s of
             c # cs \<Rightarrow> if c = CHR ''-'' then (True, cs) else if c = CHR ''+'' then (False, cs) else (False, s)
           | [] \<Rightarrow> (False, []));
          ds = takeWhile isdigit s;
          v = (if neg then - digits_value ds else digits_value ds)
      in if ds = [] \<or> v < - (2 ^ b) \<or> 2 ^ b \<le> v then None else Some v)"

definition stoi :: "string \<Rightarrow> int option" where
  "stoi = parse_int 31"

definition stoll :: "string \<Rightarrow> int option" where
  "stoll = parse_int 63"

lemma code_of_digit: "d < 10 \<Longrightarrow> code_of (char_of (48 + d)) = 48 + int d"
  by (simp add: code_of_def)

lemma to_string_digits: "\<forall>c\<in>set (to_string n). isdigit c"
proof (induction n rule: to_string.induct)
  case (1 n)
  have "isdigit (char_of (48 + d))" if "d < 10" for d :: nat
    using code_of_digit [OF that] that by (simp add: isdigit_def)
  with 1 show ?case by (subst to_string.simps) auto
qed

lemma to_string_value: "digits_value (to_string n) = int n"
proof (induction n rule: to_string.induct)
  case (1 n)
  show ?case
  proof (cases "n < 10")
    case True
    then show ?thesis by (subst to_string.simps) (simp add: digits_value_def code_of_digit)
  next
    case False
    with 1 have "digits_value (to_string (n div 10)) = int (n div 10)" by blast
    with False show ?thesis
      by (subst to_string.simps) (simp add: digits_value_def code_of_digit zdiv_int zmod_int)
  qed
qed

lemma to_string_nonempty: "to_string n \<noteq> []"
  by (subst to_string.simps) simp

lemma parse_int_to_string:
  assumes "n < 2 ^ b"
  shows "parse_int b (to_string n) = Some (int n)"
proof -
  obtain c cs where s: "to_string n = c # cs" using to_string_nonempty [of n] by (cases "to_string n") auto
  with to_string_digits [of n] have d: "isdigit c" "\<forall>x\<in>set (c # cs). isdigit x" by auto
  then have "\<not> isspace c" "c \<noteq> CHR ''-''" "c \<noteq> CHR ''+''"
    by (auto simp: isdigit_def isspace_def code_of_def)
  moreover have tw: "takeWhile isdigit (c # cs) = c # cs" using d(2) by (simp add: takeWhile_eq_all_conv)
  moreover have "digits_value (c # cs) = int n" using to_string_value [of n] s by simp
  moreover have "int n < 2 ^ b" using assms by (metis of_nat_less_iff of_nat_numeral of_nat_power)
  moreover have "- (2 ^ b) \<le> int n" by (rule order_trans [of _ 0]) simp_all
  ultimately show ?thesis unfolding s parse_int_def by (simp add: Let_def tw not_less not_le del: takeWhile.simps)
qed

lemma stoi_to_string: "n < 2 ^ 31 \<Longrightarrow> stoi (to_string n) = Some (int n)"
  by (simp add: stoi_def parse_int_to_string)

lemma to_string_no_colon: "CHR '':'' \<notin> set (to_string n)"
  using to_string_digits [of n] by (auto simp: isdigit_def code_of_def)

section \<open>Properties\<close>

text \<open>
  Decoding an encoded string gives the string back, up to its first zero byte, whatever bytes it
  contains, and the encoded form contains none of the characters a query string, a request line or a
  header is delimited with.
\<close>

theorem Url_roundtrip:
  "UrlDecode (UrlEncode s) = c_str s \<and>
   set (UrlEncode s) \<inter> {CHR ''&'', CHR ''='', CHR ''?'', CHR '' '', CHR ''/'', CHR 0x0D, CHR 0x0A} = {}"
proof -
  have "c_str (c_str s) = c_str s" by (simp add: c_str_def takeWhile_idem)
  then have "UrlDecode (UrlEncode s) = c_str s"
    by (simp add: UrlDecode_def UrlEncode_eq url_decode_encode)
  moreover have "set (UrlEncode s) \<inter> {CHR ''&'', CHR ''='', CHR ''?'', CHR '' '', CHR ''/'', CHR 0x0D, CHR 0x0A} = {}"
    using UrlEncode_delims [of _ s] by blast
  ultimately show ?thesis by blast
qed

text \<open>
  Splitting undoes joining: pieces without the delimiter, the last not empty, come back unchanged
  and in order.
\<close>

theorem split_inverse:
  assumes "\<forall>t\<in>set ts. c \<notin> set t" "ts = [] \<or> last ts \<noteq> []"
  shows "split_str (join_str c ts) c = ts"
  using assms by (rule split_join)

theorem split_inverse_witness:
  "split_str (join_str (CHR '','') [''a:1'', '''', ''b:2'']) (CHR '','') = [''a:1'', '''', ''b:2'']"
  by (rule split_inverse) simp_all

end
