(* ===== verification/Small_Config.thy ===== *)
theory Small_Config
  imports Text_Util "HOL-Library.Countable"
begin

text \<open>
  Configuration objects, \<^verbatim>\<open>src/extends/small_config\<close>: the JSON visitors of
  \<^verbatim>\<open>small_json.h\<close>, the TOML visitors of \<^verbatim>\<open>small_toml.h\<close> and the entry points
  \<^verbatim>\<open>Serialize\<close> and \<^verbatim>\<open>UnSerialize\<close> of \<^verbatim>\<open>small_config.h\<close>.

  The libraries behind them (rapidjson, tinytoml) are third-party code: a record of the operations the
  visitors call, an argument of every definition, and what is relied on of them is a predicate on that
  record.  Floating-point fields are not modelled.
\<close>

section \<open>Configuration values\<close>

text \<open>
  A field of a configuration class by its C++ type; a vector comes with a default-constructed element,
  an object with what its \<^verbatim>\<open>Accept\<close> visits: the fields in order, with their names.
\<close>

datatype cval =
    CI32 "32 word"
  | CI64 "64 word"
  | CU32 "32 word"
  | CU64 "64 word"
  | CBool bool
  | CStr string
  | CVec cval "cval list"
  | CObj "(string \<times> cval) list"

type_synonym cfields = "(string \<times> cval) list"

section \<open>The JSON library\<close>

text \<open>
  The operations of a rapidjson value, under the names of the library's.  \<open>j_member\<close> is
  \<^verbatim>\<open>HasMember\<close> with \<^verbatim>\<open>operator[]\<close>; the \<open>j_get\<close> operations are the test and
  the accessor together, \<open>None\<close> when the value is not of that type.
\<close>

record 'j json_lib =
  j_object :: 'j
  j_add :: "string \<Rightarrow> 'j \<Rightarrow> 'j \<Rightarrow> 'j"
  j_int :: "int \<Rightarrow> 'j"
  j_bool :: "bool \<Rightarrow> 'j"
  j_string :: "string \<Rightarrow> 'j"
  j_array :: "'j list \<Rightarrow> 'j"
  j_isObject :: "'j \<Rightarrow> bool"
  j_member :: "'j \<Rightarrow> string \<Rightarrow> 'j option"
  j_getInt :: "'j \<Rightarrow> int option"
  j_getInt64 :: "'j \<Rightarrow> int option"
  j_getBool :: "'j \<Rightarrow> bool option"
  j_getString :: "'j \<Rightarrow> string option"
  j_getArray :: "'j \<Rightarrow> 'j list option"
  j_write :: "'j \<Rightarrow> string"
  j_parse :: "string \<Rightarrow> 'j option"

text \<open>What the library documents of them.\<close>

definition json_lib_ok :: "'j json_lib \<Rightarrow> bool" where
  "json_lib_ok L \<longleftrightarrow>
     j_isObject L (j_object L) \<and>
     (\<forall>n v obj. j_isObject L obj \<longrightarrow> j_isObject L (j_add L n v obj)) \<and>
     (\<forall>n. j_member L (j_object L) n = None) \<and>
     (\<forall>n v obj m. j_isObject L obj \<longrightarrow> j_member L (j_add L n v obj) m =
        (case j_member L obj m of Some x \<Rightarrow> Some x | None \<Rightarrow> if m = n then Some v else None)) \<and>
     (\<forall>i. - (2 ^ 31) \<le> i \<and> i < 2 ^ 31 \<longrightarrow> j_getInt L (j_int L i) = Some i) \<and>
     (\<forall>i. - (2 ^ 63) \<le> i \<and> i < 2 ^ 63 \<longrightarrow> j_getInt64 L (j_int L i) = Some i) \<and>
     (\<forall>b. j_getBool L (j_bool L b) = Some b) \<and>
     (\<forall>s. j_getString L (j_string L s) = Some s) \<and>
     (\<forall>js. j_getArray L (j_array L js) = Some js) \<and>
     (\<forall>v. j_parse L (j_write L v) = Some v)"

section \<open>Encoding\<close>

text \<open>
  \<^verbatim>\<open>Encode\<close> of a field and \<^verbatim>\<open>createJsonValue\<close> of an element (\<open>elem\<close>).  An unsigned
  field goes through an \<^verbatim>\<open>int64_t\<close>, an unsigned element does not; a string field is taken as a C
  string, a string element with its length.
\<close>

fun JsonEncode :: "'j json_lib \<Rightarrow> bool \<Rightarrow> cval \<Rightarrow> 'j"
  and JsonEncode_elements :: "'j json_lib \<Rightarrow> cval list \<Rightarrow> 'j list"
  and JsonEncode_fields :: "'j json_lib \<Rightarrow> cfields \<Rightarrow> 'j \<Rightarrow> 'j"
where
  "JsonEncode L elem (CI32 w) = j_int L (sint w)"
| "JsonEncode L elem (CI64 w) = j_int L (sint w)"
| "JsonEncode L elem (CU32 w) = j_int L (uint w)"
| "JsonEncode L elem (CU64 w) = j_int L (if elem then uint w else sint w)"
| "JsonEncode L elem (CBool b) = j_bool L b"
| "JsonEncode L elem (CStr s) = j_string L (if elem then s else c_str s)"
| "JsonEncode L elem (CVec d xs) = j_array L (JsonEncode_elements L xs)"
| "JsonEncode L elem (CObj fs) = JsonEncode_fields L fs (j_object L)"
| "JsonEncode_elements L [] = []"
| "JsonEncode_elements L (x # xs) = JsonEncode L True x # JsonEncode_elements L xs"
| "JsonEncode_fields L [] obj = obj"
| "JsonEncode_fields L ((n, v) # fs) obj = JsonEncode_fields L fs (j_add L n (JsonEncode L False v) obj)"

definition SerializeJson :: "'j json_lib \<Rightarrow> cfields \<Rightarrow> errmsg \<times> string" where
  "SerializeJson L fs = ('''', j_write L (JsonEncode L False (CObj fs)))"

section \<open>Decoding\<close>

text \<open>
  Decoding changes the object it is given.  It throws a message, or the library's assertion on a wrong
  type ends the program; the fields decoded before keep their new values.
\<close>

datatype decode_error = Throw errmsg | Abort

text \<open>\<^verbatim>\<open>Decode\<close> of a field that is not nested.\<close>

fun Decode_scalar :: "'j json_lib \<Rightarrow> string \<Rightarrow> 'j \<Rightarrow> cval \<Rightarrow> cval \<times> decode_error option" where
  "Decode_scalar L n j (CI32 w) =
     (case j_getInt L j of Some i \<Rightarrow> (CI32 (word_of_int i), None) | None \<Rightarrow> (CI32 w, Some (Throw (n @ '' is invalid''))))"
| "Decode_scalar L n j (CI64 w) =
     (case j_getInt64 L j of Some i \<Rightarrow> (CI64 (word_of_int i), None) | None \<Rightarrow> (CI64 w, Some (Throw (n @ '' is invalid''))))"
| "Decode_scalar L n j (CU32 w) =
     (case j_getInt64 L j of Some i \<Rightarrow> (CU32 (word_of_int i), None) | None \<Rightarrow> (CU32 w, Some (Throw (n @ '' is invalid''))))"
| "Decode_scalar L n j (CU64 w) =
     (case j_getInt64 L j of Some i \<Rightarrow> (CU64 (word_of_int i), None) | None \<Rightarrow> (CU64 w, Some (Throw (n @ '' is invalid''))))"
| "Decode_scalar L n j (CBool b) =
     (case j_getBool L j of Some i \<Rightarrow> (CBool i, None) | None \<Rightarrow> (CBool b, Some (Throw (n @ '' is invalid''))))"
| "Decode_scalar L n j (CStr s) =
     (case j_getString L j of Some t \<Rightarrow> (CStr (c_str t), None) | None \<Rightarrow> (CStr s, Some (Throw (n @ '' is not a string''))))"
| "Decode_scalar L n j v = (v, None)"

text \<open>\<^verbatim>\<open>setT\<close> of an element that is not nested; \<open>None\<close> is the failed assertion.\<close>

fun setT_scalar :: "'j json_lib \<Rightarrow> 'j \<Rightarrow> cval \<Rightarrow> cval option" where
  "setT_scalar L j (CI32 w) = map_option (\<lambda>i. CI32 (word_of_int i)) (j_getInt64 L j)"
| "setT_scalar L j (CI64 w) = map_option (\<lambda>i. CI64 (word_of_int i)) (j_getInt64 L j)"
| "setT_scalar L j (CU32 w) = map_option (\<lambda>i. CU32 (word_of_int i)) (j_getInt64 L j)"
| "setT_scalar L j (CU64 w) = map_option (\<lambda>i. CU64 (word_of_int i)) (j_getInt64 L j)"
| "setT_scalar L j (CBool b) = map_option CBool (j_getBool L j)"
| "setT_scalar L j (CStr s) = map_option CStr (j_getString L j)"
| "setT_scalar L j v = Some v"

text \<open>
  \<open>JsonDecode\<close> is \<^verbatim>\<open>Decode\<close> once the member \<open>j\<close> is found, \<open>JsonDecode_fields\<close> the
  visits of \<^verbatim>\<open>Accept\<close> to the object on top of the stack, \<open>JsonDecode_elements\<close> the loop that
  pushes the elements back.  The elements of one object type are decoded against the same default element.
\<close>

fun push_all :: "('j \<Rightarrow> cval \<times> decode_error option) \<Rightarrow> 'j list \<Rightarrow> cval list \<Rightarrow> cval list \<times> decode_error option" where
  "push_all f [] ys = (ys, None)"
| "push_all f (j # js) ys =
     (case f j of
        (v, None) \<Rightarrow> push_all f js (ys @ [v])
      | (v, Some e) \<Rightarrow> (ys, Some e))"

fun JsonDecode :: "'j json_lib \<Rightarrow> string \<Rightarrow> 'j \<Rightarrow> cval \<Rightarrow> cval \<times> decode_error option"
  and JsonDecode_setT :: "'j json_lib \<Rightarrow> 'j \<Rightarrow> cval \<Rightarrow> cval \<times> decode_error option"
  and JsonDecode_fields :: "'j json_lib \<Rightarrow> 'j \<Rightarrow> cfields \<Rightarrow> cfields \<times> decode_error option"
where
  "JsonDecode L n j (CVec d ys) =
     (case j_getArray L j of
        None \<Rightarrow> (CVec d ys, Some (Throw (n @ '' is not a array'')))
      | Some js \<Rightarrow> (case push_all (\<lambda>j. JsonDecode_setT L j d) js ys of (ys, e) \<Rightarrow> (CVec d ys, e)))"
| "JsonDecode L n j (CObj fs) =
     (if \<not> j_isObject L j then (CObj fs, Some (Throw (''json wrong fomat object: '' @ n)))
      else case JsonDecode_fields L j fs of (fs, e) \<Rightarrow> (CObj fs, e))"
| "JsonDecode L n j v = Decode_scalar L n j v"
| "JsonDecode_setT L j (CObj fs) = (case JsonDecode_fields L j fs of (fs, e) \<Rightarrow> (CObj fs, e))"
| "JsonDecode_setT L j v = (case setT_scalar L j v of Some v' \<Rightarrow> (v', None) | None \<Rightarrow> (v, Some Abort))"
| "JsonDecode_fields L obj [] = ([], None)"
| "JsonDecode_fields L obj ((n, v) # fs) =
     (case (if j_isObject L obj then j_member L obj n else None) of
        None \<Rightarrow> (case JsonDecode_fields L obj fs of (fs, e) \<Rightarrow> ((n, v) # fs, e))
      | Some j \<Rightarrow>
          (case JsonDecode L n j v of
             (v, Some e) \<Rightarrow> ((n, v) # fs, Some e)
           | (v, None) \<Rightarrow> (case JsonDecode_fields L obj fs of (fs, e) \<Rightarrow> ((n, v) # fs, e))))"

text \<open>\<open>None\<close> is a program ended by an assertion.\<close>

definition UnSerializeJson :: "'j json_lib \<Rightarrow> string \<Rightarrow> cfields \<Rightarrow> (errmsg \<times> cfields) option" where
  "UnSerializeJson L text fs =
     (case j_parse L text of
        None \<Rightarrow> Some (''json obj has parse error'', fs)
      | Some doc \<Rightarrow>
          (case JsonDecode_fields L doc fs of
             (fs, None) \<Rightarrow> Some ('''', fs)
           | (fs, Some (Throw m)) \<Rightarrow> Some (m, fs)
           | (fs, Some Abort) \<Rightarrow> None))"

section \<open>TOML\<close>

text \<open>
  The operations of a tinytoml value; \<open>t_as\<close> is \<^verbatim>\<open>is\<close> and \<^verbatim>\<open>as\<close> together.  The
  visitors have no vectors.
\<close>

record 't toml_lib =
  t_empty :: 't
  t_setChild :: "string \<Rightarrow> 't \<Rightarrow> 't \<Rightarrow> 't"
  t_int :: "32 word \<Rightarrow> 't"
  t_int64 :: "64 word \<Rightarrow> 't"
  t_bool :: "bool \<Rightarrow> 't"
  t_string :: "string \<Rightarrow> 't"
  t_find :: "'t \<Rightarrow> string \<Rightarrow> 't option"
  t_asInt :: "'t \<Rightarrow> 32 word option"
  t_asInt64 :: "'t \<Rightarrow> 64 word option"
  t_asBool :: "'t \<Rightarrow> bool option"
  t_asString :: "'t \<Rightarrow> string option"
  t_write :: "'t \<Rightarrow> string"
  t_parse :: "string \<Rightarrow> errmsg + 't"

text \<open>
  Names as they are written in C++ are bare keys of TOML; \<^verbatim>\<open>find\<close> would take a name with dots apart.
\<close>

definition bare_key :: "string \<Rightarrow> bool" where
  "bare_key n \<longleftrightarrow> n \<noteq> '''' \<and>
     list_all (\<lambda>c. c \<in> set ''abcdefghijklmnopqrstuvwxyzABCDEFGHIJKLMNOPQRSTUVWXYZ0123456789_'') n"

definition printable :: "string \<Rightarrow> bool" where
  "printable s \<longleftrightarrow> list_all (\<lambda>c. 32 \<le> (of_char c :: nat) \<and> (of_char c :: nat) < 127) s"

text \<open>
  What has a text: a table with an entry, whose entries are numbers, flags, printable strings and such tables.
\<close>

inductive toml_table :: "'t toml_lib \<Rightarrow> 't \<Rightarrow> bool"
  and toml_value :: "'t toml_lib \<Rightarrow> 't \<Rightarrow> bool"
  for L where
  first: "toml_value L v \<Longrightarrow> bare_key n \<Longrightarrow> toml_table L (t_setChild L n v (t_empty L))"
| more: "toml_table L t \<Longrightarrow> toml_value L v \<Longrightarrow> bare_key n \<Longrightarrow> toml_table L (t_setChild L n v t)"
| int: "toml_value L (t_int L i)"
| int64: "toml_value L (t_int64 L w)"
| bool: "toml_value L (t_bool L b)"
| string: "printable s \<Longrightarrow> toml_value L (t_string L s)"
| table: "toml_table L t \<Longrightarrow> toml_value L t"

definition toml_lib_ok :: "'t toml_lib \<Rightarrow> bool" where
  "toml_lib_ok L \<longleftrightarrow>
     (\<forall>n v obj. bare_key n \<and> (obj = t_empty L \<or> toml_table L obj) \<longrightarrow> t_find L (t_setChild L n v obj) n = Some v) \<and>
     (\<forall>n v obj m. bare_key n \<and> bare_key m \<and> m \<noteq> n \<and> toml_table L obj \<longrightarrow>
        t_find L (t_setChild L n v obj) m = t_find L obj m) \<and>
     (\<forall>w. t_asInt L (t_int L w) = Some w) \<and>
     (\<forall>w. t_asInt64 L (t_int64 L w) = Some w) \<and>
     (\<forall>b. t_asBool L (t_bool L b) = Some b) \<and>
     (\<forall>s. t_asString L (t_string L s) = Some s) \<and>
     (\<forall>t. toml_table L t \<longrightarrow> t_parse L (t_write L t) = Inr t)"

fun TomlEncode :: "'t toml_lib \<Rightarrow> cval \<Rightarrow> 't"
  and TomlEncode_fields :: "'t toml_lib \<Rightarrow> cfields \<Rightarrow> 't \<Rightarrow> 't"
where
  "TomlEncode L (CI32 w) = t_int L w"
| "TomlEncode L (CI64 w) = t_int64 L w"
| "TomlEncode L (CU32 w) = t_int64 L (word_of_int (uint w))"
| "TomlEncode L (CU64 w) = t_int64 L w"
| "TomlEncode L (CBool b) = t_bool L b"
| "TomlEncode L (CStr s) = t_string L s"
| "TomlEncode L (CVec d xs) = t_empty L"
| "TomlEncode L (CObj fs) = TomlEncode_fields L fs (t_empty L)"
| "TomlEncode_fields L [] obj = obj"
| "TomlEncode_fields L ((n, v) # fs) obj = TomlEncode_fields L fs (t_setChild L n (TomlEncode L v) obj)"

definition SerializeToml :: "'t toml_lib \<Rightarrow> cfields \<Rightarrow> errmsg \<times> string" where
  "SerializeToml L fs = ('''', t_write L (TomlEncode L (CObj fs)))"

text \<open>A value of another type leaves the field as it is, without an error.\<close>

fun TomlDecode :: "'t toml_lib \<Rightarrow> 't \<Rightarrow> cval \<Rightarrow> cval"
  and TomlDecode_fields :: "'t toml_lib \<Rightarrow> 't \<Rightarrow> cfields \<Rightarrow> cfields"
where
  "TomlDecode L t (CI32 w) = (case t_asInt L t of Some v \<Rightarrow> CI32 v | None \<Rightarrow> CI32 w)"
| "TomlDecode L t (CI64 w) = (case t_asInt64 L t of Some v \<Rightarrow> CI64 v | None \<Rightarrow> CI64 w)"
| "TomlDecode L t (CU32 w) = (case t_asInt64 L t of Some v \<Rightarrow> CU32 (word_of_int (uint v)) | None \<Rightarrow> CU32 w)"
| "TomlDecode L t (CU64 w) = (case t_asInt64 L t of Some v \<Rightarrow> CU64 v | None \<Rightarrow> CU64 w)"
| "TomlDecode L t (CBool b) = (case t_asBool L t of Some v \<Rightarrow> CBool v | None \<Rightarrow> CBool b)"
| "TomlDecode L t (CStr s) = (case t_asString L t of Some v \<Rightarrow> CStr v | None \<Rightarrow> CStr s)"
| "TomlDecode L t (CVec d xs) = CVec d xs"
| "TomlDecode L t (CObj fs) = CObj (TomlDecode_fields L t fs)"
| "TomlDecode_fields L obj [] = []"
| "TomlDecode_fields L obj ((n, v) # fs) =
     (n, case t_find L obj n of None \<Rightarrow> v | Some t \<Rightarrow> TomlDecode L t v) # TomlDecode_fields L obj fs"

definition UnSerializeToml :: "'t toml_lib \<Rightarrow> string \<Rightarrow> cfields \<Rightarrow> errmsg \<times> cfields" where
  "UnSerializeToml L text fs =
     (case t_parse L text of
        Inl e \<Rightarrow> (e, fs)
      | Inr doc \<Rightarrow> ('''', TomlDecode_fields L doc fs))"

section \<open>Shapes\<close>

text \<open>The class of a value: what decoding cannot change.\<close>

fun shape :: "cval \<Rightarrow> cval"
  and shape_fields :: "cfields \<Rightarrow> cfields"
where
  "shape (CI32 _) = CI32 0"
| "shape (CI64 _) = CI64 0"
| "shape (CU32 _) = CU32 0"
| "shape (CU64 _) = CU64 0"
| "shape (CBool _) = CBool False"
| "shape (CStr _) = CStr ''''"
| "shape (CVec d _) = CVec (shape d) []"
| "shape (CObj fs) = CObj (shape_fields fs)"
| "shape_fields [] = []"
| "shape_fields ((n, v) # fs) = (n, shape v) # shape_fields fs"

text \<open>
  \<open>target elem v0 v\<close>: \<open>v0\<close> is an object of the class of \<open>v\<close> that \<open>v\<close>'s text can be read into.  Its
  fields may hold anything, its vectors are empty; strings of fields hold no zero byte, and unsigned
  64-bit elements of vectors are below \<open>2 ^ 63\<close>.
\<close>

fun target :: "bool \<Rightarrow> cval \<Rightarrow> cval \<Rightarrow> bool"
  and targets :: "cfields \<Rightarrow> cfields \<Rightarrow> bool"
  and elements :: "cval \<Rightarrow> cval list \<Rightarrow> bool"
where
  "target elem v0 (CI32 w) = (shape v0 = CI32 0)"
| "target elem v0 (CI64 w) = (shape v0 = CI64 0)"
| "target elem v0 (CU32 w) = (shape v0 = CU32 0)"
| "target elem v0 (CU64 w) = (shape v0 = CU64 0 \<and> (elem \<longrightarrow> uint w < 2 ^ 63))"
| "target elem v0 (CBool b) = (shape v0 = CBool False)"
| "target elem v0 (CStr s) = (shape v0 = CStr '''' \<and> (elem \<or> NUL \<notin> set s))"
| "target elem v0 (CVec d xs) = (\<not> elem \<and> v0 = CVec d [] \<and> elements d xs)"
| "target elem v0 (CObj fs) = (case v0 of CObj fs0 \<Rightarrow> targets fs0 fs | _ \<Rightarrow> False)"
| "targets fs0 [] = (fs0 = [])"
| "targets fs0 ((n, v) # fs) =
     (case fs0 of
        (m, v0) # fs0 \<Rightarrow> m = n \<and> n \<notin> fst ` set fs \<and> target False v0 v \<and> targets fs0 fs
      | [] \<Rightarrow> False)"
| "elements d [] = True"
| "elements d (x # xs) = (target True d x \<and> elements d xs)"

lemma shape_simps:
  "shape v = CI32 0 \<longleftrightarrow> (\<exists>w. v = CI32 w)" "shape v = CI64 0 \<longleftrightarrow> (\<exists>w. v = CI64 w)"
  "shape v = CU32 0 \<longleftrightarrow> (\<exists>w. v = CU32 w)" "shape v = CU64 0 \<longleftrightarrow> (\<exists>w. v = CU64 w)"
  "shape v = CBool False \<longleftrightarrow> (\<exists>b. v = CBool b)" "shape v = CStr '''' \<longleftrightarrow> (\<exists>s. v = CStr s)"
  by (cases v; simp)+

section \<open>Lemmas\<close>

lemma json_lib_okD:
  assumes "json_lib_ok L"
  shows "j_isObject L (j_object L)" "j_isObject L obj \<Longrightarrow> j_isObject L (j_add L n v obj)"
    "j_member L (j_object L) n = None"
    "j_isObject L obj \<Longrightarrow> j_member L (j_add L n v obj) m =
       (case j_member L obj m of Some x \<Rightarrow> Some x | None \<Rightarrow> if m = n then Some v else None)"
    "- (2 ^ 31) \<le> i \<Longrightarrow> i < 2 ^ 31 \<Longrightarrow> j_getInt L (j_int L i) = Some i"
    "- (2 ^ 63) \<le> i \<Longrightarrow> i < 2 ^ 63 \<Longrightarrow> j_getInt64 L (j_int L i) = Some i"
    "j_getBool L (j_bool L b) = Some b" "j_getString L (j_string L s) = Some s"
    "j_getArray L (j_array L js) = Some js" "j_parse L (j_write L v) = Some v"
  using assms unfolding json_lib_ok_def by blast+

lemma sint_range32: "- (2 ^ 31) \<le> sint (w :: 32 word)" "sint w < 2 ^ 31"
  using sint_greater_eq [of w] sint_less [of w] by simp_all

lemma sint_range64: "- (2 ^ 63) \<le> sint (w :: 64 word)" "sint w < 2 ^ 63"
  using sint_greater_eq [of w] sint_less [of w] by simp_all

lemma uint_range32: "- (2 ^ 63) \<le> uint (w :: 32 word)" "uint w < 2 ^ 63"
  using uint_lt2p [of w] by (simp_all add: order_trans [OF _ uint_ge_0])

lemma c_str_id: "NUL \<notin> set s \<Longrightarrow> c_str s = s"
  by (auto simp: c_str_def takeWhile_eq_all_conv)

lemma Encode_fields_isObject:
  "json_lib_ok L \<Longrightarrow> j_isObject L obj \<Longrightarrow> j_isObject L (JsonEncode_fields L fs obj)"
  by (induction fs arbitrary: obj) (auto simp: json_lib_okD(2))

lemma Encode_fields_keeps:
  "json_lib_ok L \<Longrightarrow> j_isObject L obj \<Longrightarrow> j_member L obj n = Some j \<Longrightarrow>
     j_member L (JsonEncode_fields L fs obj) n = Some j"
  by (induction fs arbitrary: obj) (auto simp: json_lib_okD(2,4))

text \<open>The numbers the visitors store are in the range of what reads them back.\<close>

lemma json_evals:
  assumes "json_lib_ok L"
  shows "j_getInt L (j_int L (sint (w :: 32 word))) = Some (sint w)"
    "j_getInt64 L (j_int L (sint (w :: 32 word))) = Some (sint w)"
    "j_getInt64 L (j_int L (sint (x :: 64 word))) = Some (sint x)"
    "j_getInt64 L (j_int L (uint (w :: 32 word))) = Some (uint w)"
    "uint (x :: 64 word) < 2 ^ 63 \<Longrightarrow> j_getInt64 L (j_int L (uint x)) = Some (uint x)"
    "j_getBool L (j_bool L b) = Some b" "j_getString L (j_string L s) = Some s"
proof -
  have s: "- (2 ^ 63) \<le> sint (w :: 32 word)" "sint (w :: 32 word) < 2 ^ 63" for w
    using sint_range32 [of w] by simp_all
  have u: "- (2 ^ 63) \<le> uint x" by (rule order_trans [OF _ uint_ge_0]) simp
  show "j_getInt L (j_int L (sint w)) = Some (sint w)" by (rule json_lib_okD(5) [OF assms sint_range32])
  show "j_getInt64 L (j_int L (sint w)) = Some (sint w)" by (rule json_lib_okD(6) [OF assms s])
  show "j_getInt64 L (j_int L (sint x)) = Some (sint x)" by (rule json_lib_okD(6) [OF assms sint_range64])
  show "j_getInt64 L (j_int L (uint w)) = Some (uint w)" by (rule json_lib_okD(6) [OF assms uint_range32])
  show "j_getInt64 L (j_int L (uint x)) = Some (uint x)" if "uint x < 2 ^ 63"
    by (rule json_lib_okD(6) [OF assms u that])
  show "j_getBool L (j_bool L b) = Some b" "j_getString L (j_string L s) = Some s"
    using json_lib_okD(7,8) [OF assms] by simp_all
qed

lemma json_roundtrip:
  assumes "json_lib_ok L"
  shows "target elem v0 v \<Longrightarrow> (elem \<longrightarrow> JsonDecode_setT L (JsonEncode L True v) v0 = (v, None)) \<and>
      (\<not> elem \<longrightarrow> JsonDecode L n (JsonEncode L False v) v0 = (v, None))"
    and "targets fs0 fs \<Longrightarrow> j_isObject L obj \<Longrightarrow> (\<forall>n\<in>fst ` set fs. j_member L obj n = None) \<Longrightarrow>
      JsonDecode_fields L (JsonEncode_fields L fs obj) fs0 = (fs, None)"
    and "elements d xs \<Longrightarrow> push_all (\<lambda>j. JsonDecode_setT L j d) (JsonEncode_elements L xs) ys = (ys @ xs, None)"
proof (induction elem v0 v and fs0 fs and d xs arbitrary: n and obj and ys rule: target_targets_elements.induct)
  case (7 elem v0 d xs)
  then have "elements d xs" "v0 = CVec d []" "\<not> elem" by simp_all
  with 7(1) [of "[]"] json_lib_okD(9) [OF assms] show ?case by simp
next
  case (8 elem v0 fs)
  from 8(2) obtain fs0 where fs0: "v0 = CObj fs0" "targets fs0 fs" by (cases v0) auto
  have "JsonDecode_fields L (JsonEncode_fields L fs (j_object L)) fs0 = (fs, None)"
    by (rule 8(1) [OF fs0 json_lib_okD(1) [OF assms]]) (simp add: json_lib_okD(3) [OF assms])
  with fs0(1) Encode_fields_isObject [OF assms json_lib_okD(1) [OF assms]] show ?case by simp
next
  case (10 fs0 n v fs)
  from 10(3) obtain v0 fs0' where f: "fs0 = (n, v0) # fs0'" "n \<notin> fst ` set fs" "target False v0 v" "targets fs0' fs"
    by (cases fs0) auto
  let ?o = "j_add L n (JsonEncode L False v) obj" and ?doc = "JsonEncode_fields L ((n, v) # fs) obj"
  have o: "j_isObject L ?o" "j_member L ?o n = Some (JsonEncode L False v)"
    using json_lib_okD(2,4) [OF assms] 10(4,5) by simp_all
  have "\<forall>m\<in>fst ` set fs. j_member L ?o m = None"
    using json_lib_okD(4) [OF assms 10(4)] 10(5) f(2) by auto
  with 10(2) [OF f(1) _ f(4) o(1)] have "JsonDecode_fields L ?doc fs0' = (fs, None)" by simp
  moreover have "j_isObject L ?doc" "j_member L ?doc n = Some (JsonEncode L False v)"
    using Encode_fields_isObject [OF assms o(1)] Encode_fields_keeps [OF assms o] by simp_all
  moreover have "JsonDecode L n (JsonEncode L False v) v0 = (v, None)"
    using 10(1) [OF f(1) _ f(3), of n] by simp
  ultimately show ?case unfolding f(1) by simp
qed (auto simp: shape_simps json_evals [OF assms] c_str_id)

text \<open>
  A class that TOML can hold: no vectors, no class without fields, strings of printable characters.
\<close>

fun toml_val :: "cval \<Rightarrow> bool"
  and toml_vals :: "cfields \<Rightarrow> bool"
where
  "toml_val (CVec d xs) = False"
| "toml_val (CObj fs) = (fs \<noteq> [] \<and> toml_vals fs)"
| "toml_val (CStr s) = printable s"
| "toml_val _ = True"
| "toml_vals [] = True"
| "toml_vals ((n, v) # fs) = (bare_key n \<and> toml_val v \<and> toml_vals fs)"

lemma toml_lib_okD:
  assumes "toml_lib_ok L"
  shows "bare_key n \<Longrightarrow> obj = t_empty L \<or> toml_table L obj \<Longrightarrow> t_find L (t_setChild L n v obj) n = Some v"
    "bare_key n \<Longrightarrow> bare_key m \<Longrightarrow> m \<noteq> n \<Longrightarrow> toml_table L obj \<Longrightarrow> t_find L (t_setChild L n v obj) m = t_find L obj m"
    "t_asInt L (t_int L i) = Some i" "t_asInt64 L (t_int64 L w) = Some w"
    "t_asBool L (t_bool L b) = Some b" "t_asString L (t_string L s) = Some s"
    "toml_table L t \<Longrightarrow> t_parse L (t_write L t) = Inr t"
  using assms unfolding toml_lib_ok_def by blast+

lemma toml_encodes:
  "toml_val v \<Longrightarrow> toml_value L (TomlEncode L v)"
  "toml_vals fs \<Longrightarrow> toml_table L obj \<or> obj = t_empty L \<and> fs \<noteq> [] \<Longrightarrow> toml_table L (TomlEncode_fields L fs obj)"
proof (induction v and fs arbitrary: and obj rule: toml_val_toml_vals.induct)
  case (2 fs)
  then show ?case by (auto intro: toml_table_toml_value.table)
next
  case (6 n v fs)
  then have "toml_table L (t_setChild L n (TomlEncode L v) obj)" by (auto intro: toml_table_toml_value.intros)
  with 6 show ?case by simp
qed (auto intro: toml_table_toml_value.intros)

lemma toml_fields_other:
  "toml_lib_ok L \<Longrightarrow> bare_key n \<Longrightarrow> toml_vals fs \<Longrightarrow> n \<notin> fst ` set fs \<Longrightarrow> toml_table L obj \<Longrightarrow>
   t_find L (TomlEncode_fields L fs obj) n = t_find L obj n"
proof (induction fs arbitrary: obj)
  case (Cons f fs)
  obtain m v where f: "f = (m, v)" by (cases f)
  with Cons.prems have "toml_table L (t_setChild L m (TomlEncode L v) obj)" "t_find L (t_setChild L m (TomlEncode L v) obj) n = t_find L obj n"
    by (auto intro: toml_table_toml_value.more toml_encodes(1) toml_lib_okD(2))
  with Cons f show ?case by simp
qed simp

lemma toml_u32_back: "ucast (ucast (w :: 32 word) :: 64 word) = w"
  by (rule ucast_up_ucast_id) (simp add: is_up)

lemma toml_roundtrip:
  assumes "toml_lib_ok L"
  shows "target elem v0 v \<Longrightarrow> toml_val v \<Longrightarrow> TomlDecode L (TomlEncode L v) v0 = v"
    and "targets fs0 fs \<Longrightarrow> toml_vals fs \<Longrightarrow> obj = t_empty L \<or> toml_table L obj \<Longrightarrow>
      TomlDecode_fields L (TomlEncode_fields L fs obj) fs0 = fs"
    and "elements d xs \<Longrightarrow> True"
proof (induction elem v0 v and fs0 fs and d xs arbitrary: and obj and rule: target_targets_elements.induct)
  case (8 elem v0 fs)
  then show ?case by (cases v0) auto
next
  case (10 fs0 n v fs)
  from 10(3) obtain v0 fs0' where f: "fs0 = (n, v0) # fs0'" "n \<notin> fst ` set fs" "target False v0 v" "targets fs0' fs"
    by (cases fs0) auto
  from 10(4) have n: "bare_key n" "toml_val v" "toml_vals fs" by simp_all
  have t: "toml_table L (t_setChild L n (TomlEncode L v) obj)"
    using 10(5) n toml_encodes(1) by (auto intro: toml_table_toml_value.first toml_table_toml_value.more)
  then have "TomlDecode_fields L (TomlEncode_fields L ((n, v) # fs) obj) fs0' = fs"
    using 10(2) [OF f(1) _ f(4) n(3)] by simp
  moreover have "t_find L (TomlEncode_fields L ((n, v) # fs) obj) n = Some (TomlEncode L v)"
    using toml_fields_other [OF assms n(1,3) f(2) t] toml_lib_okD(1) [OF assms n(1) 10(5)] by simp
  moreover have "TomlDecode L (TomlEncode L v) v0 = v" using 10(1) [OF f(1) _ f(3) n(2)] by simp
  ultimately show ?case unfolding f(1) by simp
qed (auto simp: shape_simps toml_lib_okD [OF assms] toml_u32_back)

section \<open>Instances of the libraries\<close>

text \<open>Values that satisfy what is relied on, so that it can be relied on.\<close>

datatype json_val =
    JInt int
  | JBool bool
  | JString string
  | JArray "json_val list"
  | JObject "(string \<times> json_val) list"

instance json_val :: countable
  by countable_datatype

fun json_add :: "string \<Rightarrow> json_val \<Rightarrow> json_val \<Rightarrow> json_val" where
  "json_add n v (JObject ms) = JObject (ms @ [(n, v)])"
| "json_add n v j = j"

fun json_isObject :: "json_val \<Rightarrow> bool" where
  "json_isObject (JObject ms) = True"
| "json_isObject _ = False"

fun json_member :: "json_val \<Rightarrow> string \<Rightarrow> json_val option" where
  "json_member (JObject ms) n = map_of ms n"
| "json_member _ n = None"

fun json_int :: "nat \<Rightarrow> json_val \<Rightarrow> int option" where
  "json_int b (JInt i) = (if - (2 ^ b) \<le> i \<and> i < 2 ^ b then Some i else None)"
| "json_int b _ = None"

fun json_bool :: "json_val \<Rightarrow> bool option" where
  "json_bool (JBool b) = Some b"
| "json_bool _ = None"

fun json_string :: "json_val \<Rightarrow> string option" where
  "json_string (JString s) = Some s"
| "json_string _ = None"

fun json_array :: "json_val \<Rightarrow> json_val list option" where
  "json_array (JArray js) = Some js"
| "json_array _ = None"

text \<open>A text for every value: as many letters as the value's number.\<close>

definition json_instance :: "json_val json_lib" where
  "json_instance =
     \<lparr>j_object = JObject [], j_add = json_add, j_int = JInt, j_bool = JBool, j_string = JString, j_array = JArray,
      j_isObject = json_isObject, j_member = json_member, j_getInt = json_int 31, j_getInt64 = json_int 63,
      j_getBool = json_bool, j_getString = json_string, j_getArray = json_array,
      j_write = (\<lambda>v. replicate (to_nat v) CHR ''x''), j_parse = (\<lambda>s. Some (from_nat (length s)))\<rparr>"

lemma json_instance_ok: "json_lib_ok json_instance"
proof -
  have "json_isObject (json_add n v obj)" if "json_isObject obj" for n v obj
    using that by (cases obj) auto
  moreover have "json_member (json_add n v obj) m =
    (case json_member obj m of Some x \<Rightarrow> Some x | None \<Rightarrow> if m = n then Some v else None)"
    if "json_isObject obj" for n v obj m
    using that by (cases obj) (auto simp: map_add_def split: option.splits)
  ultimately show ?thesis by (simp add: json_lib_ok_def json_instance_def)
qed

text \<open>The same values serve as TOML values; a table keeps one value for each key.\<close>

fun toml_setChild :: "string \<Rightarrow> json_val \<Rightarrow> json_val \<Rightarrow> json_val" where
  "toml_setChild n v (JObject ms) = JObject ((n, v) # ms)"
| "toml_setChild n v j = JObject [(n, v)]"

fun toml_int :: "json_val \<Rightarrow> int option" where
  "toml_int (JInt i) = Some i"
| "toml_int _ = None"

definition toml_instance :: "json_val toml_lib" where
  "toml_instance =
     \<lparr>t_empty = JObject [], t_setChild = toml_setChild, t_int = (\<lambda>w. JInt (sint w)), t_int64 = (\<lambda>w. JInt (sint w)),
      t_bool = JBool, t_string = JString, t_find = json_member,
      t_asInt = (\<lambda>v. map_option word_of_int (toml_int v)), t_asInt64 = (\<lambda>v. map_option word_of_int (toml_int v)),
      t_asBool = json_bool, t_asString = json_string,
      t_write = (\<lambda>v. replicate (to_nat v) CHR ''x''), t_parse = (\<lambda>s. Inr (from_nat (length s)))\<rparr>"

lemma toml_instance_ok: "toml_lib_ok toml_instance"
proof -
  have "json_member (toml_setChild n v obj) m = (if m = n then Some v else json_member obj m)" for n v obj m
    by (cases obj) auto
  then show ?thesis by (simp add: toml_lib_ok_def toml_instance_def)
qed

text \<open>The round trips through the text.\<close>

lemma json_text_roundtrip:
  assumes "json_lib_ok L" "targets fs0 fs"
  shows "UnSerializeJson L (snd (SerializeJson L fs)) fs0 = Some ('''', fs)"
proof -
  have "JsonDecode_fields L (JsonEncode_fields L fs (j_object L)) fs0 = (fs, None)"
    by (rule json_roundtrip(2) [OF assms(1,2) json_lib_okD(1) [OF assms(1)]]) (simp add: json_lib_okD(3) [OF assms(1)])
  then show ?thesis by (simp add: UnSerializeJson_def SerializeJson_def json_lib_okD(10) [OF assms(1)])
qed

lemma toml_text_roundtrip:
  assumes "toml_lib_ok L" "targets fs0 fs" "toml_val (CObj fs)"
  shows "UnSerializeToml L (snd (SerializeToml L fs)) fs0 = ('''', fs)"
proof -
  have "toml_vals fs" "fs \<noteq> []" using assms(3) by simp_all
  then show ?thesis
    using toml_roundtrip(2) [OF assms(1,2), of "t_empty L"] toml_lib_okD(7) [OF assms(1)] toml_encodes(2) [of fs L "t_empty L"]
    by (simp add: UnSerializeToml_def SerializeToml_def)
qed

text \<open>The configuration class of the repository's own test.\<close>

definition test_config :: "string \<Rightarrow> 64 word \<Rightarrow> string \<Rightarrow> cfields" where
  "test_config addr port nest =
     [(''addr'', CStr addr), (''port'', CU64 port), (''nest'', CObj [(''nest_addr'', CStr nest)])]"

definition test_lists :: "cval list \<Rightarrow> cval list \<Rightarrow> cval list \<Rightarrow> cfields" where
  "test_lists ints strings nests =
     [(''ints'', CVec (CI32 0) ints), (''strings'', CVec (CStr '''') strings),
      (''nests'', CVec (CObj [(''nest_addr'', CStr '''')]) nests)]"

section \<open>Properties\<close>

text \<open>
  C29.  A configuration written as JSON is read back unchanged, for every class of configurations the
  visitors can handle: fields of all integer widths (unsigned 64-bit values above \<open>2 ^ 63\<close> included,
  although the text holds a negative number), flags, strings without a zero byte, vectors and nested
  objects, into any object of the class whose vectors are empty, whatever its other fields hold; no error
  is reported and nothing aborts.
\<close>

theorem Json_roundtrip:
  assumes "json_lib_ok L" "targets fs0 fs"
  shows "UnSerializeJson L (snd (SerializeJson L fs)) fs0 = Some ('''', fs)"
  using assms by (rule json_text_roundtrip)

theorem Json_roundtrip_witness:
  "let fs = test_config ''addr_'' 18446744073709551615 ''nestAddr_'' @
       test_lists [CI32 1, CI32 (-2)] [CStr ''4'', CStr ''5''] [CObj [(''nest_addr'', CStr ''N'')]]
   in UnSerializeJson json_instance (snd (SerializeJson json_instance fs))
        (test_config ''old'' 7 '''' @ test_lists [] [] []) = Some ('''', fs)"
  unfolding Let_def
  by (rule Json_roundtrip [OF json_instance_ok]) (simp add: test_config_def test_lists_def)

text \<open>
  Errors depend on where a wrong type stands: in a field of a string it is reported, with the
  field's name, and the fields behind it are not read; the same value as an element of a vector of
  strings ends the program.
\<close>

theorem Json_wrong_type:
  assumes "json_lib_ok L" "j_getString L (j_int L i) = None"
  shows "JsonDecode_fields L (j_add L n (j_int L i) (j_object L)) ((n, CStr s) # fs) =
      ((n, CStr s) # fs, Some (Throw (n @ '' is not a string''))) \<and>
    JsonDecode_fields L (j_add L n (j_array L [j_int L i]) (j_object L)) ((n, CVec (CStr '''') []) # fs) =
      ((n, CVec (CStr '''') []) # fs, Some Abort)"
  using assms(2) json_lib_okD [OF assms(1)] by simp

theorem Json_wrong_type_witness:
  "JsonDecode_fields json_instance (JObject [(''addr'', JInt 3)]) [(''addr'', CStr ''a'')] =
     ([(''addr'', CStr ''a'')], Some (Throw ''addr is not a string''))"
proof -
  have "j_getString json_instance (j_int json_instance 3) = None" by (simp add: json_instance_def)
  from Json_wrong_type [OF json_instance_ok this, of "''addr''" "''a''" "[]"] show ?thesis
    by (simp add: json_instance_def)
qed

text \<open>
  An unsigned element of \<open>2 ^ 63\<close> or more is written as it is and cannot be read back: the
  program ends; as a field the same number is written as a negative one and read back.
\<close>

theorem Json_large_unsigned_element:
  assumes "json_lib_ok L" "\<forall>i. 2 ^ 63 \<le> i \<longrightarrow> j_getInt64 L (j_int L i) = None" "2 ^ 63 \<le> uint w"
  shows "UnSerializeJson L (snd (SerializeJson L [(n, CVec (CU64 0) [CU64 w])])) [(n, CVec (CU64 0) [])] = None \<and>
    UnSerializeJson L (snd (SerializeJson L [(n, CU64 w)])) [(n, CU64 0)] = Some ('''', [(n, CU64 w)])"
  using assms(2,3) json_lib_okD [OF assms(1)] json_evals [OF assms(1)]
  by (simp add: UnSerializeJson_def SerializeJson_def)

theorem Json_large_unsigned_element_witness:
  "UnSerializeJson json_instance (snd (SerializeJson json_instance [(''v'', CVec (CU64 0) [CU64 18446744073709551615])])) [(''v'', CVec (CU64 0) [])] = None"
proof -
  have "\<forall>i. 2 ^ 63 \<le> i \<longrightarrow> j_getInt64 json_instance (j_int json_instance i) = None" by (simp add: json_instance_def)
  moreover have "2 ^ 63 \<le> uint (18446744073709551615 :: 64 word)" by simp
  ultimately show ?thesis using Json_large_unsigned_element [OF json_instance_ok] by blast
qed

text \<open>
  Reading appends to the vectors of the object it reads into.
\<close>

theorem Json_vector_appends:
  assumes "json_lib_ok L" "elements d xs"
  shows "JsonDecode_fields L (j_add L n (j_array L (JsonEncode_elements L xs)) (j_object L)) [(n, CVec d ys)] =
    ([(n, CVec d (ys @ xs))], None)"
  using json_roundtrip(3) [OF assms, of ys] json_lib_okD [OF assms(1)] by simp

theorem Json_vector_appends_witness:
  "JsonDecode_fields json_instance (JObject [(''ints'', JArray [JInt 2])]) [(''ints'', CVec (CI32 0) [CI32 1])] =
     ([(''ints'', CVec (CI32 0) [CI32 1, CI32 2])], None)"
proof -
  have "elements (CI32 0) [CI32 2]" by simp
  from Json_vector_appends [OF json_instance_ok this, of "''ints''" "[CI32 1]"] show ?thesis
    by (simp add: json_instance_def)
qed

end
