(* ===== verification/Config_Files.thy ===== *)
theory Config_Files
  imports Small_Config
begin

text \<open>
  The rest of \<^verbatim>\<open>src/extends/small_config\<close>: the clients of \<^verbatim>\<open>small_config.h\<close> that
  read and write configuration files, and the visitor of \<^verbatim>\<open>small_output.h\<close>, which prints.

  A file system maps names to contents; \<open>writable\<close> tells which names can be opened for writing.
\<close>

section \<open>Files\<close>

type_synonym files = "string \<Rightarrow> string option"

definition File2String :: "files \<Rightarrow> string \<Rightarrow> errmsg \<times> string" where
  "File2String files name =
     (case files name of None \<Rightarrow> (''open file '' @ name @ '' failed'', '''') | Some text \<Rightarrow> ('''', text))"

text \<open>\<open>e\<close> is the error so far.\<close>

definition String2File :: "(string \<Rightarrow> bool) \<Rightarrow> errmsg \<Rightarrow> string \<Rightarrow> string \<Rightarrow> files \<Rightarrow> files \<times> errmsg" where
  "String2File writable e text name files =
     (if \<not> writable name then (files, ''open file '' @ name @ '' failed'') else (files(name \<mapsto> text), e))"

text \<open>
  \<^verbatim>\<open>UnSerialize\<close> with an error already set: the parser overwrites it if it fails; else it ends the
  call.
\<close>

definition UnSerializeJson_after :: "'j json_lib \<Rightarrow> errmsg \<Rightarrow> string \<Rightarrow> cfields \<Rightarrow> (errmsg \<times> cfields) option" where
  "UnSerializeJson_after L e text fs =
     (if j_parse L text = None \<or> e = '''' then UnSerializeJson L text fs else Some (e, fs))"

definition UnSerializeToml_after :: "'t toml_lib \<Rightarrow> errmsg \<Rightarrow> string \<Rightarrow> cfields \<Rightarrow> (errmsg \<times> cfields) option" where
  "UnSerializeToml_after L e text fs =
     Some (case t_parse L text of
       Inl _ \<Rightarrow> UnSerializeToml L text fs
     | Inr _ \<Rightarrow> if e \<noteq> '''' then (e, fs) else UnSerializeToml L text fs)"

text \<open>The clients' methods, for either format.\<close>

definition SerializeToFile ::
    "(cfields \<Rightarrow> errmsg \<times> string) \<Rightarrow> (string \<Rightarrow> bool) \<Rightarrow> cfields \<Rightarrow> string \<Rightarrow> files \<Rightarrow> files \<times> errmsg" where
  "SerializeToFile ser writable fs name files =
     (case ser fs of (e, text) \<Rightarrow> String2File writable e text name files)"

definition UnSerializeFromFile ::
    "(errmsg \<Rightarrow> string \<Rightarrow> cfields \<Rightarrow> (errmsg \<times> cfields) option) \<Rightarrow> files \<Rightarrow> string \<Rightarrow> cfields \<Rightarrow> (errmsg \<times> cfields) option" where
  "UnSerializeFromFile unser files name fs = (case File2String files name of (e, text) \<Rightarrow> unser e text fs)"

definition SerializeJsonToFile :: "'j json_lib \<Rightarrow> (string \<Rightarrow> bool) \<Rightarrow> cfields \<Rightarrow> string \<Rightarrow> files \<Rightarrow> files \<times> errmsg" where
  "SerializeJsonToFile L = SerializeToFile (SerializeJson L)"

definition UnSerializeJsonFromFile :: "'j json_lib \<Rightarrow> files \<Rightarrow> string \<Rightarrow> cfields \<Rightarrow> (errmsg \<times> cfields) option" where
  "UnSerializeJsonFromFile L = UnSerializeFromFile (UnSerializeJson_after L)"

definition SerializeTomlToFile :: "'t toml_lib \<Rightarrow> (string \<Rightarrow> bool) \<Rightarrow> cfields \<Rightarrow> string \<Rightarrow> files \<Rightarrow> files \<times> errmsg" where
  "SerializeTomlToFile L = SerializeToFile (SerializeToml L)"

definition UnSerializeTomlFromFile :: "'t toml_lib \<Rightarrow> files \<Rightarrow> string \<Rightarrow> cfields \<Rightarrow> (errmsg \<times> cfields) option" where
  "UnSerializeTomlFromFile L = UnSerializeFromFile (UnSerializeToml_after L)"

section \<open>Output\<close>

text \<open>
  The output visitor writes nothing when it encodes; when it decodes it prints a line per field, and
  does not enter a nested object.  \<open>show_val\<close> prints a value.
\<close>

definition SerializeOutput :: "cfields \<Rightarrow> string \<Rightarrow> errmsg \<times> string" where
  "SerializeOutput fs out = ('''', out)"

fun OutputDecode :: "(cval \<Rightarrow> string) \<Rightarrow> string \<times> cval \<Rightarrow> string" where
  "OutputDecode show_val (n, CObj fs) = ''enter '' @ n"
| "OutputDecode show_val (n, v) = ''key: '' @ n @ '' value: '' @ show_val v"

text \<open>The lines printed, the error and the object.\<close>

definition UnSerializeOutput :: "(cval \<Rightarrow> string) \<Rightarrow> string \<Rightarrow> cfields \<Rightarrow> string list \<times> errmsg \<times> cfields" where
  "UnSerializeOutput show_val text fs = (map (OutputDecode show_val) fs, '''', fs)"

section \<open>The contract of a format\<close>

text \<open>
  What the file methods rely on: a format whose texts are read back, and which reports an error that was
  there before it read a text it can parse.
\<close>

locale config_format =
  fixes ser :: "cfields \<Rightarrow> errmsg \<times> string"
    and unser :: "errmsg \<Rightarrow> string \<Rightarrow> cfields \<Rightarrow> (errmsg \<times> cfields) option"
    and fits :: "cfields \<Rightarrow> cfields \<Rightarrow> bool"
  assumes ser_ok: "fits fs0 fs \<Longrightarrow> fst (ser fs) = ''''"
    and read_back: "fits fs0 fs \<Longrightarrow> unser '''' (snd (ser fs)) fs0 = Some ('''', fs)"
begin

lemma file_roundtrip:
  assumes "fits fs0 fs" "writable name"
  shows "\<exists>files'. SerializeToFile ser writable fs name files = (files', '''') \<and>
    UnSerializeFromFile unser files' name fs0 = Some ('''', fs) \<and> (\<forall>other. other \<noteq> name \<longrightarrow> files' other = files other)"
proof -
  obtain e t where s: "ser fs = (e, t)" by fastforce
  with ser_ok [OF assms(1)] read_back [OF assms(1)] assms(2) show ?thesis
    by (simp add: SerializeToFile_def String2File_def UnSerializeFromFile_def File2String_def)
qed

lemma unwritable:
  "\<not> writable name \<Longrightarrow> SerializeToFile ser writable fs name files = (files, ''open file '' @ name @ '' failed'')"
  by (simp add: SerializeToFile_def String2File_def split: prod.splits)

end

interpretation js: config_format "SerializeJson L" "UnSerializeJson_after L" "\<lambda>fs0 fs. json_lib_ok L \<and> targets fs0 fs" for L
  by unfold_locales (auto simp: SerializeJson_def UnSerializeJson_after_def dest: json_text_roundtrip)

interpretation tm: config_format "SerializeToml L" "UnSerializeToml_after L"
  "\<lambda>fs0 fs. toml_lib_ok L \<and> targets fs0 fs \<and> toml_val (CObj fs)" for L
  by unfold_locales
    (auto simp: SerializeToml_def UnSerializeToml_after_def dest: toml_text_roundtrip split: sum.splits)

section \<open>Properties\<close>

text \<open>
  A configuration that both formats can hold, saved to a file, is loaded from it unchanged, and no other file is
  touched; if the file cannot be opened for writing the error says so and no file changes.
\<close>

theorem Config_file_roundtrip:
  assumes "json_lib_ok L" "toml_lib_ok M" "targets fs0 fs" "toml_val (CObj fs)" "writable name" "\<not> writable locked"
  shows "(\<exists>files'. SerializeJsonToFile L writable fs name files = (files', '''') \<and>
      UnSerializeJsonFromFile L files' name fs0 = Some ('''', fs) \<and>
      (\<forall>other. other \<noteq> name \<longrightarrow> files' other = files other)) \<and>
    (\<exists>files'. SerializeTomlToFile M writable fs name files = (files', '''') \<and>
      UnSerializeTomlFromFile M files' name fs0 = Some ('''', fs) \<and>
      (\<forall>other. other \<noteq> name \<longrightarrow> files' other = files other)) \<and>
    SerializeJsonToFile L writable fs locked files = (files, ''open file '' @ locked @ '' failed'')"
  unfolding SerializeJsonToFile_def UnSerializeJsonFromFile_def SerializeTomlToFile_def UnSerializeTomlFromFile_def
  using assms by (intro conjI js.file_roundtrip tm.file_roundtrip js.unwritable) auto

theorem Config_file_roundtrip_witness:
  "\<exists>files'. SerializeJsonToFile json_instance (\<lambda>n. n = ''a.json'') (test_config ''addr_'' 1 ''nestAddr_'') ''a.json''
      (\<lambda>_. None) = (files', '''') \<and>
     UnSerializeJsonFromFile json_instance files' ''a.json'' (test_config '''' 0 '''') =
       Some ('''', test_config ''addr_'' 1 ''nestAddr_'')"
proof -
  let ?w = "\<lambda>n. n = ''a.json''"
  have "targets (test_config '''' 0 '''') (test_config ''addr_'' 1 ''nestAddr_'')"
    "toml_val (CObj (test_config ''addr_'' 1 ''nestAddr_''))" "?w ''a.json''" "\<not> ?w ''b''"
    by (simp_all add: test_config_def bare_key_def printable_def)
  from Config_file_roundtrip [OF json_instance_ok toml_instance_ok this, of "\<lambda>_. None"] show ?thesis by blast
qed

text \<open>
  A missing file is reported differently by the two formats.  The empty text stands for it: the TOML
  parser accepts that and the message about the file survives; the JSON parser rejects it and overwrites
  the message.  The configuration stays as it was in both cases.
\<close>

theorem Config_missing_file:
  assumes "j_parse L '''' = None" "t_parse M '''' = Inr doc" "files name = None"
  shows "UnSerializeJsonFromFile L files name fs = Some (''json obj has parse error'', fs) \<and>
    UnSerializeTomlFromFile M files name fs = Some (''open file '' @ name @ '' failed'', fs)"
  using assms by (simp add: UnSerializeJsonFromFile_def UnSerializeTomlFromFile_def UnSerializeFromFile_def
      File2String_def UnSerializeJson_after_def UnSerializeJson_def UnSerializeToml_after_def)

text \<open>Printing shows every field of the top level, by name, and changes nothing; nested objects are not shown.\<close>

theorem Output_prints_fields:
  "case UnSerializeOutput show_val text fs of (out, errMsg, fs') \<Rightarrow>
     errMsg = '''' \<and> fs' = fs \<and> length out = length fs \<and>
     (\<forall>i<length fs. out ! i = (case fs ! i of
        (n, CObj _) \<Rightarrow> ''enter '' @ n | (n, v) \<Rightarrow> ''key: '' @ n @ '' value: '' @ show_val v))"
proof -
  have "OutputDecode show_val x = (case x of (n, CObj _) \<Rightarrow> ''enter '' @ n | (n, v) \<Rightarrow> ''key: '' @ n @ '' value: '' @ show_val v)" for x
    by (cases x; cases "snd x") auto
  then show ?thesis by (simp add: UnSerializeOutput_def)
qed

end
