(* ===== verification/Locks.thy ===== *)
theory Locks
  imports Prelude
begin

text \<open>
  \<^verbatim>\<open>src/extends/small_packages/small_lock\<close> (the locks every component takes through
  \<^verbatim>\<open>UniqueGuard\<close>) and \<^verbatim>\<open>small_block_queue\<close> (a thread that runs pushed callbacks).

  Taking a lock that cannot be taken now is \<open>None\<close>: the thread waits, and for the thread that holds a
  plain lock itself it waits for ever.
\<close>

section \<open>Locks\<close>

text \<open>A plain lock is held by a thread or free; a recursive lock has a depth as well.\<close>

type_synonym normal_lock = "nat option"
type_synonym recursive_lock = "(nat \<times> nat) option"

definition NormalLock_Lock :: "nat \<Rightarrow> normal_lock \<Rightarrow> normal_lock option" where
  "NormalLock_Lock t l = (case l of None \<Rightarrow> Some (Some t) | Some _ \<Rightarrow> None)"

definition NormalLock_UnLock :: "nat \<Rightarrow> normal_lock \<Rightarrow> normal_lock option" where
  "NormalLock_UnLock t l = (if l = Some t then Some None else None)"

text \<open>The read-write interface of the plain lock: readers exclude each other as well.\<close>

definition NormalLock_RLock :: "nat \<Rightarrow> normal_lock \<Rightarrow> normal_lock option" where
  "NormalLock_RLock = NormalLock_Lock"

definition NormalLock_RUnLock :: "nat \<Rightarrow> normal_lock \<Rightarrow> normal_lock option" where
  "NormalLock_RUnLock = NormalLock_UnLock"

definition NormalLock_WLock :: "nat \<Rightarrow> normal_lock \<Rightarrow> normal_lock option" where
  "NormalLock_WLock = NormalLock_Lock"

definition NormalLock_WUnLock :: "nat \<Rightarrow> normal_lock \<Rightarrow> normal_lock option" where
  "NormalLock_WUnLock = NormalLock_UnLock"

definition NormalRecursiveLock_Lock :: "nat \<Rightarrow> recursive_lock \<Rightarrow> recursive_lock option" where
  "NormalRecursiveLock_Lock t l =
     (case l of None \<Rightarrow> Some (Some (t, 1)) | Some (u, n) \<Rightarrow> if u = t then Some (Some (u, n + 1)) else None)"

definition NormalRecursiveLock_UnLock :: "nat \<Rightarrow> recursive_lock \<Rightarrow> recursive_lock option" where
  "NormalRecursiveLock_UnLock t l =
     (case l of
        Some (u, n) \<Rightarrow> if u = t then Some (if n \<le> 1 then None else Some (u, n - 1)) else None
      | None \<Rightarrow> None)"

definition MakeLock :: normal_lock where "MakeLock = None"
definition MakeRWLock :: normal_lock where "MakeRWLock = None"
definition MakeRecursiveLock :: recursive_lock where "MakeRecursiveLock = None"

text \<open>
  Code under guards, as the tree of scopes it opens: \<^verbatim>\<open>UniqueGuard\<close> locks at the start of its
  scope and unlocks at the end.
\<close>

datatype guarded = Guarded "guarded list"

fun run_guard :: "('l \<Rightarrow> 'l option) \<Rightarrow> ('l \<Rightarrow> 'l option) \<Rightarrow> guarded \<Rightarrow> 'l \<Rightarrow> 'l option"
  and run_guards :: "('l \<Rightarrow> 'l option) \<Rightarrow> ('l \<Rightarrow> 'l option) \<Rightarrow> guarded list \<Rightarrow> 'l \<Rightarrow> 'l option" where
  "run_guard lock unlock (Guarded gs) l =
     Option.bind (lock l) (\<lambda>l. Option.bind (run_guards lock unlock gs l) unlock)"
| "run_guards lock unlock [] l = Some l"
| "run_guards lock unlock (g # gs) l = Option.bind (run_guard lock unlock g l) (run_guards lock unlock gs)"

text \<open>The contract a guarded component relies on: a guard can be opened in a state the thread may be in,
  and closing it restores that state.\<close>

locale reentrant_lock =
  fixes lock unlock :: "'l \<Rightarrow> 'l option"
    and mine :: "'l \<Rightarrow> bool"
  assumes lock_law: "mine l \<Longrightarrow> \<exists>l'. lock l = Some l' \<and> mine l' \<and> unlock l' = Some l"
begin

lemma run_guards_restore:
  "(\<And>g l. g \<in> set gs \<Longrightarrow> mine l \<Longrightarrow> run_guard lock unlock g l = Some l) \<Longrightarrow> mine l \<Longrightarrow>
     run_guards lock unlock gs l = Some l"
  by (induction gs arbitrary: l) auto

lemma run_guard_restores: "mine l \<Longrightarrow> run_guard lock unlock g l = Some l"
proof (induction g arbitrary: l)
  case (Guarded gs)
  from lock_law [OF Guarded.prems] obtain l' where l': "lock l = Some l'" "mine l'" "unlock l' = Some l" by blast
  from run_guards_restore [OF Guarded.IH l'(2)] l'(1,3) show ?case by simp
qed

end

text \<open>The recursive lock meets the contract for the thread that holds it, or if nobody does.\<close>

definition rec_mine :: "nat \<Rightarrow> recursive_lock \<Rightarrow> bool" where
  "rec_mine t l \<longleftrightarrow> (case l of None \<Rightarrow> True | Some (u, n) \<Rightarrow> u = t \<and> 1 \<le> n)"

interpretation rl: reentrant_lock "NormalRecursiveLock_Lock t" "NormalRecursiveLock_UnLock t" "rec_mine t" for t
proof unfold_locales
  fix l
  assume "rec_mine t l"
  then show "\<exists>l'. NormalRecursiveLock_Lock t l = Some l' \<and> rec_mine t l' \<and> NormalRecursiveLock_UnLock t l' = Some l"
    by (cases l) (auto simp: rec_mine_def NormalRecursiveLock_Lock_def NormalRecursiveLock_UnLock_def)
qed

lemma normal_guard_flat:
  "run_guard (NormalLock_Lock t) (NormalLock_UnLock t) (Guarded gs) MakeLock =
     (if gs = [] then Some MakeLock else None)"
proof (cases gs)
  case (Cons g gs')
  then obtain hs where "g = Guarded hs" by (cases g)
  with Cons show ?thesis by (simp add: NormalLock_Lock_def NormalLock_UnLock_def MakeLock_def)
qed (simp add: NormalLock_Lock_def NormalLock_UnLock_def MakeLock_def)

section \<open>The block queue\<close>

text \<open>
  \<open>q_cbs\<close>: the pushed callbacks, by name; \<open>q_ran\<close>: those that the thread has run.  A callback may
  push further ones while it runs, without the lock (\<open>pushes\<close>).
\<close>

record block_queue =
  q_started :: bool
  q_stop :: bool
  q_cbs :: "nat list"
  q_ran :: "nat list"

definition BlockQueue_new :: block_queue where
  "BlockQueue_new = \<lparr>q_started = False, q_stop = False, q_cbs = [], q_ran = []\<rparr>"

definition BlockQueue_Init :: "block_queue \<Rightarrow> block_queue" where
  "BlockQueue_Init q = q\<lparr>q_started := True\<rparr>"

definition BlockQueue_destroy :: "block_queue \<Rightarrow> block_queue" where
  "BlockQueue_destroy q = q\<lparr>q_stop := True\<rparr>"

definition BlockQueue_PushWithoutLock :: "nat \<Rightarrow> block_queue \<Rightarrow> block_queue" where
  "BlockQueue_PushWithoutLock cb q = q\<lparr>q_cbs := q_cbs q @ [cb]\<rparr>"

definition BlockQueue_Push :: "nat \<Rightarrow> block_queue \<Rightarrow> block_queue" where
  "BlockQueue_Push cb q = BlockQueue_PushWithoutLock cb q"

text \<open>
  One round of the thread's loop: \<open>None\<close> while the wait goes on, which ends only when the predicate
  holds, and the predicate is \<^verbatim>\<open>cbs_.empty()\<close>.  The iteration over the list sees what its callbacks
  append; \<open>fuel\<close> bounds how many it runs.
\<close>

fun run_cbs :: "(nat \<Rightarrow> nat list) \<Rightarrow> nat \<Rightarrow> nat \<Rightarrow> block_queue \<Rightarrow> block_queue" where
  "run_cbs pushes 0 i q = q"
| "run_cbs pushes (Suc fuel) i q =
     (if i < length (q_cbs q) then
        let cb = q_cbs q ! i;
            q = fold BlockQueue_PushWithoutLock (pushes cb) (q\<lparr>q_ran := q_ran q @ [cb]\<rparr>)
        in run_cbs pushes fuel (Suc i) q
      else q)"

definition BlockQueue_looper :: "(nat \<Rightarrow> nat list) \<Rightarrow> nat \<Rightarrow> block_queue \<Rightarrow> block_queue option" where
  "BlockQueue_looper pushes fuel q =
     (if q_stop q then Some q
      else if \<not> (q_cbs q = []) then None
      else Some (run_cbs pushes fuel 0 q))"

datatype queue_input = QPush nat | QRound | QStop

fun queue_event :: "(nat \<Rightarrow> nat list) \<Rightarrow> nat \<Rightarrow> queue_input \<Rightarrow> block_queue \<Rightarrow> block_queue" where
  "queue_event pushes fuel (QPush cb) q = BlockQueue_Push cb q"
| "queue_event pushes fuel QRound q = (case BlockQueue_looper pushes fuel q of None \<Rightarrow> q | Some q' \<Rightarrow> q')"
| "queue_event pushes fuel QStop q = BlockQueue_destroy q"

lemma BlockQueue_looper_idle: "BlockQueue_looper pushes fuel q = Some q' \<Longrightarrow> q' = q"
  by (cases fuel) (auto simp: BlockQueue_looper_def split: if_splits)

section \<open>Properties\<close>

text \<open>
  Guards on a recursive lock nest: whatever tree of guarded scopes a thread runs, every lock and
  unlock succeeds and the lock is free again at the end.  On a plain lock the same code blocks as soon as
  one guarded scope contains another.
\<close>

theorem Guards_nest:
  "run_guard (NormalRecursiveLock_Lock t) (NormalRecursiveLock_UnLock t) g MakeRecursiveLock = Some MakeRecursiveLock \<and>
   (run_guard (NormalLock_Lock t) (NormalLock_UnLock t) g MakeLock = Some MakeLock \<longleftrightarrow> g = Guarded [])"
proof -
  obtain gs where "g = Guarded gs" by (cases g)
  with rl.run_guard_restores [of t MakeRecursiveLock g] normal_guard_flat [of t gs] show ?thesis
    by (auto simp: rec_mine_def MakeRecursiveLock_def)
qed

text \<open>
  The block queue never runs a callback: its wait ends only when the list is empty, so in every
  history of pushes, rounds and a stop, nothing has been run and every pushed callback is still in
  the list.
\<close>

theorem BlockQueue_never_runs:
  "let q = fold (queue_event pushes fuel) es BlockQueue_new
   in q_ran q = [] \<and> q_cbs q = concat (map (\<lambda>e. case e of QPush cb \<Rightarrow> [cb] | _ \<Rightarrow> []) es)"
proof -
  have "q_ran (fold (queue_event pushes fuel) es q) = q_ran q \<and>
    q_cbs (fold (queue_event pushes fuel) es q) = q_cbs q @ concat (map (\<lambda>e. case e of QPush cb \<Rightarrow> [cb] | _ \<Rightarrow> []) es)"
    for q
  proof (induction es arbitrary: q)
    case (Cons e es)
    have "q_ran (queue_event pushes fuel e q) = q_ran q \<and>
      q_cbs (queue_event pushes fuel e q) = q_cbs q @ (case e of QPush cb \<Rightarrow> [cb] | _ \<Rightarrow> [])"
    proof (cases e)
      case QRound
      then show ?thesis using BlockQueue_looper_idle [of pushes fuel q]
        by (auto split: option.splits)
    qed (simp_all add: BlockQueue_Push_def BlockQueue_PushWithoutLock_def BlockQueue_destroy_def)
    with Cons show ?case by simp
  qed simp
  then show ?thesis by (simp add: BlockQueue_new_def Let_def)
qed

end
