(* ===== verification/Host_Interface.thy ===== *)
theory Host_Interface
  imports Net_Socket Config_Files Locks "HOL-Library.Signed_Division"
begin

unbundle bit_operations_syntax

text \<open>
  Small functions between the program and its host: the clock (\<^verbatim>\<open>util/util.h\<close>,
  \<^verbatim>\<open>small_time\<close>), files (\<^verbatim>\<open>small_ioutils\<close>), socket addresses
  (\<^verbatim>\<open>Socket::initSaddr\<close>), and the read and write guards of \<^verbatim>\<open>small_lock\<close>.
\<close>

section \<open>The clock\<close>

text \<open>
  \<open>ns\<close>: what \<^verbatim>\<open>system_clock::now()\<close> counts, nanoseconds since the epoch, as a signed number; a cast
  to a coarser duration cuts towards zero.
\<close>

definition UnixTimeSecond :: "int \<Rightarrow> u64" where
  "UnixTimeSecond ns = word_of_int (ns sdiv 1000000000)"

definition UnixTimeMilliSecond :: "int \<Rightarrow> u64" where
  "UnixTimeMilliSecond ns = word_of_int (ns sdiv 1000000)"

text \<open>The copy of the same functions in \<^verbatim>\<open>small_time.h\<close>.\<close>

definition small_time_UnixTimeSecond :: "int \<Rightarrow> u64" where
  "small_time_UnixTimeSecond ns = word_of_int (ns sdiv 1000000000)"

definition small_time_UnixTimeMilliSecond :: "int \<Rightarrow> u64" where
  "small_time_UnixTimeMilliSecond ns = word_of_int (ns sdiv 1000000)"

text \<open>\<open>put_time\<close>: how a number of seconds is printed in a format.\<close>

definition GetNowFormatString :: "(int \<Rightarrow> string \<Rightarrow> string) \<Rightarrow> int \<Rightarrow> string \<Rightarrow> string" where
  "GetNowFormatString put_time ns format = put_time (ns sdiv 1000000000) format"

section \<open>Files\<close>

definition ReadFileName :: "files \<Rightarrow> string \<Rightarrow> errmsg \<Rightarrow> string \<times> errmsg" where
  "ReadFileName files name errMsg =
     (case files name of
        None \<Rightarrow> ('''', ''open file '' @ name @ '' failed'')
      | Some text \<Rightarrow> (text, errMsg))"

section \<open>Socket addresses\<close>

text \<open>\<^verbatim>\<open>sockaddr_in\<close>; the port is in network order: its first byte in memory is the high one.\<close>

record sockaddr =
  sin_family :: nat
  sin_port :: "16 word"
  s_addr :: u32

definition AF_INET :: nat where "AF_INET = 2"

definition htons :: "16 word \<Rightarrow> 16 word" where
  "htons p = push_bit 8 p OR drop_bit 8 p"

text \<open>
  The port, an \<^verbatim>\<open>int\<close>, is cut to 16 bits by the call of \<^verbatim>\<open>htons\<close>;
  \<^verbatim>\<open>c_str()\<close> is never null, so that the branch for any address is not taken.
\<close>

definition Socket_initSaddr :: "(string \<Rightarrow> u32) \<Rightarrow> string \<Rightarrow> int \<Rightarrow> sockaddr" where
  "Socket_initSaddr inet_addr a p =
     \<lparr>sin_family = AF_INET, sin_port = htons (word_of_int p), s_addr = inet_addr (takeWhile (\<lambda>x. x \<noteq> CHR 0x00) a)\<rparr>"

section \<open>Read and write guards\<close>

definition UniqueReadGuard :: "nat \<Rightarrow> guarded \<Rightarrow> normal_lock \<Rightarrow> normal_lock option" where
  "UniqueReadGuard t = run_guard (NormalLock_RLock t) (NormalLock_RUnLock t)"

definition UniqueWriteGuard :: "nat \<Rightarrow> guarded \<Rightarrow> normal_lock \<Rightarrow> normal_lock option" where
  "UniqueWriteGuard t = run_guard (NormalLock_WLock t) (NormalLock_WUnLock t)"

section \<open>Properties\<close>

lemma word_of_int_sdiv:
  assumes "0 \<le> ns" "ns < 2 ^ 63" "0 < d"
  shows "uint (word_of_int (ns sdiv d) :: u64) = ns div d"
proof -
  have eq: "ns sdiv d = ns div d" using assms(1,3) by (cases "ns = 0") (simp_all add: signed_divide_int_def)
  have "0 \<le> ns div d" using assms(1,3) by (simp add: pos_imp_zdiv_nonneg_iff)
  moreover have "ns div d \<le> ns"
  proof (cases "ns = 0")
    case False
    with assms(1,3) show ?thesis using int_div_less_self [of ns d] by (cases "d = 1") auto
  qed simp
  then have "ns div d < 2 ^ 64" using assms(2) by (simp only: power_numeral) simp
  ultimately show ?thesis by (simp add: eq uint_word_of_int take_bit_eq_mod)
qed

text \<open>
  From the epoch until the 23rd century the clock functions are the count divided, rounded down, they never go
  back while the clock does not, and seconds and milliseconds agree.
\<close>

theorem UnixTime_counts:
  assumes "0 \<le> ns" "ns \<le> ns'" "ns' < 2 ^ 63"
  shows "uint (UnixTimeMilliSecond ns) = ns div 1000000" "uint (UnixTimeSecond ns) = ns div 1000000000"
    "unat (UnixTimeSecond ns) = unat (UnixTimeMilliSecond ns) div 1000"
    "UnixTimeMilliSecond ns \<le> UnixTimeMilliSecond ns'"
    "small_time_UnixTimeMilliSecond ns = UnixTimeMilliSecond ns" "small_time_UnixTimeSecond ns = UnixTimeSecond ns"
proof -
  have b: "ns < 2 ^ 63" "0 \<le> ns'" using assms by simp_all
  show ms: "uint (UnixTimeMilliSecond ns) = ns div 1000000" and s: "uint (UnixTimeSecond ns) = ns div 1000000000"
    unfolding UnixTimeMilliSecond_def UnixTimeSecond_def by (rule word_of_int_sdiv; use assms(1) b in simp)+
  have ms': "uint (UnixTimeMilliSecond ns') = ns' div 1000000"
    unfolding UnixTimeMilliSecond_def by (rule word_of_int_sdiv; use assms(3) b in simp)
  show "UnixTimeMilliSecond ns \<le> UnixTimeMilliSecond ns'"
    using assms(2) by (simp add: word_le_def ms ms' zdiv_mono1)
  have "int (unat (UnixTimeSecond ns)) = int (unat (UnixTimeMilliSecond ns) div 1000)"
    by (simp add: zdiv_int ms s zdiv_zmult2_eq flip: uint_nat)
  then show "unat (UnixTimeSecond ns) = unat (UnixTimeMilliSecond ns) div 1000" by (simp only: of_nat_eq_iff)
  show "small_time_UnixTimeMilliSecond ns = UnixTimeMilliSecond ns" "small_time_UnixTimeSecond ns = UnixTimeSecond ns"
    by (simp_all add: small_time_UnixTimeMilliSecond_def UnixTimeMilliSecond_def small_time_UnixTimeSecond_def UnixTimeSecond_def)
qed

theorem UnixTime_counts_witness:
  "uint (UnixTimeMilliSecond 1700000000123456789) = 1700000000123 \<and> uint (UnixTimeSecond 1700000000123456789) = 1700000000"
  using UnixTime_counts(1,2) [of 1700000000123456789 1700000000123456789] by simp

text \<open>The two functions that read a file agree; this one keeps an error of its caller when it succeeds.\<close>

theorem ReadFileName_File2String:
  "ReadFileName files name '''' = (case File2String files name of (e, text) \<Rightarrow> (text, e))"
  "files name = Some text \<Longrightarrow> ReadFileName files name e = (text, e)"
  by (simp_all add: ReadFileName_def File2String_def split: option.splits)

text \<open>
  An address given to the kernel carries its port in network order, and reads back as the port when it is one; a larger
  number is cut to 16 bits.  Every address string is parsed, the empty one too, which \<^verbatim>\<open>inet_addr\<close> refuses,
  so that a server cannot listen on every interface by giving none.
\<close>

theorem Socket_initSaddr_port:
  "uint (htons (sin_port (Socket_initSaddr inet_addr a p))) = p mod 65536"
  "Socket_initSaddr inet_addr a (p + 65536) = Socket_initSaddr inet_addr a p"
  "s_addr (Socket_initSaddr inet_addr '''' p) = inet_addr ''''"
proof -
  have "htons (htons w) = w" for w :: "16 word"
    by (rule bit_word_eqI) (auto simp: htons_def bit_simps)
  then show "uint (htons (sin_port (Socket_initSaddr inet_addr a p))) = p mod 65536"
    by (simp add: Socket_initSaddr_def uint_word_of_int)
  have "(word_of_int (p + 65536) :: 16 word) = word_of_int p"
    by (simp add: word_of_int_eq_iff take_bit_eq_mod)
  then show "Socket_initSaddr inet_addr a (p + 65536) = Socket_initSaddr inet_addr a p"
    by (simp only: Socket_initSaddr_def)
  show "s_addr (Socket_initSaddr inet_addr '''' p) = inet_addr ''''" by (simp add: Socket_initSaddr_def)
qed

text \<open>
  Readers exclude each other: under the only read-write lock there is, a thread that reads blocks every other
  reader, and itself in a nested read guard.
\<close>

theorem UniqueReadGuard_excludes_readers:
  "UniqueReadGuard t (Guarded []) MakeRWLock = Some MakeRWLock"
  "NormalLock_RLock t MakeRWLock = Some l \<Longrightarrow> UniqueReadGuard u (Guarded gs) l = None"
  "UniqueReadGuard t (Guarded [Guarded []]) MakeRWLock = None"
  "UniqueWriteGuard t = UniqueReadGuard t"
  by (auto simp: UniqueReadGuard_def UniqueWriteGuard_def NormalLock_RLock_def NormalLock_RUnLock_def NormalLock_WLock_def
      NormalLock_WUnLock_def NormalLock_Lock_def NormalLock_UnLock_def MakeRWLock_def)

end
