(* ===== verification/Intrusive_List.thy ===== *)
theory Intrusive_List
  imports Prelude
begin

text \<open>
  The intrusive doubly linked list of \<^verbatim>\<open>src/util/intrusive_list.h\<close>: nodes carry
  their own \<open>prev\<close> and \<open>next\<close> pointers, a list is a circle through a head node.
  The store maps node addresses to pointers, \<open>None\<close> being \<^verbatim>\<open>nullptr\<close>; an
  operation that follows a null pointer returns \<open>None\<close>.  The abstraction \<open>dll h head xs\<close>
  says that the circle through \<open>head\<close> holds exactly the nodes \<open>xs\<close>, in order.
\<close>

section \<open>The store and the operations\<close>

record 'n dll_heap =
  nprev :: "'n \<Rightarrow> 'n option"
  nnext :: "'n \<Rightarrow> 'n option"

definition set_prev :: "'n \<Rightarrow> 'n option \<Rightarrow> 'n dll_heap \<Rightarrow> 'n dll_heap" where
  "set_prev n p h = h\<lparr>nprev := (nprev h)(n := p)\<rparr>"

definition set_next :: "'n \<Rightarrow> 'n option \<Rightarrow> 'n dll_heap \<Rightarrow> 'n dll_heap" where
  "set_next n p h = h\<lparr>nnext := (nnext h)(n := p)\<rparr>"

definition IntrusiveListInit :: "'n \<Rightarrow> 'n dll_heap \<Rightarrow> 'n dll_heap" where
  "IntrusiveListInit head h = set_next head (Some head) (set_prev head (Some head) h)"

definition IntrusiveListInsert :: "'n \<Rightarrow> 'n \<Rightarrow> 'n dll_heap \<Rightarrow> 'n dll_heap option" where
  "IntrusiveListInsert head node h =
     (let h1 = set_prev node (Some head) h;
          h2 = set_next node (nnext h1 head) h1
      in case nnext h2 head of
           None \<Rightarrow> None
         | Some nx \<Rightarrow> Some (set_next head (Some node) (set_prev nx (Some node) h2)))"

definition IntrusiveListRemove :: "'n \<Rightarrow> 'n dll_heap \<Rightarrow> 'n dll_heap option" where
  "IntrusiveListRemove node h =
     (case nprev h node of
        None \<Rightarrow> None
      | Some p \<Rightarrow>
          (let h1 = set_next p (nnext h node) h
           in case nnext h1 node of
                None \<Rightarrow> None
              | Some nx \<Rightarrow> Some (set_prev nx (nprev h1 node) h1)))"

definition IntrusiveListIsEmpty :: "'n \<Rightarrow> 'n dll_heap \<Rightarrow> bool" where
  "IntrusiveListIsEmpty head h \<longleftrightarrow> nnext h head = Some head"

text \<open>A null result stands for the \<^verbatim>\<open>nullptr\<close> the code returns for the empty list.\<close>

definition IntrusiveListFront :: "'n \<Rightarrow> 'n dll_heap \<Rightarrow> 'n option" where
  "IntrusiveListFront head h = (if IntrusiveListIsEmpty head h then None else nnext h head)"

text \<open>
  The loop of \<^verbatim>\<open>IntrusiveListGetAllNodes\<close>.  On a corrupted store it may follow a
  null pointer or never come back to the head; both are \<open>None\<close>.
\<close>

partial_function (option) all_nodes_loop ::
    "'n dll_heap \<Rightarrow> 'n \<Rightarrow> 'n option \<Rightarrow> 'n list \<Rightarrow> 'n list option" where
  "all_nodes_loop h head cur result =
     (if cur = Some head then Some result
      else case cur of
             None \<Rightarrow> None
           | Some c \<Rightarrow> all_nodes_loop h head (nnext h c) (result @ [c]))"

declare all_nodes_loop.simps [code]

definition IntrusiveListGetAllNodes :: "'n \<Rightarrow> 'n dll_heap \<Rightarrow> 'n list option" where
  "IntrusiveListGetAllNodes head h = all_nodes_loop h head (nnext h head) []"

lemmas dll_op_defs [model_defs] =
  set_prev_def set_next_def IntrusiveListInit_def IntrusiveListInsert_def IntrusiveListRemove_def
  IntrusiveListIsEmpty_def IntrusiveListFront_def

section \<open>Abstraction\<close>

fun chain :: "'n dll_heap \<Rightarrow> 'n \<Rightarrow> 'n list \<Rightarrow> 'n \<Rightarrow> bool" where
  "chain h a [] b \<longleftrightarrow> nnext h a = Some b \<and> nprev h b = Some a"
| "chain h a (x # xs) b \<longleftrightarrow> nnext h a = Some x \<and> nprev h x = Some a \<and> chain h x xs b"

definition dll :: "'n dll_heap \<Rightarrow> 'n \<Rightarrow> 'n list \<Rightarrow> bool" where
  "dll h head xs \<longleftrightarrow> distinct (head # xs) \<and> chain h head xs head"

lemma chain_append:
  "chain h a (xs @ y # ys) b \<longleftrightarrow> chain h a xs y \<and> chain h y ys b"
  by (induction xs arbitrary: a) auto

text \<open>A chain reads the \<open>next\<close> field of its start and inner nodes and the \<open>prev\<close> field of
  its inner nodes and end, and nothing else.\<close>

lemma chain_cong:
  assumes "\<And>n. n \<in> insert a (set xs) \<Longrightarrow> nnext h' n = nnext h n"
    and "\<And>n. n \<in> insert b (set xs) \<Longrightarrow> nprev h' n = nprev h n"
  shows "chain h' a xs b = chain h a xs b"
  using assms by (induction xs arbitrary: a) auto

lemma chain_nextD: "chain h a xs b \<Longrightarrow> nnext h a = Some (case xs of [] \<Rightarrow> b | x # _ \<Rightarrow> x)"
  by (cases xs) auto

lemma chain_prevD: "chain h a xs b \<Longrightarrow> nprev h b = Some (if xs = [] then a else last xs)"
  by (induction xs arbitrary: a) auto

lemma dllD_distinct: "dll h head xs \<Longrightarrow> distinct xs \<and> head \<notin> set xs"
  by (simp add: dll_def)

lemma dll_frame:
  assumes "dll h head xs"
    and "\<And>n. n \<in> insert head (set xs) \<Longrightarrow> nnext h' n = nnext h n \<and> nprev h' n = nprev h n"
  shows "dll h' head xs"
proof -
  have "chain h' head xs head = chain h head xs head"
    by (rule chain_cong) (auto simp: assms(2))
  with assms(1) show ?thesis by (simp add: dll_def)
qed

section \<open>The operations on the abstraction\<close>

lemma dll_init: "dll (IntrusiveListInit head h) head []"
  by (simp add: dll_def dll_op_defs)

lemma dll_insert:
  assumes "dll h head xs" "node \<noteq> head" "node \<notin> set xs"
  shows "\<exists>h'. IntrusiveListInsert head node h = Some h' \<and> dll h' head (node # xs)
           \<and> (\<forall>n. n \<notin> insert head (insert node (set xs)) \<longrightarrow>
                 nnext h' n = nnext h n \<and> nprev h' n = nprev h n)"
proof (cases xs)
  case Nil
  with assms show ?thesis
    by (auto simp: dll_def dll_op_defs Let_def)
next
  case (Cons x ys)
  with assms have ch: "chain h x ys head" and nx: "nnext h head = Some x"
    and d: "distinct (head # node # x # ys)"
    by (auto simp: dll_def)
  let ?h' = "set_next head (Some node) (set_prev x (Some node)
               (set_next node (Some x) (set_prev node (Some head) h)))"
  have "IntrusiveListInsert head node h = Some ?h'"
    using nx assms(2) by (simp add: dll_op_defs Let_def)
  moreover have "chain ?h' x ys head = chain h x ys head"
    by (rule chain_cong) (use d in \<open>auto simp: dll_op_defs\<close>)
  then have "dll ?h' head (node # xs)"
    using ch d Cons by (auto simp: dll_def dll_op_defs)
  ultimately show ?thesis
    using Cons by (auto simp: dll_op_defs)
qed

lemma dll_remove:
  assumes "dll h head (xs @ node # ys)"
  shows "\<exists>h'. IntrusiveListRemove node h = Some h' \<and> dll h' head (xs @ ys)
           \<and> (\<forall>n. n \<notin> insert head (set xs \<union> set ys) \<longrightarrow>
                 nnext h' n = nnext h n \<and> nprev h' n = nprev h n)"
proof -
  let ?p = "if xs = [] then head else last xs"
  let ?n = "case ys of [] \<Rightarrow> head | y # _ \<Rightarrow> y"
  from assms have d: "distinct (head # xs @ node # ys)"
    and c1: "chain h head xs node" and c2: "chain h node ys head"
    by (auto simp: dll_def chain_append)
  have pn: "nprev h node = Some ?p" using chain_prevD [OF c1] .
  have nn: "nnext h node = Some ?n" using chain_nextD [OF c2] .
  have p_in: "?p \<in> insert head (set xs)" and n_in: "?n \<in> insert head (set ys)"
    by (auto split: list.splits)
  with d have neq: "?p \<noteq> node" "?n \<noteq> node" by auto
  let ?h' = "set_prev ?n (Some ?p) (set_next ?p (Some ?n) h)"
  have "IntrusiveListRemove node h = Some ?h'"
    using pn nn neq by (simp add: dll_op_defs Let_def del: if_split_asm)
  moreover have "chain ?h' head (xs @ ys) head"
  proof (cases xs rule: rev_cases)
    case Nil
    show ?thesis
    proof (cases ys)
      case (Cons y zs)
      have "chain ?h' y zs head = chain h y zs head"
        by (rule chain_cong) (use d Nil Cons in \<open>auto simp: dll_op_defs\<close>)
      with c2 d Nil Cons show ?thesis by (auto simp: dll_op_defs)
    qed (simp add: Nil dll_op_defs)
  next
    case (snoc ws w)
    have "chain ?h' head ws w = chain h head ws w"
      by (rule chain_cong) (use d snoc in \<open>auto simp: dll_op_defs split: list.splits\<close>)
    with c1 snoc have cw: "chain ?h' head ws w" by (simp add: chain_append)
    show ?thesis
    proof (cases ys)
      case Nil
      with cw snoc show ?thesis by (simp add: chain_append dll_op_defs)
    next
      case (Cons y zs)
      have "chain ?h' y zs head = chain h y zs head"
        by (rule chain_cong) (use d snoc Cons in \<open>auto simp: dll_op_defs\<close>)
      with c2 d cw snoc Cons show ?thesis by (auto simp: chain_append dll_op_defs)
    qed
  qed
  then have "dll ?h' head (xs @ ys)" using d by (auto simp: dll_def)
  moreover have "\<forall>n. n \<notin> insert head (set xs \<union> set ys) \<longrightarrow>
                 nnext ?h' n = nnext h n \<and> nprev ?h' n = nprev h n"
    using p_in n_in by (auto simp: dll_op_defs)
  ultimately show ?thesis by blast
qed

lemma dll_is_empty: "dll h head xs \<Longrightarrow> IntrusiveListIsEmpty head h \<longleftrightarrow> xs = []"
  by (cases xs) (auto simp: dll_def dll_op_defs)

lemma dll_front: "dll h head xs \<Longrightarrow> IntrusiveListFront head h = (case xs of [] \<Rightarrow> None | x # _ \<Rightarrow> Some x)"
  by (cases xs) (auto simp: dll_def dll_op_defs)

lemma all_nodes_loop_chain:
  assumes "chain h a xs head" "head \<notin> set xs"
  shows "all_nodes_loop h head (nnext h a) acc = Some (acc @ xs)"
  using assms
proof (induction xs arbitrary: a acc)
  case Nil
  then show ?case by (simp add: all_nodes_loop.simps)
next
  case (Cons x xs)
  then show ?case by (subst all_nodes_loop.simps) auto
qed

text \<open>On a well-formed circle the loop returns, with the nodes in list order.\<close>

lemma dll_all_nodes: "dll h head xs \<Longrightarrow> IntrusiveListGetAllNodes head h = Some xs"
  unfolding IntrusiveListGetAllNodes_def dll_def
  using all_nodes_loop_chain [of h head xs head "[]"] by simp

section \<open>The interface the coroutine scheduler uses\<close>

text \<open>
  A store that holds several lists at once: \<open>lists_wf rep h H L\<close> says that for every head
  in \<open>H\<close> the store holds the list \<open>L\<close> gives for it, and that no node is in two of them.
\<close>

definition lists_wf :: "('h \<Rightarrow> 'n \<Rightarrow> 'n list \<Rightarrow> bool) \<Rightarrow> 'h \<Rightarrow> 'n set \<Rightarrow> ('n \<Rightarrow> 'n list) \<Rightarrow> bool" where
  "lists_wf rep h H L \<longleftrightarrow>
     (\<forall>a\<in>H. rep h a (L a)) \<and>
     (\<forall>a\<in>H. \<forall>b\<in>H. a \<noteq> b \<longrightarrow> insert a (set (L a)) \<inter> insert b (set (L b)) = {})"

locale list_store =
  fixes rep :: "'h \<Rightarrow> 'n \<Rightarrow> 'n list \<Rightarrow> bool"
    and ins :: "'n \<Rightarrow> 'n \<Rightarrow> 'h \<Rightarrow> 'h option"
    and rem :: "'n \<Rightarrow> 'h \<Rightarrow> 'h option"
    and nodes :: "'n \<Rightarrow> 'h \<Rightarrow> 'n list option"
    and front :: "'n \<Rightarrow> 'h \<Rightarrow> 'n option"
  assumes rep_distinct: "rep h a xs \<Longrightarrow> distinct xs \<and> a \<notin> set xs"
    and ins_law: "rep h a xs \<Longrightarrow> n \<noteq> a \<Longrightarrow> n \<notin> set xs \<Longrightarrow>
      \<exists>h'. ins a n h = Some h' \<and> rep h' a (n # xs) \<and>
        (\<forall>b ys. rep h b ys \<longrightarrow> insert b (set ys) \<inter> insert a (insert n (set xs)) = {} \<longrightarrow> rep h' b ys)"
    and rem_law: "rep h a (xs @ n # ys) \<Longrightarrow>
      \<exists>h'. rem n h = Some h' \<and> rep h' a (xs @ ys) \<and>
        (\<forall>b zs. rep h b zs \<longrightarrow> insert b (set zs) \<inter> insert a (set (xs @ n # ys)) = {} \<longrightarrow> rep h' b zs)"
    and nodes_law: "rep h a xs \<Longrightarrow> nodes a h = Some xs"
    and front_law: "rep h a xs \<Longrightarrow> front a h = (case xs of [] \<Rightarrow> None | x # _ \<Rightarrow> Some x)"
begin

lemma lists_wf_distinct: "lists_wf rep h H L \<Longrightarrow> a \<in> H \<Longrightarrow> distinct (L a) \<and> a \<notin> set (L a)"
  by (auto simp: lists_wf_def dest: rep_distinct)

lemma lists_wf_disjoint:
  "lists_wf rep h H L \<Longrightarrow> a \<in> H \<Longrightarrow> b \<in> H \<Longrightarrow> a \<noteq> b \<Longrightarrow>
    insert a (set (L a)) \<inter> insert b (set (L b)) = {}"
  by (simp add: lists_wf_def)

lemma lists_wf_nodes: "lists_wf rep h H L \<Longrightarrow> a \<in> H \<Longrightarrow> nodes a h = Some (L a)"
  by (auto simp: lists_wf_def intro: nodes_law)

lemma lists_wf_front:
  "lists_wf rep h H L \<Longrightarrow> a \<in> H \<Longrightarrow> front a h = (case L a of [] \<Rightarrow> None | x # _ \<Rightarrow> Some x)"
  by (auto simp: lists_wf_def intro: front_law)

lemma lists_wf_insert:
  assumes wf: "lists_wf rep h H L" and a: "a \<in> H"
    and fresh: "\<And>b. b \<in> H \<Longrightarrow> n \<noteq> b \<and> n \<notin> set (L b)"
  shows "\<exists>h'. ins a n h = Some h' \<and> lists_wf rep h' H (L(a := n # L a))"
proof -
  from wf a have ra: "rep h a (L a)" by (simp add: lists_wf_def)
  from fresh [OF a] ins_law [OF ra] obtain h' where h': "ins a n h = Some h'" "rep h' a (n # L a)"
    and fr: "\<And>b ys. rep h b ys \<Longrightarrow> insert b (set ys) \<inter> insert a (insert n (set (L a))) = {} \<Longrightarrow> rep h' b ys"
    by blast
  have "rep h' b (L b)" if "b \<in> H" "b \<noteq> a" for b
    using lists_wf_disjoint [OF wf that(1) a that(2)] wf that(1) fresh [OF that(1)]
    by (intro fr) (auto simp: lists_wf_def)
  then have "lists_wf rep h' H (L(a := n # L a))"
    using wf h'(2) a fresh by (auto simp: lists_wf_def)
  with h'(1) show ?thesis by blast
qed

lemma lists_wf_remove:
  assumes wf: "lists_wf rep h H L" and a: "a \<in> H" and n: "n \<in> set (L a)"
  shows "\<exists>h'. rem n h = Some h' \<and> lists_wf rep h' H (L(a := remove1 n (L a)))
           \<and> (\<forall>b\<in>H. n \<noteq> b \<and> n \<notin> set ((L(a := remove1 n (L a))) b))"
proof -
  from wf a have ra: "rep h a (L a)" and da: "distinct (L a)" "a \<notin> set (L a)"
    by (auto simp: lists_wf_def dest: rep_distinct)
  from n obtain xs ys where La: "L a = xs @ n # ys" by (meson split_list)
  from da La have rm: "remove1 n (L a) = xs @ ys" by simp
  from ra La rem_law [of h a xs n ys] obtain h' where h': "rem n h = Some h'" "rep h' a (xs @ ys)"
    and fr: "\<And>b zs. rep h b zs \<Longrightarrow> insert b (set zs) \<inter> insert a (set (xs @ n # ys)) = {} \<Longrightarrow> rep h' b zs"
    by auto
  have "rep h' b (L b)" if "b \<in> H" "b \<noteq> a" for b
    using lists_wf_disjoint [OF wf that(1) a that(2)] wf that(1) La
    by (intro fr) (simp_all add: lists_wf_def)
  moreover have "set (xs @ ys) \<subseteq> set (L a)" using La by auto
  ultimately have "lists_wf rep h' H (L(a := xs @ ys))"
    using wf h'(2) a unfolding lists_wf_def by (simp add: fun_upd_def) blast
  moreover have "n \<noteq> b \<and> n \<notin> set ((L(a := xs @ ys)) b)" if "b \<in> H" for b
    using lists_wf_disjoint [OF wf that a] that n da La by (cases "b = a") auto
  ultimately show ?thesis using h'(1) rm by auto
qed

text \<open>The scheduler's only use of the list: take a node out of the list it is in, put it at the
  front of another (or of the same one).\<close>

lemma lists_wf_move:
  assumes wf: "lists_wf rep h H L" and a: "a \<in> H" and b: "b \<in> H" and n: "n \<in> set (L a)"
  shows "\<exists>h1 h2. rem n h = Some h1 \<and> ins b n h1 = Some h2 \<and>
           lists_wf rep h2 H ((L(a := remove1 n (L a)))(b := n # (L(a := remove1 n (L a))) b))"
proof -
  from lists_wf_remove [OF wf a n] obtain h1 where
    h1: "rem n h = Some h1" "lists_wf rep h1 H (L(a := remove1 n (L a)))" and
    fresh: "\<forall>c\<in>H. n \<noteq> c \<and> n \<notin> set ((L(a := remove1 n (L a))) c)"
    by blast
  from lists_wf_insert [OF h1(2) b] fresh h1(1) show ?thesis by blast
qed

end

interpretation il: list_store dll IntrusiveListInsert IntrusiveListRemove IntrusiveListGetAllNodes
  IntrusiveListFront
proof unfold_locales
  fix h :: "'n dll_heap" and a n :: 'n and xs
  assume r: "dll h a xs" "n \<noteq> a" "n \<notin> set xs"
  obtain h' where h': "IntrusiveListInsert a n h = Some h'" "dll h' a (n # xs)"
    and fr: "\<And>m. m \<notin> insert a (insert n (set xs)) \<Longrightarrow> nnext h' m = nnext h m \<and> nprev h' m = nprev h m"
    using dll_insert [OF r] by blast
  have "dll h' b ys" if "dll h b ys" "insert b (set ys) \<inter> insert a (insert n (set xs)) = {}" for b ys
    by (rule dll_frame [OF that(1)], rule fr) (use that(2) in blast)
  with h' show "\<exists>h'. IntrusiveListInsert a n h = Some h' \<and> dll h' a (n # xs) \<and>
    (\<forall>b ys. dll h b ys \<longrightarrow> insert b (set ys) \<inter> insert a (insert n (set xs)) = {} \<longrightarrow> dll h' b ys)"
    by blast
next
  fix h :: "'n dll_heap" and a n :: 'n and xs ys
  assume r: "dll h a (xs @ n # ys)"
  obtain h' where h': "IntrusiveListRemove n h = Some h'" "dll h' a (xs @ ys)"
    and fr: "\<And>m. m \<notin> insert a (set xs \<union> set ys) \<Longrightarrow> nnext h' m = nnext h m \<and> nprev h' m = nprev h m"
    using dll_remove [OF r] by blast
  have "dll h' b zs" if "dll h b zs" "insert b (set zs) \<inter> insert a (set (xs @ n # ys)) = {}" for b zs
    by (rule dll_frame [OF that(1)], rule fr) (use that(2) in auto)
  with h' show "\<exists>h'. IntrusiveListRemove n h = Some h' \<and> dll h' a (xs @ ys) \<and>
    (\<forall>b zs. dll h b zs \<longrightarrow> insert b (set zs) \<inter> insert a (set (xs @ n # ys)) = {} \<longrightarrow> dll h' b zs)"
    by blast
qed (auto simp: dll_all_nodes dll_front dest: dllD_distinct)

section \<open>Properties\<close>

text \<open>
  C1.  Moving a node between two lists of the same store (remove it, insert it at the front of
  the other head), the operation every state change of a coroutine consists of, follows no null
  pointer, leaves the remaining nodes of the source list in order, puts the node first in the
  target list, and \<^verbatim>\<open>IntrusiveListGetAllNodes\<close> then returns exactly those lists.
\<close>

theorem IntrusiveList_move:
  assumes "dll h a (xs @ n # ys)" "dll h b zs"
    and "insert a (set (xs @ n # ys)) \<inter> insert b (set zs) = {}"
  shows "\<exists>h1 h2. IntrusiveListRemove n h = Some h1 \<and> IntrusiveListInsert b n h1 = Some h2 \<and>
           IntrusiveListGetAllNodes a h2 = Some (xs @ ys) \<and>
           IntrusiveListGetAllNodes b h2 = Some (n # zs)"
proof -
  let ?L = "\<lambda>c. if c = a then xs @ n # ys else zs"
  from assms have ab: "a \<noteq> b" by blast
  have wf: "lists_wf dll h {a, b} ?L" using assms by (auto simp: lists_wf_def)
  have rm: "remove1 n (xs @ n # ys) = xs @ ys"
    using dllD_distinct [OF assms(1)] by auto
  from il.lists_wf_move [OF wf, of a b n] obtain h1 h2 where
    h: "IntrusiveListRemove n h = Some h1" "IntrusiveListInsert b n h1 = Some h2" and
    wf2: "lists_wf dll h2 {a, b} ((?L(a := xs @ ys))(b := n # zs))"
    using ab rm by (auto simp: fun_upd_def)
  from il.lists_wf_nodes [OF wf2, of a] il.lists_wf_nodes [OF wf2, of b] ab h show ?thesis by auto
qed

definition sample_store :: "nat dll_heap" where
  "sample_store =
     \<lparr>nprev = [0 \<mapsto> 3, 2 \<mapsto> 0, 3 \<mapsto> 2, 1 \<mapsto> 4, 4 \<mapsto> 1], nnext = [0 \<mapsto> 2, 2 \<mapsto> 3, 3 \<mapsto> 0, 1 \<mapsto> 4, 4 \<mapsto> 1]\<rparr>"

theorem IntrusiveList_move_witness:
  "dll sample_store 0 ([2] @ 3 # []) \<and> dll sample_store 1 [4] \<and>
   (\<exists>h1 h2. IntrusiveListRemove 3 sample_store = Some h1 \<and> IntrusiveListInsert 1 3 h1 = Some h2 \<and>
      IntrusiveListGetAllNodes 0 h2 = Some ([2] @ []) \<and>
      IntrusiveListGetAllNodes 1 h2 = Some (3 # [4]))"
proof -
  have a: "dll sample_store 0 ([2] @ 3 # [])" and b: "dll sample_store 1 [4]"
    by (simp_all add: sample_store_def dll_def)
  from IntrusiveList_move [OF a b] a b show ?thesis by simp
qed

end
