(* ===== verification/Coroutine_Scheduler.thy ===== *)
theory Coroutine_Scheduler
  imports Intrusive_List "HOL-Library.Product_Lexorder" "HOL-Library.Multiset"
begin

text \<open>
  \<^verbatim>\<open>src/coroutine/coroutine_scheduler.cpp\<close> and \<^verbatim>\<open>coroutine_info.cpp\<close>.  A
  coroutine is a slot of a fixed array; it is always linked into one of four intrusive lists (free,
  suspended, to be resumed, yielded), and every change of its state moves it from one list to another.

  What a coroutine's function does between two context switches is a list of actions; its saved
  context is the rest of that list.  Time passes inside a coroutine (\<open>AElapse\<close>) or outside.
  A fault is a null pointer followed by a list operation (\<open>NullPointer\<close>) or a switch to a context
  that was never made or has ended, which ends in \<^verbatim>\<open>assert(false)\<close> (\<open>BadContext\<close>).
  The operations are those of the scheduler's own thread; calls from outside come between its turns.
\<close>

section \<open>State\<close>

datatype node = HFree | HSuspend | HResume | HYield | Co nat

datatype action =
    AYield
  | ASuspend
  | ASleep int
  | AResume nat
  | AAdd "action list"
  | AThrow
  | AElapse nat

datatype coro_ctx = NoContext | Saved "action list" | Ended

datatype fault = NullPointer | BadContext

record sched =
  heap :: "node dll_heap"
  ctx :: "nat \<Rightarrow> coro_ctx"
  resumeQueue :: "nat list"
  sleepQueue :: "(int \<times> nat) list"
  isRunning :: bool
  loop :: bool
  loopLastRun :: int
  currentCoro :: "nat option"
  clock :: int
  switched :: "nat list"

type_synonym 'a result = "fault + 'a"

section \<open>Operations\<close>

definition heap_op :: "(node dll_heap \<Rightarrow> node dll_heap option) \<Rightarrow> sched \<Rightarrow> sched result" where
  "heap_op f s = (case f (heap s) of None \<Rightarrow> Inl NullPointer | Some h \<Rightarrow> Inr (s\<lparr>heap := h\<rparr>))"

text \<open>\<^verbatim>\<open>moveToSuspend\<close>, \<^verbatim>\<open>moveToResume\<close>, \<^verbatim>\<open>moveToYield\<close> and the end function.\<close>

definition moveTo :: "node \<Rightarrow> nat \<Rightarrow> sched \<Rightarrow> sched result" where
  "moveTo head c s = rbind (heap_op (IntrusiveListRemove (Co c)) s) (heap_op (IntrusiveListInsert head (Co c)))"

fun init_slots :: "nat \<Rightarrow> node dll_heap \<Rightarrow> node dll_heap option" where
  "init_slots 0 h = Some h"
| "init_slots (Suc i) h = Option.bind (init_slots i h) (IntrusiveListInsert HFree (Co i))"

definition Scheduler_new :: "nat \<Rightarrow> bool \<Rightarrow> int \<Rightarrow> sched result" where
  "Scheduler_new coroNum lp now =
     (case init_slots coroNum (IntrusiveListInit HFree \<lparr>nprev = (\<lambda>_. None), nnext = (\<lambda>_. None)\<rparr>) of
        None \<Rightarrow> Inl NullPointer
      | Some h \<Rightarrow>
          Inr \<lparr>heap = IntrusiveListInit HYield (IntrusiveListInit HResume (IntrusiveListInit HSuspend h)),
               ctx = (\<lambda>_. NoContext), resumeQueue = [], sleepQueue = [], isRunning = True, loop = lp,
               loopLastRun = now, currentCoro = None, clock = now, switched = []\<rparr>)"

definition Scheduler_stop :: "sched \<Rightarrow> sched" where
  "Scheduler_stop s = s\<lparr>isRunning := False\<rparr>"

text \<open>\<^verbatim>\<open>registerFunc\<close> makes a context that is about to start the function.\<close>

definition CoroutineInfo_registerFunc :: "nat \<Rightarrow> action list \<Rightarrow> sched \<Rightarrow> sched" where
  "CoroutineInfo_registerFunc c f s = s\<lparr>ctx := (ctx s)(c := Saved f)\<rparr>"

definition Scheduler_addCoroutine :: "action list \<Rightarrow> sched \<Rightarrow> (sched \<times> bool) result" where
  "Scheduler_addCoroutine f s =
     (case IntrusiveListFront HFree (heap s) of
        Some (Co c) \<Rightarrow> rbind (moveTo HYield c (CoroutineInfo_registerFunc c f s)) (\<lambda>s. Inr (s, True))
      | _ \<Rightarrow> Inr (s, False))"

definition Scheduler_resume :: "nat \<Rightarrow> sched \<Rightarrow> sched" where
  "Scheduler_resume c s = s\<lparr>resumeQueue := resumeQueue s @ [c]\<rparr>"

text \<open>Leaving the current coroutine: it goes to a list, and its context is what remains of it.\<close>

definition leave :: "node \<Rightarrow> coro_ctx \<Rightarrow> sched \<Rightarrow> sched result" where
  "leave head k s =
     (case currentCoro s of
        None \<Rightarrow> Inl NullPointer
      | Some c \<Rightarrow> rbind (moveTo head c s) (\<lambda>s. Inr (s\<lparr>ctx := (ctx s)(c := k)\<rparr>)))"

definition Scheduler_yield :: "action list \<Rightarrow> sched \<Rightarrow> sched result" where
  "Scheduler_yield rest = leave HYield (Saved rest)"

definition Scheduler_suspend :: "action list \<Rightarrow> sched \<Rightarrow> sched result" where
  "Scheduler_suspend rest = leave HSuspend (Saved rest)"

definition Scheduler_sleep :: "int \<Rightarrow> action list \<Rightarrow> sched \<Rightarrow> sched result" where
  "Scheduler_sleep ms rest s =
     (case currentCoro s of
        None \<Rightarrow> Inl NullPointer
      | Some c \<Rightarrow> Scheduler_suspend rest (s\<lparr>sleepQueue := insort (clock s + ms, c) (sleepQueue s)\<rparr>))"

text \<open>The body of \<^verbatim>\<open>initContext\<close>: the function, then the end function; an exception is swallowed.\<close>

fun CoroutineInfo_run :: "action list \<Rightarrow> sched \<Rightarrow> sched result" where
  "CoroutineInfo_run [] s = leave HFree Ended s"
| "CoroutineInfo_run (AThrow # xs) s = leave HFree Ended s"
| "CoroutineInfo_run (AYield # xs) s = Scheduler_yield xs s"
| "CoroutineInfo_run (ASuspend # xs) s = Scheduler_suspend xs s"
| "CoroutineInfo_run (ASleep ms # xs) s = Scheduler_sleep ms xs s"
| "CoroutineInfo_run (AResume c # xs) s = CoroutineInfo_run xs (Scheduler_resume c s)"
| "CoroutineInfo_run (AAdd f # xs) s = rbind (Scheduler_addCoroutine f s) (\<lambda>(s, _). CoroutineInfo_run xs s)"
| "CoroutineInfo_run (AElapse d # xs) s = CoroutineInfo_run xs (s\<lparr>clock := clock s + int d\<rparr>)"

definition CoroutineInfo_switchTo :: "nat \<Rightarrow> sched \<Rightarrow> sched result" where
  "CoroutineInfo_switchTo c s =
     (let s = s\<lparr>currentCoro := Some c, switched := switched s @ [c]\<rparr> in
      case ctx s c of Saved xs \<Rightarrow> CoroutineInfo_run xs s | _ \<Rightarrow> Inl BadContext)"

definition sleepers_due :: "sched \<Rightarrow> nat list" where
  "sleepers_due s = map snd (takeWhile (\<lambda>e. \<not> fst e > clock s) (sleepQueue s))"

definition Scheduler_wakeUpSleep :: "sched \<Rightarrow> sched" where
  "Scheduler_wakeUpSleep s =
     fold Scheduler_resume (sleepers_due s)
       (s\<lparr>sleepQueue := dropWhile (\<lambda>e. \<not> fst e > clock s) (sleepQueue s)\<rparr>)"

definition drainResume :: "sched \<Rightarrow> sched result" where
  "drainResume s = fold_r (moveTo HResume) (resumeQueue s) (s\<lparr>resumeQueue := []\<rparr>)"

definition runAll :: "node \<Rightarrow> sched \<Rightarrow> sched result" where
  "runAll head s =
     (case IntrusiveListGetAllNodes head (heap s) of
        None \<Rightarrow> Inl NullPointer
      | Some ns \<Rightarrow> fold_r (\<lambda>n s. case n of Co c \<Rightarrow> CoroutineInfo_switchTo c s | _ \<Rightarrow> Inl NullPointer) ns s)"

text \<open>What code outside the coroutines may do: callbacks of the network loop, other threads, time.\<close>

datatype ext = EResume nat | EAdd "action list" | EElapse nat

fun ext_op :: "ext \<Rightarrow> sched \<Rightarrow> sched result" where
  "ext_op (EResume c) s = Inr (Scheduler_resume c s)"
| "ext_op (EAdd f) s = rbind (Scheduler_addCoroutine f s) (\<lambda>(s, _). Inr s)"
| "ext_op (EElapse d) s = Inr (s\<lparr>clock := clock s + int d\<rparr>)"

text \<open>One turn of the scheduler's loop; \<open>cbs\<close> is what the network loop's callbacks do if it is its turn.\<close>

definition Scheduler_turn :: "ext list \<Rightarrow> sched \<Rightarrow> sched result" where
  "Scheduler_turn cbs s =
     rbind (if loop s \<and> clock s > loopLastRun s + 10
            then rbind (fold_r ext_op cbs s) (\<lambda>s. Inr (s\<lparr>loopLastRun := clock s\<rparr>))
            else Inr s) (\<lambda>s.
     rbind (drainResume (Scheduler_wakeUpSleep s)) (\<lambda>s.
     rbind (runAll HResume s) (runAll HYield)))"

datatype sched_op = OTurn "ext list" | OExt ext | OStop

fun sched_exec :: "sched_op \<Rightarrow> sched \<Rightarrow> sched result" where
  "sched_exec (OTurn cbs) s = (if isRunning s then Scheduler_turn cbs s else Inr s)"
| "sched_exec (OExt e) s = ext_op e s"
| "sched_exec OStop s = Inr (Scheduler_stop s)"

definition Scheduler_run :: "sched_op list \<Rightarrow> sched \<Rightarrow> sched result" where
  "Scheduler_run = fold_r sched_exec"

lemmas sched_defs [model_defs] =
  Scheduler_stop_def CoroutineInfo_registerFunc_def Scheduler_resume_def Scheduler_yield_def
  Scheduler_suspend_def Scheduler_sleep_def

section \<open>The four lists\<close>

definition Heads :: "node set" where
  "Heads = {HFree, HSuspend, HResume, HYield}"

lemma Heads_simps [simp]:
  "HFree \<in> Heads" "HSuspend \<in> Heads" "HResume \<in> Heads" "HYield \<in> Heads" "Co c \<notin> Heads"
  by (auto simp: Heads_def)

text \<open>\<open>part n h L\<close>: the store \<open>h\<close> holds the lists \<open>L\<close>, and they partition the \<open>n\<close> slots.\<close>

definition part :: "nat \<Rightarrow> node dll_heap \<Rightarrow> (node \<Rightarrow> node list) \<Rightarrow> bool" where
  "part n h L \<longleftrightarrow> lists_wf dll h Heads L \<and> (\<Union>a\<in>Heads. set (L a)) = Co ` {..<n}"

definition mv :: "node \<Rightarrow> node \<Rightarrow> (node \<Rightarrow> node list) \<Rightarrow> node \<Rightarrow> node list" where
  "mv b x L = (\<lambda>a. if a = b then x # remove1 x (L a) else remove1 x (L a))"

lemma part_distinct: "part n h L \<Longrightarrow> a \<in> Heads \<Longrightarrow> distinct (L a)"
  using il.lists_wf_distinct [of h Heads L a] by (simp add: part_def)

lemma part_unique:
  "part n h L \<Longrightarrow> a \<in> Heads \<Longrightarrow> b \<in> Heads \<Longrightarrow> x \<in> set (L a) \<Longrightarrow> x \<in> set (L b) \<Longrightarrow> a = b"
proof (rule ccontr)
  assume "part n h L" "a \<in> Heads" "b \<in> Heads" "x \<in> set (L a)" "x \<in> set (L b)" "a \<noteq> b"
  with il.lists_wf_disjoint [of h Heads L a b] have "insert a (set (L a)) \<inter> insert b (set (L b)) = {}"
    by (simp add: part_def)
  with \<open>x \<in> set (L a)\<close> \<open>x \<in> set (L b)\<close> show False by auto
qed

lemma part_free:
  assumes "part n h L" "x \<in> set (L HFree)"
  shows "x \<notin> set (L HSuspend) \<and> x \<notin> set (L HResume) \<and> x \<notin> set (L HYield)"
  using part_unique [OF assms(1) _ _ assms(2), of HSuspend] part_unique [OF assms(1) _ _ assms(2), of HResume]
    part_unique [OF assms(1) _ _ assms(2), of HYield] by auto

lemma part_where: "part n h L \<Longrightarrow> c < n \<Longrightarrow> \<exists>a\<in>Heads. Co c \<in> set (L a)"
  unfolding part_def by blast

lemma part_slot: "part n h L \<Longrightarrow> a \<in> Heads \<Longrightarrow> x \<in> set (L a) \<Longrightarrow> \<exists>c<n. x = Co c"
  unfolding part_def by blast

lemma in_mv:
  assumes "part n h L" "a \<in> Heads"
  shows "y \<in> set (mv b x L a) \<longleftrightarrow> (if y = x then a = b else y \<in> set (L a))"
  using part_distinct [OF assms] by (auto simp: mv_def)

lemma part_move:
  assumes p: "part n h L" and c: "c < n" and b: "b \<in> Heads"
  shows "\<exists>h1 h2. IntrusiveListRemove (Co c) h = Some h1 \<and> IntrusiveListInsert b (Co c) h1 = Some h2 \<and>
           part n h2 (mv b (Co c) L)"
proof -
  from part_where [OF p c] obtain a where a: "a \<in> Heads" "Co c \<in> set (L a)" by blast
  from p have wf: "lists_wf dll h Heads L" by (simp add: part_def)
  let ?L = "(L(a := remove1 (Co c) (L a)))(b := Co c # (L(a := remove1 (Co c) (L a))) b)"
  from il.lists_wf_move [OF wf a(1) b a(2)] obtain h1 h2 where
    h: "IntrusiveListRemove (Co c) h = Some h1" "IntrusiveListInsert b (Co c) h1 = Some h2"
    "lists_wf dll h2 Heads ?L" by blast
  have rm: "remove1 (Co c) (L d) = L d" if "d \<in> Heads" "d \<noteq> a" for d
    using part_unique [OF p that(1) a(1) _ a(2)] that(2) by (metis remove1_idem)
  have eq: "?L d = mv b (Co c) L d" if "d \<in> Heads" for d
    using rm [OF that] by (auto simp: mv_def)
  have "lists_wf dll h2 Heads (mv b (Co c) L)"
    using h(3) eq by (simp add: lists_wf_def)
  moreover have "(\<Union>d\<in>Heads. set (mv b (Co c) L d)) = Co ` {..<n}"
  proof (rule set_eqI)
    fix y
    have "(\<exists>d\<in>Heads. y \<in> set (mv b (Co c) L d)) \<longleftrightarrow> (\<exists>d\<in>Heads. if y = Co c then d = b else y \<in> set (L d))"
      by (rule bex_cong [OF refl]) (rule in_mv [OF p])
    also have "\<dots> \<longleftrightarrow> y = Co c \<or> y \<in> (\<Union>d\<in>Heads. set (L d))"
      using b by auto
    also have "\<dots> \<longleftrightarrow> y \<in> Co ` {..<n}"
      using p c by (auto simp: part_def)
    finally show "y \<in> (\<Union>d\<in>Heads. set (mv b (Co c) L d)) \<longleftrightarrow> y \<in> Co ` {..<n}"
      by simp
  qed
  ultimately show ?thesis using h(1,2) unfolding part_def by blast
qed

lemma part_nodes: "part n h L \<Longrightarrow> a \<in> Heads \<Longrightarrow> IntrusiveListGetAllNodes a h = Some (L a)"
  using il.lists_wf_nodes [of h Heads L a] by (simp add: part_def)

lemma part_front:
  "part n h L \<Longrightarrow> IntrusiveListFront HFree h = (case L HFree of [] \<Rightarrow> None | x # _ \<Rightarrow> Some x)"
  unfolding part_def using il.lists_wf_front [of h Heads L HFree] by simp

text \<open>Building the store: all slots free, the last one first.\<close>

lemma dll_init_other:
  "dll h a xs \<Longrightarrow> b \<noteq> a \<Longrightarrow> b \<notin> set xs \<Longrightarrow> dll (IntrusiveListInit b h) a xs"
  by (rule dll_frame) (auto simp: dll_op_defs)

lemma init_slots_ok:
  "dll h HFree [] \<Longrightarrow> \<exists>h'. init_slots n h = Some h' \<and> dll h' HFree (map Co (rev [0..<n]))"
proof (induction n)
  case (Suc n)
  then obtain h' where h': "init_slots n h = Some h'" "dll h' HFree (map Co (rev [0..<n]))" by auto
  have "Co n \<notin> set (map Co (rev [0..<n]))" by auto
  from dll_insert [OF h'(2) _ this] h'(1) show ?case by auto
qed simp

definition all_free :: "nat \<Rightarrow> node \<Rightarrow> node list" where
  "all_free n a = (if a = HFree then map Co (rev [0..<n]) else [])"

lemma Scheduler_new_ok:
  "\<exists>s. Scheduler_new n lp now = Inr s \<and> part n (heap s) (all_free n) \<and> ctx s = (\<lambda>_. NoContext) \<and>
     resumeQueue s = [] \<and> sleepQueue s = [] \<and> isRunning s \<and> currentCoro s = None \<and> switched s = []"
proof -
  let ?h0 = "IntrusiveListInit HFree \<lparr>nprev = (\<lambda>_. None), nnext = (\<lambda>_. None)\<rparr>"
  obtain h where h: "init_slots n ?h0 = Some h" "dll h HFree (map Co (rev [0..<n]))"
    using init_slots_ok [OF dll_init] by blast
  let ?h = "IntrusiveListInit HYield (IntrusiveListInit HResume (IntrusiveListInit HSuspend h))"
  have "dll ?h HFree (map Co (rev [0..<n]))" "dll ?h HSuspend []" "dll ?h HResume []" "dll ?h HYield []"
    using h(2) by (intro dll_init_other dll_init; auto)+
  then have "part n ?h (all_free n)"
    by (auto simp: part_def lists_wf_def Heads_def all_free_def)
  with h(1) show ?thesis by (simp add: Scheduler_new_def)
qed

section \<open>What the operations keep\<close>

text \<open>Every coroutine pointer in the program text is one of the scheduler's slots.\<close>

fun valid_acts :: "nat \<Rightarrow> action list \<Rightarrow> bool" where
  "valid_acts n [] = True"
| "valid_acts n (AResume c # xs) = (c < n \<and> valid_acts n xs)"
| "valid_acts n (AAdd f # xs) = (valid_acts n f \<and> valid_acts n xs)"
| "valid_acts n (_ # xs) = valid_acts n xs"

fun no_resume :: "action list \<Rightarrow> bool" where
  "no_resume [] = True"
| "no_resume (AResume c # xs) = False"
| "no_resume (AAdd f # xs) = (no_resume f \<and> no_resume xs)"
| "no_resume (_ # xs) = no_resume xs"

definition queued :: "sched \<Rightarrow> nat list" where
  "queued s = map snd (sleepQueue s) @ resumeQueue s"

definition ok :: "nat \<Rightarrow> sched \<Rightarrow> (node \<Rightarrow> node list) \<Rightarrow> bool" where
  "ok n s L \<longleftrightarrow> part n (heap s) L \<and> (\<forall>c\<in>set (queued s). c < n) \<and>
     (\<forall>c p. ctx s c = Saved p \<longrightarrow> valid_acts n p) \<and> (\<forall>c. currentCoro s = Some c \<longrightarrow> c < n) \<and>
     sorted (sleepQueue s)"

text \<open>
  Nothing but the clock wakes anybody: whoever waits to be woken is suspended and waits once, and
  every coroutine that is not free has a context to go back to.
\<close>

definition calm :: "sched \<Rightarrow> (node \<Rightarrow> node list) \<Rightarrow> bool" where
  "calm s L \<longleftrightarrow> distinct (queued s) \<and> Co ` set (queued s) \<subseteq> set (L HSuspend) \<and>
     (\<forall>a\<in>Heads - {HFree}. \<forall>c. Co c \<in> set (L a) \<longrightarrow> (\<exists>p. ctx s c = Saved p)) \<and>
     (\<forall>c p. ctx s c = Saved p \<longrightarrow> no_resume p)"

text \<open>Only the coroutines in \<open>C\<close> ran: they left the resume list, the others did not change lists
  except from free to yielded.\<close>

definition ran_frame :: "node set \<Rightarrow> (node \<Rightarrow> node list) \<Rightarrow> (node \<Rightarrow> node list) \<Rightarrow> bool" where
  "ran_frame C L L' \<longleftrightarrow> set (L' HResume) = set (L HResume) - C \<and>
     set (L' HSuspend) - C = set (L HSuspend) - C \<and> set (L HYield) - C \<subseteq> set (L' HYield)"

lemma ran_frame_trans: "ran_frame C L L1 \<Longrightarrow> ran_frame D L1 L2 \<Longrightarrow> ran_frame (C \<union> D) L L2"
  unfolding ran_frame_def by blast

lemma ok_part: "ok n s L \<Longrightarrow> part n (heap s) L"
  by (simp add: ok_def)

lemma moveTo_ok:
  assumes "ok n s L" "c < n" "b \<in> Heads"
  shows "\<exists>h. moveTo b c s = Inr (s\<lparr>heap := h\<rparr>) \<and> part n h (mv b (Co c) L) \<and> ok n (s\<lparr>heap := h\<rparr>) (mv b (Co c) L)"
proof -
  from part_move [OF ok_part [OF assms(1)] assms(2,3)] obtain h1 h2 where
    "IntrusiveListRemove (Co c) (heap s) = Some h1" "IntrusiveListInsert b (Co c) h1 = Some h2"
    "part n h2 (mv b (Co c) L)" by blast
  with assms(1) show ?thesis by (auto simp: moveTo_def heap_op_def ok_def queued_def)
qed

lemma leave_ok:
  assumes "ok n s L" "currentCoro s = Some c" "b \<in> Heads" "\<And>p. k = Saved p \<Longrightarrow> valid_acts n p"
  shows "\<exists>h. leave b k s = Inr (s\<lparr>heap := h, ctx := (ctx s)(c := k)\<rparr>) \<and>
           ok n (s\<lparr>heap := h, ctx := (ctx s)(c := k)\<rparr>) (mv b (Co c) L)"
proof -
  have "c < n" using assms(1,2) by (simp add: ok_def)
  from moveTo_ok [OF assms(1) this assms(3)] obtain h where
    h: "moveTo b c s = Inr (s\<lparr>heap := h\<rparr>)" "ok n (s\<lparr>heap := h\<rparr>) (mv b (Co c) L)" by blast
  have "ok n (s\<lparr>heap := h, ctx := (ctx s)(c := k)\<rparr>) (mv b (Co c) L)"
    using h(2) assms(4) by (simp add: ok_def queued_def)
  with h(1) show ?thesis using assms(2) by (auto simp: leave_def)
qed

text \<open>Adding a coroutine takes the first free slot, if there is one.\<close>

lemma Scheduler_addCoroutine_ok:
  assumes o: "ok n s L" and f: "valid_acts n f"
  shows "(L HFree = [] \<and> Scheduler_addCoroutine f s = Inr (s, False)) \<or>
    (\<exists>c h. c < n \<and> hd (L HFree) = Co c \<and> Co c \<in> set (L HFree) \<and>
       Scheduler_addCoroutine f s = Inr (s\<lparr>heap := h, ctx := (ctx s)(c := Saved f)\<rparr>, True) \<and>
       ok n (s\<lparr>heap := h, ctx := (ctx s)(c := Saved f)\<rparr>) (mv HYield (Co c) L))"
proof (cases "L HFree")
  case Nil
  with part_front [OF ok_part [OF o]] show ?thesis by (simp add: Scheduler_addCoroutine_def)
next
  case (Cons x xs)
  with part_slot [OF ok_part [OF o], of HFree x] obtain c where c: "x = Co c" "c < n" by auto
  let ?s = "CoroutineInfo_registerFunc c f s"
  have "ok n ?s L" using o f by (simp add: ok_def CoroutineInfo_registerFunc_def queued_def)
  from moveTo_ok [OF this c(2), of HYield] obtain h where
    "moveTo HYield c ?s = Inr (?s\<lparr>heap := h\<rparr>)" "ok n (?s\<lparr>heap := h\<rparr>) (mv HYield (Co c) L)" by auto
  moreover have "?s\<lparr>heap := h\<rparr> = s\<lparr>heap := h, ctx := (ctx s)(c := Saved f)\<rparr>"
    by (simp add: CoroutineInfo_registerFunc_def)
  ultimately show ?thesis using Cons c part_front [OF ok_part [OF o]]
    by (intro disjI2 exI [of _ c] exI [of _ h]) (simp add: Scheduler_addCoroutine_def)
qed

text \<open>Moving a slot and giving it a context keeps calm, if it is not waiting to be woken.\<close>

lemma calm_move:
  assumes "ok n s L" "calm s L" "b \<in> Heads" "Co c \<notin> set (L HSuspend)"
    and "k = Ended \<and> b = HFree \<or> (\<exists>p. k = Saved p \<and> no_resume p)"
  shows "calm (s\<lparr>heap := h, ctx := (ctx s)(c := k)\<rparr>) (mv b (Co c) L)"
proof -
  note i = in_mv [OF ok_part [OF assms(1)]]
  have "Co ` set (queued s) \<subseteq> set (mv b (Co c) L HSuspend)"
    using assms(2,4) by (auto simp: calm_def i)
  with assms show ?thesis by (auto simp: calm_def i queued_def)
qed

lemma CoroutineInfo_run_ok:
  assumes "ok n s L" "currentCoro s = Some c" "valid_acts n p"
  shows "\<exists>s' L'. CoroutineInfo_run p s = Inr s' \<and> ok n s' L' \<and> ran_frame {Co c} L L' \<and>
    switched s' = switched s \<and> clock s \<le> clock s' \<and>
    (calm s L \<and> no_resume p \<and> Co c \<notin> set (L HSuspend) \<and> Co c \<notin> set (L HFree) \<longrightarrow> calm s' L')"
  using assms
proof (induction p arbitrary: s L)
  case Nil
  note i = in_mv [OF ok_part [OF Nil.prems(1)]]
  from leave_ok [OF Nil.prems(1,2), of HFree Ended] obtain h where
    h: "leave HFree Ended s = Inr (s\<lparr>heap := h, ctx := (ctx s)(c := Ended)\<rparr>)"
    "ok n (s\<lparr>heap := h, ctx := (ctx s)(c := Ended)\<rparr>) (mv HFree (Co c) L)" by auto
  have "ran_frame {Co c} L (mv HFree (Co c) L)" by (auto simp: ran_frame_def i split: if_splits)
  with h calm_move [OF Nil.prems(1), of HFree c Ended h] show ?case by auto
next
  case (Cons x p)
  note o = Cons.prems(1) and cur = Cons.prems(2)
  note i = in_mv [OF ok_part [OF o]]
  have stop: "ran_frame {Co c} L (mv b (Co c) L)" if "b \<in> {HFree, HSuspend, HYield}" for b
    using that by (auto simp: ran_frame_def i split: if_splits)
  show ?case
  proof (cases x)
    case AYield
    with leave_ok [OF o cur, of HYield "Saved p"] Cons.prems(3) obtain h where
      "leave HYield (Saved p) s = Inr (s\<lparr>heap := h, ctx := (ctx s)(c := Saved p)\<rparr>)"
      "ok n (s\<lparr>heap := h, ctx := (ctx s)(c := Saved p)\<rparr>) (mv HYield (Co c) L)" by auto
    with AYield calm_move [OF o, of HYield c "Saved p" h] stop [of HYield] show ?thesis
      by (auto simp: Scheduler_yield_def)
  next
    case ASuspend
    with leave_ok [OF o cur, of HSuspend "Saved p"] Cons.prems(3) obtain h where
      "leave HSuspend (Saved p) s = Inr (s\<lparr>heap := h, ctx := (ctx s)(c := Saved p)\<rparr>)"
      "ok n (s\<lparr>heap := h, ctx := (ctx s)(c := Saved p)\<rparr>) (mv HSuspend (Co c) L)" by auto
    with ASuspend calm_move [OF o, of HSuspend c "Saved p" h] stop [of HSuspend] show ?thesis
      by (auto simp: Scheduler_suspend_def)
  next
    case (ASleep ms)
    let ?s = "s\<lparr>sleepQueue := insort (clock s + ms, c) (sleepQueue s)\<rparr>"
    have o': "ok n ?s L" using o cur by (auto simp: ok_def queued_def set_insort_key sorted_insort)
    from leave_ok [OF o', of c HSuspend "Saved p"] cur ASleep Cons.prems(3) obtain h where
      h: "leave HSuspend (Saved p) ?s = Inr (?s\<lparr>heap := h, ctx := (ctx s)(c := Saved p)\<rparr>)"
      "ok n (?s\<lparr>heap := h, ctx := (ctx s)(c := Saved p)\<rparr>) (mv HSuspend (Co c) L)" by auto
    have "calm (?s\<lparr>heap := h, ctx := (ctx s)(c := Saved p)\<rparr>) (mv HSuspend (Co c) L)"
      if "calm s L" "no_resume p" "Co c \<notin> set (L HSuspend)"
    proof -
      from calm_move [OF o that(1), of HSuspend c "Saved p" h] that(2,3) have
        m: "calm (s\<lparr>heap := h, ctx := (ctx s)(c := Saved p)\<rparr>) (mv HSuspend (Co c) L)" by auto
      have nq: "c \<notin> set (queued s)" using that(1,3) by (auto simp: calm_def)
      have "mset (queued ?s) = add_mset c (mset (queued s))" by (simp add: queued_def)
      then have "set (queued ?s) = insert c (set (queued s))" "distinct (queued ?s) \<longleftrightarrow> distinct (c # queued s)"
        by (metis set_mset_add_mset_insert set_mset_mset) (metis \<open>mset (queued ?s) = _\<close> mset.simps(2) mset_eq_imp_distinct_iff)
      with m nq show ?thesis by (auto simp: calm_def queued_def i)
    qed
    with h ASleep cur stop [of HSuspend] show ?thesis
      by (auto simp: Scheduler_sleep_def Scheduler_suspend_def)
  next
    case (AResume d)
    let ?s = "Scheduler_resume d s"
    from AResume o Cons.prems(3) have "ok n ?s L" by (auto simp: ok_def queued_def Scheduler_resume_def)
    from Cons.IH [OF this] AResume Cons.prems(2,3) obtain s' L' where
      "CoroutineInfo_run p ?s = Inr s'" "ok n s' L'" "ran_frame {Co c} L L'" "switched s' = switched s" "clock s \<le> clock s'"
      by (auto simp: Scheduler_resume_def)
    with AResume show ?thesis by auto
  next
    case (AAdd f)
    with Cons.prems(3) have f: "valid_acts n f" "valid_acts n p" by auto
    from Scheduler_addCoroutine_ok [OF o f(1)] show ?thesis
    proof (elim disjE exE conjE)
      assume "Scheduler_addCoroutine f s = Inr (s, False)"
      with Cons.IH [OF o cur f(2)] AAdd show ?thesis by auto
    next
      fix d h
      let ?s = "s\<lparr>heap := h, ctx := (ctx s)(d := Saved f)\<rparr>"
      assume a: "Scheduler_addCoroutine f s = Inr (?s, True)" "ok n ?s (mv HYield (Co d) L)"
        and d: "Co d \<in> set (L HFree)"
      from part_free [OF ok_part [OF o] d] have
        nd: "Co d \<notin> set (L HSuspend)" "Co d \<notin> set (L HResume)" "Co d \<notin> set (L HYield)" by auto
      from Cons.IH [OF a(2) _ f(2)] cur obtain s' L' where
        r: "CoroutineInfo_run p ?s = Inr s'" "ok n s' L'" "ran_frame {Co c} (mv HYield (Co d) L) L'"
        "switched s' = switched s" "clock s \<le> clock s'" and
        cm: "calm ?s (mv HYield (Co d) L) \<Longrightarrow> no_resume p \<Longrightarrow> Co c \<notin> set (mv HYield (Co d) L HSuspend) \<Longrightarrow>
          Co c \<notin> set (mv HYield (Co d) L HFree) \<Longrightarrow> calm s' L'"
        by auto
      have m: "set (mv HYield (Co d) L HResume) = set (L HResume)"
        "set (mv HYield (Co d) L HSuspend) = set (L HSuspend)"
        "set (mv HYield (Co d) L HYield) = insert (Co d) (set (L HYield))"
        using nd by (auto simp: i split: if_splits)
      have "ran_frame {Co c} L L'"
        unfolding ran_frame_def
      proof (intro conjI)
        show "set (L' HResume) = set (L HResume) - {Co c}"
          "set (L' HSuspend) - {Co c} = set (L HSuspend) - {Co c}"
          using r(3) by (simp_all add: ran_frame_def m)
        have "insert (Co d) (set (L HYield)) - {Co c} \<subseteq> set (L' HYield)"
          using r(3) by (simp only: ran_frame_def m)
        then show "set (L HYield) - {Co c} \<subseteq> set (L' HYield)" by blast
      qed
      moreover have "calm s' L'" if "calm s L" "no_resume (x # p)" "Co c \<notin> set (L HSuspend)" "Co c \<notin> set (L HFree)"
      proof (rule cm)
        show "calm ?s (mv HYield (Co d) L)"
          using calm_move [OF o that(1), of HYield d "Saved f" h] nd(1) that(2) AAdd by simp
        show "no_resume p" using that(2) AAdd by simp
        show "Co c \<notin> set (mv HYield (Co d) L HSuspend)" using that(3) by (simp add: m)
        show "Co c \<notin> set (mv HYield (Co d) L HFree)" using that(4) d by (auto simp: i split: if_splits)
      qed
      ultimately show ?thesis using r(1,2,4,5) a(1) AAdd by auto
    qed
  next
    case AThrow
    from leave_ok [OF o cur, of HFree Ended] obtain h where
      "leave HFree Ended s = Inr (s\<lparr>heap := h, ctx := (ctx s)(c := Ended)\<rparr>)"
      "ok n (s\<lparr>heap := h, ctx := (ctx s)(c := Ended)\<rparr>) (mv HFree (Co c) L)" by auto
    with AThrow calm_move [OF o, of HFree c Ended h] stop [of HFree] show ?thesis by auto
  next
    case (AElapse d)
    let ?s = "s\<lparr>clock := clock s + int d\<rparr>"
    have "ok n ?s L" "calm ?s L \<longleftrightarrow> calm s L" using o by (simp_all add: ok_def calm_def queued_def)
    with Cons.IH [of ?s L] AElapse Cons.prems(2,3) show ?thesis by fastforce
  qed
qed

lemma CoroutineInfo_switchTo_ok:
  assumes "ok n s L" "c < n"
  shows "(CoroutineInfo_switchTo c s = Inl BadContext \<and> (\<forall>p. ctx s c \<noteq> Saved p)) \<or>
    (\<exists>s' L'. CoroutineInfo_switchTo c s = Inr s' \<and> ok n s' L' \<and> ran_frame {Co c} L L' \<and>
       switched s' = switched s @ [c] \<and>
       (calm s L \<and> Co c \<in> set (L HResume) \<union> set (L HYield) \<longrightarrow> calm s' L'))"
proof (cases "ctx s c")
  case (Saved p)
  let ?s = "s\<lparr>currentCoro := Some c, switched := switched s @ [c]\<rparr>"
  from assms Saved have o: "ok n ?s L" "valid_acts n p" by (auto simp: ok_def queued_def)
  from CoroutineInfo_run_ok [OF o(1) _ o(2), of c] obtain s' L' where
    r: "CoroutineInfo_run p ?s = Inr s'" "ok n s' L'" "ran_frame {Co c} L L'" "switched s' = switched s @ [c]"
    and cm: "calm ?s L \<Longrightarrow> no_resume p \<Longrightarrow> Co c \<notin> set (L HSuspend) \<Longrightarrow> Co c \<notin> set (L HFree) \<Longrightarrow> calm s' L'"
    by auto
  have "calm s' L'" if "calm s L" "Co c \<in> set (L HResume) \<union> set (L HYield)"
  proof (rule cm)
    show "calm ?s L" using that(1) by (simp add: calm_def queued_def)
    show "no_resume p" using that(1) Saved by (simp add: calm_def)
    show "Co c \<notin> set (L HSuspend)" "Co c \<notin> set (L HFree)"
      using that(2) part_unique [OF ok_part [OF assms(1)], of HResume HSuspend "Co c"]
        part_unique [OF ok_part [OF assms(1)], of HYield HSuspend "Co c"]
        part_free [OF ok_part [OF assms(1)], of "Co c"] by auto
  qed
  with r Saved show ?thesis by (auto simp: CoroutineInfo_switchTo_def)
qed (simp_all add: CoroutineInfo_switchTo_def)

abbreviation switch_node :: "node \<Rightarrow> sched \<Rightarrow> sched result" where
  "switch_node n s \<equiv> (case n of Co c \<Rightarrow> CoroutineInfo_switchTo c s | _ \<Rightarrow> Inl NullPointer)"

lemma switch_all_ok:
  assumes "ok n s L" "\<forall>c\<in>set cs. c < n"
  shows "fold_r switch_node (map Co cs) s = Inl BadContext \<or>
    (\<exists>s' L'. fold_r switch_node (map Co cs) s = Inr s' \<and> ok n s' L' \<and> ran_frame (Co ` set cs) L L' \<and>
       switched s' = switched s @ cs)"
  using assms
proof (induction cs arbitrary: s L)
  case Nil
  then show ?case by (auto simp: ran_frame_def)
next
  case (Cons c cs)
  then have c: "c < n" by simp
  from CoroutineInfo_switchTo_ok [OF Cons.prems(1) c] show ?case
  proof (elim disjE exE conjE)
    fix s1 L1
    assume 1: "CoroutineInfo_switchTo c s = Inr s1" "ok n s1 L1" "ran_frame {Co c} L L1"
      "switched s1 = switched s @ [c]"
    have "\<forall>c\<in>set cs. c < n" using Cons.prems(2) by simp
    from Cons.IH [OF 1(2) this] show ?thesis
    proof (elim disjE exE conjE)
      fix s2 L2
      assume "fold_r switch_node (map Co cs) s1 = Inr s2" "ok n s2 L2"
        "ran_frame (Co ` set cs) L1 L2" "switched s2 = switched s1 @ cs"
      with 1 ran_frame_trans [OF 1(3), of "Co ` set cs" L2] show ?thesis by auto
    qed (use 1 in auto)
  qed simp
qed

lemma switch_all_calm:
  assumes "ok n s L" "calm s L" "distinct cs" "h \<in> {HResume, HYield}" "Co ` set cs \<subseteq> set (L h)"
  shows "\<exists>s' L'. fold_r switch_node (map Co cs) s = Inr s' \<and> ok n s' L' \<and> calm s' L'"
  using assms
proof (induction cs arbitrary: s L)
  case (Cons c cs)
  have h: "h \<in> Heads" "h \<noteq> HFree" using Cons.prems(4) by auto
  have inh: "Co c \<in> set (L h)" using Cons.prems(5) by auto
  with part_slot [OF ok_part [OF Cons.prems(1)] h(1)] have c: "c < n" by auto
  from Cons.prems(2) h inh have "\<exists>p. ctx s c = Saved p" by (auto simp: calm_def)
  moreover from inh Cons.prems(4) have "Co c \<in> set (L HResume) \<union> set (L HYield)" by auto
  ultimately obtain s1 L1 where
    1: "CoroutineInfo_switchTo c s = Inr s1" "ok n s1 L1" "ran_frame {Co c} L L1" "calm s1 L1"
    using CoroutineInfo_switchTo_ok [OF Cons.prems(1) c] Cons.prems(2) by auto
  have "Co ` set cs \<subseteq> set (L1 h)"
    using 1(3) Cons.prems(3-5) by (fastforce simp: ran_frame_def)
  from Cons.IH [OF 1(2,4) _ Cons.prems(4) this] Cons.prems(3) 1(1) show ?case by simp
qed auto

lemma part_slots: "part n h L \<Longrightarrow> a \<in> Heads \<Longrightarrow> \<exists>cs. L a = map Co cs \<and> distinct cs \<and> (\<forall>c\<in>set cs. c < n)"
proof -
  assume p: "part n h L" "a \<in> Heads"
  let ?cs = "map (\<lambda>x. case x of Co c \<Rightarrow> c | _ \<Rightarrow> 0) (L a)"
  have "map Co ?cs = map (\<lambda>x. x) (L a)"
    unfolding map_map by (rule map_cong [OF refl]) (use part_slot [OF p] in force)
  then have "L a = map Co ?cs" by simp
  moreover from this part_distinct [OF p] have "distinct ?cs" by (metis distinct_map)
  moreover have "\<forall>c\<in>set ?cs. c < n" using part_slot [OF p] by fastforce
  ultimately show ?thesis by blast
qed

text \<open>Running a list leaves no coroutine of it where it was, and runs each of them.\<close>

lemma runAll_ok:
  assumes "ok n s L" "a \<in> Heads"
  shows "\<exists>cs. L a = map Co cs \<and>
    (runAll a s = Inl BadContext \<or>
     (\<exists>s' L'. runAll a s = Inr s' \<and> ok n s' L' \<and> ran_frame (set (L a)) L L' \<and> switched s' = switched s @ cs))"
proof -
  from part_slots [OF ok_part [OF assms(1)] assms(2)] obtain cs where
    cs: "L a = map Co cs" "\<forall>c\<in>set cs. c < n" by blast
  from switch_all_ok [OF assms(1) cs(2)] part_nodes [OF ok_part [OF assms(1)] assms(2)] cs(1) show ?thesis
    by (auto simp: runAll_def)
qed

lemma runAll_calm:
  assumes "ok n s L" "calm s L" "a \<in> {HResume, HYield}"
  shows "\<exists>s' L'. runAll a s = Inr s' \<and> ok n s' L' \<and> calm s' L'"
proof -
  have a: "a \<in> Heads" using assms(3) by auto
  from part_slots [OF ok_part [OF assms(1)] a] obtain cs where cs: "L a = map Co cs" "distinct cs" by blast
  from switch_all_calm [OF assms(1,2) cs(2) assms(3)] part_nodes [OF ok_part [OF assms(1)] a] cs(1)
  show ?thesis by (auto simp: runAll_def)
qed

text \<open>Draining the queue of resume requests.\<close>

lemma moveTo_all_ok:
  assumes "ok n s L" "\<forall>c\<in>set q. c < n"
  shows "\<exists>s' L'. fold_r (moveTo HResume) q s = Inr s' \<and> ok n s' L' \<and> s' = s\<lparr>heap := heap s'\<rparr> \<and>
    set (L' HResume) = set (L HResume) \<union> Co ` set q \<and>
    (\<forall>a\<in>Heads - {HResume}. set (L' a) = set (L a) - Co ` set q)"
  using assms
proof (induction q arbitrary: s L)
  case (Cons c q)
  note i = in_mv [OF ok_part [OF Cons.prems(1)]]
  from moveTo_ok [OF Cons.prems(1), of c HResume] Cons.prems(2) obtain h where
    1: "moveTo HResume c s = Inr (s\<lparr>heap := h\<rparr>)" "ok n (s\<lparr>heap := h\<rparr>) (mv HResume (Co c) L)" by auto
  from Cons.IH [OF 1(2)] Cons.prems(2) obtain s' L' where
    2: "fold_r (moveTo HResume) q (s\<lparr>heap := h\<rparr>) = Inr s'" "ok n s' L'" "s' = s\<lparr>heap := heap s'\<rparr>"
    "set (L' HResume) = set (mv HResume (Co c) L HResume) \<union> Co ` set q"
    "\<forall>a\<in>Heads - {HResume}. set (L' a) = set (mv HResume (Co c) L a) - Co ` set q" by auto
  have "set (mv HResume (Co c) L HResume) = insert (Co c) (set (L HResume))" by (auto simp: i split: if_splits)
  moreover have "set (mv HResume (Co c) L a) = set (L a) - {Co c}" if "a \<in> Heads - {HResume}" for a
    using that by (auto simp: i split: if_splits)
  ultimately show ?case using 1 2 by (intro exI [of _ s'] exI [of _ L']) auto
qed auto

lemma fold_resume: "fold Scheduler_resume cs s = s\<lparr>resumeQueue := resumeQueue s @ cs\<rparr>"
  by (induction cs arbitrary: s) (simp_all add: Scheduler_resume_def)

lemma Scheduler_wakeUpSleep_eq:
  "Scheduler_wakeUpSleep s =
     s\<lparr>sleepQueue := dropWhile (\<lambda>e. \<not> fst e > clock s) (sleepQueue s),
       resumeQueue := resumeQueue s @ sleepers_due s\<rparr>"
  by (simp add: Scheduler_wakeUpSleep_def fold_resume)

lemma wakeUpSleep_queued: "mset (queued (Scheduler_wakeUpSleep s)) = mset (queued s)"
proof -
  let ?P = "\<lambda>e. \<not> fst e > clock s"
  have "mset (map snd (takeWhile ?P (sleepQueue s))) + mset (map snd (dropWhile ?P (sleepQueue s))) =
      mset (map snd (sleepQueue s))"
    by (metis map_append mset_append takeWhile_dropWhile_id)
  then show ?thesis by (simp add: Scheduler_wakeUpSleep_eq queued_def sleepers_due_def add.commute)
qed

lemma wakeUpSleep_ok:
  assumes "ok n s L"
  shows "ok n (Scheduler_wakeUpSleep s) L" "calm s L \<Longrightarrow> calm (Scheduler_wakeUpSleep s) L"
proof -
  note q = wakeUpSleep_queued [of s]
  then have st: "set (queued (Scheduler_wakeUpSleep s)) = set (queued s)" by (metis set_mset_mset)
  have "sorted (dropWhile (\<lambda>e. \<not> fst e > clock s) (sleepQueue s))"
    using assms by (simp add: ok_def sorted_dropWhile)
  with assms st show "ok n (Scheduler_wakeUpSleep s) L"
    by (simp add: ok_def) (simp add: Scheduler_wakeUpSleep_eq)
  assume "calm s L"
  moreover from q have "distinct (queued (Scheduler_wakeUpSleep s)) \<longleftrightarrow> distinct (queued s)"
    by (rule mset_eq_imp_distinct_iff)
  ultimately show "calm (Scheduler_wakeUpSleep s) L"
    using st by (simp add: calm_def) (simp add: Scheduler_wakeUpSleep_eq)
qed

lemma drainResume_ok:
  assumes "ok n s L"
  shows "\<exists>s' L'. drainResume s = Inr s' \<and> ok n s' L' \<and> resumeQueue s' = [] \<and> switched s' = switched s \<and>
    set (L' HResume) = set (L HResume) \<union> Co ` set (resumeQueue s) \<and>
    (\<forall>a\<in>Heads - {HResume}. set (L' a) = set (L a) - Co ` set (resumeQueue s)) \<and>
    (calm s L \<longrightarrow> calm s' L')"
proof -
  have "ok n (s\<lparr>resumeQueue := []\<rparr>) L" "\<forall>c\<in>set (resumeQueue s). c < n"
    using assms by (auto simp: ok_def queued_def)
  from moveTo_all_ok [OF this] obtain s' L' where
    1: "fold_r (moveTo HResume) (resumeQueue s) (s\<lparr>resumeQueue := []\<rparr>) = Inr s'" "ok n s' L'"
    "s' = s\<lparr>resumeQueue := [], heap := heap s'\<rparr>"
    "set (L' HResume) = set (L HResume) \<union> Co ` set (resumeQueue s)"
    "\<forall>a\<in>Heads - {HResume}. set (L' a) = set (L a) - Co ` set (resumeQueue s)" by auto
  have f: "resumeQueue s' = []" "switched s' = switched s" "ctx s' = ctx s" "sleepQueue s' = sleepQueue s"
    by (subst 1(3), simp)+
  have "calm s' L'" if c: "calm s L"
  proof -
    have "distinct (queued s')" using c by (simp add: calm_def queued_def f)
    moreover have "Co ` set (queued s') \<subseteq> set (L' HSuspend)"
    proof -
      have q: "set (queued s') = snd ` set (sleepQueue s)" by (simp add: queued_def f)
      have "set (L' HSuspend) = set (L HSuspend) - Co ` set (resumeQueue s)" using 1(5) by simp
      moreover have "snd ` set (sleepQueue s) \<inter> set (resumeQueue s) = {}"
        "Co ` (snd ` set (sleepQueue s)) \<subseteq> set (L HSuspend)"
        using c by (auto simp: calm_def queued_def)
      ultimately show ?thesis unfolding q by blast
    qed
    moreover have "\<exists>p. ctx s' d = Saved p" if a: "a \<in> Heads - {HFree}" "Co d \<in> set (L' a)" for a d
    proof -
      have "\<exists>b\<in>Heads - {HFree}. Co d \<in> set (L b)"
      proof (cases "a = HResume")
        case True
        with a(2) 1(4) have "Co d \<in> set (L HResume) \<or> d \<in> set (queued s)" by (auto simp: queued_def)
        then have "Co d \<in> set (L HResume) \<or> Co d \<in> set (L HSuspend)"
          using c by (auto simp: calm_def)
        then show ?thesis by (auto intro: bexI [of _ HResume] bexI [of _ HSuspend])
      next
        case False
        with a 1(5) show ?thesis by auto
      qed
      with c show ?thesis unfolding f calm_def by blast
    qed
    ultimately show ?thesis using c by (simp add: calm_def f)
  qed
  with 1 f show ?thesis by (auto simp: drainResume_def)
qed

text \<open>Calls from outside the coroutines.\<close>

fun valid_ext :: "nat \<Rightarrow> ext \<Rightarrow> bool" where
  "valid_ext n (EResume c) = (c < n)"
| "valid_ext n (EAdd f) = valid_acts n f"
| "valid_ext n (EElapse d) = True"

fun no_resume_ext :: "ext \<Rightarrow> bool" where
  "no_resume_ext (EResume c) = False"
| "no_resume_ext (EAdd f) = no_resume f"
| "no_resume_ext (EElapse d) = True"

definition ext_frame :: "sched \<Rightarrow> (node \<Rightarrow> node list) \<Rightarrow> sched \<Rightarrow> (node \<Rightarrow> node list) \<Rightarrow> bool" where
  "ext_frame s L s' L' \<longleftrightarrow> set (L HYield) \<subseteq> set (L' HYield) \<and> set (resumeQueue s) \<subseteq> set (resumeQueue s') \<and>
     sleepQueue s' = sleepQueue s \<and> clock s \<le> clock s' \<and> switched s' = switched s"

lemma ext_op_ok:
  assumes o: "ok n s L" and v: "valid_ext n e"
  shows "\<exists>s' L'. ext_op e s = Inr s' \<and> ok n s' L' \<and> ext_frame s L s' L' \<and>
    (calm s L \<and> no_resume_ext e \<longrightarrow> calm s' L')"
proof (cases e)
  case (EResume c)
  with o v show ?thesis by (auto simp: ok_def queued_def Scheduler_resume_def ext_frame_def)
next
  case (EAdd f)
  with v have f: "valid_acts n f" by simp
  from Scheduler_addCoroutine_ok [OF o f] show ?thesis
  proof (elim disjE exE conjE)
    assume "Scheduler_addCoroutine f s = Inr (s, False)"
    with o EAdd show ?thesis by (auto simp: ext_frame_def)
  next
    fix d h
    let ?s = "s\<lparr>heap := h, ctx := (ctx s)(d := Saved f)\<rparr>"
    assume a: "Scheduler_addCoroutine f s = Inr (?s, True)" "ok n ?s (mv HYield (Co d) L)"
      and d: "Co d \<in> set (L HFree)"
    have "calm ?s (mv HYield (Co d) L)" if "calm s L" "no_resume f"
      using calm_move [OF o that(1), of HYield d "Saved f" h] part_free [OF ok_part [OF o] d] that(2) by auto
    moreover have "ext_frame s L ?s (mv HYield (Co d) L)"
      by (auto simp: ext_frame_def in_mv [OF ok_part [OF o]] split: if_splits)
    ultimately show ?thesis using a EAdd by auto
  qed
next
  case (EElapse d)
  with o show ?thesis by (auto simp: ok_def queued_def ext_frame_def calm_def)
qed

lemma ext_ops_ok:
  assumes "ok n s L" "list_all (valid_ext n) es"
  shows "\<exists>s' L'. fold_r ext_op es s = Inr s' \<and> ok n s' L' \<and> ext_frame s L s' L' \<and>
    (calm s L \<and> list_all no_resume_ext es \<longrightarrow> calm s' L')"
  using assms
proof (induction es arbitrary: s L)
  case Nil
  then show ?case by (auto simp: ext_frame_def)
next
  case (Cons e es)
  from ext_op_ok [OF Cons.prems(1), of e] Cons.prems(2) obtain s1 L1 where
    1: "ext_op e s = Inr s1" "ok n s1 L1" "ext_frame s L s1 L1" "calm s L \<and> no_resume_ext e \<longrightarrow> calm s1 L1"
    by auto
  from Cons.IH [OF 1(2)] Cons.prems(2) obtain s2 L2 where
    2: "fold_r ext_op es s1 = Inr s2" "ok n s2 L2" "ext_frame s1 L1 s2 L2"
    "calm s1 L1 \<and> list_all no_resume_ext es \<longrightarrow> calm s2 L2" by auto
  have "ext_frame s L s2 L2" using 1(3) 2(3) by (auto simp: ext_frame_def)
  with 1 2 show ?case by (intro exI [of _ s2] exI [of _ L2]) auto
qed

lemma sleepers_due_mono:
  assumes "sorted (sleepQueue s)" "sleepQueue s' = sleepQueue s" "clock s \<le> clock s'"
  shows "set (sleepers_due s) \<subseteq> set (sleepers_due s')"
proof -
  have "set (takeWhile (\<lambda>e. \<not> fst e > c) q) \<subseteq> set (takeWhile (\<lambda>e. \<not> fst e > c') q)"
    if "c \<le> c'" for c c' :: int and q :: "(int \<times> nat) list"
    using that by (induction q) auto
  from this [OF assms(3)] assms(2) show ?thesis unfolding sleepers_due_def by (simp add: image_mono)
qed

text \<open>The first part of a turn: the network loop, if it is its time.\<close>

lemma turn_loop_ok:
  assumes "ok n s L" "list_all (valid_ext n) cbs"
  shows "\<exists>s' L'. (if loop s \<and> clock s > loopLastRun s + 10
      then rbind (fold_r ext_op cbs s) (\<lambda>s. Inr (s\<lparr>loopLastRun := clock s\<rparr>)) else Inr s) = Inr s' \<and>
    ok n s' L' \<and> ext_frame s L s' L' \<and> (calm s L \<and> list_all no_resume_ext cbs \<longrightarrow> calm s' L')"
proof (cases "loop s \<and> clock s > loopLastRun s + 10")
  case True
  from ext_ops_ok [OF assms] obtain s' L' where
    1: "fold_r ext_op cbs s = Inr s'" "ok n s' L'" "ext_frame s L s' L'"
    "calm s L \<and> list_all no_resume_ext cbs \<longrightarrow> calm s' L'" by blast
  then have "ok n (s'\<lparr>loopLastRun := clock s'\<rparr>) L'" "ext_frame s L (s'\<lparr>loopLastRun := clock s'\<rparr>) L'"
    "calm s' L' \<longrightarrow> calm (s'\<lparr>loopLastRun := clock s'\<rparr>) L'"
    by (simp_all add: ok_def ext_frame_def calm_def queued_def)
  with 1 True show ?thesis by auto
next
  case False
  with assms show ?thesis by (auto simp: ext_frame_def)
qed

lemma Scheduler_turn_ok:
  assumes o: "ok n s L" and v: "list_all (valid_ext n) cbs"
  shows "Scheduler_turn cbs s = Inl BadContext \<or>
    (\<exists>s' L' new. Scheduler_turn cbs s = Inr s' \<and> ok n s' L' \<and> set (L' HResume) = {} \<and>
       switched s' = switched s @ new \<and>
       Co ` (set (resumeQueue s) \<union> set (sleepers_due s)) \<union> set (L HYield) \<subseteq> Co ` set new)"
proof -
  from turn_loop_ok [OF o v] obtain s1 L1 where
    1: "(if loop s \<and> clock s > loopLastRun s + 10
      then rbind (fold_r ext_op cbs s) (\<lambda>s. Inr (s\<lparr>loopLastRun := clock s\<rparr>)) else Inr s) = Inr s1"
    "ok n s1 L1" "ext_frame s L s1 L1" by blast
  have due: "set (sleepers_due s) \<subseteq> set (sleepers_due s1)"
    using 1(3) o by (intro sleepers_due_mono) (auto simp: ext_frame_def ok_def)
  from drainResume_ok [OF wakeUpSleep_ok(1) [OF 1(2)]] obtain s2 L2 where
    2: "drainResume (Scheduler_wakeUpSleep s1) = Inr s2" "ok n s2 L2" "switched s2 = switched s1"
    "set (L2 HResume) = set (L1 HResume) \<union> Co ` (set (resumeQueue s1) \<union> set (sleepers_due s1))"
    "set (L2 HYield) = set (L1 HYield) - Co ` (set (resumeQueue s1) \<union> set (sleepers_due s1))"
    by (auto simp: Scheduler_wakeUpSleep_eq)
  have want: "Co ` (set (resumeQueue s) \<union> set (sleepers_due s)) \<subseteq> set (L2 HResume)"
    "set (L HYield) \<subseteq> set (L2 HYield) \<union> set (L2 HResume)"
    using 1(3) due 2(4,5) by (auto simp: ext_frame_def)
  from runAll_ok [OF 2(2), of HResume, simplified] obtain cs where cs: "L2 HResume = map Co cs" and
    "runAll HResume s2 = Inl BadContext \<or>
     (\<exists>s3 L3. runAll HResume s2 = Inr s3 \<and> ok n s3 L3 \<and> ran_frame (set (L2 HResume)) L2 L3 \<and>
        switched s3 = switched s2 @ cs)" by blast
  then show ?thesis
  proof (elim disjE exE conjE)
    assume "runAll HResume s2 = Inl BadContext"
    then show ?thesis using 1(1) 2(1) by (simp add: Scheduler_turn_def)
  next
    fix s3 L3
    assume 3: "runAll HResume s2 = Inr s3" "ok n s3 L3" "ran_frame (set (L2 HResume)) L2 L3"
      "switched s3 = switched s2 @ cs"
    from runAll_ok [OF 3(2), of HYield, simplified] obtain ds where ds: "L3 HYield = map Co ds" and
      "runAll HYield s3 = Inl BadContext \<or>
       (\<exists>s4 L4. runAll HYield s3 = Inr s4 \<and> ok n s4 L4 \<and> ran_frame (set (L3 HYield)) L3 L4 \<and>
          switched s4 = switched s3 @ ds)" by blast
    then show ?thesis
    proof (elim disjE exE conjE)
      assume "runAll HYield s3 = Inl BadContext"
      then show ?thesis using 1(1) 2(1) 3(1) by (simp add: Scheduler_turn_def)
    next
      fix s4 L4
      assume 4: "runAll HYield s3 = Inr s4" "ok n s4 L4" "ran_frame (set (L3 HYield)) L3 L4"
        "switched s4 = switched s3 @ ds"
      have y: "set (L2 HYield) \<subseteq> set (L2 HResume) \<union> set (L3 HYield)"
        using 3(3) unfolding ran_frame_def by blast
      have all: "Co ` set (cs @ ds) = set (L2 HResume) \<union> set (L3 HYield)"
        using cs ds by (simp add: image_Un)
      have "Co ` (set (resumeQueue s) \<union> set (sleepers_due s)) \<subseteq> Co ` set (cs @ ds)"
        unfolding all by (rule order_trans [OF want(1)]) simp
      moreover have "set (L HYield) \<subseteq> Co ` set (cs @ ds)"
        unfolding all using want(2) y by blast
      ultimately have
        "Co ` (set (resumeQueue s) \<union> set (sleepers_due s)) \<union> set (L HYield) \<subseteq> Co ` set (cs @ ds)"
        by (rule Un_least)
      moreover have "set (L4 HResume) = {}" using 3(3) 4(3) by (auto simp: ran_frame_def)
      moreover have "switched s4 = switched s @ (cs @ ds)"
        using 1(3) 2(3) 3(4) 4(4) by (simp add: ext_frame_def)
      moreover have "Scheduler_turn cbs s = Inr s4"
        using 1(1) 2(1) 3(1) 4(1) by (simp add: Scheduler_turn_def)
      ultimately show ?thesis using 4(2) by blast
    qed
  qed
qed

lemma Scheduler_turn_calm:
  assumes "ok n s L" "calm s L" "list_all (valid_ext n) cbs" "list_all no_resume_ext cbs"
  shows "\<exists>s' L'. Scheduler_turn cbs s = Inr s' \<and> ok n s' L' \<and> calm s' L'"
proof -
  from turn_loop_ok [OF assms(1,3)] assms(2,4) obtain s1 L1 where
    1: "(if loop s \<and> clock s > loopLastRun s + 10
      then rbind (fold_r ext_op cbs s) (\<lambda>s. Inr (s\<lparr>loopLastRun := clock s\<rparr>)) else Inr s) = Inr s1"
    "ok n s1 L1" "calm s1 L1" by blast
  from drainResume_ok [OF wakeUpSleep_ok(1) [OF 1(2)]] wakeUpSleep_ok(2) [OF 1(2,3)] obtain s2 L2 where
    2: "drainResume (Scheduler_wakeUpSleep s1) = Inr s2" "ok n s2 L2" "calm s2 L2" by blast
  from runAll_calm [OF 2(2,3), of HResume] obtain s3 L3 where
    3: "runAll HResume s2 = Inr s3" "ok n s3 L3" "calm s3 L3" by blast
  from runAll_calm [OF 3(2,3), of HYield] obtain s4 L4 where
    4: "runAll HYield s3 = Inr s4" "ok n s4 L4" "calm s4 L4" by blast
  with 1(1) 2(1) 3(1) show ?thesis by (auto simp: Scheduler_turn_def)
qed

fun valid_op :: "nat \<Rightarrow> sched_op \<Rightarrow> bool" where
  "valid_op n (OTurn cbs) = list_all (valid_ext n) cbs"
| "valid_op n (OExt e) = valid_ext n e"
| "valid_op n OStop = True"

fun no_resume_op :: "sched_op \<Rightarrow> bool" where
  "no_resume_op (OTurn cbs) = list_all no_resume_ext cbs"
| "no_resume_op (OExt e) = no_resume_ext e"
| "no_resume_op OStop = True"

lemma sched_exec_ok:
  assumes "ok n s L" "valid_op n x"
  shows "sched_exec x s = Inl BadContext \<or> (\<exists>s' L'. sched_exec x s = Inr s' \<and> ok n s' L')"
proof (cases x)
  case (OTurn cbs)
  with Scheduler_turn_ok [OF assms(1), of cbs] assms show ?thesis by (cases "isRunning s") auto
next
  case (OExt e)
  with ext_op_ok [OF assms(1), of e] assms(2) show ?thesis by auto
next
  case OStop
  have "ok n (Scheduler_stop s) L" using assms(1) by (simp add: ok_def queued_def Scheduler_stop_def)
  with OStop show ?thesis by auto
qed

lemma sched_exec_calm:
  assumes "ok n s L" "calm s L" "valid_op n x" "no_resume_op x"
  shows "\<exists>s' L'. sched_exec x s = Inr s' \<and> ok n s' L' \<and> calm s' L'"
proof (cases x)
  case (OTurn cbs)
  with Scheduler_turn_calm [OF assms(1,2), of cbs] assms show ?thesis by (cases "isRunning s") auto
next
  case (OExt e)
  with ext_op_ok [OF assms(1), of e] assms(2-4) show ?thesis by auto
next
  case OStop
  have "ok n (Scheduler_stop s) L" "calm (Scheduler_stop s) L"
    using assms(1,2) by (simp_all add: ok_def calm_def queued_def Scheduler_stop_def)
  with OStop show ?thesis by auto
qed

lemma Scheduler_run_ok:
  assumes "ok n s L" "list_all (valid_op n) ops"
  shows "Scheduler_run ops s = Inl BadContext \<or> (\<exists>s' L'. Scheduler_run ops s = Inr s' \<and> ok n s' L')"
  using assms unfolding Scheduler_run_def
proof (induction ops arbitrary: s L)
  case (Cons x ops)
  from Cons.prems(2) have "valid_op n x" by simp
  from sched_exec_ok [OF Cons.prems(1) this] show ?case
  proof (elim disjE exE conjE)
    fix s1 L1
    assume "sched_exec x s = Inr s1" "ok n s1 L1"
    with Cons.IH [OF this(2)] Cons.prems(2) show ?thesis by simp
  qed auto
qed auto

lemma Scheduler_run_calm:
  assumes "ok n s L" "calm s L" "list_all (valid_op n) ops" "list_all no_resume_op ops"
  shows "\<exists>s' L'. Scheduler_run ops s = Inr s' \<and> ok n s' L' \<and> calm s' L'"
  using assms unfolding Scheduler_run_def
proof (induction ops arbitrary: s L)
  case (Cons x ops)
  from sched_exec_calm [OF Cons.prems(1,2), of x] Cons.prems(3,4) obtain s1 L1 where
    1: "sched_exec x s = Inr s1" "ok n s1 L1" "calm s1 L1" by auto
  from Cons.IH [OF 1(2,3)] Cons.prems(3,4) 1(1) show ?case by simp
qed auto

lemma Scheduler_new_start:
  "\<exists>s. Scheduler_new n lp now = Inr s \<and> ok n s (all_free n) \<and> calm s (all_free n)"
  using Scheduler_new_ok [of n lp now]
  by (auto simp: ok_def calm_def queued_def all_free_def)

text \<open>What the lists say about a coroutine, read off the store by the program's own function.\<close>

definition in_list :: "node \<Rightarrow> nat \<Rightarrow> sched \<Rightarrow> bool" where
  "in_list a c s \<longleftrightarrow> (\<exists>ns. IntrusiveListGetAllNodes a (heap s) = Some ns \<and> Co c \<in> set ns)"

lemma in_list_eq: "ok n s L \<Longrightarrow> a \<in> Heads \<Longrightarrow> in_list a c s \<longleftrightarrow> Co c \<in> set (L a)"
  using part_nodes [OF ok_part] by (fastforce simp: in_list_def)

section \<open>Properties\<close>

text \<open>
  C12.  The four lists always partition the coroutine slots: after any history of turns, calls from
  callbacks and other threads, additions, sleeps, yields, resumptions (of any slot, at any time) and
  ends, the scheduler has followed no null pointer, and if it has not aborted on a bad context, every
  slot is in exactly one of the free, suspended, resume and yield lists.
\<close>

theorem Scheduler_lists_partition:
  assumes "list_all (valid_op n) ops"
  shows "case rbind (Scheduler_new n lp now) (Scheduler_run ops) of
      Inl f \<Rightarrow> f = BadContext
    | Inr s \<Rightarrow> \<forall>c<n. \<exists>!a. a \<in> {HFree, HSuspend, HResume, HYield} \<and> in_list a c s"
proof -
  from Scheduler_new_start obtain s0 where
    s0: "Scheduler_new n lp now = Inr s0" "ok n s0 (all_free n)" by blast
  from Scheduler_run_ok [OF s0(2) assms] show ?thesis
  proof (elim disjE exE conjE)
    fix s L
    assume r: "Scheduler_run ops s0 = Inr s" "ok n s L"
    have "\<exists>!a. a \<in> Heads \<and> in_list a c s" if c: "c < n" for c
    proof -
      from part_where [OF ok_part [OF r(2)] c] obtain a where "a \<in> Heads" "Co c \<in> set (L a)" by blast
      moreover have "b = a" if "b \<in> Heads" "Co c \<in> set (L b)" for b
        using part_unique [OF ok_part [OF r(2)] that(1) \<open>a \<in> Heads\<close> that(2)] \<open>Co c \<in> set (L a)\<close> by blast
      ultimately show ?thesis using in_list_eq [OF r(2)] by blast
    qed
    with s0(1) r(1) show ?thesis by (simp add: Heads_def)
  qed (simp add: s0)
qed

theorem Scheduler_lists_partition_witness:
  "\<exists>f. case rbind (Scheduler_new 2 False 0) (Scheduler_run [OExt (EAdd [AYield, ASleep 5]), OTurn []]) of
      Inl f \<Rightarrow> f = BadContext
    | Inr s \<Rightarrow> \<forall>c<2. \<exists>!a. a \<in> {HFree, HSuspend, HResume, HYield} \<and> in_list a c s"
  using Scheduler_lists_partition [of 2 "[OExt (EAdd [AYield, ASleep 5]), OTurn []]" False 0] by simp

text \<open>
  C13.  No runnable coroutine is starved: if a turn of the scheduler completes, every coroutine that
  was queued for resumption, whose sleep was over, or that had yielded when the turn began has been
  switched to during the turn, and nobody is left in the resume list.
\<close>

theorem Scheduler_turn_runs_all:
  assumes "list_all (valid_op n) ops" "list_all (valid_ext n) cbs"
    and "rbind (Scheduler_new n lp now) (Scheduler_run ops) = Inr s" "Scheduler_turn cbs s = Inr s'"
  shows "\<exists>new. switched s' = switched s @ new \<and>
    set (resumeQueue s) \<union> set (sleepers_due s) \<union> {c. in_list HYield c s} \<subseteq> set new \<and>
    (\<forall>c. \<not> in_list HResume c s')"
proof -
  from Scheduler_new_start obtain s0 where
    s0: "Scheduler_new n lp now = Inr s0" "ok n s0 (all_free n)" by blast
  from Scheduler_run_ok [OF s0(2) assms(1)] s0(1) assms(3) obtain L where o: "ok n s L" by auto
  from Scheduler_turn_ok [OF o assms(2)] assms(4) obtain L' new where
    t: "ok n s' L'" "set (L' HResume) = {}" "switched s' = switched s @ new"
    "Co ` (set (resumeQueue s) \<union> set (sleepers_due s)) \<union> set (L HYield) \<subseteq> Co ` set new" by auto
  have "c \<in> set new" if "c \<in> set (resumeQueue s) \<union> set (sleepers_due s) \<union> {c. in_list HYield c s}" for c
  proof -
    from that have "Co c \<in> Co ` (set (resumeQueue s) \<union> set (sleepers_due s)) \<union> set (L HYield)"
      by (auto simp: in_list_eq [OF o])
    with t(4) have "Co c \<in> Co ` set new" by (rule subsetD)
    then show ?thesis by auto
  qed
  moreover have "\<forall>c. \<not> in_list HResume c s'" using t(2) by (simp add: in_list_eq [OF t(1)])
  ultimately show ?thesis using t(3) by blast
qed

theorem Scheduler_turn_runs_all_witness:
  "\<exists>s s' new. rbind (Scheduler_new 2 False 0) (Scheduler_run [OExt (EAdd [AYield])]) = Inr s \<and>
     Scheduler_turn [] s = Inr s' \<and> switched s' = switched s @ new \<and> {c. in_list HYield c s} \<subseteq> set new"
proof -
  let ?ops = "[OExt (EAdd [AYield])]"
  have v: "list_all (valid_op 2) ?ops" "list_all no_resume_op ?ops" by simp_all
  have v': "list_all (valid_op 2) (?ops @ [OTurn []])" "list_all no_resume_op (?ops @ [OTurn []])" by simp_all
  from Scheduler_new_start [of 2 False 0] obtain s0 where
    s0: "Scheduler_new 2 False 0 = Inr s0" "ok 2 s0 (all_free 2)" "calm s0 (all_free 2)" by blast
  from Scheduler_run_calm [OF s0(2,3) v] obtain s L where
    s: "Scheduler_run ?ops s0 = Inr s" "ok 2 s L" "calm s L" by blast
  from Scheduler_turn_calm [OF s(2,3), of "[]"] obtain s' where s': "Scheduler_turn [] s = Inr s'" by auto
  have r: "rbind (Scheduler_new 2 False 0) (Scheduler_run ?ops) = Inr s" using s0(1) s(1) by simp
  from Scheduler_turn_runs_all [OF v(1) _ r s'] r s' show ?thesis by auto
qed

text \<open>
  Sleeping is safe by itself: as long as nobody calls \<^verbatim>\<open>resume\<close>, no history of additions,
  yields, suspensions, sleeps, exceptions and ends makes the scheduler switch to a coroutine that has
  ended; every turn completes.
\<close>

theorem Scheduler_sleep_safe:
  assumes "list_all (valid_op n) ops" "list_all no_resume_op ops"
  shows "\<exists>s. rbind (Scheduler_new n lp now) (Scheduler_run ops) = Inr s"
proof -
  from Scheduler_new_start obtain s0 where
    s0: "Scheduler_new n lp now = Inr s0" "ok n s0 (all_free n)" "calm s0 (all_free n)" by blast
  from Scheduler_run_calm [OF s0(2,3) assms] s0(1) show ?thesis by auto
qed

theorem Scheduler_sleep_safe_witness:
  "\<exists>s. rbind (Scheduler_new 2 True 0) (Scheduler_run
     [OExt (EAdd [ASleep 5, AThrow]), OTurn [], OExt (EElapse 20), OTurn [EAdd [AYield]]]) = Inr s"
  by (rule Scheduler_sleep_safe) simp_all

text \<open>
  Resuming a sleeping coroutine early is not safe: the sleep entry stays in the queue, and if
  the coroutine has ended by the time it expires, the scheduler switches to the ended context and
  aborts.
\<close>

theorem Scheduler_stale_wakeup_aborts:
  "case rbind (Scheduler_new 1 False 0) (Scheduler_run
       [OExt (EAdd [ASleep 10]), OTurn [], OExt (EResume 0), OTurn [], OExt (EElapse 20), OTurn []]) of
     Inl f \<Rightarrow> f = BadContext
   | Inr _ \<Rightarrow> False"
  by code_simp

text \<open>
  \<^verbatim>\<open>addCoroutine\<close> succeeds exactly if a slot is free; then it takes the first free
  slot, which will run the function from its start, and changes the list of no other coroutine.
\<close>

theorem Scheduler_addCoroutine_spec:
  assumes "list_all (valid_op n) ops" "valid_acts n f"
    and "rbind (Scheduler_new n lp now) (Scheduler_run ops) = Inr s"
  shows "\<exists>s' b. Scheduler_addCoroutine f s = Inr (s', b) \<and> (b \<longleftrightarrow> (\<exists>c<n. in_list HFree c s)) \<and>
    (if b then \<exists>c<n. in_list HFree c s \<and> in_list HYield c s' \<and> ctx s' c = Saved f \<and>
              (\<forall>d. d \<noteq> c \<longrightarrow> ctx s' d = ctx s d \<and> (\<forall>a\<in>{HFree, HSuspend, HResume, HYield}. in_list a d s' = in_list a d s))
     else s' = s)"
proof -
  from Scheduler_new_start obtain s0 where
    s0: "Scheduler_new n lp now = Inr s0" "ok n s0 (all_free n)" by blast
  from Scheduler_run_ok [OF s0(2) assms(1)] s0(1) assms(3) obtain L where o: "ok n s L" by auto
  from Scheduler_addCoroutine_ok [OF o assms(2)] show ?thesis
  proof (elim disjE exE conjE)
    assume "L HFree = []" "Scheduler_addCoroutine f s = Inr (s, False)"
    then show ?thesis by (intro exI [of _ s] exI [of _ False]) (simp add: in_list_eq [OF o])
  next
    fix c h
    let ?s = "s\<lparr>heap := h, ctx := (ctx s)(c := Saved f)\<rparr>"
    assume a: "c < n" "Co c \<in> set (L HFree)" "Scheduler_addCoroutine f s = Inr (?s, True)"
      "ok n ?s (mv HYield (Co c) L)"
    have "in_list a d ?s = in_list a d s" if "d \<noteq> c" "a \<in> Heads" for a d
      using that by (simp add: in_list_eq [OF o] in_list_eq [OF a(4)] in_mv [OF ok_part [OF o]])
    moreover have "in_list HFree c s" using a(2) by (simp add: in_list_eq [OF o])
    moreover have "in_list HYield c ?s" by (simp add: in_list_eq [OF a(4)] in_mv [OF ok_part [OF o]])
    ultimately show ?thesis using a(1,3) by (intro exI [of _ ?s] exI [of _ True]) (auto simp: Heads_def)
  qed
qed

theorem Scheduler_addCoroutine_spec_witness:
  "\<exists>s s' b. Scheduler_new 3 False 0 = Inr s \<and> Scheduler_addCoroutine [AYield] s = Inr (s', b) \<and>
     (b \<longleftrightarrow> (\<exists>c<3. in_list HFree c s))"
proof -
  from Scheduler_new_start [of 3 False 0] obtain s where s: "Scheduler_new 3 False 0 = Inr s" by blast
  then have "rbind (Scheduler_new 3 False 0) (Scheduler_run []) = Inr s" by (simp add: Scheduler_run_def)
  from Scheduler_addCoroutine_spec [OF _ _ this, of "[AYield]"] s show ?thesis by auto
qed

end
