(* ===== verification/Context_Switch.thy ===== *)
theory Context_Switch
  imports Coroutine_Scheduler
begin

text \<open>
  \<^verbatim>\<open>src/coroutine/coroutine_info.cpp\<close>: how a coroutine's function is suspended and goes on.
  \<open>Coroutine_Scheduler\<close> takes a suspended function to be the list of what it has still to do.  Here the
  thread is a machine that has one piece of code to run, and saved contexts in memory; the only way to suspend is
  \<^verbatim>\<open>jump_fcontext\<close>, which saves where the running code goes on in one context and goes on at
  another, as \<^verbatim>\<open>tc_fcontext.h\<close> documents it.  Every slot of the scheduler has two contexts,
  \<^verbatim>\<open>*ctx_\<close> on the coroutine's own stack and \<^verbatim>\<open>ctxFrom_\<close> in the slot.  The
  theorem is that the jumps implement the lists.
\<close>

section \<open>The machine\<close>

text \<open>The contexts in memory: what \<^verbatim>\<open>ctx_\<close> of a slot points to, and its \<^verbatim>\<open>ctxFrom_\<close>.\<close>

datatype place = Ctx nat | From nat

text \<open>
  Code, as far as it can be interrupted: the calls of a coroutine's function (\<open>IAct\<close>), the pieces of
  \<^verbatim>\<open>coroutine_info.cpp\<close> between two jumps, and the pieces of the scheduler's loop.
\<close>

datatype instr =
    IAct action
  | ISetCurrentCoro nat
  | IJump place place
  | IEndFunc nat
  | IMoveToYield nat
  | ISwitchBack
  | IAssertFalse
  | ISwitchTo node
  | ITurn "ext list"
  | ILoopRan
  | IResumeAll
  | IRunAll node
  | IStop

text \<open>\<^verbatim>\<open>stack_context\<close>: the size of a stack and the address of its bottom, the highest one.\<close>

record stack_context =
  st_size :: int
  st_sp :: int

text \<open>\<open>m_alloc k\<close> is what the \<open>k\<close>-th call of \<^verbatim>\<open>aligned_alloc\<close> returns, 0 if there is no memory.\<close>

record cpu =
  m_code :: "instr list"
  m_store :: "place \<Rightarrow> instr list option"
  m_stacks :: "stack_context list"
  m_alloc :: "nat \<Rightarrow> int"
  m_sched :: sched

definition DEFAULT_SIZE :: int where
  "DEFAULT_SIZE = 128 * 1024"

definition default_stack :: "int \<Rightarrow> stack_context" where
  "default_stack p = \<lparr>st_size = DEFAULT_SIZE, st_sp = p + DEFAULT_SIZE\<rparr>"

text \<open>
  \<^verbatim>\<open>jump_fcontext(ofc, nfc)\<close>: \<open>k\<close> is where the caller goes on.  A context that was never
  made cannot be jumped to.
\<close>

definition jump_fcontext :: "place \<Rightarrow> place \<Rightarrow> instr list \<Rightarrow> cpu \<Rightarrow> cpu result" where
  "jump_fcontext ofc nfc k m =
     (let st = (m_store m)(ofc := Some k) in
      case st nfc of
        None \<Rightarrow> Inl BadContext
      | Some c \<Rightarrow> Inr (m\<lparr>m_store := st, m_code := c\<rparr>))"

text \<open>
  \<^verbatim>\<open>initContext\<close> jumps back to \<^verbatim>\<open>registerFunc\<close> at once; it is switched to for its
  function, then runs the end function and jumps back for good.
\<close>

definition after_func :: "nat \<Rightarrow> instr list" where
  "after_func c = [IEndFunc c, IJump (Ctx c) (From c), IAssertFalse]"

definition CoroutineInfo_initContext :: "nat \<Rightarrow> action list \<Rightarrow> instr list" where
  "CoroutineInfo_initContext c f = IJump (Ctx c) (From c) # map IAct f @ after_func c"

definition registerFunc :: "nat \<Rightarrow> action list \<Rightarrow> instr list \<Rightarrow> cpu \<Rightarrow> cpu result" where
  "registerFunc c f k m =
     (let p = m_alloc m (length (m_stacks m)) in
      if p = 0 then Inl NullPointer
      else jump_fcontext (From c) (Ctx c) k
             (m\<lparr>m_stacks := m_stacks m @ [default_stack p],
                m_store := (m_store m)(Ctx c := Some (CoroutineInfo_initContext c f))\<rparr>))"

definition switchTo :: "nat \<Rightarrow> instr list" where
  "switchTo c = [ISetCurrentCoro c, IJump (From c) (Ctx c)]"

definition switchBack :: "instr list \<Rightarrow> cpu \<Rightarrow> cpu result" where
  "switchBack k m =
     (case currentCoro (m_sched m) of
        None \<Rightarrow> Inl NullPointer
      | Some c \<Rightarrow> jump_fcontext (Ctx c) (From c) k m)"

text \<open>A step that works on the scheduler only; \<open>addCoroutine\<close> as far as \<^verbatim>\<open>registerFunc\<close>.\<close>

definition on_sched :: "(sched \<Rightarrow> sched result) \<Rightarrow> instr list \<Rightarrow> cpu \<Rightarrow> cpu result" where
  "on_sched f k m = rbind (f (m_sched m)) (\<lambda>s. Inr (m\<lparr>m_sched := s, m_code := k\<rparr>))"

definition on_current :: "(nat \<Rightarrow> sched \<Rightarrow> sched result) \<Rightarrow> sched \<Rightarrow> sched result" where
  "on_current f s = (case currentCoro s of None \<Rightarrow> Inl NullPointer | Some c \<Rightarrow> f c s)"

definition addCoroutine :: "action list \<Rightarrow> instr list \<Rightarrow> cpu \<Rightarrow> cpu result" where
  "addCoroutine f k m =
     (case IntrusiveListFront HFree (heap (m_sched m)) of
        Some (Co c) \<Rightarrow> registerFunc c f (IMoveToYield c # k) m
      | _ \<Rightarrow> Inr (m\<lparr>m_code := k\<rparr>))"

fun is_act :: "instr \<Rightarrow> bool" where
  "is_act (IAct _) = True"
| "is_act _ = False"

text \<open>An exception leaves the function for the handler in \<^verbatim>\<open>initContext\<close>.\<close>

fun act_step :: "action \<Rightarrow> instr list \<Rightarrow> cpu \<Rightarrow> cpu result" where
  "act_step AYield k m = on_sched (on_current (moveTo HYield)) (ISwitchBack # k) m"
| "act_step ASuspend k m = on_sched (on_current (moveTo HSuspend)) (ISwitchBack # k) m"
| "act_step (ASleep ms) k m =
     on_sched (on_current (\<lambda>c s. moveTo HSuspend c (s\<lparr>sleepQueue := insort (clock s + ms, c) (sleepQueue s)\<rparr>)))
       (ISwitchBack # k) m"
| "act_step (AResume c) k m = on_sched (\<lambda>s. Inr (Scheduler_resume c s)) k m"
| "act_step (AAdd f) k m = addCoroutine f k m"
| "act_step AThrow k m = Inr (m\<lparr>m_code := dropWhile is_act k\<rparr>)"
| "act_step (AElapse d) k m = on_sched (\<lambda>s. Inr (s\<lparr>clock := clock s + int d\<rparr>)) k m"

fun ext_act :: "ext \<Rightarrow> action" where
  "ext_act (EResume c) = AResume c"
| "ext_act (EAdd f) = AAdd f"
| "ext_act (EElapse d) = AElapse d"

fun instr_step :: "instr \<Rightarrow> instr list \<Rightarrow> cpu \<Rightarrow> cpu result" where
  "instr_step (IAct a) k m = act_step a k m"
| "instr_step (ISetCurrentCoro c) k m =
     on_sched (\<lambda>s. Inr (s\<lparr>currentCoro := Some c, switched := switched s @ [c]\<rparr>)) k m"
| "instr_step (IJump ofc nfc) k m = jump_fcontext ofc nfc k m"
| "instr_step (IEndFunc c) k m = on_sched (moveTo HFree c) k m"
| "instr_step (IMoveToYield c) k m = on_sched (moveTo HYield c) k m"
| "instr_step ISwitchBack k m = switchBack k m"
| "instr_step IAssertFalse k m = Inl BadContext"
| "instr_step (ISwitchTo n) k m =
     (case n of Co c \<Rightarrow> Inr (m\<lparr>m_code := switchTo c @ k\<rparr>) | _ \<Rightarrow> Inl NullPointer)"
| "instr_step (ITurn cbs) k m =
     (let s = m_sched m; turn = [IResumeAll, IRunAll HResume, IRunAll HYield] @ k in
      Inr (m\<lparr>m_code :=
        if \<not> isRunning s then k
        else if loop s \<and> clock s > loopLastRun s + 10 then map (IAct \<circ> ext_act) cbs @ ILoopRan # turn
        else turn\<rparr>))"
| "instr_step ILoopRan k m = on_sched (\<lambda>s. Inr (s\<lparr>loopLastRun := clock s\<rparr>)) k m"
| "instr_step IResumeAll k m = on_sched (drainResume \<circ> Scheduler_wakeUpSleep) k m"
| "instr_step (IRunAll h) k m =
     (case IntrusiveListGetAllNodes h (heap (m_sched m)) of
        None \<Rightarrow> Inl NullPointer
      | Some ns \<Rightarrow> Inr (m\<lparr>m_code := map ISwitchTo ns @ k\<rparr>))"
| "instr_step IStop k m = on_sched (\<lambda>s. Inr (Scheduler_stop s)) k m"

definition cpu_step :: "cpu \<Rightarrow> cpu result" where
  "cpu_step m = (case m_code m of [] \<Rightarrow> Inr m | i # k \<Rightarrow> instr_step i k m)"

fun cpu_steps :: "nat \<Rightarrow> cpu \<Rightarrow> cpu result" where
  "cpu_steps 0 m = Inr m"
| "cpu_steps (Suc n) m = rbind (cpu_step m) (cpu_steps n)"

text \<open>The scheduler's thread with a history of turns and calls to run.\<close>

fun op_code :: "sched_op \<Rightarrow> instr" where
  "op_code (OTurn cbs) = ITurn cbs"
| "op_code (OExt e) = IAct (ext_act e)"
| "op_code OStop = IStop"

definition cpu_start :: "(nat \<Rightarrow> int) \<Rightarrow> sched_op list \<Rightarrow> sched \<Rightarrow> cpu" where
  "cpu_start al ops s =
     \<lparr>m_code = map op_code ops, m_store = (\<lambda>_. None), m_stacks = [], m_alloc = al, m_sched = s\<rparr>"

section \<open>Running the machine\<close>

definition goes :: "cpu \<Rightarrow> cpu result \<Rightarrow> bool" where
  "goes m r \<longleftrightarrow> (\<exists>n. cpu_steps n m = r)"

lemma cpu_steps_add: "cpu_steps (a + b) m = rbind (cpu_steps a m) (cpu_steps b)"
proof (induction a arbitrary: m)
  case (Suc a)
  then show ?case by (cases "cpu_step m") simp_all
qed simp

lemma goes_trans: "goes m (Inr m1) \<Longrightarrow> goes m1 r \<Longrightarrow> goes m r"
  unfolding goes_def using cpu_steps_add by (metis rbind_simps(2))

lemma goes_here [simp]: "goes m (Inr m)"
  unfolding goes_def by (rule exI [of _ 0]) simp

lemma goes_one: "cpu_step m = r \<Longrightarrow> goes m r"
  unfolding goes_def by (rule exI [of _ 1]) (cases r; simp)

lemma goes_step: "cpu_step m = Inr m1 \<Longrightarrow> goes m1 r \<Longrightarrow> goes m r"
  by (rule goes_trans [OF goes_one])

lemma cpu_steps_halted: "m_code m = [] \<Longrightarrow> cpu_steps n m = Inr m"
  by (induction n) (simp_all add: cpu_step_def)

section \<open>Lists and contexts\<close>

text \<open>The scheduler without its abstract contexts, and the code that such a context stands for.\<close>

definition forget :: "sched \<Rightarrow> sched" where
  "forget s = s\<lparr>ctx := (\<lambda>_. NoContext)\<rparr>"

fun ctx_code :: "nat \<Rightarrow> coro_ctx \<Rightarrow> instr list option" where
  "ctx_code c NoContext = None"
| "ctx_code c (Saved xs) = Some (map IAct xs @ after_func c)"
| "ctx_code c Ended = Some [IAssertFalse]"

definition related :: "nat set \<Rightarrow> sched \<Rightarrow> cpu \<Rightarrow> bool" where
  "related X s m \<longleftrightarrow> m_sched m = forget s \<and> (\<forall>d. d \<notin> X \<longrightarrow> m_store m (Ctx d) = ctx_code d (ctx s d)) \<and>
     (\<forall>k. m_alloc m k \<noteq> 0)"

text \<open>A free slot holds nothing to go on with.\<close>

definition good :: "nat \<Rightarrow> sched \<Rightarrow> (node \<Rightarrow> node list) \<Rightarrow> bool" where
  "good n s L \<longleftrightarrow> ok n s L \<and> (\<forall>c p. Co c \<in> set (L HFree) \<longrightarrow> ctx s c \<noteq> Saved p)"

lemma good_ok: "good n s L \<Longrightarrow> ok n s L"
  by (simp add: good_def)

lemma forget_simps [simp]:
  "heap (forget s) = heap s" "currentCoro (forget s) = currentCoro s" "clock (forget s) = clock s"
  "sleepQueue (forget s) = sleepQueue s" "loop (forget s) = loop s" "isRunning (forget s) = isRunning s"
  "loopLastRun (forget s) = loopLastRun s" "resumeQueue (forget s) = resumeQueue s" "switched (forget s) = switched s"
  "(forget s)\<lparr>ctx := k\<rparr> = s\<lparr>ctx := k\<rparr>"
  by (simp_all add: forget_def)

lemma forget_upd:
  "forget (s\<lparr>heap := h\<rparr>) = (forget s)\<lparr>heap := h\<rparr>" "forget (s\<lparr>ctx := k\<rparr>) = forget s"
  "forget (s\<lparr>clock := t\<rparr>) = (forget s)\<lparr>clock := t\<rparr>" "forget (s\<lparr>sleepQueue := q\<rparr>) = (forget s)\<lparr>sleepQueue := q\<rparr>"
  "forget (s\<lparr>resumeQueue := q'\<rparr>) = (forget s)\<lparr>resumeQueue := q'\<rparr>" "forget (s\<lparr>isRunning := b\<rparr>) = (forget s)\<lparr>isRunning := b\<rparr>"
  "forget (s\<lparr>currentCoro := c\<rparr>) = (forget s)\<lparr>currentCoro := c\<rparr>" "forget (s\<lparr>switched := cs\<rparr>) = (forget s)\<lparr>switched := cs\<rparr>"
  "forget (s\<lparr>loopLastRun := t'\<rparr>) = (forget s)\<lparr>loopLastRun := t'\<rparr>"
  by (simp_all add: forget_def)

text \<open>Moving a coroutine looks at the lists only.\<close>

lemma moveTo_eq:
  "moveTo b c s = (case Option.bind (IntrusiveListRemove (Co c) (heap s)) (IntrusiveListInsert b (Co c)) of
     None \<Rightarrow> Inl NullPointer | Some h \<Rightarrow> Inr (s\<lparr>heap := h\<rparr>))"
  by (simp add: moveTo_def heap_op_def split: option.splits bind_split)

lemma moveTo_heap:
  assumes "moveTo b c s = Inr (s\<lparr>heap := h\<rparr>)" "heap t = heap s"
  shows "moveTo b c t = Inr (t\<lparr>heap := h\<rparr>)"
proof -
  from assms(1) obtain h' where h': "Option.bind (IntrusiveListRemove (Co c) (heap s)) (IntrusiveListInsert b (Co c)) = Some h'"
    "s\<lparr>heap := h'\<rparr> = s\<lparr>heap := h\<rparr>" unfolding moveTo_eq by (auto split: option.splits)
  have "h' = h" using arg_cong [OF h'(2), of heap] by simp
  with h'(1) assms(2) show ?thesis by (simp add: moveTo_eq)
qed

lemma good_leave:
  assumes "good n s L" "currentCoro s = Some c" "b \<in> Heads" "\<And>p. k = Saved p \<Longrightarrow> valid_acts n p"
    and "b = HFree \<Longrightarrow> \<forall>p. k \<noteq> Saved p"
  shows "\<exists>h. moveTo b c s = Inr (s\<lparr>heap := h\<rparr>) \<and> leave b k s = Inr (s\<lparr>heap := h, ctx := (ctx s)(c := k)\<rparr>) \<and>
    good n (s\<lparr>heap := h, ctx := (ctx s)(c := k)\<rparr>) (mv b (Co c) L)"
proof -
  note o = good_ok [OF assms(1)]
  from o assms(2) have c: "c < n" by (simp add: ok_def)
  from moveTo_ok [OF o c assms(3)] obtain h where h: "moveTo b c s = Inr (s\<lparr>heap := h\<rparr>)" by blast
  from leave_ok [OF o assms(2-4)] obtain h' where
    h': "leave b k s = Inr (s\<lparr>heap := h', ctx := (ctx s)(c := k)\<rparr>)"
    "ok n (s\<lparr>heap := h', ctx := (ctx s)(c := k)\<rparr>) (mv b (Co c) L)" by blast
  from h h'(1) assms(2) have "s\<lparr>heap := h, ctx := (ctx s)(c := k)\<rparr> = s\<lparr>heap := h', ctx := (ctx s)(c := k)\<rparr>"
    by (simp add: leave_def)
  then have "heap (s\<lparr>heap := h, ctx := (ctx s)(c := k)\<rparr>) = heap (s\<lparr>heap := h', ctx := (ctx s)(c := k)\<rparr>)" by (rule arg_cong)
  then have [simp]: "h' = h" by simp
  have "good n (s\<lparr>heap := h, ctx := (ctx s)(c := k)\<rparr>) (mv b (Co c) L)"
    using h'(2) assms(1,5) by (auto simp: good_def in_mv [OF ok_part [OF o]] split: if_splits)
  with h h'(1) show ?thesis by auto
qed

section \<open>The jumps implement the lists\<close>

text \<open>The jump with which a coroutine stops running.\<close>

lemma jump_back:
  assumes "related {c} s m" "m_store m (From c) = Some k" "cpu_step m = jump_fcontext (Ctx c) (From c) rest m"
    and "ctx_code c K = Some rest"
  shows "\<exists>m'. goes m (Inr m') \<and> related {} (s\<lparr>ctx := (ctx s)(c := K)\<rparr>) m' \<and> m_code m' = k"
proof -
  let ?m = "m\<lparr>m_store := (m_store m)(Ctx c := Some rest), m_code := k\<rparr>"
  have "cpu_step m = Inr ?m" using assms(2,3) by (simp add: jump_fcontext_def)
  from goes_one [OF this] assms(1,4) show ?thesis
    by (intro exI [of _ ?m]) (simp add: related_def forget_upd)
qed

lemma stop_sim:
  assumes g: "good n s L" and cur: "currentCoro s = Some c" and b: "b \<in> Heads"
    and v: "\<And>p. K = Saved p \<Longrightarrow> valid_acts n p" "b = HFree \<Longrightarrow> \<forall>p. K \<noteq> Saved p"
    and m: "related {c} s (m\<lparr>m_sched := forget s\<rparr>)" "m_store m (From c) = Some k" "ctx_code c K = Some rest"
    and st: "cpu_step m = on_sched (moveTo b c) (j # rest) (m\<lparr>m_sched := forget s\<rparr>)"
      "j = ISwitchBack \<or> j = IJump (Ctx c) (From c)"
  shows "\<exists>s' L' m'. leave b K s = Inr s' \<and> good n s' L' \<and> goes m (Inr m') \<and> related {} s' m' \<and> m_code m' = k"
proof -
  from good_leave [OF g cur b v] obtain h where
    h: "moveTo b c s = Inr (s\<lparr>heap := h\<rparr>)" "leave b K s = Inr (s\<lparr>heap := h, ctx := (ctx s)(c := K)\<rparr>)"
    "good n (s\<lparr>heap := h, ctx := (ctx s)(c := K)\<rparr>) (mv b (Co c) L)" by blast
  let ?m = "m\<lparr>m_sched := (forget s)\<lparr>heap := h\<rparr>, m_code := j # rest\<rparr>"
  have 1: "cpu_step m = Inr ?m" using st(1) moveTo_heap [OF h(1), of "forget s"] by (simp add: on_sched_def)
  have r: "related {c} (s\<lparr>heap := h\<rparr>) ?m" using m(1) by (simp add: related_def forget_upd)
  have "cpu_step ?m = jump_fcontext (Ctx c) (From c) rest ?m"
    using st(2) cur by (auto simp: cpu_step_def switchBack_def)
  from jump_back [OF r _ this m(3)] m(2) obtain m' where
    "goes ?m (Inr m')" "related {} (s\<lparr>heap := h, ctx := (ctx s)(c := K)\<rparr>) m'" "m_code m' = k" by auto
  with goes_step [OF 1] h(2,3) show ?thesis by blast
qed

text \<open>Adding a coroutine: the new stack is entered and left once.\<close>

lemma add_sim:
  assumes g: "good n s L" and f: "valid_acts n f" and m: "related X s m" "m_code m = IAct (AAdd f) # k"
    and X: "\<forall>c\<in>X. Co c \<notin> set (L HFree)"
  shows "\<exists>s' b L' m'. Scheduler_addCoroutine f s = Inr (s', b) \<and> good n s' L' \<and> goes m (Inr m') \<and> related X s' m' \<and>
    m_code m' = k \<and> currentCoro s' = currentCoro s \<and>
    (\<forall>c\<in>X. Co c \<notin> set (L' HFree) \<and> m_store m' (From c) = m_store m (From c))"
proof -
  note o = good_ok [OF g]
  have fr: "IntrusiveListFront HFree (heap (m_sched m)) = (case L HFree of [] \<Rightarrow> None | x # _ \<Rightarrow> Some x)"
    using m(1) part_front [OF ok_part [OF o]] by (simp add: related_def)
  from Scheduler_addCoroutine_ok [OF o f] show ?thesis
  proof (elim disjE exE conjE)
    assume "L HFree = []" "Scheduler_addCoroutine f s = Inr (s, False)"
    moreover from this fr m(2) have "cpu_step m = Inr (m\<lparr>m_code := k\<rparr>)" by (simp add: cpu_step_def addCoroutine_def)
    from goes_one [OF this] have "goes m (Inr (m\<lparr>m_code := k\<rparr>))" .
    moreover have "related X s (m\<lparr>m_code := k\<rparr>)" using m(1) by (simp add: related_def)
    ultimately show ?thesis using g X by fastforce
  next
    fix c h
    let ?s = "s\<lparr>heap := h, ctx := (ctx s)(c := Saved f)\<rparr>"
    assume c: "hd (L HFree) = Co c" "Co c \<in> set (L HFree)" "Scheduler_addCoroutine f s = Inr (?s, True)"
      "ok n ?s (mv HYield (Co c) L)" "c < n"
    then have fc: "IntrusiveListFront HFree (heap (m_sched m)) = Some (Co c)" using fr by (cases "L HFree") auto
    from c(2) X have nX: "c \<notin> X" by blast
    have mt: "moveTo HYield c t = Inr (t\<lparr>heap := h\<rparr>)" if t: "heap t = heap s" for t
    proof -
      from moveTo_ok [OF o c(5), of HYield] obtain h' where h': "moveTo HYield c s = Inr (s\<lparr>heap := h'\<rparr>)" by auto
      have "Scheduler_addCoroutine f s = Inr ((CoroutineInfo_registerFunc c f s)\<lparr>heap := h'\<rparr>, True)"
        using fc m(1) moveTo_heap [OF h', of "CoroutineInfo_registerFunc c f s"]
        by (simp add: Scheduler_addCoroutine_def related_def CoroutineInfo_registerFunc_def)
      with c(3) have "heap ?s = heap ((CoroutineInfo_registerFunc c f s)\<lparr>heap := h'\<rparr>)" by (metis Inr_inject fst_conv)
      then show ?thesis using moveTo_heap [OF h' t] by simp
    qed
    let ?sp = "m_stacks m @ [default_stack (m_alloc m (length (m_stacks m)))]"
    let ?rest = "map IAct f @ after_func c"
    let ?k = "IMoveToYield c # k"
    let ?m1 = "m\<lparr>m_stacks := ?sp, m_store := (m_store m)(Ctx c := Some (CoroutineInfo_initContext c f), From c := Some ?k),
      m_code := CoroutineInfo_initContext c f\<rparr>"
    let ?m2 = "m\<lparr>m_stacks := ?sp, m_store := (m_store m)(Ctx c := Some ?rest, From c := Some ?k), m_code := ?k\<rparr>"
    let ?m3 = "?m2\<lparr>m_sched := (m_sched m)\<lparr>heap := h\<rparr>, m_code := k\<rparr>"
    have al: "m_alloc m i \<noteq> 0" for i using m(1) by (simp add: related_def)
    have 1: "cpu_step m = Inr ?m1"
      using m(2) fc al by (simp add: cpu_step_def addCoroutine_def registerFunc_def jump_fcontext_def Let_def)
    have 2: "cpu_step ?m1 = Inr ?m2"
      by (simp add: cpu_step_def CoroutineInfo_initContext_def jump_fcontext_def fun_upd_twist [of "Ctx c"])
    have 3: "cpu_step ?m2 = Inr ?m3" using mt [of "m_sched m"] m(1) by (simp add: cpu_step_def on_sched_def related_def)
    have "goes m (Inr ?m3)" by (rule goes_step [OF 1 goes_step [OF 2 goes_one [OF 3]]])
    moreover have "related X ?s ?m3" using m(1) nX by (simp add: related_def forget_upd)
    moreover have "good n ?s (mv HYield (Co c) L)"
      using c(4) g by (auto simp: good_def in_mv [OF ok_part [OF o]] split: if_splits)
    moreover have "\<forall>d\<in>X. Co d \<notin> set (mv HYield (Co c) L HFree) \<and> m_store ?m3 (From d) = m_store m (From d)"
      using X nX by (auto simp: in_mv [OF ok_part [OF o]] split: if_splits)
    ultimately show ?thesis using c(3)
      by (intro exI [of _ ?s] exI [of _ True] exI [of _ "mv HYield (Co c) L"] exI [of _ ?m3]) simp
  qed
qed

text \<open>A coroutine that runs, up to the jump that ends its turn.\<close>

lemma dropWhile_is_act: "dropWhile is_act (map IAct p @ after_func c) = after_func c"
  by (induction p) (simp_all add: after_func_def)

lemma run_sim:
  assumes "good n s L" "currentCoro s = Some c" "Co c \<notin> set (L HFree)" "valid_acts n p" "related {c} s m"
    and "m_code m = map IAct p @ after_func c" "m_store m (From c) = Some k"
  shows "\<exists>s' L' m'. CoroutineInfo_run p s = Inr s' \<and> good n s' L' \<and> goes m (Inr m') \<and> related {} s' m' \<and> m_code m' = k"
  using assms
proof (induction p arbitrary: s L m)
  case Nil
  have r: "related {c} s (m\<lparr>m_sched := forget s\<rparr>)" "m\<lparr>m_sched := forget s\<rparr> = m" using Nil.prems(5) by (simp_all add: related_def)
  have "cpu_step m = on_sched (moveTo HFree c) (IJump (Ctx c) (From c) # [IAssertFalse]) m"
    using Nil.prems(6) by (simp add: cpu_step_def after_func_def)
  with stop_sim [OF Nil.prems(1,2), of HFree Ended m k "[IAssertFalse]"] r Nil.prems(7) show ?case by simp
next
  case (Cons x p)
  note g = Cons.prems(1) and cur = Cons.prems(2)
  have ms: "m_sched m = forget s" using Cons.prems(5) by (simp add: related_def)
  have r: "related {c} s (m\<lparr>m_sched := forget s\<rparr>)" "m\<lparr>m_sched := forget s\<rparr> = m" using Cons.prems(5) by (simp_all add: related_def)
  have step: "cpu_step m = act_step x (map IAct p @ after_func c) m" using Cons.prems(6) by (simp add: cpu_step_def)
  have vp: "valid_acts n p" using Cons.prems(4) by (cases x) simp_all
  have yield: ?case if "x = AYield \<and> b = HYield \<or> x = ASuspend \<and> b = HSuspend" for b
  proof -
    have "cpu_step m = on_sched (moveTo b c) (ISwitchBack # (map IAct p @ after_func c)) m"
      using that step ms cur by (auto simp: on_sched_def on_current_def)
    with stop_sim [OF g cur, of b "Saved p" m k "map IAct p @ after_func c"] r vp Cons.prems(7) that show ?thesis
      by (auto simp: Scheduler_yield_def Scheduler_suspend_def)
  qed
  show ?case
  proof (cases x)
    case AYield
    with yield show ?thesis by blast
  next
    case ASuspend
    with yield show ?thesis by blast
  next
    case (ASleep ms')
    let ?s = "s\<lparr>sleepQueue := insort (clock s + ms', c) (sleepQueue s)\<rparr>"
    have o: "ok n ?s L" using good_ok [OF g] cur by (auto simp: ok_def queued_def set_insort_key sorted_insort)
    have g': "good n ?s L" using o g by (simp add: good_def)
    have "related {c} ?s (m\<lparr>m_sched := forget ?s\<rparr>)" using Cons.prems(5) by (simp add: related_def)
    moreover have "cpu_step m = on_sched (moveTo HSuspend c) (ISwitchBack # (map IAct p @ after_func c)) (m\<lparr>m_sched := forget ?s\<rparr>)"
      using ASleep step ms cur by (simp add: on_sched_def on_current_def forget_upd)
    ultimately show ?thesis
      using stop_sim [OF g', of c HSuspend "Saved p" m k "map IAct p @ after_func c"] cur vp Cons.prems(7) ASleep
      by (simp add: Scheduler_sleep_def Scheduler_suspend_def)
  next
    case (AResume d)
    let ?s = "Scheduler_resume d s" and ?m = "m\<lparr>m_sched := forget (Scheduler_resume d s), m_code := map IAct p @ after_func c\<rparr>"
    have "ok n ?s L" using good_ok [OF g] Cons.prems(4) AResume by (auto simp: ok_def queued_def Scheduler_resume_def)
    then have "good n ?s L" using g by (simp add: good_def Scheduler_resume_def)
    moreover have "related {c} ?s ?m" using Cons.prems(5) by (simp add: related_def Scheduler_resume_def)
    moreover have "currentCoro ?s = Some c" using cur by (simp add: Scheduler_resume_def)
    moreover have "cpu_step m = Inr ?m" using AResume step ms by (simp add: on_sched_def Scheduler_resume_def forget_upd)
    ultimately show ?thesis
      using Cons.IH [of ?s L ?m] Cons.prems(3,7) vp goes_step [of m ?m] AResume by auto
  next
    case (AAdd f)
    have f: "valid_acts n f" and X: "\<forall>d\<in>{c}. Co d \<notin> set (L HFree)" using Cons.prems(3,4) AAdd by simp_all
    have mc: "m_code m = IAct (AAdd f) # (map IAct p @ after_func c)" using Cons.prems(6) AAdd by simp
    from add_sim [OF g f Cons.prems(5) mc X] obtain s1 b L1 m1 where
      1: "Scheduler_addCoroutine f s = Inr (s1, b)" "good n s1 L1" "goes m (Inr m1)" "related {c} s1 m1"
      "m_code m1 = map IAct p @ after_func c" "currentCoro s1 = Some c" "Co c \<notin> set (L1 HFree)"
      "m_store m1 (From c) = Some k" using cur Cons.prems(7) by auto
    from Cons.IH [OF 1(2,6,7) vp 1(4,5,8)] goes_trans [OF 1(3)] 1(1) AAdd show ?thesis by auto
  next
    case AThrow
    let ?m = "m\<lparr>m_code := after_func c\<rparr>"
    have "cpu_step m = Inr ?m" using AThrow step by (simp add: dropWhile_is_act)
    moreover have "related {c} s (?m\<lparr>m_sched := forget s\<rparr>)" "?m\<lparr>m_sched := forget s\<rparr> = ?m"
      using Cons.prems(5) by (simp_all add: related_def)
    moreover have "cpu_step ?m = on_sched (moveTo HFree c) (IJump (Ctx c) (From c) # [IAssertFalse]) ?m"
      by (simp add: cpu_step_def after_func_def)
    ultimately show ?thesis
      using stop_sim [OF g cur, of HFree Ended ?m k "[IAssertFalse]" "IJump (Ctx c) (From c)"] Cons.prems(7)
        goes_step [of m ?m] AThrow by auto
  next
    case (AElapse d)
    let ?s = "s\<lparr>clock := clock s + int d\<rparr>"
    let ?m = "m\<lparr>m_sched := forget ?s, m_code := map IAct p @ after_func c\<rparr>"
    have "ok n ?s L" using good_ok [OF g] by (simp add: ok_def queued_def)
    then have "good n ?s L" using g by (simp add: good_def)
    moreover have "related {c} ?s ?m" using Cons.prems(5) by (simp add: related_def)
    moreover have "cpu_step m = Inr ?m" using AElapse step ms by (simp add: on_sched_def forget_upd)
    ultimately show ?thesis
      using Cons.IH [of ?s L ?m] Cons.prems(2,3,7) vp goes_step [of m ?m] AElapse by auto
  qed
qed

text \<open>Switching to a coroutine; the scheduler goes on with \<open>k\<close>, or the program aborts.\<close>

lemma switchTo_sim:
  assumes g: "good n s L" and c: "c < n" and m: "related {} s m" "m_code m = switchTo c @ k"
  shows "(CoroutineInfo_switchTo c s = Inl BadContext \<and> goes m (Inl BadContext)) \<or>
    (\<exists>s' L' m'. CoroutineInfo_switchTo c s = Inr s' \<and> good n s' L' \<and> goes m (Inr m') \<and> related {} s' m' \<and> m_code m' = k)"
proof -
  let ?s = "s\<lparr>currentCoro := Some c, switched := switched s @ [c]\<rparr>"
  let ?m1 = "m\<lparr>m_sched := forget ?s, m_code := IJump (From c) (Ctx c) # k\<rparr>"
  let ?m2 = "\<lambda>x. ?m1\<lparr>m_store := (m_store m)(From c := Some k), m_code := x\<rparr>"
  have ms: "m_sched m = forget s" and st: "m_store m (Ctx c) = ctx_code c (ctx s c)" using m(1) by (simp_all add: related_def)
  have 1: "cpu_step m = Inr ?m1" using m(2) ms by (simp add: cpu_step_def switchTo_def on_sched_def forget_upd)
  show ?thesis
  proof (cases "ctx s c")
    case NoContext
    with st have "cpu_step ?m1 = Inl BadContext" by (simp add: cpu_step_def jump_fcontext_def)
    with NoContext goes_step [OF 1 goes_one] show ?thesis by (simp add: CoroutineInfo_switchTo_def)
  next
    case Ended
    with st have 2: "cpu_step ?m1 = Inr (?m2 [IAssertFalse])" by (simp add: cpu_step_def jump_fcontext_def)
    have "cpu_step (?m2 [IAssertFalse]) = Inl BadContext" by (simp add: cpu_step_def)
    with Ended goes_step [OF 1 goes_step [OF 2 goes_one]] show ?thesis by (simp add: CoroutineInfo_switchTo_def)
  next
    case (Saved p)
    let ?m = "?m2 (map IAct p @ after_func c)"
    from st Saved have 2: "cpu_step ?m1 = Inr ?m" by (simp add: cpu_step_def jump_fcontext_def)
    have "ok n ?s L" using good_ok [OF g] c by (auto simp: ok_def queued_def)
    then have "good n ?s L" using g by (simp add: good_def)
    moreover have "Co c \<notin> set (L HFree)" using g Saved by (auto simp: good_def)
    moreover have "valid_acts n p" using good_ok [OF g] Saved by (auto simp: ok_def)
    moreover have "related {c} ?s ?m" using m(1) by (simp add: related_def)
    ultimately obtain s' L' m' where
      "CoroutineInfo_run p ?s = Inr s'" "good n s' L'" "goes ?m (Inr m')" "related {} s' m'" "m_code m' = k"
      using run_sim [of n ?s L c p ?m k] by auto
    with Saved goes_step [OF 1 goes_step [OF 2]] show ?thesis by (auto simp: CoroutineInfo_switchTo_def)
  qed
qed

section \<open>The scheduler's thread\<close>

text \<open>The machine ends a piece of work as the model of the scheduler does, and goes on with \<open>k\<close>.\<close>

definition agrees :: "nat \<Rightarrow> instr list \<Rightarrow> sched result \<Rightarrow> cpu \<Rightarrow> bool" where
  "agrees n k r m \<longleftrightarrow>
     (case r of
        Inl f \<Rightarrow> goes m (Inl f)
      | Inr s \<Rightarrow> \<exists>m' L. goes m (Inr m') \<and> related {} s m' \<and> m_code m' = k \<and> good n s L)"

lemma agrees_Inr: "goes m (Inr m') \<Longrightarrow> related {} s m' \<Longrightarrow> m_code m' = k \<Longrightarrow> good n s L \<Longrightarrow> agrees n k (Inr s) m"
  by (auto simp: agrees_def)

lemma agrees_goes: "goes m (Inr m') \<Longrightarrow> agrees n k r m' \<Longrightarrow> agrees n k r m"
  by (cases r) (auto simp: agrees_def intro: goes_trans)

lemma agrees_bind:
  assumes "agrees n j r m"
    and "\<And>s L m'. r = Inr s \<Longrightarrow> good n s L \<Longrightarrow> related {} s m' \<Longrightarrow> m_code m' = j \<Longrightarrow> agrees n k (f s) m'"
  shows "agrees n k (rbind r f) m"
proof (cases r)
  case (Inr s)
  with assms(1) obtain m' L where "goes m (Inr m')" "related {} s m'" "m_code m' = j" "good n s L"
    by (auto simp: agrees_def)
  with Inr assms(2) [of s L m'] show ?thesis by (auto intro: agrees_goes)
qed (use assms(1) in \<open>simp add: agrees_def\<close>)

text \<open>A step on the scheduler alone.\<close>

lemma sched_sim:
  assumes "related {} s m" "cpu_step m = Inr (m\<lparr>m_sched := forget s', m_code := k\<rparr>)" "good n s' L" "ctx s' = ctx s"
  shows "agrees n k (Inr s') m"
  by (rule agrees_Inr [OF goes_one [OF assms(2)] _ _ assms(3)]) (use assms(1,4) in \<open>simp_all add: related_def\<close>)

lemma moveTo_forget: "moveTo b c s = Inr s' \<Longrightarrow> moveTo b c (forget s) = Inr (forget s')"
  by (auto simp: moveTo_eq forget_upd split: option.splits)

lemma moveTo_all_forget: "fold_r (moveTo b) cs s = Inr s' \<Longrightarrow> fold_r (moveTo b) cs (forget s) = Inr (forget s')"
  by (induction cs arbitrary: s) (auto simp: rbind_Inr dest: moveTo_forget)

lemma wakeUpSleep_forget: "Scheduler_wakeUpSleep (forget s) = forget (Scheduler_wakeUpSleep s)"
  by (simp add: Scheduler_wakeUpSleep_eq forget_upd sleepers_due_def)

lemma drainResume_forget: "drainResume s = Inr s' \<Longrightarrow> drainResume (forget s) = Inr (forget s')"
  unfolding drainResume_def using moveTo_all_forget [of HResume "resumeQueue s" "s\<lparr>resumeQueue := []\<rparr>" s']
  by (simp add: forget_upd)

lemma resume_all_sim:
  assumes "good n s L" "related {} s m" "m_code m = IResumeAll # k"
  shows "agrees n k (drainResume (Scheduler_wakeUpSleep s)) m"
proof -
  let ?s = "Scheduler_wakeUpSleep s"
  have w: "ok n ?s L" "ctx ?s = ctx s" using wakeUpSleep_ok(1) [OF good_ok [OF assms(1)]] by (simp_all add: Scheduler_wakeUpSleep_eq)
  have "ok n (?s\<lparr>resumeQueue := []\<rparr>) L" "\<forall>c\<in>set (resumeQueue ?s). c < n" using w(1) by (auto simp: ok_def queued_def)
  from moveTo_all_ok [OF this] obtain s' L' where
    d: "drainResume ?s = Inr s'" "ok n s' L'" "s' = ?s\<lparr>resumeQueue := [], heap := heap s'\<rparr>"
    "\<forall>a\<in>Heads - {HResume}. set (L' a) = set (L a) - Co ` set (resumeQueue ?s)" unfolding drainResume_def by auto
  have c: "ctx s' = ctx s" by (subst d(3)) (simp add: w(2))
  have "good n s' L'" using assms(1) d(2,4) c by (auto simp: good_def)
  moreover have "cpu_step m = Inr (m\<lparr>m_sched := forget s', m_code := k\<rparr>)"
    using assms(2,3) drainResume_forget [OF d(1)]
    by (simp add: cpu_step_def on_sched_def related_def wakeUpSleep_forget)
  ultimately show ?thesis using sched_sim [OF assms(2)] c d(1) by simp
qed

text \<open>Running the coroutines of a list.\<close>

lemma switch_all_sim:
  assumes "good n s L" "\<forall>c\<in>set cs. c < n" "related {} s m" "m_code m = map (ISwitchTo \<circ> Co) cs @ k"
  shows "agrees n k (fold_r switch_node (map Co cs) s) m"
  using assms
proof (induction cs arbitrary: s L m)
  case Nil
  then show ?case using agrees_Inr [OF goes_here] by simp
next
  case (Cons c cs)
  let ?j = "map (ISwitchTo \<circ> Co) cs @ k"
  let ?m = "m\<lparr>m_code := switchTo c @ ?j\<rparr>"
  have st: "cpu_step m = Inr ?m" using Cons.prems(4) by (simp add: cpu_step_def)
  have m: "related {} s ?m" "m_code ?m = switchTo c @ ?j" using Cons.prems(3) by (simp_all add: related_def)
  have c: "c < n" using Cons.prems(2) by simp
  from switchTo_sim [OF Cons.prems(1) c m] have "agrees n ?j (CoroutineInfo_switchTo c s) ?m"
    by (elim disjE exE conjE) (simp add: agrees_def, simp add: agrees_Inr)
  then have "agrees n ?j (CoroutineInfo_switchTo c s) m" by (rule agrees_goes [OF goes_one [OF st]])
  then have "agrees n k (rbind (CoroutineInfo_switchTo c s) (fold_r switch_node (map Co cs))) m"
    by (rule agrees_bind) (use Cons.IH Cons.prems(2) in auto)
  then show ?case by simp
qed

lemma run_all_sim:
  assumes "good n s L" "a \<in> Heads" "related {} s m" "m_code m = IRunAll a # k"
  shows "agrees n k (runAll a s) m"
proof -
  note p = ok_part [OF good_ok [OF assms(1)]]
  from part_slots [OF p assms(2)] obtain cs where cs: "L a = map Co cs" "\<forall>c\<in>set cs. c < n" by blast
  let ?m = "m\<lparr>m_code := map (ISwitchTo \<circ> Co) cs @ k\<rparr>"
  have ns: "IntrusiveListGetAllNodes a (heap s) = Some (map Co cs)" using part_nodes [OF p assms(2)] cs(1) by simp
  then have "cpu_step m = Inr ?m" using assms(3,4) by (simp add: cpu_step_def related_def)
  moreover have "related {} s ?m" using assms(3) by (simp add: related_def)
  ultimately have "agrees n k (fold_r switch_node (map Co cs) s) m"
    using switch_all_sim [OF assms(1) cs(2), of ?m k] by (auto intro: agrees_goes goes_one)
  then show ?thesis by (simp add: runAll_def ns)
qed

text \<open>Calls from outside, and whole turns.\<close>

lemma ext_sim:
  assumes "good n s L" "valid_ext n e" "related {} s m" "m_code m = IAct (ext_act e) # k"
  shows "agrees n k (ext_op e s) m"
proof (cases e)
  case (EAdd f)
  with assms(2,4) have f: "valid_acts n f" "m_code m = IAct (AAdd f) # k" by simp_all
  from add_sim [OF assms(1) f(1) assms(3) f(2)] EAdd show ?thesis by (auto intro: agrees_Inr)
next
  case (EResume c)
  have "good n (Scheduler_resume c s) L"
    using assms(1,2) EResume by (auto simp: good_def ok_def queued_def Scheduler_resume_def)
  moreover have "cpu_step m = Inr (m\<lparr>m_sched := forget (Scheduler_resume c s), m_code := k\<rparr>)"
    using assms(3,4) EResume by (simp add: cpu_step_def on_sched_def related_def Scheduler_resume_def forget_upd)
  ultimately show ?thesis using sched_sim [OF assms(3)] EResume by (simp add: Scheduler_resume_def)
next
  case (EElapse d)
  let ?s = "s\<lparr>clock := clock s + int d\<rparr>"
  have "good n ?s L" using assms(1) by (simp add: good_def ok_def queued_def)
  moreover have "cpu_step m = Inr (m\<lparr>m_sched := forget ?s, m_code := k\<rparr>)"
    using assms(3,4) EElapse by (simp add: cpu_step_def on_sched_def related_def forget_upd)
  ultimately show ?thesis using sched_sim [OF assms(3)] EElapse by simp
qed

lemma exts_sim:
  assumes "good n s L" "list_all (valid_ext n) es" "related {} s m" "m_code m = map (IAct \<circ> ext_act) es @ k"
  shows "agrees n k (fold_r ext_op es s) m"
  using assms
proof (induction es arbitrary: s L m)
  case Nil
  then show ?case using agrees_Inr [OF goes_here] by simp
next
  case (Cons e es)
  have "agrees n (map (IAct \<circ> ext_act) es @ k) (ext_op e s) m"
    using ext_sim [OF Cons.prems(1) _ Cons.prems(3), of e] Cons.prems(2,4) by (simp add: comp_def)
  then have "agrees n k (rbind (ext_op e s) (fold_r ext_op es)) m"
    by (rule agrees_bind) (use Cons.IH Cons.prems(2) in auto)
  then show ?case by simp
qed

lemma turn_sim:
  assumes "good n s L" "list_all (valid_ext n) cbs" "related {} s m" "m_code m = ITurn cbs # k" "isRunning s"
  shows "agrees n k (Scheduler_turn cbs s) m"
proof -
  let ?turn = "[IResumeAll, IRunAll HResume, IRunAll HYield] @ k"
  have 1: "agrees n ?turn (if loop s \<and> clock s > loopLastRun s + 10
            then rbind (fold_r ext_op cbs s) (\<lambda>s. Inr (s\<lparr>loopLastRun := clock s\<rparr>)) else Inr s) m"
  proof (cases "loop s \<and> clock s > loopLastRun s + 10")
    case True
    let ?m = "m\<lparr>m_code := map (IAct \<circ> ext_act) cbs @ ILoopRan # ?turn\<rparr>"
    have "cpu_step m = Inr ?m" using True assms(3-5) by (simp add: cpu_step_def related_def)
    moreover have "related {} s ?m" using assms(3) by (simp add: related_def)
    ultimately have "agrees n (ILoopRan # ?turn) (fold_r ext_op cbs s) m"
      using exts_sim [OF assms(1,2), of ?m] by (auto intro: agrees_goes goes_one)
    then have "agrees n ?turn (rbind (fold_r ext_op cbs s) (\<lambda>s. Inr (s\<lparr>loopLastRun := clock s\<rparr>))) m"
    proof (rule agrees_bind)
      fix s1 L1 m1
      assume a: "good n s1 L1" "related {} s1 m1" "m_code m1 = ILoopRan # ?turn"
      have "good n (s1\<lparr>loopLastRun := clock s1\<rparr>) L1" using a(1) by (simp add: good_def ok_def queued_def)
      moreover have "cpu_step m1 = Inr (m1\<lparr>m_sched := forget (s1\<lparr>loopLastRun := clock s1\<rparr>), m_code := ?turn\<rparr>)"
        using a(2,3) by (simp add: cpu_step_def on_sched_def related_def forget_upd)
      ultimately show "agrees n ?turn (Inr (s1\<lparr>loopLastRun := clock s1\<rparr>)) m1" using sched_sim [OF a(2)] by simp
    qed
    with True show ?thesis by simp
  next
    case False
    let ?m = "m\<lparr>m_code := ?turn\<rparr>"
    have "cpu_step m = Inr ?m" using False assms(3-5) by (auto simp: cpu_step_def related_def)
    moreover have "related {} s ?m" using assms(3) by (simp add: related_def)
    ultimately show ?thesis using False agrees_Inr [OF goes_one [of m "Inr ?m"], of s] assms(1) by auto
  qed
  show ?thesis unfolding Scheduler_turn_def
  proof (rule agrees_bind [OF 1])
    fix s1 L1 m1
    assume "good n s1 L1" "related {} s1 m1" "m_code m1 = ?turn"
    then have 2: "agrees n (IRunAll HResume # IRunAll HYield # k) (drainResume (Scheduler_wakeUpSleep s1)) m1"
      by (intro resume_all_sim) simp_all
    have 3: "agrees n (IRunAll HYield # k) (runAll HResume s2) m2"
      if "good n s2 L2" "related {} s2 m2" "m_code m2 = IRunAll HResume # IRunAll HYield # k" for s2 L2 m2
      by (rule run_all_sim [OF that(1) _ that(2,3)]) simp
    have 4: "agrees n k (runAll HYield s3) m3"
      if "good n s3 L3" "related {} s3 m3" "m_code m3 = IRunAll HYield # k" for s3 L3 m3
      by (rule run_all_sim [OF that(1) _ that(2,3)]) simp
    show "agrees n k (rbind (drainResume (Scheduler_wakeUpSleep s1)) (\<lambda>s. rbind (runAll HResume s) (runAll HYield))) m1"
      by (rule agrees_bind [OF 2], rule agrees_bind, erule (2) 3) (erule (2) 4)
  qed
qed

lemma exec_sim:
  assumes "good n s L" "valid_op n x" "related {} s m" "m_code m = op_code x # k"
  shows "agrees n k (sched_exec x s) m"
proof (cases x)
  case (OTurn cbs)
  show ?thesis
  proof (cases "isRunning s")
    case True
    with OTurn turn_sim [OF assms(1) _ assms(3), of cbs k] assms(2,4) show ?thesis by simp
  next
    case False
    let ?m = "m\<lparr>m_code := k\<rparr>"
    have "cpu_step m = Inr ?m" using False assms(3,4) OTurn by (simp add: cpu_step_def related_def)
    moreover have "related {} s ?m" using assms(3) by (simp add: related_def)
    ultimately show ?thesis using False OTurn agrees_Inr [OF goes_one [of m "Inr ?m"], of s] assms(1) by auto
  qed
next
  case (OExt e)
  with ext_sim [OF assms(1) _ assms(3), of e k] assms(2,4) show ?thesis by simp
next
  case OStop
  have "good n (Scheduler_stop s) L"
    using assms(1) by (simp add: good_def ok_def queued_def Scheduler_stop_def)
  moreover have "cpu_step m = Inr (m\<lparr>m_sched := forget (Scheduler_stop s), m_code := k\<rparr>)"
    using assms(3,4) OStop by (simp add: cpu_step_def on_sched_def related_def Scheduler_stop_def forget_upd)
  ultimately show ?thesis using sched_sim [OF assms(3)] OStop by (simp add: Scheduler_stop_def)
qed

lemma history_sim:
  assumes "good n s L" "list_all (valid_op n) ops" "related {} s m" "m_code m = map op_code ops"
  shows "agrees n [] (Scheduler_run ops s) m"
  using assms unfolding Scheduler_run_def
proof (induction ops arbitrary: s L m)
  case Nil
  then show ?case using agrees_Inr [OF goes_here] by simp
next
  case (Cons x ops)
  have "agrees n (map op_code ops) (sched_exec x s) m"
    using exec_sim [OF Cons.prems(1) _ Cons.prems(3)] Cons.prems(2,4) by simp
  then have "agrees n [] (rbind (sched_exec x s) (fold_r sched_exec ops)) m"
    by (rule agrees_bind) (use Cons.IH Cons.prems(2) in auto)
  then show ?case by simp
qed

lemma good_new: "\<exists>s. Scheduler_new n lp now = Inr s \<and> good n s (all_free n) \<and> ctx s = (\<lambda>_. NoContext)"
  using Scheduler_new_ok [of n lp now] Scheduler_new_start [of n lp now] by (auto simp: good_def)

section \<open>Properties\<close>

text \<open>
  C14.  The context switch does what the scheduler's model takes it to do.  For every history of turns and calls, with
  memory for the stacks, the machine that saves and jumps between contexts ends: if the model ends in a state, with
  the same lists, queues, clock and current coroutine, with the scheduler's own code finished, and with
  every slot's context holding exactly what its function has still to do; if the model ends in a fault, with that
  fault.
\<close>

theorem Coroutine_switch_refines:
  assumes "list_all (valid_op n) ops" "\<forall>k. al k \<noteq> 0" "Scheduler_new n lp now = Inr s0"
  shows "\<exists>k. case Scheduler_run ops s0 of
      Inl f \<Rightarrow> cpu_steps k (cpu_start al ops s0) = Inl f
    | Inr s \<Rightarrow> \<exists>m. cpu_steps k (cpu_start al ops s0) = Inr m \<and> m_code m = [] \<and>
        m_sched m = s\<lparr>ctx := (\<lambda>_. NoContext)\<rparr> \<and> (\<forall>c. m_store m (Ctx c) = ctx_code c (ctx s c))"
proof -
  from good_new [of n lp now] assms(3) have g: "good n s0 (all_free n)" "ctx s0 = (\<lambda>_. NoContext)" by auto
  then have "forget s0 = s0" by (simp add: forget_def)
  with assms(2) g(2) have "related {} s0 (cpu_start al ops s0)" by (simp add: related_def cpu_start_def)
  from history_sim [OF g(1) assms(1) this] have "agrees n [] (Scheduler_run ops s0) (cpu_start al ops s0)"
    by (simp add: cpu_start_def)
  then show ?thesis
    by (cases "Scheduler_run ops s0") (fastforce simp: agrees_def goes_def related_def forget_def)+
qed

theorem Coroutine_switch_refines_witness:
  "let ops = [OExt (EAdd [AYield, AAdd [ASuspend], AYield]), OTurn [], OTurn []] in
   \<exists>k s0 s m. Scheduler_new 2 False 0 = Inr s0 \<and> Scheduler_run ops s0 = Inr s \<and>
     cpu_steps k (cpu_start (\<lambda>_. 4096) ops s0) = Inr m \<and> m_code m = [] \<and>
     m_store m (Ctx 1) = Some [IEndFunc 1, IJump (Ctx 1) (From 1), IAssertFalse] \<and>
     m_store m (Ctx 0) = Some [IAct ASuspend, IEndFunc 0, IJump (Ctx 0) (From 0), IAssertFalse]"
proof -
  let ?ops = "[OExt (EAdd [AYield, AAdd [ASuspend], AYield]), OTurn [], OTurn []]"
  have v: "list_all (valid_op 2) ?ops" "\<forall>k. (\<lambda>_ :: nat. 4096 :: int) k \<noteq> 0" by simp_all
  have "case rbind (Scheduler_new 2 False 0) (Scheduler_run ?ops) of Inl _ \<Rightarrow> False
    | Inr s \<Rightarrow> ctx s 1 = Saved [] \<and> ctx s 0 = Saved [ASuspend]" by code_simp
  then obtain s0 s where s: "Scheduler_new 2 False 0 = Inr s0" "Scheduler_run ?ops s0 = Inr s"
    "ctx s 1 = Saved []" "ctx s 0 = Saved [ASuspend]"
    by (auto simp: rbind_def split: sum.splits)
  from Coroutine_switch_refines [OF v s(1)] s show ?thesis by (force simp: Let_def after_func_def)
qed

text \<open>
  Stacks are never given back: a scheduler of one slot that has run three coroutines to their ends, one after
  the other, holds three stacks of 128 KiB.
\<close>

theorem Coroutine_stacks_leak:
  "case rbind (Scheduler_new 1 False 0) (\<lambda>s. cpu_steps 60 (cpu_start (\<lambda>k. 4096 + 131072 * int k)
      [OExt (EAdd []), OTurn [], OExt (EAdd []), OTurn [], OExt (EAdd []), OTurn []] s)) of
     Inl _ \<Rightarrow> False
   | Inr m \<Rightarrow> m_code m = [] \<and> map st_size (m_stacks m) = replicate 3 DEFAULT_SIZE \<and>
     IntrusiveListGetAllNodes HFree (heap (m_sched m)) = Some [Co 0]"
  by code_simp

end
