(* ===== verification/Loop_Threads.thy ===== *)
theory Loop_Threads
  imports Prelude
begin

text \<open>
  The threads that run the loops: \<^verbatim>\<open>small_client/looper.h\<close>, the thread of
  \<^verbatim>\<open>grpc_looper.h\<close>, \<^verbatim>\<open>start\<close> and \<^verbatim>\<open>stop\<close> of
  \<^verbatim>\<open>coroutine_scheduler\<close>, and the thread of a \<^verbatim>\<open>BlockQueue\<close>.  What a loop does in a
  pass is modelled elsewhere; here it matters when the thread tests its stop flag, whether a pass returns,
  and what \<^verbatim>\<open>std::thread\<close> demands of its owner: a thread is joined once, and an object that has
  not been joined is neither destroyed nor assigned to, or the program ends (\<open>None\<close>).
\<close>

section \<open>A thread and its owner\<close>

text \<open>
  \<open>Unstarted\<close> is a null pointer or an empty thread object; \<open>Returned\<close> a thread whose function has returned
  and that nobody has joined.
\<close>

datatype thread = Unstarted | Live | Returned | Joined

fun joinable :: "thread \<Rightarrow> bool" where
  "joinable Live = True"
| "joinable Returned = True"
| "joinable _ = False"

text \<open>
  \<open>lo_in_pass\<close>: the thread is inside a pass, and not at the test of the flag; \<open>lo_joining\<close>: the owner waits in
  \<^verbatim>\<open>join\<close>; \<open>lo_passes\<close> counts the passes that returned.
\<close>

record looper =
  lo_thread :: thread
  lo_stop :: bool
  lo_in_pass :: bool
  lo_joining :: bool
  lo_passes :: nat

definition looper_new :: looper where
  "looper_new = \<lparr>lo_thread = Unstarted, lo_stop = False, lo_in_pass = False, lo_joining = False, lo_passes = 0\<rparr>"

definition thread_start :: "looper \<Rightarrow> looper option" where
  "thread_start l = (if joinable (lo_thread l) then None else Some (l\<lparr>lo_thread := Live, lo_in_pass := False\<rparr>))"

definition thread_join :: "looper \<Rightarrow> looper option" where
  "thread_join l = (if joinable (lo_thread l) then Some (l\<lparr>lo_joining := True\<rparr>) else None)"

section \<open>The loopers\<close>

definition Looper_Init :: "looper \<Rightarrow> looper option" where
  "Looper_Init = thread_start"

definition Looper_Shutdown :: "looper \<Rightarrow> looper option" where
  "Looper_Shutdown l = (if lo_thread l = Unstarted then Some l else thread_join (l\<lparr>lo_stop := True\<rparr>))"

text \<open>\<^verbatim>\<open>GrpcLooper::run\<close> and \<^verbatim>\<open>Shutdown\<close>.\<close>

definition GrpcLooper_start :: "looper \<Rightarrow> looper option" where
  "GrpcLooper_start = thread_start"

definition GrpcLooper_Shutdown :: "looper \<Rightarrow> looper option" where
  "GrpcLooper_Shutdown l = (if lo_thread l = Unstarted then Some l else thread_join (l\<lparr>lo_stop := True\<rparr>))"

text \<open>The scheduler's own thread; its destructor is the default one.\<close>

definition CoroutineScheduler_start :: "looper \<Rightarrow> looper option" where
  "CoroutineScheduler_start = thread_start"

definition CoroutineScheduler_stop :: "looper \<Rightarrow> looper option" where
  "CoroutineScheduler_stop l = thread_join (l\<lparr>lo_stop := True\<rparr>)"

definition CoroutineScheduler_destroy :: "looper \<Rightarrow> looper option" where
  "CoroutineScheduler_destroy l = (if joinable (lo_thread l) then None else Some l)"

text \<open>
  \<^verbatim>\<open>BlockQueue::Init\<close> starts one thread only; the destructor sets the flag and joins, and notifies nobody.
\<close>

definition BlockQueue_start :: "looper \<Rightarrow> looper option" where
  "BlockQueue_start l = (if lo_thread l \<noteq> Unstarted then Some l else thread_start l)"

definition BlockQueue_end :: "looper \<Rightarrow> looper option" where
  "BlockQueue_end l = (let l = l\<lparr>lo_stop := True\<rparr> in if lo_thread l = Unstarted then Some l else thread_join l)"

datatype call = CStart | CStop | CDestroy

fun Looper_call :: "call \<Rightarrow> looper \<Rightarrow> looper option" where
  "Looper_call CStart = Looper_Init"
| "Looper_call CStop = Looper_Shutdown"
| "Looper_call CDestroy = Looper_Shutdown"

fun GrpcLooper_call :: "call \<Rightarrow> looper \<Rightarrow> looper option" where
  "GrpcLooper_call CStart = GrpcLooper_start"
| "GrpcLooper_call CStop = GrpcLooper_Shutdown"
| "GrpcLooper_call CDestroy = GrpcLooper_Shutdown"

fun CoroutineScheduler_call :: "call \<Rightarrow> looper \<Rightarrow> looper option" where
  "CoroutineScheduler_call CStart = CoroutineScheduler_start"
| "CoroutineScheduler_call CStop = CoroutineScheduler_stop"
| "CoroutineScheduler_call CDestroy = CoroutineScheduler_destroy"

fun BlockQueue_call :: "call \<Rightarrow> looper \<Rightarrow> looper option" where
  "BlockQueue_call CStart = BlockQueue_start"
| "BlockQueue_call CStop = BlockQueue_end"
| "BlockQueue_call CDestroy = BlockQueue_end"

text \<open>
  The thread: \<^verbatim>\<open>while (!stop)\<close> around a pass, which returns (\<open>True\<close>) or still waits for
  something (\<open>False\<close>).  The owner's \<^verbatim>\<open>join\<close> ends when the thread's function has returned.
\<close>

definition thread_step :: "bool \<Rightarrow> looper \<Rightarrow> looper" where
  "thread_step returns l =
     (if lo_thread l \<noteq> Live then l
      else if lo_in_pass l then (if returns then l\<lparr>lo_in_pass := False, lo_passes := Suc (lo_passes l)\<rparr> else l)
      else if lo_stop l then l\<lparr>lo_thread := Returned\<rparr>
      else l\<lparr>lo_in_pass := True\<rparr>)"

definition join_returns :: "looper \<Rightarrow> looper" where
  "join_returns l =
     (if lo_joining l \<and> lo_thread l = Returned then l\<lparr>lo_thread := Joined, lo_joining := False\<rparr> else l)"

text \<open>An owner that waits makes no further call.\<close>

datatype thread_input = TCall call | TThread bool | TJoin

fun looper_do :: "(call \<Rightarrow> looper \<Rightarrow> looper option) \<Rightarrow> thread_input \<Rightarrow> looper \<Rightarrow> looper option" where
  "looper_do f (TCall c) l = (if lo_joining l then Some l else f c l)"
| "looper_do f (TThread r) l = Some (thread_step r l)"
| "looper_do f TJoin l = Some (join_returns l)"

fun looper_run :: "(call \<Rightarrow> looper \<Rightarrow> looper option) \<Rightarrow> thread_input list \<Rightarrow> looper \<Rightarrow> looper option" where
  "looper_run f [] l = Some l"
| "looper_run f (i # us) l = Option.bind (looper_do f i l) (looper_run f us)"

lemmas looper_defs [model_defs] =
  thread_start_def thread_join_def Looper_Init_def Looper_Shutdown_def GrpcLooper_start_def GrpcLooper_Shutdown_def
  CoroutineScheduler_start_def CoroutineScheduler_stop_def CoroutineScheduler_destroy_def BlockQueue_start_def BlockQueue_end_def Let_def
  thread_step_def join_returns_def

section \<open>What every history keeps\<close>

text \<open>An owner waits only for a thread that has been told to stop and that nobody has joined.\<close>

definition looper_ok :: "looper \<Rightarrow> bool" where
  "looper_ok l \<longleftrightarrow> (lo_joining l \<longrightarrow> lo_stop l \<and> joinable (lo_thread l)) \<and> (lo_thread l = Joined \<longrightarrow> lo_stop l)"

abbreviation the_calls :: "(call \<Rightarrow> looper \<Rightarrow> looper option) set" where
  "the_calls \<equiv> {Looper_call, GrpcLooper_call, CoroutineScheduler_call, BlockQueue_call}"

lemma call_ok:
  assumes "f \<in> the_calls" "f c l = Some l'" "looper_ok l"
  shows "looper_ok l' \<and> lo_passes l' = lo_passes l \<and> (lo_stop l \<longrightarrow> lo_stop l')"
  using assms by (cases c) (auto simp: looper_ok_def looper_defs split: if_splits)

lemma looper_do_ok:
  assumes "f \<in> the_calls" "looper_do f i l = Some l'" "looper_ok l"
  shows "looper_ok l'" "lo_stop l \<Longrightarrow> lo_stop l'"
proof -
  have "looper_ok l' \<and> (lo_stop l \<longrightarrow> lo_stop l')"
  proof (cases i)
    case (TCall c)
    with assms call_ok [OF assms(1) _ assms(3), of c l'] show ?thesis by (auto split: if_splits)
  next
    case (TThread r)
    with assms(2,3) show ?thesis by (auto simp: looper_ok_def thread_step_def split: if_splits)
  next
    case TJoin
    with assms(2,3) show ?thesis by (auto simp: looper_ok_def join_returns_def split: if_splits)
  qed
  then show "looper_ok l'" "lo_stop l \<Longrightarrow> lo_stop l'" by simp_all
qed

lemma looper_run_ok:
  "looper_run f us l = Some l' \<Longrightarrow> f \<in> the_calls \<Longrightarrow> looper_ok l \<Longrightarrow> looper_ok l'"
proof (induction us arbitrary: l)
  case (Cons i us)
  from Cons.prems(1) obtain l1 where "looper_do f i l = Some l1" "looper_run f us l1 = Some l'"
    by (auto simp: Option.bind_eq_Some_conv)
  with Cons.IH Cons.prems(2,3) looper_do_ok(1) show ?case by blast
qed simp

lemma looper_ok_new: "looper_ok looper_new"
  by (simp add: looper_ok_def looper_new_def)

section \<open>Properties\<close>

text \<open>
  Stopping ends.  For each of the four owners and after any history that has not ended the program: if the owner
  waits for its thread and the pass under way returns, the thread's function returns and so does
  \<^verbatim>\<open>join\<close>, without a further pass.
\<close>

theorem Looper_stop_ends:
  assumes "f \<in> {Looper_call, GrpcLooper_call, CoroutineScheduler_call, BlockQueue_call}"
    and "looper_run f us looper_new = Some l" "lo_joining l"
  shows "\<exists>l'. looper_run f [TThread True, TThread True, TJoin] l = Some l' \<and> lo_thread l' = Joined \<and> \<not> lo_joining l' \<and>
    lo_passes l' = lo_passes l + (if lo_thread l = Live \<and> lo_in_pass l then 1 else 0)"
proof -
  have "looper_ok l" by (rule looper_run_ok [OF assms(2) _ looper_ok_new]) (use assms(1) in simp)
  with assms(3) show ?thesis by (cases "lo_thread l") (auto simp: looper_ok_def thread_step_def join_returns_def)
qed

theorem Looper_stop_ends_witness:
  "\<exists>l l'. looper_run Looper_call [TCall CStart, TThread True, TThread True, TThread True, TCall CStop] looper_new = Some l \<and>
     looper_run Looper_call [TThread True, TThread True, TJoin] l = Some l' \<and> lo_thread l' = Joined \<and> lo_passes l' = 2"
proof -
  let ?l = "\<lparr>lo_thread = Live, lo_stop = True, lo_in_pass = True, lo_joining = True, lo_passes = 1\<rparr>"
  have 1: "looper_run Looper_call [TCall CStart, TThread True, TThread True, TThread True, TCall CStop] looper_new = Some ?l"
    by (simp add: looper_new_def looper_defs)
  from Looper_stop_ends [OF _ 1] obtain l' where
    "looper_run Looper_call [TThread True, TThread True, TJoin] ?l = Some l'" "lo_thread l' = Joined" "lo_passes l' = 2"
    by (auto simp del: looper_run.simps)
  with 1 show ?thesis by blast
qed

text \<open>
  Stopping is for good: once the flag is set, no history completes more than the pass under way, whatever is
  started again; a looper that is shut down and initialised again never runs its loop.
\<close>

theorem Looper_stop_for_good:
  assumes "f \<in> {Looper_call, GrpcLooper_call, CoroutineScheduler_call, BlockQueue_call}" "looper_run f us l = Some l'" "lo_stop l" "looper_ok l"
  shows "lo_passes l' \<le> lo_passes l + (if lo_in_pass l then 1 else 0)"
  using assms(2-4)
proof (induction us arbitrary: l)
  case (Cons i us)
  then obtain l1 where 1: "looper_do f i l = Some l1" "looper_run f us l1 = Some l'"
    by (auto simp: Option.bind_eq_Some_conv)
  have "lo_passes l1 + (if lo_in_pass l1 then 1 else 0) \<le> lo_passes l + (if lo_in_pass l then 1 else 0)"
  proof (cases i)
    case (TCall c)
    with 1(1) assms(1) show ?thesis by (cases c) (auto simp: looper_defs split: if_splits)
  qed (use 1(1) Cons.prems(2) in \<open>auto simp: thread_step_def join_returns_def split: if_splits\<close>)
  moreover have "lo_stop l1" "looper_ok l1"
    using looper_do_ok [OF _ 1(1) Cons.prems(3)] assms(1) Cons.prems(2) by simp_all
  ultimately show ?case using Cons.IH [OF 1(2)] by linarith
qed simp

theorem Looper_stop_for_good_witness:
  "\<exists>l l'. looper_run Looper_call [TCall CStart, TThread True, TCall CStop] looper_new = Some l \<and>
     looper_run Looper_call [TThread True, TThread True, TJoin, TCall CStart, TThread True, TThread True] l = Some l' \<and>
     lo_passes l' \<le> 1"
proof -
  let ?l = "\<lparr>lo_thread = Live, lo_stop = True, lo_in_pass = True, lo_joining = True, lo_passes = 0\<rparr>"
  let ?us = "[TThread True, TThread True, TJoin, TCall CStart, TThread True, TThread True]"
  have 1: "looper_run Looper_call [TCall CStart, TThread True, TCall CStop] looper_new = Some ?l"
    by (simp add: looper_new_def looper_defs)
  have "looper_run Looper_call ?us ?l \<noteq> None" by (simp add: looper_defs)
  then obtain l' where 2: "looper_run Looper_call ?us ?l = Some l'" by blast
  have "looper_ok ?l" by (simp add: looper_ok_def)
  from Looper_stop_for_good [OF _ 2 _ this] have "lo_passes l' \<le> 1" by simp
  with 1 2 show ?thesis by blast
qed

text \<open>
  What an owner must not do.  Looper: initialise it twice, or shut it down by hand, since the destructor shuts it
  down again and the thread is then joined already.  Scheduler: stop it without a start or twice, or
  destroy it without a stop.
\<close>

theorem Looper_misuse:
  "looper_run Looper_call [TCall CStart, TCall CStart] looper_new = None"
  "looper_run Looper_call [TCall CStart, TCall CStop, TThread True, TJoin, TCall CDestroy] looper_new = None"
  "looper_run Looper_call [TCall CStart, TCall CDestroy, TThread True, TJoin] looper_new \<noteq> None"
  "looper_run CoroutineScheduler_call [TCall CStop] looper_new = None"
  "looper_run CoroutineScheduler_call [TCall CStart, TCall CDestroy] looper_new = None"
  "looper_run CoroutineScheduler_call [TCall CStart, TCall CStop, TThread True, TJoin, TCall CStop] looper_new = None"
  "looper_run CoroutineScheduler_call [TCall CStart, TCall CStop, TThread True, TJoin, TCall CDestroy] looper_new \<noteq> None"
  by (simp_all add: looper_new_def looper_defs)

text \<open>
  Two of the threads wait without a bound and are not woken to stop: the gRPC looper's, in
  \<^verbatim>\<open>Next\<close> until there is a tag, and a block queue's, until its list is empty, which a push makes
  impossible.  Then the owner's \<^verbatim>\<open>join\<close> never returns.
\<close>

theorem Looper_shutdown_hangs:
  assumes "f \<in> {GrpcLooper_call, BlockQueue_call}" "lo_thread l = Live" "lo_in_pass l" "\<not> lo_joining l"
    and "set us \<subseteq> {TThread False, TJoin}"
  shows "\<exists>l'. looper_run f (TCall CDestroy # us) l = Some l' \<and> lo_joining l' \<and> lo_thread l' = Live"
proof -
  have "looper_run f us k = Some k" if "lo_thread k = Live" "lo_in_pass k" for k
    using assms(5) that by (induction us) (auto simp: thread_step_def join_returns_def)
  with assms(1-4) show ?thesis by (auto simp: looper_defs)
qed

theorem Looper_shutdown_hangs_witness:
  "\<exists>l l'. looper_run GrpcLooper_call [TCall CStart, TThread False] looper_new = Some l \<and>
     looper_run GrpcLooper_call (TCall CDestroy # concat (replicate 9 [TThread False, TJoin])) l = Some l' \<and> lo_joining l'"
proof -
  let ?l = "\<lparr>lo_thread = Live, lo_stop = False, lo_in_pass = True, lo_joining = False, lo_passes = 0\<rparr>"
  have 1: "looper_run GrpcLooper_call [TCall CStart, TThread False] looper_new = Some ?l"
    by (simp add: looper_new_def looper_defs)
  have "\<exists>l'. looper_run GrpcLooper_call (TCall CDestroy # concat (replicate 9 [TThread False, TJoin])) ?l = Some l' \<and>
      lo_joining l' \<and> lo_thread l' = Live"
    by (rule Looper_shutdown_hangs) (auto simp: set_replicate_conv_if)
  with 1 show ?thesis by blast
qed

end
