(* ===== verification/Logging.thy ===== *)
theory Logging
  imports Prelude
begin

text \<open>
  \<^verbatim>\<open>src/log\<close>: the front of \<^verbatim>\<open>log.cpp\<close>, the message object of
  \<^verbatim>\<open>glog/glog.cpp\<close> and the manager of \<^verbatim>\<open>glog/glog_manager.cpp\<close>.  The library behind
  it is glog; of it is used, as documented, that a message of severity FATAL ends the program when it is
  complete, and that \<^verbatim>\<open>InitGoogleLogging\<close> ends it when glog is initialised already.  \<open>None\<close> is such an end.
\<close>

section \<open>State\<close>

datatype Level = DEBUG | WARNING | INFO | ERROR | FATAL

datatype severity = GLOG_INFO | GLOG_WARNING | GLOG_ERROR | GLOG_FATAL

text \<open>
  The manager is a static variable of a function: it exists, and is destroyed at the end of the program, only if
  the function was called (\<open>lg_made\<close>).  \<open>lg_out\<close> is what glog was given, \<open>lg_cout\<close> what went to the standard output.
\<close>

record log_state =
  lg_made :: bool
  lg_inited :: bool
  lg_gName :: string
  lg_gDestoryed :: bool
  lg_glog :: "string option"
  lg_trace :: bool
  FLAGS_log_dir :: string
  FLAGS_max_log_size :: int
  FLAGS_stderrthreshold :: severity
  lg_out :: "(severity \<times> string) list"
  lg_cout :: "string list"

definition log_start :: "string \<Rightarrow> int \<Rightarrow> log_state" where
  "log_start dir sz =
     \<lparr>lg_made = False, lg_inited = False, lg_gName = '''', lg_gDestoryed = False, lg_glog = None, lg_trace = False,
      FLAGS_log_dir = dir, FLAGS_max_log_size = sz, FLAGS_stderrthreshold = GLOG_ERROR, lg_out = [], lg_cout = []\<rparr>"

section \<open>Operations\<close>

definition GLogManager_GetInstance :: "log_state \<Rightarrow> log_state" where
  "GLogManager_GetInstance s = s\<lparr>lg_made := True\<rparr>"

definition InitGoogleLogging :: "string \<Rightarrow> log_state \<Rightarrow> log_state option" where
  "InitGoogleLogging name s = (if lg_glog s \<noteq> None then None else Some (s\<lparr>lg_glog := Some name\<rparr>))"

text \<open>\<^verbatim>\<open>1.8 * 1024\<close> is cut to an integer.\<close>

definition GLogManager_Init :: "string \<Rightarrow> string \<Rightarrow> log_state \<Rightarrow> log_state option" where
  "GLogManager_Init path name s =
     (let s = s\<lparr>FLAGS_log_dir := if path = '''' then ''./build/log'' else path,
                FLAGS_max_log_size := 18 * 1024 div 10, FLAGS_stderrthreshold := GLOG_FATAL, lg_gName := name\<rparr>
      in map_option (\<lambda>s. s\<lparr>lg_inited := True\<rparr>) (InitGoogleLogging (lg_gName s) s))"

definition GLogManager_EnableTrace :: "log_state \<Rightarrow> log_state" where
  "GLogManager_EnableTrace s = s\<lparr>lg_trace := True\<rparr>"

definition GLogManager_destroy :: "log_state \<Rightarrow> log_state" where
  "GLogManager_destroy s =
     (let s = (if lg_inited s then s\<lparr>lg_glog := None\<rparr> else s)
      in s\<lparr>lg_gDestoryed := True, lg_cout := lg_cout s @ [''~GLogManager'']\<rparr>)"

definition Log_Init :: "string \<Rightarrow> string \<Rightarrow> log_state \<Rightarrow> log_state option" where
  "Log_Init path name s = GLogManager_Init path name (GLogManager_GetInstance s)"

definition Log_EnableTrace :: "log_state \<Rightarrow> log_state" where
  "Log_EnableTrace s = GLogManager_EnableTrace (GLogManager_GetInstance s)"

text \<open>A message object holds a glog message or a stream to the standard output.\<close>

datatype GLog = Message severity | Stream

definition GLog_new :: "bool \<Rightarrow> Level \<Rightarrow> GLog" where
  "GLog_new gDestoryed l =
     (if gDestoryed then Stream
      else case l of
        DEBUG \<Rightarrow> Message GLOG_INFO
      | WARNING \<Rightarrow> Message GLOG_WARNING
      | ERROR \<Rightarrow> Message GLOG_ERROR
      | FATAL \<Rightarrow> Message GLOG_FATAL
      | INFO \<Rightarrow> Message GLOG_INFO)"

definition Log_Make :: "Level \<Rightarrow> log_state \<Rightarrow> GLog" where
  "Log_Make l s = GLog_new (lg_gDestoryed s) l"

text \<open>\<^verbatim>\<open>GLog::stream\<close> takes the text; the object is destroyed at the end of the statement.\<close>

fun GLog_stream :: "GLog \<Rightarrow> string \<Rightarrow> log_state \<Rightarrow> log_state" where
  "GLog_stream Stream m s = s\<lparr>lg_cout := lg_cout s @ [m]\<rparr>"
| "GLog_stream (Message v) m s = s\<lparr>lg_out := lg_out s @ [(v, m)]\<rparr>"

fun GLog_destroy :: "GLog \<Rightarrow> log_state \<Rightarrow> log_state option" where
  "GLog_destroy (Message GLOG_FATAL) s = None"
| "GLog_destroy _ s = Some s"

definition LOG :: "Level \<Rightarrow> string \<Rightarrow> log_state \<Rightarrow> log_state option" where
  "LOG l m s = (let g = Log_Make l s in GLog_destroy g (GLog_stream g m s))"

text \<open>What a program does with the log; \<open>LExit\<close> destroys the static variables.\<close>

datatype log_op = LInit string string | LTrace | LLog Level string | LExit

fun log_do :: "log_op \<Rightarrow> log_state \<Rightarrow> log_state option" where
  "log_do (LInit path name) s = Log_Init path name s"
| "log_do LTrace s = Some (Log_EnableTrace s)"
| "log_do (LLog l m) s = LOG l m s"
| "log_do LExit s = Some (if lg_made s then GLogManager_destroy s else s)"

fun log_run :: "log_op list \<Rightarrow> log_state \<Rightarrow> log_state option" where
  "log_run [] s = Some s"
| "log_run (x # xs) s = Option.bind (log_do x s) (log_run xs)"

lemmas log_defs [model_defs] =
  GLogManager_GetInstance_def InitGoogleLogging_def GLogManager_Init_def GLogManager_EnableTrace_def
  GLogManager_destroy_def Log_Init_def Log_EnableTrace_def GLog_new_def Log_Make_def LOG_def Let_def

section \<open>What is written where\<close>

fun severity_of :: "Level \<Rightarrow> severity" where
  "severity_of WARNING = GLOG_WARNING"
| "severity_of ERROR = GLOG_ERROR"
| "severity_of FATAL = GLOG_FATAL"
| "severity_of _ = GLOG_INFO"

fun logged :: "log_op list \<Rightarrow> (severity \<times> string) list" where
  "logged [] = []"
| "logged (LLog l m # xs) = (severity_of l, m) # logged xs"
| "logged (_ # xs) = logged xs"

fun inits :: "log_op list \<Rightarrow> nat" where
  "inits [] = 0"
| "inits (LInit path name # xs) = Suc (inits xs)"
| "inits (_ # xs) = inits xs"

fun uses_manager :: "log_op \<Rightarrow> bool" where
  "uses_manager (LInit path name) = True"
| "uses_manager LTrace = True"
| "uses_manager _ = False"

lemma LOG_alive:
  "\<not> lg_gDestoryed s \<Longrightarrow> LOG l m s = (if l = FATAL then None else Some (s\<lparr>lg_out := lg_out s @ [(severity_of l, m)]\<rparr>))"
  by (cases l) (simp_all add: log_defs)

lemma LOG_destroyed: "lg_gDestoryed s \<Longrightarrow> LOG l m s = Some (s\<lparr>lg_cout := lg_cout s @ [m]\<rparr>)"
  by (simp add: log_defs)

text \<open>Before the end of the program: one step, and a history.\<close>

definition began :: "log_state \<Rightarrow> nat" where
  "began s = (if lg_inited s then 1 else 0)"

lemma log_do_alive:
  assumes "x \<noteq> LExit" "\<not> lg_gDestoryed s" "lg_inited s \<longleftrightarrow> lg_glog s \<noteq> None"
  shows "case log_do x s of
      None \<Rightarrow> (\<exists>m. x = LLog FATAL m) \<or> 1 < inits [x] + began s
    | Some s1 \<Rightarrow> (\<forall>m. x \<noteq> LLog FATAL m) \<and> began s1 = inits [x] + began s \<and> \<not> lg_gDestoryed s1 \<and>
        lg_out s1 = lg_out s @ logged [x] \<and> lg_cout s1 = lg_cout s \<and>
        (lg_inited s1 \<longleftrightarrow> lg_glog s1 \<noteq> None) \<and> (lg_made s1 \<longleftrightarrow> lg_made s \<or> uses_manager x)"
proof (cases x)
  case (LInit path name)
  with assms(2,3) show ?thesis by (simp add: log_defs began_def)
next
  case (LLog l m)
  with assms(2,3) show ?thesis by (simp add: LOG_alive began_def)
qed (use assms in \<open>simp_all add: log_defs began_def\<close>)

lemma ops_Cons: "inits (x # xs) = inits [x] + inits xs" "logged (x # xs) = logged [x] @ logged xs"
  by (cases x; simp)+

lemma log_run_alive:
  assumes "LExit \<notin> set xs" "\<not> lg_gDestoryed s" "lg_inited s \<longleftrightarrow> lg_glog s \<noteq> None"
  shows "case log_run xs s of
      None \<Rightarrow> (\<exists>m. LLog FATAL m \<in> set xs) \<or> 1 < inits xs + began s
    | Some s' \<Rightarrow> (\<forall>m. LLog FATAL m \<notin> set xs) \<and> inits xs + began s \<le> 1 \<and>
        \<not> lg_gDestoryed s' \<and> lg_out s' = lg_out s @ logged xs \<and> lg_cout s' = lg_cout s \<and>
        (lg_inited s' \<longleftrightarrow> lg_glog s' \<noteq> None) \<and> (lg_made s' \<longleftrightarrow> lg_made s \<or> (\<exists>x\<in>set xs. uses_manager x))"
  using assms
proof (induction xs arbitrary: s)
  case Nil
  then show ?case by (simp add: began_def)
next
  case (Cons x xs)
  note eq = ops_Cons [of x xs]
  from Cons.prems(1) have "x \<noteq> LExit" "LExit \<notin> set xs" by auto
  note do = log_do_alive [OF this(1) Cons.prems(2,3)]
  show ?case
  proof (cases "log_do x s")
    case None
    with do show ?thesis unfolding eq by auto
  next
    case (Some s1)
    with do have d: "\<forall>m. x \<noteq> LLog FATAL m" "began s1 = inits [x] + began s" "\<not> lg_gDestoryed s1"
      "lg_out s1 = lg_out s @ logged [x]" "lg_cout s1 = lg_cout s" "lg_inited s1 \<longleftrightarrow> lg_glog s1 \<noteq> None"
      "lg_made s1 \<longleftrightarrow> lg_made s \<or> uses_manager x" by simp_all
    note IH = Cons.IH [OF \<open>LExit \<notin> set xs\<close> d(3,6)]
    show ?thesis
    proof (cases "log_run xs s1")
      case None
      with IH Some d(2) show ?thesis unfolding eq by auto
    next
      case (Some s')
      with IH \<open>log_do x s = Some s1\<close> d show ?thesis unfolding eq by auto
    qed
  qed
qed

text \<open>After it, only messages come, from destructors of other static variables.\<close>

lemma log_run_destroyed:
  "lg_gDestoryed s \<Longrightarrow> log_run (map (\<lambda>(l, m). LLog l m) ms) s = Some (s\<lparr>lg_cout := lg_cout s @ map snd ms\<rparr>)"
  by (induction ms arbitrary: s) (auto simp: LOG_destroyed)

lemma log_run_append: "log_run (xs @ ys) s = Option.bind (log_run xs s) (log_run ys)"
proof (induction xs arbitrary: s)
  case (Cons x xs)
  then show ?case by (cases "log_do x s") simp_all
qed simp

section \<open>Properties\<close>

text \<open>
  Every message is written once, in order.  A program that initialises the log once, or switches traces on, and logs
  nothing at level FATAL runs through: glog gets every message logged before the end, with its severity, and the standard
  output the messages of destructors that run later, at whatever level; and what ends a program before its end is a
  message at level FATAL or a second initialisation.
\<close>

theorem Log_written_once:
  assumes "LExit \<notin> set xs" "\<exists>x\<in>set xs. uses_manager x"
  shows "case log_run (xs @ LExit # map (\<lambda>(l, m). LLog l m) late) (log_start dir sz) of
      None \<Rightarrow> (\<exists>m. LLog FATAL m \<in> set xs) \<or> 1 < inits xs
    | Some s \<Rightarrow> (\<forall>m. LLog FATAL m \<notin> set xs) \<and> inits xs \<le> 1 \<and> lg_out s = logged xs \<and>
        lg_cout s = ''~GLogManager'' # map snd late \<and> lg_glog s = None"
proof (cases "log_run xs (log_start dir sz)")
  case None
  with log_run_alive [OF assms(1), of "log_start dir sz"] show ?thesis
    by (simp add: log_run_append log_start_def began_def)
next
  case (Some s)
  with log_run_alive [OF assms(1), of "log_start dir sz"] assms(2) have
    s: "\<forall>m. LLog FATAL m \<notin> set xs" "inits xs \<le> 1" "lg_out s = logged xs" "lg_cout s = []" "lg_made s"
    "lg_inited s \<longleftrightarrow> lg_glog s \<noteq> None" by (simp_all add: log_start_def began_def)
  have "lg_gDestoryed (GLogManager_destroy s)" by (simp add: GLogManager_destroy_def Let_def)
  from log_run_destroyed [OF this, of late] Some s show ?thesis
    by (auto simp: log_run_append GLogManager_destroy_def Let_def)
qed

theorem Log_written_once_witness:
  "\<exists>s. log_run [LInit '''' ''srv'', LLog DEBUG ''a'', LLog WARNING ''b'', LExit, LLog FATAL ''c''] (log_start ''/tmp'' 1800) = Some s \<and>
     lg_out s = [(GLOG_INFO, ''a''), (GLOG_WARNING, ''b'')] \<and> lg_cout s = [''~GLogManager'', ''c'']"
  using Log_written_once [of "[LInit '''' ''srv'', LLog DEBUG ''a'', LLog WARNING ''b'']" "[(FATAL, ''c'')]" "''/tmp''" 1800]
  by (auto simp: split: option.splits)

text \<open>
  The flag that protects messages of late destructors is set by the manager's destructor, and a program that has
  neither initialised the log nor switched traces on has no manager: its late messages still go to glog.
\<close>

theorem Log_unprotected_without_manager:
  assumes "\<forall>x\<in>set xs. \<not> uses_manager x" "LExit \<notin> set xs" "l \<noteq> FATAL" "log_run xs (log_start dir sz) = Some s"
  shows "\<exists>s'. log_run (xs @ [LExit, LLog l m]) (log_start dir sz) = Some s' \<and> lg_out s' = lg_out s @ [(severity_of l, m)]"
proof -
  from log_run_alive [OF assms(2), of "log_start dir sz"] assms(1,4) have "\<not> lg_gDestoryed s" "\<not> lg_made s"
    by (auto simp: log_start_def)
  with assms(3,4) show ?thesis by (simp add: log_run_append LOG_alive)
qed

theorem Log_unprotected_without_manager_witness:
  "\<exists>s'. log_run [LLog INFO ''a'', LExit, LLog INFO ''b''] (log_start ''/tmp'' 1800) = Some s' \<and>
     lg_out s' = [(GLOG_INFO, ''a''), (GLOG_INFO, ''b'')]"
proof -
  let ?s = "(log_start ''/tmp'' 1800)\<lparr>lg_out := [(GLOG_INFO, ''a'')]\<rparr>"
  have "log_run [LLog INFO ''a''] (log_start ''/tmp'' 1800) = Some ?s" by (simp add: LOG_alive log_start_def)
  from Log_unprotected_without_manager [OF _ _ _ this, of INFO "''b''"] show ?thesis by simp
qed

end
