(* ===== verification/Coroutine_Mutex.thy ===== *)
theory Coroutine_Mutex
  imports Coroutine_Scheduler
begin

text \<open>
  \<^verbatim>\<open>src/coroutine/coroutine_mutex.h\<close>: waiters, the condition variables, the two mutexes, the
  shared state behind promises and futures, and the round-robin \<^verbatim>\<open>Async\<close> pool.

  A waiter names its coroutine by a number.  An operation returns the waiters it wakes, in the order
  of the \<^verbatim>\<open>resume\<close> calls.  The two mutexes are used by several coroutines at once; their atomic
  pieces (the compare-and-exchange, and each critical section of \<^verbatim>\<open>mtx_\<close>) are definitions, and a
  step relation interleaves them.
\<close>

section \<open>Waiters and condition variables\<close>

record waiter =
  who :: nat
  isCanceled :: bool

definition CoroutineWaiter_new :: "nat \<Rightarrow> waiter" where
  "CoroutineWaiter_new c = \<lparr>who = c, isCanceled = False\<rparr>"

text \<open>
  The calls a waiter makes on its scheduler; a wait without a timeout has \<^verbatim>\<open>milliseconds\<close> \<open>-1\<close>.
  Outside a coroutine there is no current one, and the wait fails.
\<close>

definition CoroutineWaiter_wakeup :: "waiter \<Rightarrow> sched \<Rightarrow> sched" where
  "CoroutineWaiter_wakeup w s = Scheduler_resume (who w) s"

definition CoroutineWaiter_wait :: "int \<Rightarrow> action list \<Rightarrow> sched \<Rightarrow> sched result" where
  "CoroutineWaiter_wait milliseconds rest s =
     (if milliseconds = -1 then Scheduler_suspend rest s else Scheduler_sleep milliseconds rest s)"

text \<open>The loop of \<^verbatim>\<open>notify_nolock\<close>: the queue left, and the coroutines resumed.\<close>

fun notify_nolock :: "bool \<Rightarrow> waiter list \<Rightarrow> waiter list \<times> nat list" where
  "notify_nolock isAll [] = ([], [])"
| "notify_nolock isAll (w # ws) =
     (if isCanceled w then notify_nolock isAll ws
      else if isAll then (let (q, r) = notify_nolock isAll ws in (q, who w # r))
      else (ws, [who w]))"

definition CoConditionVariable_notify_one :: "waiter list \<Rightarrow> waiter list \<times> nat list" where
  "CoConditionVariable_notify_one = notify_nolock False"

definition CoConditionVariable_notify_all :: "waiter list \<Rightarrow> waiter list \<times> nat list" where
  "CoConditionVariable_notify_all = notify_nolock True"

text \<open>
  \<^verbatim>\<open>wait\<close> pushes a \<^emph>\<open>copy\<close> of its waiter, then suspends.  When it returns, by a wake-up or at
  the end of its timeout, it cancels its own waiter, not the copy.
\<close>

definition CoConditionVariable_wait :: "nat \<Rightarrow> waiter list \<Rightarrow> waiter list \<times> waiter" where
  "CoConditionVariable_wait c q = (let w = CoroutineWaiter_new c in (q @ [w], w))"

definition CoroutineWaiter_wait_return :: "waiter \<Rightarrow> waiter" where
  "CoroutineWaiter_wait_return w = w\<lparr>isCanceled := True\<rparr>"

lemma notify_one_live:
  "list_all (\<lambda>w. \<not> isCanceled w) q \<Longrightarrow>
     notify_nolock False q = (tl q, if q = [] then [] else [who (hd q)])"
  by (cases q) auto

lemma notify_all_live:
  "list_all (\<lambda>w. \<not> isCanceled w) q \<Longrightarrow> notify_nolock True q = ([], map who q)"
  by (induction q) auto

text \<open>A history of a condition variable: the queue, and the waiters whose wait is still going on.\<close>

datatype cv_op = CvWait nat | CvTimeout nat | CvNotifyOne | CvNotifyAll

record cv =
  cv_queue :: "waiter list"
  cv_waiting :: "waiter list"
  cv_resumed :: "nat list"

definition cv_new :: cv where
  "cv_new = \<lparr>cv_queue = [], cv_waiting = [], cv_resumed = []\<rparr>"

text \<open>\<open>CvTimeout c\<close>: the sleep of \<open>c\<close> is over, its wait returns; a resumption ends the wait as well.\<close>

definition waits_return :: "nat list \<Rightarrow> cv \<Rightarrow> cv" where
  "waits_return cs s = s\<lparr>cv_waiting := filter (\<lambda>w. who w \<notin> set cs) (cv_waiting s)\<rparr>"

fun cv_exec :: "cv_op \<Rightarrow> cv \<Rightarrow> cv" where
  "cv_exec (CvWait c) s =
     (let (q, w) = CoConditionVariable_wait c (cv_queue s)
      in s\<lparr>cv_queue := q, cv_waiting := cv_waiting s @ [w]\<rparr>)"
| "cv_exec (CvTimeout c) s = waits_return [c] s"
| "cv_exec CvNotifyOne s =
     (let (q, r) = CoConditionVariable_notify_one (cv_queue s)
      in waits_return r (s\<lparr>cv_queue := q, cv_resumed := cv_resumed s @ r\<rparr>))"
| "cv_exec CvNotifyAll s =
     (let (q, r) = CoConditionVariable_notify_all (cv_queue s)
      in waits_return r (s\<lparr>cv_queue := q, cv_resumed := cv_resumed s @ r\<rparr>))"

lemma cv_queue_live:
  "list_all (\<lambda>w. \<not> isCanceled w) (cv_queue s) \<Longrightarrow>
     list_all (\<lambda>w. \<not> isCanceled w) (cv_queue (fold cv_exec ops s))"
proof (induction ops arbitrary: s)
  case (Cons x ops)
  have "list_all (\<lambda>w. \<not> isCanceled w) (cv_queue (cv_exec x s))"
    using Cons.prems by (cases x; cases "cv_queue s")
      (auto simp: CoConditionVariable_wait_def CoConditionVariable_notify_one_def
         CoConditionVariable_notify_all_def CoroutineWaiter_new_def notify_one_live notify_all_live waits_return_def Let_def)
  with Cons.IH show ?case by simp
qed simp

section \<open>\<open>CoMutex\<close>\<close>

record co_mutex =
  isLock :: bool
  waiters :: "waiter list"

definition CoMutex_new :: co_mutex where
  "CoMutex_new = \<lparr>isLock = False, waiters = []\<rparr>"

text \<open>The compare-and-exchange.\<close>

definition CoMutex_setLock :: "bool \<Rightarrow> co_mutex \<Rightarrow> co_mutex \<times> bool" where
  "CoMutex_setLock newV m = (if isLock m = (\<not> newV) then (m\<lparr>isLock := newV\<rparr>, True) else (m, False))"

text \<open>
  \<^verbatim>\<open>lock\<close> up to taking \<^verbatim>\<open>mtx_\<close> (true: the lock was free and is ours), and its critical
  section (true: acquired at the second attempt; false: queued, about to suspend).
\<close>

definition CoMutex_lock_fast :: "co_mutex \<Rightarrow> co_mutex \<times> bool" where
  "CoMutex_lock_fast m = CoMutex_setLock True m"

definition CoMutex_lock_slow :: "nat \<Rightarrow> co_mutex \<Rightarrow> co_mutex \<times> bool" where
  "CoMutex_lock_slow c m =
     (case CoMutex_setLock True m of
        (m, True) \<Rightarrow> (m, True)
      | (m, False) \<Rightarrow> (m\<lparr>waiters := waiters m @ [CoroutineWaiter_new c]\<rparr>, False))"

text \<open>The class has its own copy of the notification loop.\<close>

definition CoMutex_notify_nolock :: "bool \<Rightarrow> co_mutex \<Rightarrow> co_mutex \<times> nat list" where
  "CoMutex_notify_nolock isAll m =
     (let (q, r) = notify_nolock isAll (waiters m) in (m\<lparr>waiters := q\<rparr>, r))"

definition CoMutex_unlock :: "co_mutex \<Rightarrow> co_mutex \<times> nat list" where
  "CoMutex_unlock m =
     (let (m, r) = CoMutex_notify_nolock False m
      in if length r = 0 then (fst (CoMutex_setLock False m), r) else (m, r))"

text \<open>Where each coroutine is: outside, between the two attempts, suspended in the queue, resumed, inside.\<close>

datatype place = Outside | Trying | Queued | Resumed | Inside

inductive comutex_step :: "co_mutex \<times> (nat \<Rightarrow> place) \<Rightarrow> co_mutex \<times> (nat \<Rightarrow> place) \<Rightarrow> bool" where
  lock_fast: "pc c = Outside \<Longrightarrow> CoMutex_lock_fast m = (m', got) \<Longrightarrow>
     comutex_step (m, pc) (m', pc(c := if got then Inside else Trying))"
| lock_slow: "pc c = Trying \<Longrightarrow> CoMutex_lock_slow c m = (m', got) \<Longrightarrow>
     comutex_step (m, pc) (m', pc(c := if got then Inside else Queued))"
| lock_return: "pc c = Resumed \<Longrightarrow> comutex_step (m, pc) (m, pc(c := Inside))"
| unlock: "pc c = Inside \<Longrightarrow> CoMutex_unlock m = (m', r) \<Longrightarrow>
     comutex_step (m, pc) (m', \<lambda>d. if d \<in> set r then Resumed else (pc(c := Outside)) d)"

inductive comutex_reach :: "co_mutex \<times> (nat \<Rightarrow> place) \<Rightarrow> bool" where
  init: "comutex_reach (CoMutex_new, \<lambda>_. Outside)"
| step: "comutex_reach x \<Longrightarrow> comutex_step x y \<Longrightarrow> comutex_reach y"

definition at_place :: "place \<Rightarrow> (nat \<Rightarrow> place) \<Rightarrow> nat set" where
  "at_place p pc = {c. pc c = p}"

lemma at_place_upd: "at_place p (pc(c := q)) = (if p = q then insert c (at_place p pc) else at_place p pc - {c})"
  by (auto simp: at_place_def)

definition owners :: "(nat \<Rightarrow> place) \<Rightarrow> nat set" where
  "owners pc = {c. pc c = Resumed \<or> pc c = Inside}"

definition comutex_inv :: "co_mutex \<times> (nat \<Rightarrow> place) \<Rightarrow> bool" where
  "comutex_inv x \<longleftrightarrow> (case x of (m, pc) \<Rightarrow>
     (if isLock m then \<exists>c. owners pc = {c} else owners pc = {} \<and> waiters m = []) \<and>
     list_all (\<lambda>w. \<not> isCanceled w) (waiters m) \<and> distinct (map who (waiters m)) \<and>
     set (map who (waiters m)) = at_place Queued pc)"

lemma owners_upd:
  "owners (pc(c := p)) = (if p = Resumed \<or> p = Inside then insert c (owners pc) else owners pc - {c})"
  by (auto simp: owners_def)

lemma comutex_inv_step: "comutex_step x y \<Longrightarrow> comutex_inv x \<Longrightarrow> comutex_inv y"
proof (induction rule: comutex_step.induct)
  case (lock_fast pc c m m' got)
  then have "c \<notin> owners pc" "c \<notin> at_place Queued pc" by (auto simp: owners_def at_place_def)
  with lock_fast show ?case
    by (auto simp: comutex_inv_def CoMutex_lock_fast_def CoMutex_setLock_def owners_upd at_place_upd
        split: if_splits)
next
  case (lock_slow pc c m m' got)
  then have "c \<notin> owners pc" "c \<notin> at_place Queued pc" by (auto simp: owners_def at_place_def)
  note c = this
  show ?case
  proof (cases "isLock m")
    case True
    with lock_slow(2) have "m' = m\<lparr>waiters := waiters m @ [CoroutineWaiter_new c]\<rparr>" "\<not> got"
      by (auto simp: CoMutex_lock_slow_def CoMutex_setLock_def)
    with True lock_slow(3) c show ?thesis
      by (auto simp: comutex_inv_def CoroutineWaiter_new_def owners_upd at_place_upd simp del: set_map)
  next
    case False
    with lock_slow(2) have "m' = m\<lparr>isLock := True\<rparr>" "got"
      by (auto simp: CoMutex_lock_slow_def CoMutex_setLock_def)
    with False lock_slow(3) c show ?thesis
      by (auto simp: comutex_inv_def owners_upd at_place_upd)
  qed
next
  case (lock_return pc c m)
  then have "c \<in> owners pc" "c \<notin> at_place Queued pc" by (auto simp: owners_def at_place_def)
  with lock_return show ?case
    by (auto simp: comutex_inv_def owners_upd at_place_upd split: if_splits)
next
  case (unlock pc c m m' r)
  have "c \<in> owners pc" using unlock(1) by (simp add: owners_def)
  with unlock(3) have c: "owners pc = {c}" "isLock m"
    by (auto simp: comutex_inv_def split: if_splits)
  show ?case
  proof (cases "waiters m")
    case Nil
    have eq0: "(\<lambda>d. if d \<in> set [] then Resumed else (pc(c := Outside)) d) = pc(c := Outside)" by auto
    from unlock Nil have m': "m' = m\<lparr>isLock := False\<rparr>" and r: "r = []"
      using c(2) by (auto simp: CoMutex_unlock_def CoMutex_notify_nolock_def CoMutex_setLock_def)
    from unlock(3) c Nil show ?thesis unfolding r eq0 m'
      by (auto simp: comutex_inv_def owners_upd at_place_upd)
  next
    case (Cons w ws)
    with unlock(3) have live: "\<not> isCanceled w" "list_all (\<lambda>w. \<not> isCanceled w) ws"
      "distinct (who w # map who ws)" "insert (who w) (set (map who ws)) = at_place Queued pc"
      by (auto simp: comutex_inv_def)
    with unlock(2) Cons have r: "m' = m\<lparr>waiters := ws\<rparr>" "r = [who w]" by (auto simp: CoMutex_unlock_def CoMutex_notify_nolock_def)
    have eq: "(\<lambda>d. if d \<in> set r then Resumed else (pc(c := Outside)) d) = (pc(c := Outside))(who w := Resumed)"
      using r by auto
    have nq: "c \<notin> at_place Queued pc" using unlock(1) by (simp add: at_place_def)
    have "at_place Queued ((pc(c := Outside))(who w := Resumed)) = set (map who ws)"
    proof -
      have "insert (who w) (set (map who ws)) - {c} - {who w} = set (map who ws)"
        using live(3) nq unfolding live(4) [symmetric] by (simp add: insert_Diff_if)
      then show ?thesis unfolding live(4) by (simp add: at_place_upd)
    qed
    moreover have "owners ((pc(c := Outside))(who w := Resumed)) = {who w}"
      using c(1) by (auto simp: owners_upd)
    ultimately show ?thesis
      using live c(2) unfolding eq r(1) by (simp add: comutex_inv_def)
  qed
qed

lemma comutex_inv_reach: "comutex_reach x \<Longrightarrow> comutex_inv x"
proof (induction rule: comutex_reach.induct)
  case init
  show ?case by (simp add: comutex_inv_def CoMutex_new_def owners_def at_place_def)
qed (rule comutex_inv_step)

section \<open>\<open>Mutex\<close>\<close>

text \<open>
  \<^verbatim>\<open>ConditionVariable\<close>: coroutines (\<open>co\<close>) wait in the coroutine queue, plain threads in the standard
  condition variable, here the set of the threads in it.  Notifying one resumes a coroutine if one waits and
  else notifies the standard variable; the last result says whether it is notified.
\<close>

definition ConditionVariable_wait :: "bool \<Rightarrow> nat \<Rightarrow> waiter list \<times> nat set \<Rightarrow> waiter list \<times> nat set" where
  "ConditionVariable_wait co c q =
     (if co then (fst (CoConditionVariable_wait c (fst q)), snd q) else (fst q, insert c (snd q)))"

definition ConditionVariable_notify_one :: "waiter list \<Rightarrow> waiter list \<times> nat list \<times> bool" where
  "ConditionVariable_notify_one q =
     (let (q, r) = CoConditionVariable_notify_one q in (q, r, length r = 0))"

definition ConditionVariable_notify_all :: "waiter list \<Rightarrow> waiter list \<times> nat list \<times> bool" where
  "ConditionVariable_notify_all q = (let (q, r) = CoConditionVariable_notify_all q in (q, r, True))"

record mutex =
  m_isLock :: bool
  m_cond :: "waiter list"
  m_threads :: "nat set"
  waitings :: int

definition Mutex_new :: mutex where
  "Mutex_new = \<lparr>m_isLock = False, m_cond = [], m_threads = {}, waitings = 0\<rparr>"

text \<open>
  The loop of \<^verbatim>\<open>lock\<close>, from the test of \<^verbatim>\<open>isLock\<close> to the acquisition (true) or to the wait
  (false), and what a wait does when it returns: decrement, then the loop again.
\<close>

definition Mutex_lock_test :: "bool \<Rightarrow> nat \<Rightarrow> mutex \<Rightarrow> mutex \<times> bool" where
  "Mutex_lock_test co c m =
     (if m_isLock m
      then (let (q, ts) = ConditionVariable_wait co c (m_cond m, m_threads m)
            in (m\<lparr>waitings := waitings m + 1, m_cond := q, m_threads := ts\<rparr>, False))
      else (m\<lparr>m_isLock := True\<rparr>, True))"

definition Mutex_lock_again :: "bool \<Rightarrow> nat \<Rightarrow> mutex \<Rightarrow> mutex \<times> bool" where
  "Mutex_lock_again co c m = Mutex_lock_test co c (m\<lparr>waitings := waitings m - 1\<rparr>)"

definition Mutex_unlock :: "mutex \<Rightarrow> mutex \<times> nat list \<times> bool" where
  "Mutex_unlock m =
     (let m = m\<lparr>m_isLock := False\<rparr> in
      if waitings m > 0 then
        (let (q, r, std) = ConditionVariable_notify_one (m_cond m) in (m\<lparr>m_cond := q\<rparr>, r, std))
      else (m, [], False))"

text \<open>Whom notifying the standard variable may wake: one of its threads, if there is any.\<close>

definition std_wakes :: "bool \<Rightarrow> nat set \<Rightarrow> nat set \<Rightarrow> bool" where
  "std_wakes std ts wk \<longleftrightarrow> (if std \<and> ts \<noteq> {} then \<exists>t\<in>ts. wk = {t} else wk = {})"

text \<open>
  The interleavings: \<open>co\<close> tells the coroutines from the plain threads.  A thread may also wake up for no
  reason.
\<close>

inductive mutex_step :: "(nat \<Rightarrow> bool) \<Rightarrow> mutex \<times> (nat \<Rightarrow> place) \<Rightarrow> mutex \<times> (nat \<Rightarrow> place) \<Rightarrow> bool" for co where
  lock: "pc c = Outside \<Longrightarrow> Mutex_lock_test (co c) c m = (m', got) \<Longrightarrow>
     mutex_step co (m, pc) (m', pc(c := if got then Inside else Queued))"
| again: "pc c = Resumed \<Longrightarrow> Mutex_lock_again (co c) c m = (m', got) \<Longrightarrow>
     mutex_step co (m, pc) (m', pc(c := if got then Inside else Queued))"
| unlock: "pc c = Inside \<Longrightarrow> Mutex_unlock m = (m', r, std) \<Longrightarrow> std_wakes std (m_threads m') wk \<Longrightarrow>
     mutex_step co (m, pc)
       (m'\<lparr>m_threads := m_threads m' - wk\<rparr>, \<lambda>d. if d \<in> set r \<union> wk then Resumed else (pc(c := Outside)) d)"
| spurious: "t \<in> m_threads m \<Longrightarrow>
     mutex_step co (m, pc) (m\<lparr>m_threads := m_threads m - {t}\<rparr>, pc(t := Resumed))"

inductive mutex_reach :: "(nat \<Rightarrow> bool) \<Rightarrow> mutex \<times> (nat \<Rightarrow> place) \<Rightarrow> bool" for co where
  init: "mutex_reach co (Mutex_new, \<lambda>_. Outside)"
| step: "mutex_reach co x \<Longrightarrow> mutex_step co x y \<Longrightarrow> mutex_reach co y"

text \<open>
  The holder is unique; the queue and the standard variable hold the waiting coroutines and threads, once
  each; \<^verbatim>\<open>waitings_\<close> counts those and the ones on their way back; and if the lock is free
  while somebody waits, somebody is on the way back.
\<close>

definition mutex_inv :: "(nat \<Rightarrow> bool) \<Rightarrow> mutex \<times> (nat \<Rightarrow> place) \<Rightarrow> bool" where
  "mutex_inv co x \<longleftrightarrow> (case x of (m, pc) \<Rightarrow>
     (if m_isLock m then \<exists>c. at_place Inside pc = {c} else at_place Inside pc = {}) \<and>
     list_all (\<lambda>w. \<not> isCanceled w) (m_cond m) \<and> distinct (map who (m_cond m)) \<and>
     (\<forall>c\<in>set (map who (m_cond m)). co c) \<and> (\<forall>t\<in>m_threads m. \<not> co t) \<and> finite (m_threads m) \<and>
     set (map who (m_cond m)) \<union> m_threads m = at_place Queued pc \<and> finite (at_place Resumed pc) \<and>
     waitings m = int (length (m_cond m)) + int (card (m_threads m)) + int (card (at_place Resumed pc)) \<and>
     (\<not> m_isLock m \<and> (m_cond m \<noteq> [] \<or> m_threads m \<noteq> {}) \<longrightarrow> at_place Resumed pc \<noteq> {}))"

lemma mutex_inv_test:
  assumes "Mutex_lock_test (co c) c m = (m', got)"
    and "if m_isLock m then \<exists>c. at_place Inside pc = {c} else at_place Inside pc = {}"
    and "list_all (\<lambda>w. \<not> isCanceled w) (m_cond m)" "distinct (map who (m_cond m))"
    and "\<forall>c\<in>set (map who (m_cond m)). co c" "\<forall>t\<in>m_threads m. \<not> co t" "finite (m_threads m)"
    and "set (map who (m_cond m)) \<union> m_threads m = at_place Queued pc" "finite (at_place Resumed pc)"
    and "waitings m = int (length (m_cond m)) + int (card (m_threads m)) + int (card (at_place Resumed pc - {c}))"
    and "c \<notin> at_place Queued pc" "c \<notin> at_place Inside pc"
  shows "mutex_inv co (m', pc(c := if got then Inside else Queued))"
proof (cases "m_isLock m")
  case True
  note nq = assms(11) [folded assms(8)]
  show ?thesis
  proof (cases "co c")
    case co: True
    with True assms(1) have "m' = m\<lparr>waitings := waitings m + 1, m_cond := m_cond m @ [CoroutineWaiter_new c]\<rparr>" "\<not> got"
      by (auto simp: Mutex_lock_test_def ConditionVariable_wait_def CoConditionVariable_wait_def Let_def)
    with True co assms(2-10,12) nq show ?thesis
      by (auto simp: mutex_inv_def at_place_upd CoroutineWaiter_new_def)
  next
    case thread: False
    with True assms(1) have "m' = m\<lparr>waitings := waitings m + 1, m_threads := insert c (m_threads m)\<rparr>" "\<not> got"
      by (auto simp: Mutex_lock_test_def ConditionVariable_wait_def Let_def)
    with True thread assms(2-10,12) nq show ?thesis
      by (auto simp: mutex_inv_def at_place_upd)
  qed
next
  case False
  with assms(1) have "m' = m\<lparr>m_isLock := True\<rparr>" "got" by (auto simp: Mutex_lock_test_def)
  with False assms show ?thesis by (auto simp: mutex_inv_def at_place_upd)
qed

text \<open>Somebody who waited is on the way back.\<close>

lemma mutex_inv_woken:
  assumes "x \<notin> at_place Resumed pc" "finite (at_place Resumed pc)"
  shows "int (card (at_place Resumed (pc(x := Resumed)))) = int (card (at_place Resumed pc)) + 1"
    and "finite (at_place Resumed (pc(x := Resumed)))" "at_place Resumed (pc(x := Resumed)) \<noteq> {}"
  using assms by (simp_all add: at_place_upd)

lemma mutex_inv_spurious:
  assumes "mutex_inv co (m, pc)" "t \<in> m_threads m"
  shows "mutex_inv co (m\<lparr>m_threads := m_threads m - {t}\<rparr>, pc(t := Resumed))"
proof -
  have q: "t \<in> at_place Queued pc" "t \<notin> set (map who (m_cond m))" using assms by (auto simp: mutex_inv_def)
  then have "t \<notin> at_place Resumed pc" "t \<notin> at_place Inside pc" by (auto simp: at_place_def)
  moreover have "card (m_threads m) = Suc (card (m_threads m - {t}))"
    using assms by (intro card.remove) (auto simp: mutex_inv_def)
  ultimately show ?thesis
    using assms q by (auto simp: mutex_inv_def at_place_upd)
qed

lemma mutex_inv_free:
  assumes "mutex_inv co (m, pc)" "pc c = Inside"
  shows "m_isLock m \<and> at_place Inside (pc(c := Outside)) = {} \<and> at_place Queued (pc(c := Outside)) = at_place Queued pc \<and>
    at_place Resumed (pc(c := Outside)) = at_place Resumed pc"
proof -
  have "c \<in> at_place Inside pc" using assms(2) by (simp add: at_place_def)
  with assms(1) have "at_place Inside pc = {c}" "m_isLock m" by (auto simp: mutex_inv_def split: if_splits)
  with assms(2) show ?thesis by (auto simp: at_place_def)
qed

lemma mutex_inv_unlock:
  assumes inv: "mutex_inv co (m, pc)" and c: "pc c = Inside"
    and u: "Mutex_unlock m = (m', r, std)" and wk: "std_wakes std (m_threads m') wk"
  shows "mutex_inv co
    (m'\<lparr>m_threads := m_threads m' - wk\<rparr>, \<lambda>d. if d \<in> set r \<union> wk then Resumed else (pc(c := Outside)) d)"
proof -
  let ?pc = "pc(c := Outside)"
  note free = mutex_inv_free [OF inv c]
  have up: "(\<lambda>d. if d \<in> {x} then Resumed else ?pc d) = ?pc(x := Resumed)" for x by auto
  show ?thesis
  proof (cases "m_cond m")
    case (Cons w ws)
    with inv have "waitings m > 0" "\<not> isCanceled w" by (auto simp: mutex_inv_def)
    with u Cons have m': "m' = m\<lparr>m_isLock := False, m_cond := ws\<rparr>" "r = [who w]" "\<not> std"
      by (auto simp: Mutex_unlock_def ConditionVariable_notify_one_def CoConditionVariable_notify_one_def Let_def)
    with wk have "wk = {}" by (simp add: std_wakes_def)
    have w: "who w \<in> at_place Queued pc" "who w \<notin> m_threads m" "who w \<notin> set (map who ws)"
      using inv Cons by (auto simp: mutex_inv_def)
    moreover from this(1) c have "who w \<noteq> c" by (auto simp: at_place_def)
    ultimately have w: "who w \<in> at_place Queued pc" "who w \<notin> m_threads m" "who w \<notin> set (map who ws)" "who w \<noteq> c"
      by simp_all
    then have "who w \<notin> at_place Resumed ?pc" using free by (simp add: at_place_def)
    with inv free w Cons have "mutex_inv co (m', ?pc(who w := Resumed))"
      unfolding m' by (auto simp: mutex_inv_def at_place_upd)
    then show ?thesis using m' up [of "who w"] \<open>wk = {}\<close> by simp
  next
    case Nil
    show ?thesis
    proof (cases "waitings m > 0")
      case False
      with u have m': "m' = m\<lparr>m_isLock := False\<rparr>" "r = []" "\<not> std" by (auto simp: Mutex_unlock_def Let_def)
      with wk have "wk = {}" by (simp add: std_wakes_def)
      from inv have "finite (m_threads m)" "waitings m \<ge> int (card (m_threads m))" by (simp_all add: mutex_inv_def)
      with False have "card (m_threads m) = 0" by linarith
      with \<open>finite (m_threads m)\<close> have "m_threads m = {}" by simp
      with inv free Nil have "mutex_inv co (m', ?pc)" unfolding m' by (auto simp: mutex_inv_def)
      then show ?thesis using m' \<open>wk = {}\<close> by (simp add: fun_upd_def)
    next
      case True
      with u Nil have m': "m' = m\<lparr>m_isLock := False\<rparr>" "r = []" "std"
        by (auto simp: Mutex_unlock_def ConditionVariable_notify_one_def CoConditionVariable_notify_one_def Let_def)
      show ?thesis
      proof (cases "m_threads m = {}")
        case t: True
        with wk m' have "wk = {}" by (simp add: std_wakes_def)
        from inv free Nil t have "mutex_inv co (m', ?pc)" unfolding m' by (auto simp: mutex_inv_def)
        then show ?thesis using m' \<open>wk = {}\<close> by (simp add: fun_upd_def)
      next
        case t: False
        with wk m' obtain t where t: "t \<in> m_threads m" "wk = {t}" by (auto simp: std_wakes_def)
        have q: "t \<in> at_place Queued pc" using inv t(1) by (auto simp: mutex_inv_def)
        then have "t \<notin> at_place Resumed pc" by (simp add: at_place_def)
        moreover have "card (m_threads m) = Suc (card (m_threads m - {t}))"
          using inv t(1) by (intro card.remove) (auto simp: mutex_inv_def)
        ultimately have "mutex_inv co (m'\<lparr>m_threads := m_threads m' - {t}\<rparr>, ?pc(t := Resumed))"
          using inv free Nil t(1) unfolding m' by (auto simp: mutex_inv_def at_place_upd)
        then show ?thesis using m'(2) up [of t] t(2) by simp
      qed
    qed
  qed
qed

lemma mutex_inv_step: "mutex_step co x y \<Longrightarrow> mutex_inv co x \<Longrightarrow> mutex_inv co y"
proof (induction rule: mutex_step.induct)
  case (lock pc c m m' got)
  then have "at_place Resumed pc - {c} = at_place Resumed pc" "c \<notin> at_place Queued pc" "c \<notin> at_place Inside pc"
    by (auto simp: at_place_def)
  with lock(3) show ?case by (intro mutex_inv_test [where co = co and c = c, OF lock(2)]) (simp_all add: mutex_inv_def)
next
  case (again pc c m m' got)
  then have c: "c \<in> at_place Resumed pc" "c \<notin> at_place Queued pc" "c \<notin> at_place Inside pc"
    by (auto simp: at_place_def)
  have "int (card (at_place Resumed pc - {c})) = int (card (at_place Resumed pc)) - 1"
  proof -
    from again(3) have "finite (at_place Resumed pc)" by (simp add: mutex_inv_def)
    then have "card (at_place Resumed pc) = Suc (card (at_place Resumed pc - {c}))"
      using c(1) by (rule card.remove)
    then show ?thesis by simp
  qed
  with again(3) c show ?case
    by (intro mutex_inv_test [where co = co and c = c, OF again(2) [unfolded Mutex_lock_again_def]]) (simp_all add: mutex_inv_def)
next
  case (unlock pc c m m' r std wk)
  then show ?case by (intro mutex_inv_unlock)
next
  case (spurious t m pc)
  then show ?case by (intro mutex_inv_spurious)
qed

lemma mutex_inv_reach: "mutex_reach co x \<Longrightarrow> mutex_inv co x"
proof (induction rule: mutex_reach.induct)
  case init
  show ?case by (simp add: mutex_inv_def Mutex_new_def at_place_def)
qed (rule mutex_inv_step)

section \<open>Promises and futures\<close>

text \<open>\<open>'e\<close> is the type of exceptions.  \<open>r_waiters\<close> are the coroutines waiting in \<^verbatim>\<open>cond_\<close>.\<close>

record ('a, 'e) shared_state =
  isReady :: bool
  val :: "'a option"
  eptr :: "'e option"
  r_waiters :: "waiter list"

definition SharedState_new :: "('a, 'e) shared_state" where
  "SharedState_new = \<lparr>isReady = False, val = None, eptr = None, r_waiters = []\<rparr>"

definition SharedState_setValue :: "'a \<Rightarrow> ('a, 'e) shared_state \<Rightarrow> ('a, 'e) shared_state \<times> nat list" where
  "SharedState_setValue v s =
     (let (q, r, _) = ConditionVariable_notify_all (r_waiters s)
      in (s\<lparr>val := Some v, isReady := True, r_waiters := q\<rparr>, r))"

definition SharedState_setException :: "'e \<Rightarrow> ('a, 'e) shared_state \<Rightarrow> ('a, 'e) shared_state \<times> nat list" where
  "SharedState_setException e s =
     (let (q, r, _) = ConditionVariable_notify_all (r_waiters s)
      in (s\<lparr>eptr := Some e, isReady := True, r_waiters := q\<rparr>, r))"

text \<open>The test of the wait loop: true if the wait is over, otherwise the coroutine is queued.\<close>

definition SharedState_wait_test :: "nat \<Rightarrow> ('a, 'e) shared_state \<Rightarrow> ('a, 'e) shared_state \<times> bool" where
  "SharedState_wait_test c s =
     (if \<not> isReady s then (s\<lparr>r_waiters := fst (CoConditionVariable_wait c (r_waiters s))\<rparr>, False)
      else (s, True))"

definition SharedState_void_setValue :: "(unit, 'e) shared_state \<Rightarrow> (unit, 'e) shared_state \<times> nat list" where
  "SharedState_void_setValue s =
     (let (q, r, _) = ConditionVariable_notify_all (r_waiters s)
      in (s\<lparr>val := Some (), isReady := True, r_waiters := q\<rparr>, r))"

datatype 'e get_error = NotReady | Thrown 'e

text \<open>A \<^verbatim>\<open>value_\<close> that was never assigned is a default-constructed object, \<open>dflt\<close>.\<close>

definition SharedState_getValue :: "'a \<Rightarrow> ('a, 'e) shared_state \<Rightarrow> 'e get_error + 'a" where
  "SharedState_getValue dflt s =
     (if \<not> isReady s then Inl NotReady
      else case eptr s of Some e \<Rightarrow> Inl (Thrown e) | None \<Rightarrow> Inr (case val s of None \<Rightarrow> dflt | Some v \<Rightarrow> v))"

text \<open>A future waits, then takes the value; \<open>None\<close> means that it is still waiting.\<close>

definition Future_wait ::
    "'a \<Rightarrow> nat \<Rightarrow> ('a, 'e) shared_state \<Rightarrow> ('a, 'e) shared_state \<times> ('e get_error + 'a) option" where
  "Future_wait dflt c s =
     (case SharedState_wait_test c s of
        (s, False) \<Rightarrow> (s, None)
      | (s, True) \<Rightarrow> (s, Some (SharedState_getValue dflt s)))"

text \<open>Waiting on a future without a value only waits.\<close>

definition Future_void_wait :: "nat \<Rightarrow> (unit, 'e) shared_state \<Rightarrow> (unit, 'e) shared_state \<times> unit option" where
  "Future_void_wait c s =
     (case SharedState_wait_test c s of (s, ready) \<Rightarrow> (s, if ready then Some () else None))"

definition Promise_setValue :: "'a \<Rightarrow> ('a, 'e) shared_state \<Rightarrow> ('a, 'e) shared_state \<times> nat list" where
  "Promise_setValue = SharedState_setValue"

definition Promise_setException :: "'e \<Rightarrow> ('a, 'e) shared_state \<Rightarrow> ('a, 'e) shared_state \<times> nat list" where
  "Promise_setException = SharedState_setException"

text \<open>
  \<^verbatim>\<open>Async\<close>: the index chosen by \<^verbatim>\<open>getIndex\<close>, and \<^verbatim>\<open>async\<close>: it hands the closure to that
  scheduler and ignores the answer.  The closure is \<open>body\<close>; when it runs it completes the promise.
\<close>

text \<open>The constructor starts one scheduler per thread, without an event loop; the destructor stops them.\<close>

fun Async_new :: "nat \<Rightarrow> int \<Rightarrow> sched list result" where
  "Async_new 0 now = Inr []"
| "Async_new (Suc i) now =
     rbind (Async_new i now) (\<lambda>ss. rbind (Scheduler_new 10240 False now) (\<lambda>s. Inr (ss @ [s])))"

definition Async_stop :: "sched list \<Rightarrow> sched list" where
  "Async_stop scheds = map Scheduler_stop scheds"

definition Async_getIndex :: "nat \<Rightarrow> nat \<Rightarrow> nat \<times> nat" where
  "Async_getIndex n index = (index mod n, index + 1)"

definition Async_async ::
    "action list \<Rightarrow> nat \<Rightarrow> sched list \<Rightarrow> (nat \<times> sched list \<times> ('a, 'e) shared_state) result" where
  "Async_async body index scheds =
     (let (i, index) = Async_getIndex (length scheds) index in
      rbind (Scheduler_addCoroutine body (scheds ! i)) (\<lambda>(s, _).
        Inr (index, scheds[i := s], SharedState_new)))"

definition run_closure :: "'e + 'a \<Rightarrow> ('a, 'e) shared_state \<Rightarrow> ('a, 'e) shared_state \<times> nat list" where
  "run_closure outcome = (case outcome of Inr v \<Rightarrow> Promise_setValue v | Inl e \<Rightarrow> Promise_setException e)"

definition run_void_closure :: "'e + unit \<Rightarrow> (unit, 'e) shared_state \<Rightarrow> (unit, 'e) shared_state \<times> nat list" where
  "run_void_closure outcome =
     (case outcome of Inr _ \<Rightarrow> SharedState_void_setValue | Inl e \<Rightarrow> Promise_setException e)"

section \<open>Properties\<close>

text \<open>
  C16.  \<open>CoMutex\<close> excludes: in every interleaving of the atomic steps of \<^verbatim>\<open>lock\<close> and
  \<^verbatim>\<open>unlock\<close>, at most one coroutine is inside or owns the lock and is on its way in; the flag says
  whether there is one; the queue holds exactly the suspended coroutines, so nobody waits at a free lock.
\<close>

theorem CoMutex_exclusion:
  assumes "comutex_reach (m, pc)"
  shows "(\<forall>c d. pc c \<in> {Inside, Resumed} \<and> pc d \<in> {Inside, Resumed} \<longrightarrow> c = d) \<and>
         (isLock m \<longleftrightarrow> (\<exists>c. pc c \<in> {Inside, Resumed})) \<and>
         set (map who (waiters m)) = {c. pc c = Queued} \<and> (waiters m \<noteq> [] \<longrightarrow> isLock m)"
proof -
  from comutex_inv_reach [OF assms] have inv: "comutex_inv (m, pc)" .
  have o: "owners pc = {c. pc c \<in> {Inside, Resumed}}" by (auto simp: owners_def)
  show ?thesis
  proof (cases "isLock m")
    case True
    with inv obtain c where "owners pc = {c}" by (auto simp: comutex_inv_def)
    with o have k: "\<forall>d. pc d \<in> {Inside, Resumed} \<longleftrightarrow> d = c" by blast
    then have "\<forall>d e. pc d \<in> {Inside, Resumed} \<and> pc e \<in> {Inside, Resumed} \<longrightarrow> d = e"
      "\<exists>d. pc d \<in> {Inside, Resumed}" by (metis, metis)
    with inv True show ?thesis by (simp only: comutex_inv_def at_place_def prod.case simp_thms)
  next
    case False
    with inv have "owners pc = {}" by (auto simp: comutex_inv_def)
    with o have "{c. pc c \<in> {Inside, Resumed}} = {}" by simp
    with inv False show ?thesis by (auto simp: comutex_inv_def at_place_def)
  qed
qed

theorem CoMutex_exclusion_witness:
  "\<exists>m pc. comutex_reach (m, pc) \<and> pc (1::nat) = Inside \<and> pc 2 = Queued \<and> isLock m \<and>
     (\<forall>c. pc c \<in> {Inside, Resumed} \<longrightarrow> c = 1)"
proof -
  let ?m = "\<lparr>isLock = True, waiters = []\<rparr>"
  let ?p1 = "(\<lambda>_. Outside)(1 := Inside)"
  let ?p2 = "?p1(2 := Trying)"
  let ?p3 = "?p2(2 := Queued)"
  have "comutex_reach (?m, ?p1)"
    using comutex_reach.step [OF comutex_reach.init comutex_step.lock_fast [of "\<lambda>_. Outside" 1 CoMutex_new ?m True]]
    by (simp add: CoMutex_lock_fast_def CoMutex_setLock_def CoMutex_new_def)
  from comutex_reach.step [OF this comutex_step.lock_fast [of ?p1 2 ?m ?m False]]
  have "comutex_reach (?m, ?p2)"
    by (simp add: CoMutex_lock_fast_def CoMutex_setLock_def)
  from comutex_reach.step [OF this comutex_step.lock_slow
      [of ?p2 2 ?m "\<lparr>isLock = True, waiters = [CoroutineWaiter_new 2]\<rparr>" False]]
  have r: "comutex_reach (\<lparr>isLock = True, waiters = [CoroutineWaiter_new 2]\<rparr>, ?p3)"
    by (simp add: CoMutex_lock_slow_def CoMutex_setLock_def)
  from CoMutex_exclusion [OF r] have ex: "\<forall>c. ?p3 c \<in> {Inside, Resumed} \<longrightarrow> c = 1"
    by (auto split: if_splits)
  show ?thesis
    by (intro exI [of _ "\<lparr>isLock = True, waiters = [CoroutineWaiter_new 2]\<rparr>"] exI [of _ ?p3] conjI)
      (rule r, simp, simp, simp, rule ex)
qed

text \<open>
  C17.  \<open>Mutex\<close> excludes and loses no wake-up, with coroutines and plain threads as its users: at most one
  is inside, the flag says whether there is one, \<^verbatim>\<open>waitings_\<close> counts those that wait or are on
  their way back to the test, and whenever the lock is free while somebody waits, one has been woken and
  will test it again.
\<close>

theorem Mutex_no_lost_wakeup:
  assumes "mutex_reach co (m, pc)"
  shows "(\<forall>c d. pc c = Inside \<and> pc d = Inside \<longrightarrow> c = d) \<and> (m_isLock m \<longleftrightarrow> (\<exists>c. pc c = Inside)) \<and>
         (\<not> m_isLock m \<and> (\<exists>c. pc c = Queued) \<longrightarrow> (\<exists>c. pc c = Resumed)) \<and>
         waitings m = int (card {c. pc c = Queued}) + int (card {c. pc c = Resumed})"
proof -
  from mutex_inv_reach [OF assms] have inv: "mutex_inv co (m, pc)" .
  have q: "{c. pc c = Queued} = set (map who (m_cond m)) \<union> m_threads m" "distinct (map who (m_cond m))"
    "set (map who (m_cond m)) \<inter> m_threads m = {}" "finite (m_threads m)"
    using inv by (auto simp: mutex_inv_def at_place_def)
  have "card {c. pc c = Queued} = card (set (map who (m_cond m))) + card (m_threads m)"
    unfolding q(1) using q(3,4) by (intro card_Un_disjoint) auto
  also have "card (set (map who (m_cond m))) = length (m_cond m)"
    using distinct_card [OF q(2)] by simp
  finally have "card {c. pc c = Queued} = length (m_cond m) + card (m_threads m)" .
  moreover have "m_cond m \<noteq> [] \<or> m_threads m \<noteq> {} \<longleftrightarrow> (\<exists>c. pc c = Queued)"
    using q(1) by (cases "m_cond m") auto
  moreover have "if m_isLock m then \<exists>c. at_place Inside pc = {c} else at_place Inside pc = {}"
    using inv by (simp add: mutex_inv_def)
  then have "(\<forall>c d. pc c = Inside \<and> pc d = Inside \<longrightarrow> c = d) \<and> (m_isLock m \<longleftrightarrow> (\<exists>c. pc c = Inside))"
    by (auto simp: at_place_def set_eq_iff split: if_splits)
  moreover have "waitings m = int (length (m_cond m)) + int (card (m_threads m)) + int (card {c. pc c = Resumed})"
    using inv by (simp add: mutex_inv_def at_place_def)
  moreover have "\<not> m_isLock m \<and> (m_cond m \<noteq> [] \<or> m_threads m \<noteq> {}) \<longrightarrow> (\<exists>c. pc c = Resumed)"
    using inv by (auto simp: mutex_inv_def at_place_def)
  ultimately show ?thesis by simp
qed

theorem Mutex_no_lost_wakeup_witness:
  "\<exists>m pc. mutex_reach even (m, pc) \<and> pc (3::nat) = Queued \<and> pc 2 = Inside \<and> m_threads m = {3} \<and>
     waitings m = int (card {c. pc c = Queued}) + int (card {c. pc c = Resumed})"
proof -
  let ?p = "(\<lambda>_. Outside)(2 := Inside)"
  have r: "mutex_reach even (\<lparr>m_isLock = True, m_cond = [], m_threads = {}, waitings = 0\<rparr>, ?p)"
    using mutex_reach.step [OF mutex_reach.init mutex_step.lock [of "\<lambda>_. Outside" 2 even Mutex_new]]
    by (simp add: Mutex_lock_test_def Mutex_new_def)
  have r2: "mutex_reach even (\<lparr>m_isLock = True, m_cond = [], m_threads = {3}, waitings = 1\<rparr>, ?p(3 := Queued))"
    using mutex_reach.step [OF r mutex_step.lock [of ?p 3 even "\<lparr>m_isLock = True, m_cond = [], m_threads = {}, waitings = 0\<rparr>"
        "\<lparr>m_isLock = True, m_cond = [], m_threads = {3}, waitings = 1\<rparr>" False]]
    by (simp add: Mutex_lock_test_def ConditionVariable_wait_def)
  from Mutex_no_lost_wakeup [OF r2] show ?thesis
    by (intro exI [of _ "\<lparr>m_isLock = True, m_cond = [], m_threads = {3}, waitings = 1\<rparr>"] exI [of _ "?p(3 := Queued)"] conjI)
      (rule r2, simp, simp, simp, blast)
qed

text \<open>
  A condition variable notifies the oldest entry of its queue whether or not that wait is still
  going on: cancelling happens on the waiter's own copy, so in every history no queue entry is ever
  cancelled, and \<^verbatim>\<open>notify_one\<close> resumes the head and reports one notification.
\<close>

theorem CoConditionVariable_notify_oldest:
  "CoConditionVariable_notify_one (cv_queue (fold cv_exec ops cv_new)) =
     (tl (cv_queue (fold cv_exec ops cv_new)),
      if cv_queue (fold cv_exec ops cv_new) = [] then []
      else [who (hd (cv_queue (fold cv_exec ops cv_new)))])"
proof -
  have "list_all (\<lambda>w. \<not> isCanceled w) (cv_queue (fold cv_exec ops cv_new))"
    by (rule cv_queue_live) (simp add: cv_new_def)
  then show ?thesis by (simp add: CoConditionVariable_notify_one_def notify_one_live)
qed

text \<open>
  So a wake-up can be lost: coroutine 1 waits with a timeout and gives up, coroutine 2 waits, and
  the notification meant for it resumes coroutine 1, which is not waiting any more.
\<close>

theorem CoConditionVariable_lost_wakeup:
  "let s = fold cv_exec [CvWait 1, CvTimeout 1, CvWait 2, CvNotifyOne] cv_new
   in cv_resumed s = [1] \<and> map who (cv_waiting s) = [2]"
  by code_simp

text \<open>
  A future sees the outcome of its closure: once the closure has run, every waiter is resumed and
  released, and waiting on the future returns the result or throws the exception; before, there is no value.
\<close>

theorem Future_outcome:
  assumes "list_all (\<lambda>w. \<not> isCanceled w) (r_waiters s)" "\<not> isReady s" "eptr s = None"
  shows "SharedState_getValue dflt s = Inl NotReady \<and>
    (case run_closure outcome s of (s', woken) \<Rightarrow>
       woken = map who (r_waiters s) \<and> r_waiters s' = [] \<and>
       Future_wait dflt c s' = (s', Some (case outcome of Inr v \<Rightarrow> Inr v | Inl e \<Rightarrow> Inl (Thrown e))))"
  using assms
  by (cases outcome) (simp_all add: run_closure_def Promise_setValue_def Promise_setException_def Future_wait_def SharedState_setValue_def SharedState_setException_def
      SharedState_getValue_def SharedState_wait_test_def ConditionVariable_notify_all_def
      CoConditionVariable_notify_all_def notify_all_live)

theorem Future_outcome_witness:
  "case run_closure (Inr 7 :: string + nat) (fst (SharedState_wait_test 1 SharedState_new)) of (s', woken) \<Rightarrow>
     woken = [1] \<and> snd (Future_wait 0 1 s') = Some (Inr 7)"
proof -
  let ?s = "fst (SharedState_wait_test 1 SharedState_new) :: (nat, string) shared_state"
  have "list_all (\<lambda>w. \<not> isCanceled w) (r_waiters ?s)" "\<not> isReady ?s" "eptr ?s = None" "map who (r_waiters ?s) = [1]"
    by (simp_all add: SharedState_wait_test_def SharedState_new_def CoConditionVariable_wait_def CoroutineWaiter_new_def Let_def)
  with Future_outcome [OF this(1-3), where dflt = 0 and outcome = "Inr 7" and c = 1] show ?thesis by auto
qed

text \<open>A future without a value returns from its wait although the closure threw: the exception is lost.\<close>

theorem Future_void_drops_exception:
  "run_void_closure (Inl e) s = (s', woken) \<Longrightarrow> eptr s' = Some e \<and> Future_void_wait c s' = (s', Some ())"
  by (auto simp: run_void_closure_def Promise_setException_def SharedState_setException_def Future_void_wait_def
      SharedState_wait_test_def split: prod.splits)

text \<open>
  \<^verbatim>\<open>async\<close> distributes round robin, and ignores a full scheduler: if the chosen scheduler has
  no free coroutine, nothing changes, the closure will never run, and the future it returns refuses
  for ever.
\<close>

theorem Async_async_full:
  assumes "IntrusiveListFront HFree (heap (scheds ! (index mod length scheds))) = None"
  shows "\<exists>st. Async_async body index scheds = Inr (index + 1, scheds, st) \<and> \<not> isReady st \<and>
           SharedState_getValue dflt st = Inl NotReady \<and> snd (Future_wait dflt c st) = None"
  using assms
  by (simp add: Async_async_def Async_getIndex_def Scheduler_addCoroutine_def SharedState_new_def
      SharedState_getValue_def SharedState_wait_test_def Future_wait_def)

theorem Async_async_full_witness:
  "\<exists>s st. Scheduler_new 0 False 0 = Inr s \<and> (Async_async [] 5 [s] = Inr (6, [s], st :: (nat, string) shared_state)) \<and>
     SharedState_getValue 0 st = Inl NotReady"
proof -
  obtain s where s: "Scheduler_new 0 False 0 = Inr s" "part 0 (heap s) (all_free 0)"
    using Scheduler_new_ok [of 0 False 0] by blast
  from part_front [OF s(2)] have "IntrusiveListFront HFree (heap ([s] ! (5 mod length [s]))) = None"
    by (simp add: all_free_def)
  from Async_async_full [OF this, of "[]" "0 :: nat"] s(1) show ?thesis by auto
qed

text \<open>
  A timed wait that is notified is not over for the scheduler: the coroutine is queued, and its entry in
  the sleep queue stays, so it will be queued once more when the time is up.
\<close>

theorem CoroutineWaiter_notified_timeout_stays:
  assumes "currentCoro s = Some c" "CoroutineWaiter_wait ms rest s = Inr s'" "ms \<noteq> -1"
  shows "c \<in> set (resumeQueue (CoroutineWaiter_wakeup (CoroutineWaiter_new c) s')) \<and>
    (clock s + ms, c) \<in> set (sleepQueue (CoroutineWaiter_wakeup (CoroutineWaiter_new c) s'))"
proof -
  have q: "sleepQueue s' = insort (clock s + ms, c) (sleepQueue s)"
    using assms by (auto simp: CoroutineWaiter_wait_def Scheduler_sleep_def Scheduler_suspend_def leave_def moveTo_def
        heap_op_def rbind_Inr split: option.splits)
  show ?thesis
    by (simp add: CoroutineWaiter_wakeup_def CoroutineWaiter_new_def Scheduler_resume_def q set_insort_key)
qed

text \<open>
  \<^verbatim>\<open>async\<close> on a scheduler with a free coroutine: the closure will run there from its start, the
  other schedulers are untouched, and the next call takes the next scheduler.
\<close>

theorem Async_async_spec:
  assumes "scheds \<noteq> []" "ok n (scheds ! (index mod length scheds)) L" "L HFree \<noteq> []" "valid_acts n body"
  shows "\<exists>s c. Async_async body index scheds =
      Inr (index + 1, scheds[index mod length scheds := s], SharedState_new) \<and>
    c < n \<and> in_list HYield c s \<and> ctx s c = Saved body"
proof -
  from Scheduler_addCoroutine_ok [OF assms(2,4)] assms(3) obtain c h where a: "c < n"
    "Scheduler_addCoroutine body (scheds ! (index mod length scheds)) =
       Inr ((scheds ! (index mod length scheds))\<lparr>heap := h, ctx := (ctx (scheds ! (index mod length scheds)))(c := Saved body)\<rparr>, True)"
    "ok n ((scheds ! (index mod length scheds))\<lparr>heap := h, ctx := (ctx (scheds ! (index mod length scheds)))(c := Saved body)\<rparr>)
       (mv HYield (Co c) L)" by blast
  have "in_list HYield c ((scheds ! (index mod length scheds))\<lparr>heap := h, ctx := (ctx (scheds ! (index mod length scheds)))(c := Saved body)\<rparr>)"
    by (simp add: in_list_eq [OF a(3)] in_mv [OF ok_part [OF assms(2)]])
  moreover have "ctx ((scheds ! (index mod length scheds))\<lparr>heap := h, ctx := (ctx (scheds ! (index mod length scheds)))(c := Saved body)\<rparr>) c = Saved body"
    by simp
  moreover have "Async_async body index scheds = Inr (index + 1, scheds[index mod length scheds :=
      (scheds ! (index mod length scheds))\<lparr>heap := h, ctx := (ctx (scheds ! (index mod length scheds)))(c := Saved body)\<rparr>], SharedState_new)"
    by (simp add: Async_async_def Async_getIndex_def a(2))
  ultimately show ?thesis using a(1) by blast
qed

lemma Async_new_ok:
  "\<exists>s. Scheduler_new 10240 False now = Inr s \<and> ok 10240 s (all_free 10240) \<and> Async_new threads now = Inr (replicate threads s)"
proof -
  from Scheduler_new_start obtain s where s: "Scheduler_new 10240 False now = Inr s" "ok 10240 s (all_free 10240)"
    by blast
  have "Async_new threads now = Inr (replicate threads s)"
    by (induction threads) (simp_all add: s(1) replicate_append_same)
  with s show ?thesis by blast
qed

text \<open>On a new pool the first closure runs on the first scheduler.\<close>

theorem Async_first:
  assumes "threads > 0" "valid_acts 10240 body"
  shows "\<exists>scheds s c. Async_new threads now = Inr scheds \<and>
    Async_async body 0 scheds = Inr (1, scheds[0 := s], SharedState_new :: ('a, 'e) shared_state) \<and> c < 10240 \<and> in_list HYield c s \<and> ctx s c = Saved body"
proof -
  obtain s where s: "ok 10240 s (all_free 10240)" "Async_new threads now = Inr (replicate threads s)"
    using Async_new_ok by blast
  have "all_free 10240 HFree \<noteq> []" by (simp add: all_free_def)
  with s(1) assms obtain s' c where "Async_async body 0 (replicate threads s) = Inr (1, (replicate threads s)[0 := s'], SharedState_new :: ('a, 'e) shared_state)"
    "c < 10240" "in_list HYield c s'" "ctx s' c = Saved body"
    using Async_async_spec [of "replicate threads s" 10240 0 "all_free 10240" body] by auto
  with s(2) show ?thesis by (intro exI conjI)
qed

end
