(* ===== verification/Net_Server.thy ===== *)
theory Net_Server
  imports Tcp_Connection
begin

text \<open>
  \<^verbatim>\<open>src/net/server/acceptor\<close> and \<^verbatim>\<open>server\<close>: listening, accepting, and the set of
  connections the server keeps alive.  A connection object is named by its address; \<open>None\<close> is an
  abort.  The user's connected handler is described by what it does to the connection before it
  returns: whether it finishes it, and with which error.
\<close>

section \<open>Acceptor\<close>

datatype sock_call = SBind | SReuseAddr | SNoblock | SNoDelay | SListen | SConnect

record Acceptor =
  acc_handler :: bool
  acc_event :: "event option"

definition Acceptor_new :: Acceptor where
  "Acceptor_new = \<lparr>acc_handler = False, acc_event = None\<rparr>"

definition Acceptor_SetNewConnectionHandler :: "Acceptor \<Rightarrow> Acceptor" where
  "Acceptor_SetNewConnectionHandler a = a\<lparr>acc_handler := True\<rparr>"

text \<open>
  \<open>rep\<close> is what each socket call reports; the result lists the calls made.  The event is created
  and enabled before the socket listens.
\<close>

definition Acceptor_Listen ::
    "(sock_call \<Rightarrow> errmsg) \<Rightarrow> event \<Rightarrow> Acceptor \<Rightarrow> Acceptor \<times> sock_call list \<times> errmsg" where
  "Acceptor_Listen rep ev a =
     (if \<not> acc_handler a then (a, [], ''invalid new connection handler'')
      else case call_seq (map (\<lambda>c. (c, rep c)) [SBind, SReuseAddr, SNoblock, SNoDelay]) of
        (cs, errMsg) \<Rightarrow>
          if errMsg \<noteq> '''' then (a, cs, errMsg)
          else (a\<lparr>acc_event := Some (notify_flags EnableRead ev)\<rparr>, cs @ [SListen], rep SListen))"

text \<open>The read callback: the descriptor handed to the server, if any.\<close>

definition Acceptor_readHandler :: "(int \<Rightarrow> string) \<Rightarrow> int \<Rightarrow> int \<Rightarrow> int option" where
  "Acceptor_readHandler strerror newFd errno =
     (case Socket_Accept strerror newFd errno of
        (f, errMsg) \<Rightarrow> if errMsg \<noteq> '''' then None else Some f)"

section \<open>Server\<close>

datatype server_call = Connected nat errmsg | Disconnected errmsg

record Server =
  serveCalled :: bool
  srv_connectedHandler :: bool
  srv_disconnectedHandler :: bool
  acceptor :: Acceptor
  connections :: "nat list"

definition Server_new :: Server where
  "Server_new = \<lparr>serveCalled = False, srv_connectedHandler = False, srv_disconnectedHandler = False,
     acceptor = Acceptor_new, connections = []\<rparr>"

definition Server_SetConnectedHandler :: "Server \<Rightarrow> Server option" where
  "Server_SetConnectedHandler s =
     (if serveCalled s then None else Some (s\<lparr>srv_connectedHandler := True\<rparr>))"

definition Server_SetDisconnectedHandler :: "Server \<Rightarrow> Server option" where
  "Server_SetDisconnectedHandler s =
     (if serveCalled s then None else Some (s\<lparr>srv_disconnectedHandler := True\<rparr>))"

text \<open>\<^verbatim>\<open>Serve\<close> up to the asyncer; true means that the closure has been handed to the loop.\<close>

definition Server_Serve :: "Server \<Rightarrow> Server \<times> errmsg \<times> bool" where
  "Server_Serve s =
     (if serveCalled s then (s, ''Serve can't called twice'', False)
      else if \<not> srv_connectedHandler s \<or> \<not> srv_disconnectedHandler s
           then (s, ''invalid connected or disconnected handler'', False)
      else (s\<lparr>serveCalled := True\<rparr>, '''', True))"

text \<open>The closure, run by the loop with the asyncer's message.\<close>

definition Server_onLoop :: "(sock_call \<Rightarrow> errmsg) \<Rightarrow> event \<Rightarrow> errmsg \<Rightarrow> Server \<Rightarrow> Server \<times> server_call list" where
  "Server_onLoop rep ev argErrMsg s =
     (if argErrMsg \<noteq> '''' then (s, [Disconnected argErrMsg])
      else case Acceptor_Listen rep ev (Acceptor_SetNewConnectionHandler (acceptor s)) of
        (a, _, errMsg) \<Rightarrow>
          (s\<lparr>acceptor := a\<rparr>, if errMsg \<noteq> '''' then [Disconnected errMsg] else []))"

text \<open>The finish handler of a connection.\<close>

definition Server_finishHandler :: "nat \<Rightarrow> errmsg \<Rightarrow> Server \<Rightarrow> Server \<times> server_call list" where
  "Server_finishHandler c errMsg s = (s\<lparr>connections := removeAll c (connections s)\<rparr>, [Disconnected errMsg])"

text \<open>
  \<open>e1\<close> and \<open>e2\<close>: what the two socket options reported; \<open>fin\<close>: the error with which the connected
  handler finishes the new connection \<open>c\<close> before it returns, if it does.
\<close>

definition Server_newConnectionHandler ::
    "event \<Rightarrow> errmsg \<Rightarrow> errmsg \<Rightarrow> errmsg option \<Rightarrow> nat \<Rightarrow> int \<Rightarrow> Server \<Rightarrow> (Server \<times> server_call list) option" where
  "Server_newConnectionHandler ev e1 e2 fin c f s =
     (case Socket_new f of
        None \<Rightarrow> None
      | Some _ \<Rightarrow>
          (case TcpConnection_InitAccepted e1 e2 (TcpConnection_new ev (Handler c [])) of
             None \<Rightarrow> None
           | Some (conn, errMsg) \<Rightarrow>
               let (s, calls) = (case fin of None \<Rightarrow> (s, []) | Some m \<Rightarrow> Server_finishHandler c m s)
               in if errMsg \<noteq> '''' then Some (s, Connected c errMsg # calls)
                  else Some (s\<lparr>connections := List.insert c (connections s)\<rparr>, Connected c errMsg # calls)))"

lemmas Server_defs [model_defs] =
  Acceptor_new_def Acceptor_SetNewConnectionHandler_def Acceptor_Listen_def Acceptor_readHandler_def
  Server_new_def Server_Serve_def Server_onLoop_def Server_finishHandler_def

text \<open>
  A history of a serving server.  A connection address is fresh when it is accepted; a connection
  finishes at most once (\<open>TcpConnection_finish_once\<close>).
\<close>

datatype server_event =
    Accept nat int int errmsg errmsg "errmsg option"
  | ConnFinish nat errmsg

fun Server_event ::
    "(int \<Rightarrow> string) \<Rightarrow> (int \<Rightarrow> event) \<Rightarrow> server_event \<Rightarrow> Server \<Rightarrow> (Server \<times> server_call list) option" where
  "Server_event se mk (Accept c newFd errno e1 e2 fin) s =
     (case Acceptor_readHandler se newFd errno of
        None \<Rightarrow> Some (s, [])
      | Some f \<Rightarrow> Server_newConnectionHandler (mk f) e1 e2 fin c f s)"
| "Server_event se mk (ConnFinish c m) s = Some (Server_finishHandler c m s)"

fun Server_events ::
    "(int \<Rightarrow> string) \<Rightarrow> (int \<Rightarrow> event) \<Rightarrow> server_event list \<Rightarrow> Server \<Rightarrow> (Server \<times> server_call list) option" where
  "Server_events se mk [] s = Some (s, [])"
| "Server_events se mk (x # xs) s =
     (case Server_event se mk x s of
        None \<Rightarrow> None
      | Some (s, cs) \<Rightarrow> map_option (\<lambda>(s, ds). (s, cs @ ds)) (Server_events se mk xs s))"

text \<open>
  The connections that are open according to the calls the user saw, and those that their connected handler finished
  before it returned.
\<close>

fun open_conns :: "server_event list \<Rightarrow> nat set \<Rightarrow> nat set" where
  "open_conns [] O' = O'"
| "open_conns (Accept c newFd errno e1 e2 fin # xs) O' =
     open_conns xs (if 0 \<le> newFd \<and> e1 = [] \<and> e2 = [] \<and> fin = None then insert c O' else O')"
| "open_conns (ConnFinish c m # xs) O' = open_conns xs (O' - {c})"

fun finished_at_once :: "server_event list \<Rightarrow> nat set \<Rightarrow> nat set" where
  "finished_at_once [] L = L"
| "finished_at_once (Accept c newFd errno e1 e2 fin # xs) L =
     finished_at_once xs (if 0 \<le> newFd \<and> e1 = [] \<and> e2 = [] \<and> fin \<noteq> None then insert c L else L)"
| "finished_at_once (ConnFinish c m # xs) L = finished_at_once xs (L - {c})"

text \<open>An accept that finds nobody waiting.\<close>

fun would_block :: "server_event \<Rightarrow> bool" where
  "would_block (Accept c newFd errno e1 e2 fin) = (newFd < 0 \<and> errno = EAGAIN)"
| "would_block (ConnFinish c m) = False"

lemma Server_newConnection_set:
  assumes "0 \<le> f"
  shows "\<exists>s' cs. Server_newConnectionHandler ev e1 e2 fin c f s = Some (s', cs) \<and>
    set (connections s') =
      (if e1 = [] \<and> e2 = [] then insert c (set (connections s))
       else if fin = None then set (connections s) else set (connections s) - {c})"
  using assms
  by (cases fin; cases "e1 = []"; cases "e2 = []")
    (auto simp: Server_newConnectionHandler_def Socket_new_def TcpConnection_InitAccepted_def TcpConnection_new_def Server_finishHandler_def Let_def)

text \<open>A connection is made at a fresh address.\<close>

fun fresh_accepts :: "server_event list \<Rightarrow> nat set \<Rightarrow> bool" where
  "fresh_accepts [] X = True"
| "fresh_accepts (Accept c newFd errno e1 e2 fin # xs) X =
     (c \<notin> X \<and> fresh_accepts xs (if 0 \<le> newFd \<and> e1 = [] \<and> e2 = [] then insert c X else X))"
| "fresh_accepts (ConnFinish c m # xs) X = fresh_accepts xs (X - {c})"

lemma Server_events_connections:
  assumes "set (connections s) = O' \<union> L" "fresh_accepts xs (O' \<union> L)"
  shows "if \<exists>x\<in>set xs. would_block x then Server_events se mk xs s = None
    else \<exists>s' cs. Server_events se mk xs s = Some (s', cs) \<and> set (connections s') = open_conns xs O' \<union> finished_at_once xs L"
  using assms
proof (induction xs arbitrary: s O' L)
  case (Cons x xs)
  show ?case
  proof (cases x)
    case (Accept c f e e1 e2 fin)
    show ?thesis
    proof (cases "f < 0")
      case True
      show ?thesis
      proof (cases "e = EAGAIN")
        case blocked: True
        then have "Server_event se mk x s = None" using True Accept
          by (simp add: Acceptor_readHandler_def Socket_Accept_def Server_newConnectionHandler_def Socket_new_def)
        moreover have "would_block x" using True blocked Accept by simp
        ultimately show ?thesis by simp
      next
        case False
        with True Accept have "Server_event se mk x s = Some (s, [])"
          by (simp add: Acceptor_readHandler_def Socket_Accept_def)
        with Cons.IH [of s O' L] Cons.prems True False Accept show ?thesis by auto
      qed
    next
      case False
      let ?O = "if e1 = [] \<and> e2 = [] \<and> fin = None then insert c O' else O'"
      let ?L = "if e1 = [] \<and> e2 = [] \<and> fin \<noteq> None then insert c L else L"
      from Server_newConnection_set [of f "mk f" e1 e2 fin c s] False Accept obtain s1 cs1 where
        1: "Server_event se mk x s = Some (s1, cs1)"
        "set (connections s1) = (if e1 = [] \<and> e2 = [] then insert c (set (connections s))
           else if fin = None then set (connections s) else set (connections s) - {c})"
        by (auto simp: Acceptor_readHandler_def Socket_Accept_def)
      have c: "c \<notin> set (connections s)" "fresh_accepts xs (?O \<union> ?L)"
        using Cons.prems Accept False by (auto split: if_splits)
      then have "set (connections s1) = ?O \<union> ?L" using 1(2) Cons.prems(1) by auto
      note ih = Cons.IH [OF this c(2)]
      have x: "\<not> would_block x" using False Accept by simp
      have o: "open_conns (x # xs) O' = open_conns xs ?O" "finished_at_once (x # xs) L = finished_at_once xs ?L"
        using False Accept by simp_all
      have e: "Server_events se mk (x # xs) s = map_option (\<lambda>(s, ds). (s, cs1 @ ds)) (Server_events se mk xs s1)"
        using 1(1) by simp
      show ?thesis
      proof (cases "\<exists>x\<in>set xs. would_block x")
        case True
        with ih [unfolded if_P [OF True]] e show ?thesis by simp
      next
        case False
        from ih [unfolded if_not_P [OF False]] obtain s2 cs2 where "Server_events se mk xs s1 = Some (s2, cs2)"
          "set (connections s2) = open_conns xs ?O \<union> finished_at_once xs ?L" by blast
        with False e x show ?thesis unfolding o by simp
      qed
    qed
  next
    case (ConnFinish c m)
    let ?s1 = "s\<lparr>connections := removeAll c (connections s)\<rparr>"
    have "set (connections ?s1) = (O' - {c}) \<union> (L - {c})" using Cons.prems(1) by auto
    moreover have "fresh_accepts xs ((O' - {c}) \<union> (L - {c}))" using Cons.prems(2) ConnFinish by (simp add: Un_Diff)
    ultimately have ih: "if \<exists>x\<in>set xs. would_block x then Server_events se mk xs ?s1 = None
        else \<exists>s' cs. Server_events se mk xs ?s1 = Some (s', cs) \<and>
          set (connections s') = open_conns xs (O' - {c}) \<union> finished_at_once xs (L - {c})" by (rule Cons.IH)
    have e: "Server_events se mk (x # xs) s = map_option (\<lambda>(s, ds). (s, Disconnected m # ds)) (Server_events se mk xs ?s1)"
      by (simp add: ConnFinish Server_finishHandler_def)
    show ?thesis
    proof (cases "\<exists>x\<in>set xs. would_block x")
      case True
      with ih [unfolded if_P [OF True]] e show ?thesis by simp
    next
      case False
      from ih [unfolded if_not_P [OF False]] obtain s2 cs2 where "Server_events se mk xs ?s1 = Some (s2, cs2)"
        "set (connections s2) = open_conns xs (O' - {c}) \<union> finished_at_once xs (L - {c})" by blast
      with False e ConnFinish show ?thesis by simp
    qed
  qed
qed simp

section \<open>Properties\<close>

text \<open>
  C21.  What the server holds.  A history of accepts (each connection at an address that is not held) and finishes aborts
  exactly if some accept would have blocked; otherwise the set the server holds is the set of connections that were
  accepted without error and have not finished, together with those that their connected handler finished before it
  returned, which the server keeps for ever.
\<close>

theorem Server_holds_open_connections:
  assumes "fresh_accepts xs {}"
  shows "if \<exists>x\<in>set xs. would_block x then Server_events se mk xs Server_new = None
    else \<exists>s' cs. Server_events se mk xs Server_new = Some (s', cs) \<and>
           set (connections s') = open_conns xs {} \<union> finished_at_once xs {}"
  using Server_events_connections [of Server_new "{}" "{}" xs se mk] assms by (simp add: Server_new_def)

theorem Server_holds_open_connections_witness:
  "\<exists>s' cs. Server_events (\<lambda>_. ''e'') (\<lambda>f. fst (Event_new f 0))
      [Accept 100 5 0 [] [] None, Accept 101 (-1) 24 [] [] None, Accept 102 6 0 [] [] None,
       Accept 103 7 0 [] [] (Some ''no''), ConnFinish 100 ''Finished''] Server_new = Some (s', cs) \<and> set (connections s') = {102, 103}"
proof -
  let ?xs = "[Accept 100 5 0 [] [] None, Accept 101 (-1) 24 [] [] None, Accept 102 6 0 [] [] None,
       Accept 103 7 0 [] [] (Some ''no''), ConnFinish 100 ''Finished'']"
  have "fresh_accepts ?xs {}" by simp
  from Server_holds_open_connections [OF this, of "\<lambda>_. ''e''" "\<lambda>f. fst (Event_new f 0)"] show ?thesis
    by (auto simp: EAGAIN_def)
qed

text \<open>
  The two hazards by themselves: an accept that would block hands descriptor \<open>-1\<close> to the
  server, which aborts; and a connection that its connected handler finishes at once is erased first
  and inserted afterwards.
\<close>

theorem Server_accept_hazards:
  "Server_event se mk (Accept c (-1) EAGAIN e1 e2 fin) s = None \<and>
   (\<exists>s' cs. Server_event se mk (Accept c 5 0 '''' '''' (Some m)) s = Some (s', cs) \<and>
      cs = [Connected c '''', Disconnected m] \<and> c \<in> set (connections s'))"
  by (simp add: Acceptor_readHandler_def Socket_Accept_def Server_newConnectionHandler_def Socket_new_def
      TcpConnection_InitAccepted_def TcpConnection_new_def Server_finishHandler_def)

text \<open>
  Listening makes the socket calls in order, stops at the first that fails and reports its error;
  without a failure all five are made, the read event is on, and the report is empty.
\<close>

theorem Acceptor_Listen_sequence:
  assumes "acc_handler a"
  shows "case Acceptor_Listen rep ev a of (a', cs, errMsg) \<Rightarrow>
    (if \<forall>c\<in>{SBind, SReuseAddr, SNoblock, SNoDelay, SListen}. rep c = ''''
     then errMsg = '''' \<and> cs = [SBind, SReuseAddr, SNoblock, SNoDelay, SListen] \<and>
          acc_event a' = Some (notify_flags EnableRead ev)
     else errMsg \<noteq> '''' \<and> cs \<noteq> [] \<and> errMsg = rep (last cs) \<and> (\<forall>c\<in>set (butlast cs). rep c = ''''))"
  using assms by (auto simp: Acceptor_Listen_def)

theorem Acceptor_Listen_sequence_witness:
  "case Acceptor_Listen (\<lambda>c. if c = SNoblock then ''bad'' else '''') (fst (Event_new 3 0))
      (Acceptor_SetNewConnectionHandler Acceptor_new) of (a', cs, errMsg) \<Rightarrow> errMsg = ''bad'' \<and> last cs = SNoblock"
proof -
  let ?rep = "\<lambda>c. if c = SNoblock then ''bad'' else ''''"
  have h: "acc_handler (Acceptor_SetNewConnectionHandler Acceptor_new)"
    by (simp add: Acceptor_SetNewConnectionHandler_def)
  from Acceptor_Listen_sequence [OF h, of ?rep "fst (Event_new 3 0)"] show ?thesis
    by (auto split: prod.splits if_splits)
qed

end
