(* ===== verification/Net_Client.thy ===== *)
theory Net_Client
  imports Tcp_Connection
begin

text \<open>
  \<^verbatim>\<open>src/net/client\<close>: the connector, the client, and the pool of clients.  Objects are named by
  addresses.  A client's outcome is reported through its two handlers; the calls are returned in order.
  \<open>None\<close> is a crash: a null connection, or a negative descriptor in a constructor.
\<close>

section \<open>Connector\<close>

record Connector =
  k_socket :: Socket
  k_event :: "event option"

definition Connector_new :: "int \<Rightarrow> Connector option" where
  "Connector_new f = map_option (\<lambda>s. \<lparr>k_socket = s, k_event = None\<rparr>) (Socket_new f)"

text \<open>
  \<open>e1\<close>, \<open>e2\<close>: what \<^verbatim>\<open>SetNoblock\<close> and \<^verbatim>\<open>SetNoDelay\<close> report; \<open>result\<close>, \<open>errno\<close>: what
  \<^verbatim>\<open>connect(2)\<close> returns.  Both handlers are set by the only caller.
\<close>

definition Connector_Connect ::
    "(int \<Rightarrow> string) \<Rightarrow> errmsg \<Rightarrow> errmsg \<Rightarrow> string \<Rightarrow> int \<Rightarrow> int \<Rightarrow> int \<Rightarrow> event \<Rightarrow> Connector \<Rightarrow> Connector \<times> errmsg" where
  "Connector_Connect se e1 e2 a p result errno ev k =
     (if e1 \<noteq> '''' then (k, e1)
      else if e2 \<noteq> '''' then (k, e2)
      else case Socket_Connect se a p result errno (k_socket k) of
        (s, errMsg) \<Rightarrow>
          if errMsg \<noteq> '''' then (k\<lparr>k_socket := s\<rparr>, errMsg)
          else (k\<lparr>k_socket := s, k_event := Some (notify_flags EnableWrite ev)\<rparr>, ''''))"

text \<open>
  The write callback: the connection attempt is over.  The socket and the event are handed on (right),
  or the failure is reported (left).
\<close>

definition Connector_writeHandler ::
    "(int \<Rightarrow> string) \<Rightarrow> (int \<Rightarrow> string) \<Rightarrow> int \<Rightarrow> int \<Rightarrow> Connector \<Rightarrow> (Connector \<times> (errmsg + event)) option" where
  "Connector_writeHandler se showInt result error k =
     (case k_event k of
        None \<Rightarrow> None
      | Some ev \<Rightarrow>
          let ev = notify_flags DisableWrite ev;
              errMsg = Socket_CheckConnect se showInt result error (k_socket k)
          in if errMsg \<noteq> '''' then Some (k\<lparr>k_event := Some ev\<rparr>, Inl errMsg)
             else Some (k\<lparr>k_event := None\<rparr>, Inr ev))"

section \<open>Client\<close>

datatype client_call = OnConnected errmsg | OnDisconnected errmsg

record Client =
  cl_addr :: string
  cl_port :: int
  connectCalled :: bool
  cl_connectedHandler :: bool
  cl_disconnectedHandler :: bool
  connector :: "Connector option"
  cl_asyncer :: "unit Asyncer option"
  cl_connection :: "connection option"

definition Client_new :: "string \<Rightarrow> int \<Rightarrow> Client" where
  "Client_new a p = \<lparr>cl_addr = a, cl_port = p, connectCalled = False, cl_connectedHandler = False,
     cl_disconnectedHandler = False, connector = None, cl_asyncer = None, cl_connection = None\<rparr>"

definition Client_SetConnectedHandler :: "Client \<Rightarrow> Client option" where
  "Client_SetConnectedHandler c = (if connectCalled c then None else Some (c\<lparr>cl_connectedHandler := True\<rparr>))"

definition Client_SetDisconnectedHandler :: "Client \<Rightarrow> Client option" where
  "Client_SetDisconnectedHandler c = (if connectCalled c then None else Some (c\<lparr>cl_disconnectedHandler := True\<rparr>))"

text \<open>What an asyncer's calls do: a cancelled request is a disconnection.\<close>

definition cancelled_calls :: "unit calls \<Rightarrow> client_call list" where
  "cancelled_calls cs = map (\<lambda>(_, m). OnDisconnected m) cs"

text \<open>\<open>f\<close> is the descriptor \<^verbatim>\<open>socket(2)\<close> returned for the new connector.\<close>

definition Client_AsyncConnect :: "int \<Rightarrow> Client \<Rightarrow> (Client \<times> errmsg \<times> client_call list) option" where
  "Client_AsyncConnect f c =
     (if \<not> cl_disconnectedHandler c \<or> \<not> cl_connectedHandler c
      then Some (c, ''invalid connected or disconnected handler'', [])
      else let c = c\<lparr>cl_connection := None, connectCalled := True\<rparr> in
        case Connector_new f of
          None \<Rightarrow> None
        | Some k \<Rightarrow>
            let destroyed = (case cl_asyncer c of None \<Rightarrow> [] | Some a \<Rightarrow> Asyncer_destroy a) in
            (case Asyncer_AsyncDo () (Asyncer_new False) of
               None \<Rightarrow> None
             | Some (a, cs) \<Rightarrow>
                 Some (c\<lparr>connector := Some k, cl_asyncer := Some a\<rparr>, '''', cancelled_calls (destroyed @ cs))))"

text \<open>The closure, run by the loop with the asyncer's message.\<close>

definition Client_onLoop ::
    "(int \<Rightarrow> string) \<Rightarrow> errmsg \<Rightarrow> errmsg \<Rightarrow> int \<Rightarrow> int \<Rightarrow> event \<Rightarrow> errmsg \<Rightarrow> Client \<Rightarrow>
     (Client \<times> client_call list) option" where
  "Client_onLoop se e1 e2 result errno ev argErrMsg c =
     (if argErrMsg \<noteq> '''' then Some (c, [OnDisconnected argErrMsg])
      else case connector c of
        None \<Rightarrow> None
      | Some k \<Rightarrow>
          (case Connector_Connect se e1 e2 (cl_addr c) (cl_port c) result errno ev k of
             (k, errMsg) \<Rightarrow>
               Some (c\<lparr>connector := Some k\<rparr>, if errMsg \<noteq> '''' then [OnDisconnected errMsg] else [])))"

definition Client_newConnectionHandler :: "event \<Rightarrow> Client \<Rightarrow> (Client \<times> client_call list) option" where
  "Client_newConnectionHandler ev c =
     (case TcpConnection_InitConnected (TcpConnection_new ev (Handler 0 [])) of
        None \<Rightarrow> None
      | Some (conn, errMsg) \<Rightarrow>
          Some (c\<lparr>cl_connection := Some conn\<rparr>,
                if errMsg \<noteq> '''' then [OnDisconnected errMsg] else [OnConnected errMsg]))"

text \<open>The loop runs the connector's write callback.\<close>

definition Client_connectorDone ::
    "(int \<Rightarrow> string) \<Rightarrow> (int \<Rightarrow> string) \<Rightarrow> int \<Rightarrow> int \<Rightarrow> Client \<Rightarrow> (Client \<times> client_call list) option" where
  "Client_connectorDone se showInt result error c =
     (case connector c of
        None \<Rightarrow> None
      | Some k \<Rightarrow>
          (case Connector_writeHandler se showInt result error k of
             None \<Rightarrow> None
           | Some (k, Inl errMsg) \<Rightarrow> Some (c\<lparr>connector := Some k\<rparr>, [OnDisconnected errMsg])
           | Some (k, Inr ev) \<Rightarrow> Client_newConnectionHandler ev (c\<lparr>connector := Some k\<rparr>)))"

text \<open>
  Finishing the connection of an idle client: nothing is being written, so the whole of
  \<^verbatim>\<open>TcpConnection::Finish\<close> is the following (\<open>finish_idle_run\<close> relates it to the connection's
  own run).  The finish handler of a client reports a disconnection.
\<close>

definition finish_idle :: "connection \<Rightarrow> connection" where
  "finish_idle c = (if finished c then c else c\<lparr>finished := True, c_event := None, finishes := finishes c + 1\<rparr>)"

definition Client_Reset :: "errmsg \<Rightarrow> Client \<Rightarrow> (Client \<times> client_call list) option" where
  "Client_Reset errMsg c =
     (case cl_connection c of
        None \<Rightarrow> None
      | Some conn \<Rightarrow>
          if errMsg \<noteq> '''' then
            Some (c\<lparr>cl_connection := Some (finish_idle conn)\<rparr>, if finished conn then [] else [OnDisconnected errMsg])
          else Some (c\<lparr>cl_connection := Some (TcpConnection_Reset conn)\<rparr>, []))"

lemmas Client_defs [model_defs] =
  Connector_new_def Connector_Connect_def Connector_writeHandler_def Client_new_def Client_AsyncConnect_def
  Client_onLoop_def Client_newConnectionHandler_def Client_connectorDone_def cancelled_calls_def

lemma finish_idle_run:
  assumes "c_asyncer c = None" "userWriteHandler c = None" "finishHandler c = Some (Handler i [])" "\<not> finished c"
  shows "conn_run se 10 [IUser (CFinish m)] (c, []) =
           Some ((finish_idle c)\<lparr>ran := ran c @ [(Handler i [], m)]\<rparr>, [])"
  using assms by (simp add: finish_idle_def TcpConnection_Finish_def TcpConnection_Finish_write_def
      TcpConnection_Finish_end_def numeral_nat)

section \<open>Pool\<close>

text \<open>
  \<open>conn a\<close> is the connection of the client at address \<open>a\<close>.  A step gives the address of the
  client that is allocated if one is.
\<close>

record pool =
  inited :: bool
  maxSize :: nat
  clients :: "nat set"
  allClients :: "nat set"
  conn :: "nat \<Rightarrow> connection option"

definition ClientPool_new :: "nat \<Rightarrow> pool" where
  "ClientPool_new m = \<lparr>inited = False, maxSize = m, clients = {}, allClients = {}, conn = (\<lambda>_. None)\<rparr>"

text \<open>A new client has both handlers, so \<^verbatim>\<open>AsyncConnect\<close> reports no error; its connection is null.\<close>

definition ClientPool_initClient :: "nat \<Rightarrow> pool \<Rightarrow> pool" where
  "ClientPool_initClient a p = p\<lparr>allClients := insert a (allClients p), conn := (conn p)(a := None)\<rparr>"

fun ClientPool_Init :: "nat list \<Rightarrow> pool \<Rightarrow> pool \<times> errmsg" where
  "ClientPool_Init as p =
     (if inited p then (p, ''ClientPool has been inited'')
      else (fold ClientPool_initClient (take (maxSize p) as) (p\<lparr>inited := True\<rparr>), ''''))"

definition ClientPool_disconnected :: "nat \<Rightarrow> errmsg \<Rightarrow> nat \<Rightarrow> pool \<Rightarrow> pool" where
  "ClientPool_disconnected a errMsg new p =
     (if errMsg = '''' then p
      else let p = ClientPool_initClient new p in
        p\<lparr>clients := clients p - {a}, allClients := allClients p - {a}\<rparr>)"

text \<open>\<^verbatim>\<open>Insert\<close>: reset the client, and put it back unless an error was given.\<close>

definition ClientPool_Insert :: "nat \<Rightarrow> errmsg \<Rightarrow> nat \<Rightarrow> pool \<Rightarrow> pool option" where
  "ClientPool_Insert a errMsg new p =
     (case conn p a of
        None \<Rightarrow> None
      | Some c \<Rightarrow>
          if errMsg \<noteq> '''' then
            let p' = p\<lparr>conn := (conn p)(a := Some (finish_idle c))\<rparr> in
            Some (if finished c then p' else ClientPool_disconnected a errMsg new p')
          else Some (p\<lparr>conn := (conn p)(a := Some (TcpConnection_Reset c)), clients := insert a (clients p)\<rparr>))"

definition ClientPool_Get :: "pool \<Rightarrow> pool \<times> nat option" where
  "ClientPool_Get p =
     (if clients p = {} then (p, None)
      else let a = Min (clients p) in (p\<lparr>clients := clients p - {a}\<rparr>, Some a))"

text \<open>A history of an initialised pool.\<close>

datatype pool_op =
    PConnected nat event
  | PConnectFailed nat errmsg nat
  | PPeerClosed nat errmsg nat
  | PGet
  | PInsert nat errmsg nat

fun pool_exec :: "pool_op \<Rightarrow> pool \<Rightarrow> pool option" where
  "pool_exec (PConnected a ev) p =
     ClientPool_Insert a '''' 0 (p\<lparr>conn := (conn p)(a := Some (TcpConnection_new ev (Handler 0 [])))\<rparr>)"
| "pool_exec (PConnectFailed a m new) p = Some (ClientPool_disconnected a m new p)"
| "pool_exec (PPeerClosed a m new) p =
     (case conn p a of
        None \<Rightarrow> Some p
      | Some c \<Rightarrow>
          let p' = p\<lparr>conn := (conn p)(a := Some (finish_idle c))\<rparr> in
          Some (if finished c then p' else ClientPool_disconnected a m new p'))"
| "pool_exec PGet p = Some (fst (ClientPool_Get p))"
| "pool_exec (PInsert a m new) p = ClientPool_Insert a m new p"

text \<open>
  What the environment and the user of the pool respect: a client is connected or fails once, while it
  has no connection yet; allocated addresses are fresh; an error is not empty; and a client is given back
  only once it has a connection, with the empty message only while that connection is not finished.
\<close>

fun pool_step_ok :: "pool \<Rightarrow> pool_op \<Rightarrow> bool" where
  "pool_step_ok p (PConnected a ev) = (a \<in> allClients p \<and> conn p a = None)"
| "pool_step_ok p (PConnectFailed a m new) =
     (a \<in> allClients p \<and> conn p a = None \<and> m \<noteq> '''' \<and> new \<notin> allClients p \<and> conn p new = None)"
| "pool_step_ok p (PPeerClosed a m new) = (m \<noteq> '''' \<and> new \<notin> allClients p \<and> conn p new = None)"
| "pool_step_ok p PGet = True"
| "pool_step_ok p (PInsert a m new) =
     (new \<notin> allClients p \<and> conn p new = None \<and> conn p a \<noteq> None \<and> (m = '''' \<longrightarrow> \<not> finished (the (conn p a))))"

inductive pool_reach :: "pool \<Rightarrow> pool \<Rightarrow> bool" for p0 where
  start: "pool_reach p0 p0"
| step: "pool_reach p0 p \<Longrightarrow> pool_step_ok p x \<Longrightarrow> pool_exec x p = Some p' \<Longrightarrow> pool_reach p0 p'"

definition live_conn :: "connection option \<Rightarrow> bool" where
  "live_conn c \<longleftrightarrow> (\<exists>k. c = Some k \<and> \<not> finished k \<and> c_event k \<noteq> None)"

definition pool_inv :: "pool \<Rightarrow> bool" where
  "pool_inv p \<longleftrightarrow> finite (allClients p) \<and> card (allClients p) = maxSize p \<and>
     clients p \<subseteq> allClients p \<and> (\<forall>a\<in>clients p. live_conn (conn p a)) \<and>
     (\<forall>a c. conn p a = Some c \<longrightarrow> (if finished c then a \<notin> allClients p else a \<in> allClients p \<and> c_event c \<noteq> None))"

lemma pool_inv_replace:
  assumes "pool_inv p" "a \<in> allClients p" "new \<notin> allClients p" "conn p new = None" "m \<noteq> ''''"
    and "c = None \<or> (\<exists>k. c = Some k \<and> finished k)"
  shows "pool_inv (ClientPool_disconnected a m new (p\<lparr>conn := (conn p)(a := c)\<rparr>))"
proof -
  have ne: "a \<noteq> new" using assms(2,3) by auto
  have "allClients (ClientPool_disconnected a m new (p\<lparr>conn := (conn p)(a := c)\<rparr>)) = insert new (allClients p - {a})"
    using assms(5) ne by (auto simp: ClientPool_disconnected_def ClientPool_initClient_def)
  moreover have "card (insert new (allClients p - {a})) = maxSize p"
    using assms(1-3) by (simp add: pool_inv_def card_insert_if card_gt_0_iff)
      (metis Suc_pred card_gt_0_iff empty_iff)
  ultimately show ?thesis
    using assms ne by (auto simp: pool_inv_def ClientPool_disconnected_def ClientPool_initClient_def live_conn_def)
qed

lemma pool_inv_finish:
  assumes "pool_inv p" "conn p a = Some c" "\<not> finished c" "new \<notin> allClients p" "conn p new = None" "m \<noteq> ''''"
  shows "pool_inv (ClientPool_disconnected a m new (p\<lparr>conn := (conn p)(a := Some (finish_idle c))\<rparr>))"
  using assms by (intro pool_inv_replace) (auto simp: pool_inv_def finish_idle_def)

lemma pool_inv_put:
  assumes "pool_inv p" "a \<in> allClients p" "\<not> finished c" "c_event c \<noteq> None"
  shows "pool_inv (p\<lparr>conn := (conn p)(a := Some c), clients := insert a (clients p)\<rparr>)"
  using assms by (auto simp: pool_inv_def live_conn_def)

lemma pool_inv_exec:
  assumes "pool_inv p" "pool_step_ok p x" "pool_exec x p = Some p'"
  shows "pool_inv p' \<and> maxSize p' = maxSize p"
proof (cases x)
  case (PConnected a ev)
  with assms have "p' = p\<lparr>conn := (conn p)(a := Some (TcpConnection_Reset (TcpConnection_new ev (Handler 0 [])))),
      clients := insert a (clients p)\<rparr>"
    by (simp add: ClientPool_Insert_def)
  with assms(1,2) PConnected show ?thesis
    using pool_inv_put [of p a "TcpConnection_Reset (TcpConnection_new ev (Handler 0 []))"]
    by (simp add: TcpConnection_Reset_def TcpConnection_ResetRead_def TcpConnection_new_def)
next
  case (PConnectFailed a m new)
  with assms pool_inv_replace [of p a new m None] show ?thesis
    by (auto simp: fun_upd_idem ClientPool_disconnected_def ClientPool_initClient_def)
next
  case (PPeerClosed a m new)
  show ?thesis
  proof (cases "conn p a")
    case (Some c)
    show ?thesis
    proof (cases "finished c")
      case True
      with Some PPeerClosed assms(3) have "p' = p" by (simp add: finish_idle_def fun_upd_idem)
      with assms(1) show ?thesis by simp
    next
      case False
      with Some PPeerClosed assms pool_inv_finish [of p a c new m] show ?thesis
        by (auto simp: ClientPool_disconnected_def ClientPool_initClient_def)
    qed
  qed (use PPeerClosed assms in simp)
next
  case PGet
  show ?thesis
  proof (cases "clients p = {}")
    case False
    with PGet assms(3) have "p' = p\<lparr>clients := clients p - {Min (clients p)}\<rparr>"
      by (simp add: ClientPool_Get_def Let_def)
    with assms(1) show ?thesis by (auto simp: pool_inv_def)
  qed (use PGet assms in \<open>simp add: ClientPool_Get_def\<close>)
next
  case (PInsert a m new)
  with assms obtain c where c: "conn p a = Some c" by (auto simp: ClientPool_Insert_def split: option.splits)
  show ?thesis
  proof (cases "m = ''''")
    case True
    with PInsert c assms have nf: "\<not> finished c" by simp
    with assms(1) c have "a \<in> allClients p" "c_event c \<noteq> None" by (auto simp: pool_inv_def)
    moreover have "\<not> finished (TcpConnection_Reset c)" "c_event (TcpConnection_Reset c) = c_event c"
      by (simp_all add: TcpConnection_Reset_def TcpConnection_ResetRead_def)
    moreover from True PInsert c assms(3) have
      "p' = p\<lparr>conn := (conn p)(a := Some (TcpConnection_Reset c)), clients := insert a (clients p)\<rparr>"
      by (simp add: ClientPool_Insert_def)
    ultimately show ?thesis using pool_inv_put [OF assms(1), of a "TcpConnection_Reset c"] by simp
  next
    case False
    show ?thesis
    proof (cases "finished c")
      case True
      with c PInsert False assms(3) have "p' = p"
        by (simp add: ClientPool_Insert_def finish_idle_def fun_upd_idem)
      with assms(1) show ?thesis by simp
    next
      case nf: False
      with c PInsert False assms pool_inv_finish [of p a c new m] show ?thesis
        by (auto simp: ClientPool_Insert_def ClientPool_disconnected_def ClientPool_initClient_def)
    qed
  qed
qed

lemma fold_initClient:
  "fold ClientPool_initClient as p =
     p\<lparr>allClients := set as \<union> allClients p, conn := (\<lambda>a. if a \<in> set as then None else conn p a)\<rparr>"
  by (induction as arbitrary: p) (auto simp: ClientPool_initClient_def fun_eq_iff)

lemma pool_inv_init:
  assumes "distinct as" "length as = m"
  shows "pool_inv (fst (ClientPool_Init as (ClientPool_new m))) \<and> maxSize (fst (ClientPool_Init as (ClientPool_new m))) = m"
  using assms by (simp add: ClientPool_new_def fold_initClient pool_inv_def distinct_card)

text \<open>The handler calls of one connection attempt.\<close>

lemma connect_once:
  assumes "Client_AsyncConnect f c = Some (c0, '''', [])"
    and "Client_onLoop se e1 e2 result errno ev m c0 = Some (c1, calls1)"
    and "if calls1 = [] then Client_connectorDone se showInt r error c1 = Some (c2, calls2)
         else c2 = c1 \<and> calls2 = []"
  shows "\<exists>x. calls1 @ calls2 = [x] \<and>
    (if m = '''' \<and> e1 = '''' \<and> e2 = '''' \<and> (0 \<le> result \<or> errno = EINPROGRESS) \<and> 0 \<le> r \<and> error = 0
     then x = OnConnected '''' \<and> (\<exists>k e. cl_connection c2 = Some k \<and> c_event k = Some e \<and> readNotify e)
     else (\<exists>msg. x = OnDisconnected msg \<and> msg \<noteq> '''') \<and> cl_connection c2 = None)"
proof -
  from assms(1) obtain k where k: "connector c0 = Some k" "cl_connection c0 = None"
    by (auto simp: Client_AsyncConnect_def Let_def split: if_splits option.splits)
  show ?thesis
  proof (cases "m = '''' \<and> e1 = '''' \<and> e2 = '''' \<and> (0 \<le> result \<or> errno = EINPROGRESS)")
    case False
    with assms(2) k obtain msg where "calls1 = [OnDisconnected msg]" "msg \<noteq> ''''" "cl_connection c1 = None"
      by (auto simp: Client_onLoop_def Connector_Connect_def Socket_Connect_def split: if_splits)
    with assms(3) False show ?thesis by auto
  next
    case True
    then have "Socket_Connect se a p result errno s = (s\<lparr>addr := a, port := p\<rparr>, '''')" for a p s
      by (auto simp: Socket_Connect_def)
    with True assms(2) k have 1: "calls1 = []" "cl_connection c1 = None"
      "connector c1 = Some (k\<lparr>k_socket := (k_socket k)\<lparr>addr := cl_addr c0, port := cl_port c0\<rparr>,
         k_event := Some (notify_flags EnableWrite ev)\<rparr>)"
      by (auto simp: Client_onLoop_def Connector_Connect_def)
    with assms(3) have 2: "Client_connectorDone se showInt r error c1 = Some (c2, calls2)" by simp
    show ?thesis
    proof (cases "0 \<le> r \<and> error = 0")
      case True
      with 1 2 \<open>m = '''' \<and> _\<close> show ?thesis
        by (auto simp: Client_connectorDone_def Connector_writeHandler_def Socket_CheckConnect_def
            Client_newConnectionHandler_def TcpConnection_InitConnected_def TcpConnection_new_def)
    next
      case False
      then have "Socket_CheckConnect se showInt r error s \<noteq> ''''" for s
        by (auto simp: Socket_CheckConnect_def Let_def)
      with 1 2 False show ?thesis
        by (auto simp: Client_connectorDone_def Connector_writeHandler_def)
    qed
  qed
qed

section \<open>Properties\<close>

text \<open>
  C22.  A connection attempt is answered exactly once, on every path: whether the request is cancelled,
  a socket call fails, the connection is refused or it succeeds, the client makes exactly one handler
  call, the connected handler with the empty message if and only if everything succeeded, and then the
  client has a connection whose read notification is on.
\<close>

theorem Client_connect_answers_once:
  assumes "Client_AsyncConnect f c = Some (c0, '''', [])"
    and "Client_onLoop se e1 e2 result errno ev m c0 = Some (c1, calls1)"
    and "if calls1 = [] then Client_connectorDone se showInt r error c1 = Some (c2, calls2)
         else c2 = c1 \<and> calls2 = []"
  shows "\<exists>x. calls1 @ calls2 = [x] \<and>
    (if m = '''' \<and> e1 = '''' \<and> e2 = '''' \<and> (0 \<le> result \<or> errno = EINPROGRESS) \<and> 0 \<le> r \<and> error = 0
     then x = OnConnected '''' \<and> (\<exists>k e. cl_connection c2 = Some k \<and> c_event k = Some e \<and> readNotify e)
     else (\<exists>msg. x = OnDisconnected msg \<and> msg \<noteq> '''') \<and> cl_connection c2 = None)"
  using assms by (rule connect_once)

theorem Client_connect_answers_once_witness:
  "\<exists>c0 c1 c2 calls1 calls2 x.
     Client_AsyncConnect 5 ((Client_new ''127.0.0.1'' 80)\<lparr>cl_connectedHandler := True, cl_disconnectedHandler := True\<rparr>)
       = Some (c0, '''', []) \<and>
     Client_onLoop (\<lambda>_. '''') '''' '''' (-1) EINPROGRESS (fst (Event_new 5 0)) '''' c0 = Some (c1, calls1) \<and>
     Client_connectorDone (\<lambda>_. '''') (\<lambda>_. '''') 0 111 c1 = Some (c2, calls2) \<and>
     calls1 @ calls2 = [x] \<and> (\<exists>msg. x = OnDisconnected msg)"
proof -
  let ?c = "(Client_new ''127.0.0.1'' 80)\<lparr>cl_connectedHandler := True, cl_disconnectedHandler := True\<rparr>"
  obtain c0 where c0: "Client_AsyncConnect 5 ?c = Some (c0, '''', [])" "connector c0 = Some \<lparr>k_socket = \<lparr>sfd = 5, addr = [], port = 0\<rparr>, k_event = None\<rparr>"
    by (simp add: Client_AsyncConnect_def Client_new_def Connector_new_def Socket_new_def Asyncer_defs cancelled_calls_def)
  obtain c1 k where c1: "Client_onLoop (\<lambda>_. '''') '''' '''' (-1) EINPROGRESS (fst (Event_new 5 0)) '''' c0 = Some (c1, [])"
    "connector c1 = Some k" "k_event k \<noteq> None"
    using c0(2) by (simp add: Client_onLoop_def Connector_Connect_def Socket_Connect_def)
  obtain c2 calls2 where c2: "Client_connectorDone (\<lambda>_. '''') (\<lambda>_. '''') 0 111 c1 = Some (c2, calls2)"
  proof -
    have "Socket_CheckConnect (\<lambda>_. '''') (\<lambda>_. '''') 0 111 s \<noteq> ''''" for s
      by (simp add: Socket_CheckConnect_def Let_def)
    then have "\<exists>c2 calls2. Client_connectorDone (\<lambda>_. '''') (\<lambda>_. '''') 0 111 c1 = Some (c2, calls2)"
      using c1(2,3) by (auto simp: Client_connectorDone_def Connector_writeHandler_def)
    with that show ?thesis by blast
  qed
  have "if [] = ([] :: client_call list) then Client_connectorDone (\<lambda>_. '''') (\<lambda>_. '''') 0 111 c1 = Some (c2, calls2)
     else c2 = c1 \<and> calls2 = []" using c2 by simp
  from Client_connect_answers_once [OF c0(1) c1(1) this] c0(1) c1(1) c2 show ?thesis by fastforce
qed

text \<open>
  The pool keeps its size: after \<^verbatim>\<open>Init\<close>, whatever connects, fails, is closed by the peer, is
  taken out and given back, the pool owns exactly \<^verbatim>\<open>maxSize_\<close> clients, and every client it
  offers has a live connection, provided no client is given back with the empty message after its
  connection has been closed.
\<close>

theorem ClientPool_size:
  assumes "distinct as" "length as = m" "pool_reach (fst (ClientPool_Init as (ClientPool_new m))) p"
  shows "card (allClients p) = m \<and> clients p \<subseteq> allClients p \<and> (\<forall>a\<in>clients p. live_conn (conn p a))"
proof -
  from assms(3) have "pool_inv p \<and> maxSize p = m"
  proof (induction rule: pool_reach.induct)
    case start
    show ?case using pool_inv_init [OF assms(1,2)] .
  next
    case (step p x p')
    with pool_inv_exec [of p x p'] show ?case by simp
  qed
  then show ?thesis by (auto simp: pool_inv_def)
qed

theorem ClientPool_size_witness:
  "\<exists>p. pool_reach (fst (ClientPool_Init [10, 20] (ClientPool_new 2))) p \<and> clients p = {10} \<and>
     card (allClients p) = 2"
proof -
  let ?p0 = "fst (ClientPool_Init [10, 20] (ClientPool_new 2))"
  have i: "a \<in> allClients ?p0 \<longleftrightarrow> a = 10 \<or> a = 20" "conn ?p0 a = None" for a
    by (auto simp: ClientPool_new_def ClientPool_initClient_def numeral_2_eq_2)
  obtain p where p: "pool_exec (PConnected 10 (fst (Event_new 5 0))) ?p0 = Some p" "clients p = {10}"
    by (simp add: ClientPool_Insert_def ClientPool_new_def ClientPool_initClient_def numeral_2_eq_2)
  have r: "pool_reach ?p0 p" by (rule pool_reach.step [OF pool_reach.start _ p(1)]) (simp add: i del: ClientPool_Init.simps)
  from ClientPool_size [OF _ _ r] r p(2) show ?thesis by auto
qed

text \<open>
  The proviso is needed: giving back with the empty message a client whose peer has closed puts a
  client without an event into the pool, and the next write on it dereferences a null pointer.
\<close>

theorem ClientPool_dead_client:
  assumes "conn p a = Some c" "finished c" "c_event c = None"
  shows "\<exists>p' k. ClientPool_Insert a '''' new p = Some p' \<and> a \<in> clients p' \<and> conn p' a = Some k \<and>
    TcpConnection_AsyncWrite h k = None"
  using assms by (simp add: ClientPool_Insert_def TcpConnection_AsyncWrite_def TcpConnection_Reset_def TcpConnection_ResetRead_def)

end
