(* ===== verification/Co_Net.thy ===== *)
theory Co_Net
  imports Coroutine_Scheduler Net_Server Net_Client
begin

text \<open>
  The coroutine wrappers of the network classes: \<^verbatim>\<open>co_tcp_connection.cpp\<close>,
  \<^verbatim>\<open>co_client.cpp\<close> and \<^verbatim>\<open>co_server.cpp\<close>.  A call starts an asynchronous operation
  whose handler resumes the calling coroutine, and suspends; what comes after the suspension is a
  definition of its own (\<open>_return\<close>).  The connection is that of \<open>Tcp_Connection\<close>, the client that of
  \<open>Net_Client\<close>, the server that of \<open>Net_Server\<close>, and the scheduler that of \<open>Coroutine_Scheduler\<close>.
  \<open>None\<close> is a crash.
\<close>

section \<open>Connection\<close>

text \<open>
  A connection, the scheduler whose loop drives it, and the variable \<^verbatim>\<open>errMsg\<close> of each
  coroutine, which the handlers hold by reference.  The handler of a call made by coroutine \<open>c\<close> is
  \<open>Handler c []\<close>: it makes no further call on the connection.
\<close>

record co_net =
  cn_conn :: connection
  cn_sched :: sched
  cn_err :: "nat \<Rightarrow> errmsg"

text \<open>The closure of \<^verbatim>\<open>Write\<close> and \<^verbatim>\<open>Read\<close>; other handlers (\<open>n\<close> and above) are not coroutines'.\<close>

fun CoTcpConnection_handler :: "nat \<Rightarrow> handler \<times> errmsg \<Rightarrow> co_net \<Rightarrow> co_net" where
  "CoTcpConnection_handler n (Handler c xs, m) s =
     (if c < n then s\<lparr>cn_err := (cn_err s)(c := m), cn_sched := Scheduler_resume c (cn_sched s)\<rparr> else s)"

text \<open>Run the connection's call stack empty, and the handlers it called.\<close>

partial_function (option) conn_settle :: "machine \<Rightarrow> connection option" where
  "conn_settle m = (case snd m of [] \<Rightarrow> Some (fst m) | _ \<Rightarrow> Option.bind (conn_step m) conn_settle)"

definition co_settle :: "nat \<Rightarrow> effect \<Rightarrow> co_net \<Rightarrow> co_net option" where
  "co_settle n m s =
     map_option (\<lambda>c. fold (CoTcpConnection_handler n) (drop (length (ran (cn_conn s))) (ran c)) (s\<lparr>cn_conn := c\<rparr>))
       (Option.bind m conn_settle)"

definition co_cmd :: "nat \<Rightarrow> cmd \<Rightarrow> co_net \<Rightarrow> co_net option" where
  "co_cmd n x s = co_settle n (conn_cmd x (cn_conn s)) s"

text \<open>An event of the connection, from the loop.\<close>

definition co_event :: "nat \<Rightarrow> (int \<Rightarrow> string) \<Rightarrow> conn_input \<Rightarrow> co_net \<Rightarrow> co_net option" where
  "co_event n se i s = co_settle n (conn_feed se i (cn_conn s)) s"

fun co_events :: "nat \<Rightarrow> (int \<Rightarrow> string) \<Rightarrow> conn_input list \<Rightarrow> co_net \<Rightarrow> co_net option" where
  "co_events n se [] s = Some s"
| "co_events n se (i # is) s = Option.bind (co_event n se i s) (co_events n se is)"

definition co_suspend :: "action list \<Rightarrow> co_net \<Rightarrow> co_net option" where
  "co_suspend rest s =
     (case Scheduler_suspend rest (cn_sched s) of Inl _ \<Rightarrow> None | Inr t \<Rightarrow> Some (s\<lparr>cn_sched := t\<rparr>))"

text \<open>\<open>rest\<close>: what the coroutine does after the call, as the scheduler sees it.\<close>

definition CoTcpConnection_Write :: "nat \<Rightarrow> char list \<Rightarrow> action list \<Rightarrow> co_net \<Rightarrow> co_net option" where
  "CoTcpConnection_Write n data rest s =
     (case currentCoro (cn_sched s) of
        None \<Rightarrow> None
      | Some c \<Rightarrow>
          Option.bind (co_cmd n (CWriteBufferPush data) s) (\<lambda>s.
            Option.bind (co_cmd n (CAsyncWrite (Handler c [])) s) (co_suspend rest)))"

definition CoTcpConnection_Write_return :: "u64 \<Rightarrow> co_net \<Rightarrow> u64" where
  "CoTcpConnection_Write_return len s = len"

definition CoTcpConnection_Read :: "nat \<Rightarrow> u64 \<Rightarrow> action list \<Rightarrow> co_net \<Rightarrow> co_net option" where
  "CoTcpConnection_Read n len rest s =
     (case currentCoro (cn_sched s) of
        None \<Rightarrow> None
      | Some c \<Rightarrow> Option.bind (co_cmd n (CAsyncRead len (Handler c [])) s) (co_suspend rest))"

text \<open>The bytes go to the caller's buffer.\<close>

definition CoTcpConnection_Read_return :: "nat \<Rightarrow> u64 \<Rightarrow> co_net \<Rightarrow> (co_net \<times> u64 \<times> char list) option" where
  "CoTcpConnection_Read_return c len s =
     (if cn_err s c \<noteq> '''' then Some (s, 0, [])
      else map_option (\<lambda>(b, data, _). (s\<lparr>cn_conn := (cn_conn s)\<lparr>ReadBuffer := b\<rparr>\<rparr>, len, data))
             (Buffer_PopHead len (ReadBuffer (cn_conn s))))"

definition CoTcpConnection_Finish :: "nat \<Rightarrow> co_net \<Rightarrow> co_net option" where
  "CoTcpConnection_Finish n s = co_cmd n (CFinish '''') s"

section \<open>Client\<close>

text \<open>
  \<^verbatim>\<open>Connect\<close> up to its suspension: the client, the scheduler and the error.  \<open>f\<close> is the
  descriptor of the new socket.  The asyncer's calls are those of the two handlers below.
\<close>

fun CoClient_handler :: "nat \<Rightarrow> client_call \<Rightarrow> sched \<Rightarrow> sched" where
  "CoClient_handler c (OnConnected m) t = Scheduler_resume c t"
| "CoClient_handler c (OnDisconnected m) t = t"

definition CoClient_Connect :: "int \<Rightarrow> action list \<Rightarrow> Client \<times> sched \<Rightarrow> (Client \<times> sched \<times> errmsg) option" where
  "CoClient_Connect f rest s =
     (case currentCoro (snd s) of
        None \<Rightarrow> None
      | Some c \<Rightarrow>
          Option.bind (Option.bind (Client_SetConnectedHandler (fst s)) Client_SetDisconnectedHandler) (\<lambda>k.
          Option.bind (Client_AsyncConnect f k) (\<lambda>(k, errMsg, calls).
            let t = fold (CoClient_handler c) calls (snd s) in
            if errMsg \<noteq> '''' then Some (k, t, errMsg)
            else case Scheduler_suspend rest t of Inl _ \<Rightarrow> None | Inr t \<Rightarrow> Some (k, t, ''''))))"

text \<open>The connection \<^verbatim>\<open>Connect\<close> returns; \<open>None\<close>: a reference to a null object.\<close>

definition CoClient_Connect_return :: "Client \<Rightarrow> connection option" where
  "CoClient_Connect_return k = cl_connection k"

section \<open>Server\<close>

text \<open>
  The constructor sets both handlers.  The connected handler gives each connection a coroutine that runs
  the user's handler (\<open>user c errMsg\<close>, a list of actions); the result of \<^verbatim>\<open>addCoroutine\<close> is not
  looked at.
\<close>

definition CoServer_new :: "Server \<Rightarrow> Server option" where
  "CoServer_new v = Option.bind (Server_SetConnectedHandler v) Server_SetDisconnectedHandler"

fun CoServer_handler :: "(nat \<Rightarrow> errmsg \<Rightarrow> action list) \<Rightarrow> server_call \<Rightarrow> sched \<Rightarrow> sched result" where
  "CoServer_handler user (Connected c errMsg) t = rbind (Scheduler_addCoroutine (user c errMsg) t) (\<lambda>(t, _). Inr t)"
| "CoServer_handler user (Disconnected m) t = Inr t"

definition CoServer_Serve :: "Server \<Rightarrow> Server \<times> errmsg \<times> bool" where
  "CoServer_Serve v = Server_Serve v"

text \<open>An event of the server, with the handlers it calls.\<close>

definition CoServer_event ::
    "(int \<Rightarrow> string) \<Rightarrow> (int \<Rightarrow> event) \<Rightarrow> (nat \<Rightarrow> errmsg \<Rightarrow> action list) \<Rightarrow> server_event \<Rightarrow> Server \<times> sched \<Rightarrow>
     (Server \<times> sched) option" where
  "CoServer_event se mk user e s =
     Option.bind (Server_event se mk e (fst s)) (\<lambda>(v, calls).
       case fold_r (CoServer_handler user) calls (snd s) of Inl _ \<Rightarrow> None | Inr t \<Rightarrow> Some (v, t))"

lemmas co_defs = co_cmd_def co_event_def co_suspend_def Scheduler_suspend_def

section \<open>Lemmas\<close>

subsection \<open>Settling\<close>

lemma conn_settle_simps [simp]:
  "conn_settle (c, []) = Some c"
  "conn_settle (c, f # fs) = Option.bind (conn_step (c, f # fs)) conn_settle"
  by (subst conn_settle.simps, simp)+

lemma co_settle_none [simp]: "ran c = ran (cn_conn s) \<Longrightarrow> co_settle n (Some (c, [])) s = Some (s\<lparr>cn_conn := c\<rparr>)"
  by (simp add: co_settle_def)

lemma co_settle_call:
  "ran c = ran (cn_conn s) \<Longrightarrow> k < n \<Longrightarrow>
     co_settle n (Some (c, [FCall (Handler k []) m])) s =
       Some (s\<lparr>cn_conn := c\<lparr>ran := ran c @ [(Handler k [], m)]\<rparr>, cn_err := (cn_err s)(k := m),
               cn_sched := Scheduler_resume k (cn_sched s)\<rparr>)"
  by (simp add: co_settle_def)

lemma Scheduler_suspend_ok:
  assumes "ok n t L" "currentCoro t = Some c" "valid_acts n rest"
  shows "\<exists>h. Scheduler_suspend rest t = Inr (t\<lparr>heap := h, ctx := (ctx t)(c := Saved rest)\<rparr>) \<and>
    ok n (t\<lparr>heap := h, ctx := (ctx t)(c := Saved rest)\<rparr>) (mv HSuspend (Co c) L)"
  using leave_ok [OF assms(1,2), of HSuspend "Saved rest"] assms(3) by (simp add: Scheduler_suspend_def)

subsection \<open>Reading\<close>

text \<open>A connection on which somebody waits for \<open>len\<close> bytes, and has \<open>r\<close> of them.\<close>

definition reading :: "handler \<Rightarrow> nat \<Rightarrow> char list \<Rightarrow> connection \<Rightarrow> bool" where
  "reading h len r c \<longleftrightarrow> (\<exists>ev. c_event c = Some ev \<and> readNotify ev) \<and> Buffer_ok (ReadBuffer c) \<and>
     Buffer_data (ReadBuffer c) = r \<and> readedSize c = of_nat (length r) \<and> \<not> anyFlag c \<and>
     userReadHandler c = Some h \<and> expectSize c = of_nat len \<and> length r < len \<and>
     len + 1024 < 2 ^ 64 \<and> 2 * len + 1024 \<le> Buffer_room (ReadBuffer c) + length r"

abbreviation arrives :: "char list \<Rightarrow> conn_input" where
  "arrives d \<equiv> IReadable (int (length d)) 0 d"

lemma reading_data:
  assumes r: "reading h len r c" and d: "d \<noteq> []" "length d \<le> 1024"
  shows "\<exists>b. Buffer_ok b \<and> Buffer_data b = r @ d \<and> Buffer_room b = Buffer_room (ReadBuffer c) - length d \<and>
    conn_feed se (arrives d) c =
      Some (if length (r @ d) < len then (c\<lparr>ReadBuffer := b, readedSize := of_nat (length (r @ d))\<rparr>, [])
            else (c\<lparr>ReadBuffer := b, readedSize := 0, expectSize := 0\<rparr>, [FCall h '''']))"
proof -
  from r have room: "length d \<le> Buffer_room (ReadBuffer c)" "Buffer_room (ReadBuffer c) < 2 ^ 64"
    using d(2) Buffer_okD(3) [of "ReadBuffer c"] by (auto simp: reading_def)
  from r Buffer_Write_ok [OF _ room(1)] obtain b where b: "Buffer_Write d (ReadBuffer c) = Some b" "Buffer_ok b"
    "Buffer_data b = r @ d" "Buffer_room b = Buffer_room (ReadBuffer c) - length d"
    by (auto simp: reading_def)
  have len: "len < 2 ^ 64" "length (r @ d) < 2 ^ 64" using r d(2) room by (auto simp: reading_def)
  have le: "(of_nat len :: u64) \<le> of_nat (length r) + of_nat (length d) \<longleftrightarrow> \<not> length (r @ d) < len"
    using len by (simp add: word_le_nat_alt unat_of_nat64 not_less flip: of_nat_add)
  show ?thesis
    using r b d le by (intro exI [of _ b]) (auto simp: reading_def TcpConnection_readHandler_def Socket_Read_def
        TcpConnection_ResetRead_def)
qed

lemma reading_more:
  assumes "reading h len r (cn_conn s)" "d \<noteq> []" "length d \<le> 1024" "length (r @ d) < len"
  shows "\<exists>c'. co_event n se (arrives d) s = Some (s\<lparr>cn_conn := c'\<rparr>) \<and> reading h len (r @ d) c' \<and> ran c' = ran (cn_conn s)"
  using reading_data [OF assms(1-3), of se] assms by (auto simp: co_event_def reading_def)

lemma reading_events:
  assumes "reading h len r (cn_conn s)" "\<forall>d\<in>set ds. d \<noteq> [] \<and> length d \<le> 1024" "length (r @ concat ds) < len"
  shows "\<exists>c'. co_events n se (map arrives ds) s = Some (s\<lparr>cn_conn := c'\<rparr>) \<and> reading h len (r @ concat ds) c'"
  using assms
proof (induction ds arbitrary: r s)
  case Nil
  then show ?case by (intro exI [of _ "cn_conn s"]) simp
next
  case (Cons d ds)
  then obtain c' where c': "co_event n se (arrives d) s = Some (s\<lparr>cn_conn := c'\<rparr>)" "reading h len (r @ d) c'"
    using reading_more [OF Cons.prems(1), of d n se] by auto
  have "reading h len (r @ d) (cn_conn (s\<lparr>cn_conn := c'\<rparr>))" using c'(2) by simp
  from Cons.IH [OF this] Cons.prems c'(1) show ?case by auto
qed

lemma reading_done:
  assumes r: "reading (Handler c []) len r (cn_conn s)" and d: "d \<noteq> []" "length d \<le> 1024" "len \<le> length (r @ d)"
    and c: "c < n"
  shows "\<exists>s'. co_event n se (arrives d) s = Some s' \<and> cn_sched s' = Scheduler_resume c (cn_sched s) \<and>
    cn_err s' = (cn_err s)(c := '''') \<and> Buffer_ok (ReadBuffer (cn_conn s')) \<and>
    Buffer_data (ReadBuffer (cn_conn s')) = r @ d \<and> len \<le> Buffer_room (ReadBuffer (cn_conn s')) \<and>
    userReadHandler (cn_conn s') = Some (Handler c []) \<and> readedSize (cn_conn s') = 0 \<and> expectSize (cn_conn s') = 0 \<and>
    c_event (cn_conn s') = c_event (cn_conn s) \<and> \<not> anyFlag (cn_conn s')"
proof -
  from reading_data [OF r d(1,2), of se] obtain b where b: "Buffer_ok b" "Buffer_data b = r @ d"
    "Buffer_room b = Buffer_room (ReadBuffer (cn_conn s)) - length d"
    "conn_feed se (arrives d) (cn_conn s) =
      Some ((cn_conn s)\<lparr>ReadBuffer := b, readedSize := 0, expectSize := 0\<rparr>, [FCall (Handler c []) ''''])"
    using d(3) by auto
  show ?thesis
    unfolding co_event_def b(4) using r b c d(2)
    by (subst co_settle_call) (auto simp: reading_def)
qed

lemma co_Read_starts:
  assumes "c_event (cn_conn s) = Some ev" "readNotify ev" "Buffer_ok (ReadBuffer (cn_conn s))"
    and "Buffer_data (ReadBuffer (cn_conn s)) = []" "readedSize (cn_conn s) = 0"
    and "0 < len" "2 * len + 1024 \<le> Buffer_room (ReadBuffer (cn_conn s))"
  shows "\<exists>k. co_cmd n (CAsyncRead (of_nat len) h) s = Some (s\<lparr>cn_conn := k\<rparr>) \<and> reading h len [] k"
proof -
  have "Buffer_room (ReadBuffer (cn_conn s)) < 2 ^ 64"
    using Buffer_okD(3) [OF assms(3)] by simp
  moreover from this have "\<not> (of_nat len :: u64) \<le> 0"
    using assms(6,7) by (simp add: word_le_nat_alt unat_of_nat64)
  ultimately show ?thesis
    using assms by (intro exI [of _ "(cn_conn s)\<lparr>anyFlag := False, expectSize := of_nat len, userReadHandler := Some h\<rparr>"])
      (simp add: co_cmd_def TcpConnection_AsyncRead_def reading_def)
qed

subsection \<open>Writing\<close>

definition writing :: "handler \<Rightarrow> char list \<Rightarrow> char list \<Rightarrow> connection \<Rightarrow> bool" where
  "writing h w sent c \<longleftrightarrow> (\<exists>ev. c_event c = Some ev \<and> writeNotify ev) \<and> userWriteHandler c = Some h \<and>
     Buffer_ok (WriteBuffer c) \<and> Buffer_data (WriteBuffer c) = w \<and> 1024 \<le> Buffer_room (WriteBuffer c) \<and>
     sent_bytes c = sent"

text \<open>How many bytes each write takes: some of what it is offered, until nothing is left.\<close>

fun takes :: "nat list \<Rightarrow> char list \<Rightarrow> bool" where
  "takes [] w = (w = [])"
| "takes (r # rs) w = (0 < r \<and> r \<le> min 1024 (length w) \<and> takes rs (drop r w))"

abbreviation accepts :: "nat \<Rightarrow> conn_input" where
  "accepts r \<equiv> IWritable (int r) 0"

lemma writing_offer:
  assumes "writing h w sent c"
  shows "Buffer_Read 1024 (WriteBuffer c) = Some (take 1024 w, of_nat (min 1024 (length w)))"
proof -
  have u: "unat (1024 :: u64) = 1024" by simp
  show ?thesis using Buffer_Read_ok [of "WriteBuffer c" 1024] assms unfolding u writing_def by simp
qed

lemma writing_step:
  assumes w: "writing h w sent c" and r: "0 < r" "r \<le> min 1024 (length w)"
  shows "\<exists>c'. conn_feed se (accepts r) c = Some (c', []) \<and> writing h (drop r w) (sent @ take r w) c' \<and> ran c' = ran c"
proof -
  have n: "(of_nat (min 1024 (length w)) :: u64) \<noteq> 0"
    using unat_of_nat64 [of "min 1024 (length w)"] r by (auto simp: min_def split: if_splits)
  have u: "unat (of_nat r :: u64) = r" using r(2) by (intro unat_of_nat64) simp
  have take: "take r (take 1024 w) = take r w" using r(2) by (simp add: min_absorb1)
  from w have "Buffer_ok (WriteBuffer c)" "unat (of_nat r :: u64) \<le> length (Buffer_data (WriteBuffer c))"
    using r(2) by (simp_all add: writing_def u)
  from Buffer_UpdateReadIndex_ok [OF this] w u show ?thesis
    using n take by (auto simp: writing_offer [OF w] TcpConnection_writeHandler_def Socket_Write_def writing_def)
qed

lemma writing_events:
  assumes "writing h w sent (cn_conn s)" "takes rs w"
  shows "\<exists>c'. co_events n se (map accepts rs) s = Some (s\<lparr>cn_conn := c'\<rparr>) \<and> writing h [] (sent @ w) c'"
  using assms
proof (induction rs arbitrary: w sent s)
  case Nil
  then show ?case by (intro exI [of _ "cn_conn s"]) simp
next
  case (Cons r rs)
  then obtain c' where c': "conn_feed se (accepts r) (cn_conn s) = Some (c', [])"
    "writing h (drop r w) (sent @ take r w) c'" "ran c' = ran (cn_conn s)"
    using writing_step [OF Cons.prems(1), of r se] by auto
  then have "co_event n se (accepts r) s = Some (s\<lparr>cn_conn := c'\<rparr>)" by (simp add: co_event_def)
  moreover have "writing h (drop r w) (sent @ take r w) (cn_conn (s\<lparr>cn_conn := c'\<rparr>))" using c'(2) by simp
  from Cons.IH [OF this] Cons.prems(2) have
    "\<exists>c''. co_events n se (map accepts rs) (s\<lparr>cn_conn := c'\<rparr>) = Some (s\<lparr>cn_conn := c''\<rparr>) \<and> writing h [] (sent @ w) c''"
    by simp
  ultimately show ?case by auto
qed

lemma writing_done:
  assumes w: "writing (Handler c []) [] sent (cn_conn s)" and c: "c < n"
  shows "\<exists>s'. co_event n se (IWritable r e) s = Some s' \<and> cn_sched s' = Scheduler_resume c (cn_sched s) \<and>
    cn_err s' = (cn_err s)(c := '''') \<and> sent_bytes (cn_conn s') = sent"
proof -
  from w obtain ev where ev: "c_event (cn_conn s) = Some ev" "writeNotify ev" by (auto simp: writing_def)
  have "conn_feed se (IWritable r e) (cn_conn s) =
    Some ((cn_conn s)\<lparr>writeDone := True, c_event := Some (notify_flags DisableWrite ev)\<rparr>, [FCall (Handler c []) ''''])"
    using w ev writing_offer [OF w] by (simp add: TcpConnection_writeHandler_def writing_def)
  then show ?thesis
    unfolding co_event_def using w c by (simp add: co_settle_call writing_def)
qed

text \<open>A connection that can take a write: no other write is under way.\<close>

definition write_idle :: "connection \<Rightarrow> bool" where
  "write_idle c \<longleftrightarrow> \<not> finished c \<and> c_event c \<noteq> None \<and> Buffer_ok (WriteBuffer c) \<and>
     (case c_asyncer c of None \<Rightarrow> True | Some a \<Rightarrow> Asyncer_destroy a = [])"

lemma co_Write_starts:
  assumes i: "write_idle (cn_conn s)" and room: "length data + 1024 \<le> Buffer_room (WriteBuffer (cn_conn s))"
  shows "\<exists>k1 k2 k3. co_cmd n (CWriteBufferPush data) s = Some (s\<lparr>cn_conn := k1\<rparr>) \<and>
    co_cmd n (CAsyncWrite h) (s\<lparr>cn_conn := k1\<rparr>) = Some (s\<lparr>cn_conn := k2\<rparr>) \<and>
    (\<forall>t. co_event n se IAsync (t\<lparr>cn_conn := k2\<rparr>) = Some (t\<lparr>cn_conn := k3\<rparr>)) \<and>
    writing h (Buffer_data (WriteBuffer (cn_conn s)) @ data) (sent_bytes (cn_conn s)) k3"
proof -
  from i Buffer_Write_ok [of "WriteBuffer (cn_conn s)" data] room obtain b where
    b: "Buffer_Push data (WriteBuffer (cn_conn s)) = Some b" "Buffer_ok b"
    "Buffer_data b = Buffer_data (WriteBuffer (cn_conn s)) @ data"
    "Buffer_room b = Buffer_room (WriteBuffer (cn_conn s)) - length data"
    by (auto simp: write_idle_def Buffer_Push_def)
  from i obtain ev where ev: "c_event (cn_conn s) = Some ev" "\<not> finished (cn_conn s)" by (auto simp: write_idle_def)
  let ?k1 = "(cn_conn s)\<lparr>WriteBuffer := b, pushed_bytes := pushed_bytes (cn_conn s) @ data\<rparr>"
  obtain a where a: "Asyncer_AsyncDo h (Asyncer_new False) = Some (a, [])" "a_event a = Some True" "\<not> a_done a"
    "a_handler a = Some h"
    by (simp add: Asyncer_defs)
  let ?k2 = "?k1\<lparr>c_asyncer := Some a\<rparr>"
  let ?k3 = "?k2\<lparr>c_asyncer := Some (a\<lparr>a_event := Some False, a_done := True\<rparr>), userWriteHandler := Some h,
    c_event := Some (notify_flags EnableWrite ev)\<rparr>"
  have "TcpConnection_AsyncWrite h ?k1 = Some (?k1\<lparr>c_asyncer := Some (Asyncer_new False)\<rparr>, [FAsyncDo h])"
    using i ev by (auto simp: TcpConnection_AsyncWrite_def write_idle_def closures_def split: option.splits)
  then have "co_cmd n (CAsyncWrite h) (s\<lparr>cn_conn := ?k1\<rparr>) = Some (s\<lparr>cn_conn := ?k2\<rparr>)"
    using a(1) by (simp add: co_cmd_def co_settle_def TcpConnection_AsyncWrite_do_def closures_def)
  moreover have "co_cmd n (CWriteBufferPush data) s = Some (s\<lparr>cn_conn := ?k1\<rparr>)"
    using b(1) by (simp add: co_cmd_def TcpConnection_WriteBufferPush_def)
  moreover have "co_event n se IAsync (t\<lparr>cn_conn := ?k2\<rparr>) = Some (t\<lparr>cn_conn := ?k3\<rparr>)" for t
    using a(2-4) ev by (simp add: co_event_def co_settle_def Asyncer_fire_def call_handler_def closures_def
        TcpConnection_AsyncWrite_closure_def Let_def)
  moreover have "writing h (Buffer_data (WriteBuffer (cn_conn s)) @ data) (sent_bytes (cn_conn s)) ?k3"
    using b room by (simp add: writing_def)
  ultimately show ?thesis by blast
qed

subsection \<open>The scheduler around a call\<close>

text \<open>The states of a scheduler of \<open>n\<close> slots, after any history, and those in which coroutine \<open>c\<close> runs.\<close>

definition reached :: "nat \<Rightarrow> sched \<Rightarrow> bool" where
  "reached n t \<longleftrightarrow>
     (\<exists>ops lp now. list_all (valid_op n) ops \<and> rbind (Scheduler_new n lp now) (Scheduler_run ops) = Inr t)"

definition running :: "nat \<Rightarrow> nat \<Rightarrow> sched \<Rightarrow> bool" where
  "running n c t \<longleftrightarrow> reached n t \<and> currentCoro t = Some c"

lemma reached_ok:
  assumes "reached n t"
  shows "\<exists>L. ok n t L"
proof -
  from assms obtain ops lp now where o: "list_all (valid_op n) ops"
    "rbind (Scheduler_new n lp now) (Scheduler_run ops) = Inr t"
    by (auto simp: reached_def)
  from Scheduler_new_start obtain s0 where
    s0: "Scheduler_new n lp now = Inr s0" "ok n s0 (all_free n)" by blast
  from Scheduler_run_ok [OF s0(2) o(1)] s0(1) o(2) show ?thesis by auto
qed

lemma running_ok: "running n c t \<Longrightarrow> currentCoro t = Some c \<and> c < n \<and> (\<exists>L. ok n t L)"
  using reached_ok [of n t] by (auto simp: running_def ok_def)

text \<open>Suspending, and being switched to in the turn after a resumption.\<close>

lemma running_suspends:
  assumes "running n c t" "valid_acts n rest"
  shows "\<exists>t' L. Scheduler_suspend rest t = Inr t' \<and> ok n t' L \<and> in_list HSuspend c t' \<and> ctx t' c = Saved rest \<and>
    resumeQueue t' = resumeQueue t \<and> switched t' = switched t"
proof -
  from running_ok [OF assms(1)] obtain L where L: "ok n t L" "currentCoro t = Some c" "c < n" by blast
  from Scheduler_suspend_ok [OF L(1,2) assms(2)] obtain h where
    h: "Scheduler_suspend rest t = Inr (t\<lparr>heap := h, ctx := (ctx t)(c := Saved rest)\<rparr>)"
    "ok n (t\<lparr>heap := h, ctx := (ctx t)(c := Saved rest)\<rparr>) (mv HSuspend (Co c) L)" by blast
  have "in_list HSuspend c (t\<lparr>heap := h, ctx := (ctx t)(c := Saved rest)\<rparr>)"
    by (simp add: in_list_eq [OF h(2)] in_mv [OF ok_part [OF L(1)]])
  with h show ?thesis by auto
qed

definition switched_next :: "nat \<Rightarrow> nat \<Rightarrow> sched \<Rightarrow> bool" where
  "switched_next n c t \<longleftrightarrow>
     (\<forall>cbs t'. list_all (valid_ext n) cbs \<and> Scheduler_turn cbs t = Inr t' \<longrightarrow>
        c \<in> set (drop (length (switched t)) (switched t')))"

lemma resume_switched_next:
  assumes "ok n t L" "c < n"
  shows "switched_next n c (Scheduler_resume c t)"
proof -
  have o: "ok n (Scheduler_resume c t) L" using assms by (auto simp: ok_def queued_def Scheduler_resume_def)
  have "c \<in> set (drop (length (switched (Scheduler_resume c t))) (switched t'))"
    if "list_all (valid_ext n) cbs" "Scheduler_turn cbs (Scheduler_resume c t) = Inr t'" for cbs t'
  proof -
    from Scheduler_turn_ok [OF o that(1)] that(2) obtain new where
      "switched t' = switched (Scheduler_resume c t) @ new"
      "Co ` (set (resumeQueue (Scheduler_resume c t)) \<union> set (sleepers_due (Scheduler_resume c t))) \<union> set (L HYield)
        \<subseteq> Co ` set new" by auto
    then show ?thesis by (auto simp: Scheduler_resume_def)
  qed
  then show ?thesis by (auto simp: switched_next_def)
qed

section \<open>Properties\<close>

text \<open>
  C34.  A coroutine that reads gets its bytes.  \<^verbatim>\<open>Read\<close> of \<open>len\<close> bytes on an open connection with
  nothing buffered suspends the caller; pieces that do not make up \<open>len\<close> bytes leave it suspended and
  unqueued; the piece that completes them queues it once, so that the next turn switches to it; and
  \<^verbatim>\<open>Read\<close> then returns \<open>len\<close> and the first \<open>len\<close> bytes that came, the rest staying in the buffer.
\<close>

theorem CoTcpConnection_Read_gets_bytes:
  assumes "running n c (cn_sched s)" "valid_acts n rest"
    and "c_event (cn_conn s) = Some ev" "readNotify ev" "Buffer_ok (ReadBuffer (cn_conn s))"
    and "Buffer_data (ReadBuffer (cn_conn s)) = []" "readedSize (cn_conn s) = 0"
    and "0 < len" "2 * len + 1024 \<le> Buffer_room (ReadBuffer (cn_conn s))"
    and "\<forall>d\<in>set (ds @ [d]). d \<noteq> [] \<and> length d \<le> 1024"
    and "length (concat ds) < len" "len \<le> length (concat ds @ d)"
  shows "\<exists>s1 s2 s3 s4. CoTcpConnection_Read n (of_nat len) rest s = Some s1 \<and>
    in_list HSuspend c (cn_sched s1) \<and> ctx (cn_sched s1) c = Saved rest \<and>
    co_events n se (map arrives ds) s1 = Some s2 \<and> cn_sched s2 = cn_sched s1 \<and>
    resumeQueue (cn_sched s2) = resumeQueue (cn_sched s) \<and>
    co_event n se (arrives d) s2 = Some s3 \<and> resumeQueue (cn_sched s3) = resumeQueue (cn_sched s) @ [c] \<and>
    switched_next n c (cn_sched s3) \<and>
    CoTcpConnection_Read_return c (of_nat len) s3 = Some (s4, of_nat len, take len (concat ds @ d)) \<and>
    Buffer_data (ReadBuffer (cn_conn s4)) = drop len (concat ds @ d)"
proof -
  from running_ok [OF assms(1)] have c: "currentCoro (cn_sched s) = Some c" "c < n" by auto
  from co_Read_starts [OF assms(3-9), of n "Handler c []"] obtain k where
    k: "co_cmd n (CAsyncRead (of_nat len) (Handler c [])) s = Some (s\<lparr>cn_conn := k\<rparr>)"
    "reading (Handler c []) len [] k" by blast
  from running_suspends [OF assms(1,2)] obtain t L where
    t: "Scheduler_suspend rest (cn_sched s) = Inr t" "ok n t L" "in_list HSuspend c t" "ctx t c = Saved rest"
    "resumeQueue t = resumeQueue (cn_sched s)" by blast
  let ?s1 = "s\<lparr>cn_conn := k, cn_sched := t\<rparr>"
  have 1: "CoTcpConnection_Read n (of_nat len) rest s = Some ?s1"
    using c(1) k(1) t(1) by (simp add: CoTcpConnection_Read_def co_suspend_def)
  have "reading (Handler c []) len [] (cn_conn ?s1)" using k(2) by simp
  from reading_events [OF this, of ds n se] assms(10,11) obtain k2 where
    2: "co_events n se (map arrives ds) ?s1 = Some (?s1\<lparr>cn_conn := k2\<rparr>)" "reading (Handler c []) len (concat ds) k2"
    by auto
  have "reading (Handler c []) len (concat ds) (cn_conn (?s1\<lparr>cn_conn := k2\<rparr>))" using 2(2) by simp
  from reading_done [OF this _ _ assms(12) c(2), of se] assms(10) obtain s3 where
    3: "co_event n se (arrives d) (?s1\<lparr>cn_conn := k2\<rparr>) = Some s3" "cn_sched s3 = Scheduler_resume c t"
    "cn_err s3 c = ''''" "Buffer_ok (ReadBuffer (cn_conn s3))" "Buffer_data (ReadBuffer (cn_conn s3)) = concat ds @ d"
    "len \<le> Buffer_room (ReadBuffer (cn_conn s3))" by auto
  have lenlt: "len < 2 ^ 64" using assms(9) Buffer_okD(3) [OF assms(5)] by simp
  from Buffer_PopHead_ok [OF 3(4), of "of_nat len"] 3(5,6) lenlt obtain b m where
    4: "Buffer_PopHead (of_nat len) (ReadBuffer (cn_conn s3)) = Some (b, take len (concat ds @ d), m)"
    "Buffer_data b = drop len (concat ds @ d)" by (auto simp: unat_of_nat64)
  have "CoTcpConnection_Read_return c (of_nat len) s3 =
      Some (s3\<lparr>cn_conn := (cn_conn s3)\<lparr>ReadBuffer := b\<rparr>\<rparr>, of_nat len, take len (concat ds @ d))"
    using 3(3) 4(1) by (simp add: CoTcpConnection_Read_return_def)
  moreover have "resumeQueue (cn_sched s3) = resumeQueue (cn_sched s) @ [c]"
    using 3(2) t(5) by (simp add: Scheduler_resume_def)
  moreover have "switched_next n c (cn_sched s3)"
    using resume_switched_next [OF t(2) c(2)] 3(2) by simp
  ultimately show ?thesis using 1 2(1) 3(1) 4(2) t(3-5)
    by (intro exI [of _ ?s1] exI [of _ "?s1\<lparr>cn_conn := k2\<rparr>"] exI [of _ s3]
        exI [of _ "s3\<lparr>cn_conn := (cn_conn s3)\<lparr>ReadBuffer := b\<rparr>\<rparr>"]) simp
qed

lemma running_example: "\<exists>t. running 1 0 t"
proof -
  have "case rbind (Scheduler_new 1 False 0) (Scheduler_run [OExt (EAdd [AYield]), OTurn []]) of
      Inl f \<Rightarrow> False | Inr t \<Rightarrow> currentCoro t = Some 0"
    by code_simp
  then obtain t where "rbind (Scheduler_new 1 False 0) (Scheduler_run [OExt (EAdd [AYield]), OTurn []]) = Inr t"
    "currentCoro t = Some 0" by (auto split: sum.splits)
  moreover have "list_all (valid_op 1) [OExt (EAdd [AYield]), OTurn []]" by simp
  ultimately show ?thesis unfolding running_def reached_def by blast
qed

theorem CoTcpConnection_Read_gets_bytes_witness:
  "\<exists>s s1 s2 s3 s4. CoTcpConnection_Read 1 4 [AYield] s = Some s1 \<and> in_list HSuspend 0 (cn_sched s1) \<and>
     co_event 1 (\<lambda>_. '''') (arrives ''ab'') s1 = Some s2 \<and> co_event 1 (\<lambda>_. '''') (arrives ''cde'') s2 = Some s3 \<and>
     CoTcpConnection_Read_return 0 4 s3 = Some (s4, 4, ''abcd'') \<and> Buffer_data (ReadBuffer (cn_conn s4)) = ''e''"
proof -
  obtain t where t: "running 1 0 t" using running_example by blast
  let ?ev = "notify_flags EnableRead (fst (Event_new 5 0))"
  let ?s = "\<lparr>cn_conn = TcpConnection_new ?ev (Handler 9 []), cn_sched = t, cn_err = (\<lambda>_. '''')\<rparr>"
  have "running 1 0 (cn_sched ?s)" "valid_acts 1 [AYield]" "c_event (cn_conn ?s) = Some ?ev" "readNotify ?ev"
    "Buffer_ok (ReadBuffer (cn_conn ?s))" "Buffer_data (ReadBuffer (cn_conn ?s)) = []" "readedSize (cn_conn ?s) = 0"
    "0 < (4::nat)" "2 * 4 + 1024 \<le> Buffer_room (ReadBuffer (cn_conn ?s))"
    "\<forall>d\<in>set ([''ab''] @ [''cde'']). d \<noteq> [] \<and> length d \<le> 1024" "length (concat [''ab'']) < 4"
    "4 \<le> length (concat [''ab''] @ ''cde'')"
    using t by (simp_all add: TcpConnection_new_def Buffer_new_ok) (simp add: Buffer_room_def Buffer_new_def)
  from CoTcpConnection_Read_gets_bytes [OF this, of "\<lambda>_. ''''"] obtain s1 s2 s3 s4 where
    "CoTcpConnection_Read 1 4 [AYield] ?s = Some s1" "in_list HSuspend 0 (cn_sched s1)"
    "co_events 1 (\<lambda>_. '''') [arrives ''ab''] s1 = Some s2" "co_event 1 (\<lambda>_. '''') (arrives ''cde'') s2 = Some s3"
    "CoTcpConnection_Read_return 0 4 s3 = Some (s4, 4, ''abcd'')" "Buffer_data (ReadBuffer (cn_conn s4)) = ''e''"
    by auto
  then show ?thesis by (intro exI conjI) (auto split: bind_splits)
qed

text \<open>
  A coroutine that waits for bytes learns that the peer has closed: it is queued once, its error is
  \<^verbatim>\<open>Finished\<close>, \<^verbatim>\<open>Read\<close> returns nothing, and the connection is finished.
\<close>

theorem CoTcpConnection_Read_closed:
  assumes "reading (Handler c []) len r (cn_conn s)" "c < n" "n \<le> fin"
    and "\<not> finished (cn_conn s)" "finishHandler (cn_conn s) = Some (Handler fin [])" "c_asyncer (cn_conn s) = None"
    and "userWriteHandler (cn_conn s) = None \<or> writeDone (cn_conn s)"
  shows "\<exists>s'. co_event n se (IReadable 0 e bs) s = Some s' \<and> cn_sched s' = Scheduler_resume c (cn_sched s) \<and>
    cn_err s' c = ''Finished'' \<and> CoTcpConnection_Read_return c (of_nat len) s' = Some (s', 0, []) \<and>
    finished (cn_conn s') \<and> c_event (cn_conn s') = None"
proof -
  from assms(1) obtain ev where ev: "c_event (cn_conn s) = Some ev" "readNotify ev"
    "userReadHandler (cn_conn s) = Some (Handler c [])" by (auto simp: reading_def)
  let ?k = "TcpConnection_ResetRead (cn_conn s)"
  have "conn_feed se (IReadable 0 e bs) (cn_conn s) = Some (?k, [FCall (Handler c []) ''Finished'', FFinish ''Finished''])"
    using ev by (simp add: TcpConnection_readHandler_def Socket_Read_def Let_def)
  moreover have "conn_settle (?k, [FCall (Handler c []) ''Finished'', FFinish ''Finished'']) =
    Some (?k\<lparr>ran := ran ?k @ [(Handler c [], ''Finished''), (Handler fin [], ''Finished'')], finished := True,
      c_event := None, finishes := finishes ?k + 1\<rparr>)"
    using assms(4-7) by (auto simp: TcpConnection_Finish_def TcpConnection_Finish_write_def
        TcpConnection_Finish_end_def TcpConnection_ResetRead_def split: option.splits)
  ultimately show ?thesis
    using assms(2,3) by (simp add: co_event_def co_settle_def CoTcpConnection_Read_return_def TcpConnection_ResetRead_def)
qed

text \<open>
  C35.  A coroutine that writes is resumed when everything has been sent.  \<^verbatim>\<open>Write\<close> suspends the caller;
  the loop then picks the request up, and however the socket divides the bytes, the caller stays
  unqueued until all have been taken; then it is queued once, without an error, what was sent before
  followed by what was buffered and its own bytes.
\<close>

theorem CoTcpConnection_Write_sends_all:
  assumes "running n c (cn_sched s)" "valid_acts n rest" "write_idle (cn_conn s)"
    and "length data + 1024 \<le> Buffer_room (WriteBuffer (cn_conn s))"
    and "takes rs (Buffer_data (WriteBuffer (cn_conn s)) @ data)"
  shows "\<exists>s1 s2 s3. CoTcpConnection_Write n data rest s = Some s1 \<and>
    in_list HSuspend c (cn_sched s1) \<and> ctx (cn_sched s1) c = Saved rest \<and>
    co_events n se (IAsync # map accepts rs) s1 = Some s2 \<and> cn_sched s2 = cn_sched s1 \<and>
    resumeQueue (cn_sched s2) = resumeQueue (cn_sched s) \<and>
    co_event n se (IWritable r e) s2 = Some s3 \<and> resumeQueue (cn_sched s3) = resumeQueue (cn_sched s) @ [c] \<and>
    switched_next n c (cn_sched s3) \<and> cn_err s3 c = '''' \<and>
    sent_bytes (cn_conn s3) = sent_bytes (cn_conn s) @ Buffer_data (WriteBuffer (cn_conn s)) @ data"
proof -
  from running_ok [OF assms(1)] have c: "currentCoro (cn_sched s) = Some c" "c < n" by auto
  from co_Write_starts [OF assms(3,4), of n "Handler c []" se] obtain k1 k2 k3 where
    k: "co_cmd n (CWriteBufferPush data) s = Some (s\<lparr>cn_conn := k1\<rparr>)"
    "co_cmd n (CAsyncWrite (Handler c [])) (s\<lparr>cn_conn := k1\<rparr>) = Some (s\<lparr>cn_conn := k2\<rparr>)"
    "\<And>t. co_event n se IAsync (t\<lparr>cn_conn := k2\<rparr>) = Some (t\<lparr>cn_conn := k3\<rparr>)"
    "writing (Handler c []) (Buffer_data (WriteBuffer (cn_conn s)) @ data) (sent_bytes (cn_conn s)) k3" by blast
  from running_suspends [OF assms(1,2)] obtain t L where
    t: "Scheduler_suspend rest (cn_sched s) = Inr t" "ok n t L" "in_list HSuspend c t" "ctx t c = Saved rest"
    "resumeQueue t = resumeQueue (cn_sched s)" by blast
  let ?s1 = "s\<lparr>cn_conn := k2, cn_sched := t\<rparr>" and ?s2 = "s\<lparr>cn_conn := k3, cn_sched := t\<rparr>"
  have 1: "CoTcpConnection_Write n data rest s = Some ?s1"
    using c(1) k(1,2) t(1) by (simp add: CoTcpConnection_Write_def co_suspend_def)
  have swap: "s\<lparr>cn_conn := k, cn_sched := t\<rparr> = s\<lparr>cn_sched := t, cn_conn := k\<rparr>" for k by simp
  have pick: "co_event n se IAsync ?s1 = Some ?s2" unfolding swap by (rule k(3))
  have "writing (Handler c []) (Buffer_data (WriteBuffer (cn_conn s)) @ data) (sent_bytes (cn_conn s)) (cn_conn ?s2)"
    using k(4) by simp
  from writing_events [OF this assms(5), of n se] obtain k4 where
    2: "co_events n se (map accepts rs) ?s2 = Some (?s2\<lparr>cn_conn := k4\<rparr>)"
    "writing (Handler c []) [] (sent_bytes (cn_conn s) @ Buffer_data (WriteBuffer (cn_conn s)) @ data) k4" by auto
  have "writing (Handler c []) [] (sent_bytes (cn_conn s) @ Buffer_data (WriteBuffer (cn_conn s)) @ data)
      (cn_conn (?s2\<lparr>cn_conn := k4\<rparr>))" using 2(2) by simp
  from writing_done [OF this c(2), of se r e] obtain s3 where
    3: "co_event n se (IWritable r e) (?s2\<lparr>cn_conn := k4\<rparr>) = Some s3" "cn_sched s3 = Scheduler_resume c t"
    "cn_err s3 c = ''''" "sent_bytes (cn_conn s3) = sent_bytes (cn_conn s) @ Buffer_data (WriteBuffer (cn_conn s)) @ data"
    by auto
  have "switched_next n c (cn_sched s3)" "resumeQueue (cn_sched s3) = resumeQueue (cn_sched s) @ [c]"
    using resume_switched_next [OF t(2) c(2)] 3(2) t(5) by (simp_all add: Scheduler_resume_def)
  with 1 pick 2(1) 3 t(3-5) show ?thesis
    by (intro exI [of _ ?s1] exI [of _ "?s2\<lparr>cn_conn := k4\<rparr>"] exI [of _ s3]) simp
qed

theorem CoTcpConnection_Write_sends_all_witness:
  "\<exists>s s1 s2 s3. CoTcpConnection_Write 1 ''hello'' [] s = Some s1 \<and>
     co_events 1 (\<lambda>_. '''') [IAsync, accepts 2, accepts 3] s1 = Some s2 \<and>
     resumeQueue (cn_sched s2) = resumeQueue (cn_sched s) \<and> co_event 1 (\<lambda>_. '''') (IWritable 0 0) s2 = Some s3 \<and>
     resumeQueue (cn_sched s3) = resumeQueue (cn_sched s) @ [0] \<and> sent_bytes (cn_conn s3) = ''hello''"
proof -
  obtain t where t: "running 1 0 t" using running_example by blast
  let ?s = "\<lparr>cn_conn = TcpConnection_new (fst (Event_new 5 0)) (Handler 9 []), cn_sched = t, cn_err = (\<lambda>_. '''')\<rparr>"
  have "running 1 0 (cn_sched ?s)" "valid_acts 1 []" "write_idle (cn_conn ?s)"
    "length ''hello'' + 1024 \<le> Buffer_room (WriteBuffer (cn_conn ?s))"
    "takes [2, 3] (Buffer_data (WriteBuffer (cn_conn ?s)) @ ''hello'')"
    using t by (simp_all add: write_idle_def TcpConnection_new_def Buffer_new_ok)
      (simp add: Buffer_room_def Buffer_new_def)
  from CoTcpConnection_Write_sends_all [OF this, of "\<lambda>_. ''''" 0 0] obtain s1 s2 s3 where
    "CoTcpConnection_Write 1 ''hello'' [] ?s = Some s1"
    "co_events 1 (\<lambda>_. '''') [IAsync, accepts 2, accepts 3] s1 = Some s2"
    "resumeQueue (cn_sched s2) = resumeQueue (cn_sched ?s)" "co_event 1 (\<lambda>_. '''') (IWritable 0 0) s2 = Some s3"
    "resumeQueue (cn_sched s3) = resumeQueue (cn_sched ?s) @ [0]" "sent_bytes (cn_conn s3) = ''hello''"
    by (auto simp: TcpConnection_new_def Buffer_new_ok)
  then show ?thesis by blast
qed

text \<open>
  The handler of a read that is over stays installed, so data that comes when nobody reads wakes the
  coroutine that read last: it is queued again although it waits for nothing of this connection, and the
  variable that held its error, which is gone by then, is written.
\<close>

theorem CoTcpConnection_stale_wakeup:
  assumes "reading (Handler c []) len r (cn_conn s)" "c < n"
    and "d \<noteq> []" "length d \<le> 1024" "len \<le> length (r @ d)" "d' \<noteq> []" "length d' \<le> 1024" "1024 \<le> len"
  shows "\<exists>s1 s2. co_event n se (arrives d) s = Some s1 \<and> resumeQueue (cn_sched s1) = resumeQueue (cn_sched s) @ [c] \<and>
    co_event n se (arrives d') s1 = Some s2 \<and> resumeQueue (cn_sched s2) = resumeQueue (cn_sched s) @ [c, c]"
proof -
  from reading_done [OF assms(1,3-5,2), of se] obtain s1 where
    1: "co_event n se (arrives d) s = Some s1" "cn_sched s1 = Scheduler_resume c (cn_sched s)"
    "Buffer_ok (ReadBuffer (cn_conn s1))" "len \<le> Buffer_room (ReadBuffer (cn_conn s1))"
    "userReadHandler (cn_conn s1) = Some (Handler c [])" "expectSize (cn_conn s1) = 0"
    "c_event (cn_conn s1) = c_event (cn_conn s)" by blast
  from assms(1) obtain ev where ev: "c_event (cn_conn s) = Some ev" "readNotify ev" by (auto simp: reading_def)
  from Buffer_Write_ok [OF 1(3), of d'] 1(4) assms(7,8) obtain b where
    "Buffer_Write d' (ReadBuffer (cn_conn s1)) = Some b" by force
  then have "\<exists>k. conn_feed se (arrives d') (cn_conn s1) = Some (k, [FCall (Handler c []) '''']) \<and> ran k = ran (cn_conn s1)"
    using 1(5-7) ev assms(6) by (simp add: TcpConnection_readHandler_def Socket_Read_def TcpConnection_ResetRead_def)
  then obtain k where "conn_feed se (arrives d') (cn_conn s1) = Some (k, [FCall (Handler c []) ''''])"
    "ran k = ran (cn_conn s1)" by blast
  with 1(1,2) assms(2) show ?thesis by (simp add: co_event_def co_settle_call Scheduler_resume_def)
qed

text \<open>
  C36.  A coroutine that connects is resumed if the connection succeeds, and only then.  \<^verbatim>\<open>Connect\<close>
  suspends the caller; when the attempt is over, success queues the caller once, the next turn switches to
  it, and \<^verbatim>\<open>Connect\<close> returns a connection that reads; after any failure (a cancelled request, a
  failing socket call, a refused connection) the scheduler is as it was, so the caller stays suspended and
  is not told the error.
\<close>

theorem CoClient_Connect_outcome:
  assumes "running n c t" "valid_acts n rest" "\<not> connectCalled k" "cl_asyncer k = None" "0 \<le> f"
  shows "\<exists>k0 t0. CoClient_Connect f rest (k, t) = Some (k0, t0, '''') \<and> in_list HSuspend c t0 \<and>
    ctx t0 c = Saved rest \<and> resumeQueue t0 = resumeQueue t \<and>
    (\<forall>m result errno r error k1 calls1 k2 calls2.
       Client_onLoop se e1 e2 result errno ev m k0 = Some (k1, calls1) \<and>
       (if calls1 = [] then Client_connectorDone se showInt r error k1 = Some (k2, calls2)
        else k2 = k1 \<and> calls2 = []) \<longrightarrow>
       (let t2 = fold (CoClient_handler c) (calls1 @ calls2) t0 in
        if m = '''' \<and> e1 = '''' \<and> e2 = '''' \<and> (0 \<le> result \<or> errno = EINPROGRESS) \<and> 0 \<le> r \<and> error = 0
        then resumeQueue t2 = resumeQueue t @ [c] \<and> switched_next n c t2 \<and>
          (\<exists>conn e. CoClient_Connect_return k2 = Some conn \<and> c_event conn = Some e \<and> readNotify e)
        else t2 = t0))"
proof -
  from running_ok [OF assms(1)] have c: "currentCoro t = Some c" "c < n" by auto
  from running_suspends [OF assms(1,2)] obtain t0 L where
    t0: "Scheduler_suspend rest t = Inr t0" "ok n t0 L" "in_list HSuspend c t0" "ctx t0 c = Saved rest"
    "resumeQueue t0 = resumeQueue t" by blast
  have ne: "Client_SetConnectedHandler k = Some (k\<lparr>cl_connectedHandler := True\<rparr>)"
    "Client_SetDisconnectedHandler (k\<lparr>cl_connectedHandler := True\<rparr>) =
       Some (k\<lparr>cl_connectedHandler := True, cl_disconnectedHandler := True\<rparr>)"
    using assms(3) by (simp_all add: Client_SetConnectedHandler_def Client_SetDisconnectedHandler_def)
  have "\<exists>k0. Client_AsyncConnect f (k\<lparr>cl_connectedHandler := True, cl_disconnectedHandler := True\<rparr>) = Some (k0, '''', [])"
    using assms(4,5) by (simp add: Client_AsyncConnect_def Connector_new_def Socket_new_def Asyncer_defs cancelled_calls_def)
  then obtain k0 where
    k0: "Client_AsyncConnect f (k\<lparr>cl_connectedHandler := True, cl_disconnectedHandler := True\<rparr>) = Some (k0, '''', [])" by blast
  have "CoClient_Connect f rest (k, t) = Some (k0, t0, '''')"
    using c(1) ne k0 t0(1) by (simp add: CoClient_Connect_def)
  moreover have "let t2 = fold (CoClient_handler c) (calls1 @ calls2) t0 in
      if m = '''' \<and> e1 = '''' \<and> e2 = '''' \<and> (0 \<le> result \<or> errno = EINPROGRESS) \<and> 0 \<le> r \<and> error = 0
      then resumeQueue t2 = resumeQueue t @ [c] \<and> switched_next n c t2 \<and>
        (\<exists>conn e. CoClient_Connect_return k2 = Some conn \<and> c_event conn = Some e \<and> readNotify e)
      else t2 = t0"
    if "Client_onLoop se e1 e2 result errno ev m k0 = Some (k1, calls1)"
      "if calls1 = [] then Client_connectorDone se showInt r error k1 = Some (k2, calls2) else k2 = k1 \<and> calls2 = []"
    for m result errno r error k1 calls1 k2 calls2
  proof -
    from connect_once [OF k0 that] obtain x where x: "calls1 @ calls2 = [x]"
      "if m = '''' \<and> e1 = '''' \<and> e2 = '''' \<and> (0 \<le> result \<or> errno = EINPROGRESS) \<and> 0 \<le> r \<and> error = 0
       then x = OnConnected '''' \<and> (\<exists>k e. cl_connection k2 = Some k \<and> c_event k = Some e \<and> readNotify e)
       else (\<exists>msg. x = OnDisconnected msg \<and> msg \<noteq> '''') \<and> cl_connection k2 = None" by blast
    have "resumeQueue (Scheduler_resume c t0) = resumeQueue t @ [c]" using t0(5) by (simp add: Scheduler_resume_def)
    with x(2) resume_switched_next [OF t0(2) c(2)] show ?thesis
      unfolding x(1) Let_def CoClient_Connect_return_def by (auto split: if_splits)
  qed
  ultimately show ?thesis using t0(3-5) by blast
qed

theorem CoClient_Connect_outcome_witness:
  "\<exists>t k0 t0. CoClient_Connect 5 [AYield] (Client_new ''127.0.0.1'' 80, t) = Some (k0, t0, '''') \<and>
     in_list HSuspend 0 t0 \<and> resumeQueue t0 = resumeQueue t \<and>
     (\<forall>k1 calls1 k2 calls2.
        Client_onLoop (\<lambda>_. '''') '''' '''' (-1) EINPROGRESS (fst (Event_new 5 0)) '''' k0 = Some (k1, calls1) \<and>
        calls1 = [] \<and> Client_connectorDone (\<lambda>_. '''') (\<lambda>_. '''') 0 111 k1 = Some (k2, calls2) \<longrightarrow>
        fold (CoClient_handler 0) (calls1 @ calls2) t0 = t0)"
proof -
  obtain t where t: "running 1 0 t" using running_example by blast
  have "valid_acts 1 [AYield]" "\<not> connectCalled (Client_new ''127.0.0.1'' 80)"
    "cl_asyncer (Client_new ''127.0.0.1'' 80) = None" "0 \<le> (5 :: int)"
    by (simp_all add: Client_new_def)
  from CoClient_Connect_outcome [OF t this, of "\<lambda>_. ''''" "''''" "''''" "fst (Event_new 5 0)" "\<lambda>_. ''''"]
  obtain k0 t0 where 1: "CoClient_Connect 5 [AYield] (Client_new ''127.0.0.1'' 80, t) = Some (k0, t0, '''')"
    "in_list HSuspend 0 t0" "resumeQueue t0 = resumeQueue t" and
    2: "\<And>m result errno r error k1 calls1 k2 calls2.
       Client_onLoop (\<lambda>_. '''') '''' '''' result errno (fst (Event_new 5 0)) m k0 = Some (k1, calls1) \<and>
       (if calls1 = [] then Client_connectorDone (\<lambda>_. '''') (\<lambda>_. '''') r error k1 = Some (k2, calls2)
        else k2 = k1 \<and> calls2 = []) \<Longrightarrow>
       let t2 = fold (CoClient_handler 0) (calls1 @ calls2) t0 in
        if m = '''' \<and> '''' = ('''' :: errmsg) \<and> '''' = ('''' :: errmsg) \<and> (0 \<le> result \<or> errno = EINPROGRESS) \<and> 0 \<le> r \<and> error = 0
        then resumeQueue t2 = resumeQueue t @ [0] \<and> switched_next 1 0 t2 \<and>
          (\<exists>conn e. CoClient_Connect_return k2 = Some conn \<and> c_event conn = Some e \<and> readNotify e)
        else t2 = t0"
    by blast
  have "fold (CoClient_handler 0) (calls1 @ calls2) t0 = t0"
    if "Client_onLoop (\<lambda>_. '''') '''' '''' (-1) EINPROGRESS (fst (Event_new 5 0)) '''' k0 = Some (k1, calls1) \<and>
      calls1 = [] \<and> Client_connectorDone (\<lambda>_. '''') (\<lambda>_. '''') 0 111 k1 = Some (k2, calls2)" for k1 calls1 k2 calls2
    using 2 [of "-1" EINPROGRESS "''''" k1 calls1 0 111 k2 calls2] that by (simp add: Let_def)
  with 1 show ?thesis by blast
qed

text \<open>
  Every accepted connection gets a coroutine of its own, while there are free ones: the first free slot
  will run the user's handler on it.  When no slot is free the connection is kept by the server, but
  nobody serves it: the scheduler stays as it is.
\<close>

theorem CoServer_accept:
  assumes "reached n t" "valid_acts n (user c '''')" "0 \<le> f"
  shows "\<exists>v' t'. CoServer_event se mk user (Accept c f errno '''' '''' None) (v, t) = Some (v', t') \<and>
    set (connections v') = insert c (set (connections v)) \<and>
    (if \<exists>i<n. in_list HFree i t
     then \<exists>i<n. in_list HFree i t \<and> in_list HYield i t' \<and> ctx t' i = Saved (user c '''') \<and>
            (\<forall>j. j \<noteq> i \<longrightarrow> ctx t' j = ctx t j)
     else t' = t)"
proof -
  from reached_ok [OF assms(1)] obtain L where o: "ok n t L" by blast
  have acc: "Server_event se mk (Accept c f errno '''' '''' None) v =
      Some (v\<lparr>connections := List.insert c (connections v)\<rparr>, [Connected c ''''])"
    using assms(3) by (simp add: Acceptor_readHandler_def Socket_Accept_def Server_newConnectionHandler_def
        Socket_new_def TcpConnection_InitAccepted_def TcpConnection_new_def)
  from Scheduler_addCoroutine_ok [OF o assms(2)] show ?thesis
  proof (elim disjE exE conjE)
    assume "L HFree = []" "Scheduler_addCoroutine (user c '''') t = Inr (t, False)"
    with acc show ?thesis by (simp add: CoServer_event_def in_list_eq [OF o])
  next
    fix i h
    let ?t = "t\<lparr>heap := h, ctx := (ctx t)(i := Saved (user c ''''))\<rparr>"
    assume a: "i < n" "Co i \<in> set (L HFree)" "Scheduler_addCoroutine (user c '''') t = Inr (?t, True)"
      "ok n ?t (mv HYield (Co i) L)"
    have "in_list HFree i t" using a(2) by (simp add: in_list_eq [OF o])
    moreover have "in_list HYield i ?t" by (simp add: in_list_eq [OF a(4)] in_mv [OF ok_part [OF o]])
    ultimately show ?thesis using a(1,3) acc by (auto simp: CoServer_event_def intro!: exI [of _ i])
  qed
qed

theorem CoServer_accept_witness:
  "\<exists>t v' t'. CoServer_event (\<lambda>_. '''') (\<lambda>f. fst (Event_new f 0)) (\<lambda>c m. [ASleep 5]) (Accept 7 6 0 '''' '''' None) (Server_new, t)
       = Some (v', t') \<and> set (connections v') = {7} \<and> (in_list HFree 0 t \<longrightarrow> ctx t' 0 = Saved [ASleep 5])"
proof -
  obtain t where t: "running 1 0 t" using running_example by blast
  then have "reached 1 t" by (simp add: running_def)
  moreover have "valid_acts 1 ((\<lambda>c m. [ASleep 5]) (7 :: nat) ('''' :: errmsg))" "0 \<le> (6 :: int)" by simp_all
  ultimately obtain v' t' where
    1: "CoServer_event (\<lambda>_. '''') (\<lambda>f. fst (Event_new f 0)) (\<lambda>c m. [ASleep 5]) (Accept 7 6 0 '''' '''' None) (Server_new, t)
       = Some (v', t')" "set (connections v') = insert 7 (set (connections Server_new))"
    "if \<exists>i<1. in_list HFree i t
     then \<exists>i<1. in_list HFree i t \<and> in_list HYield i t' \<and> ctx t' i = Saved [ASleep 5] \<and> (\<forall>j. j \<noteq> i \<longrightarrow> ctx t' j = ctx t j)
     else t' = t"
    using CoServer_accept [of 1 t "\<lambda>c m. [ASleep 5]" 7 6 "\<lambda>_. ''''" "\<lambda>f. fst (Event_new f 0)" 0 Server_new] by blast
  show ?thesis
    using 1 by (intro exI [of _ t] exI [of _ v'] exI [of _ t']) (auto simp: Server_new_def)
qed

end
