(* ===== verification/Client_Channel.thy ===== *)
theory Client_Channel
  imports Text_Util Ordered_Map Locks
begin

text \<open>
  \<^verbatim>\<open>src/small_client/client_channel\<close>: resolvers turn a target into a set of
  \<^verbatim>\<open>address:port\<close> nodes, the balancer tells them to its policy and to the client manager, which
  keeps one pool per node; the channel picks a node and returns its pool.

  A set of strings is the ascending list of its elements.  A pool is an object of type \<open>'p\<close>; creating
  one is a parameter.  \<open>None\<close> is an exception that leaves the function, a null dereference or an abort.
\<close>

section \<open>Sets of strings\<close>

definition set_insert :: "string \<Rightarrow> string list \<Rightarrow> string list" where
  "set_insert x s = insort_insert x s"

lemma set_set_insert [simp]: "set (set_insert x s) = insert x (set s)"
  by (simp add: set_insert_def set_insort_insert)

lemma set_fold_insert: "set (fold (\<lambda>x. set_insert (f x)) xs s) = f ` set xs \<union> set s"
  by (induction xs arbitrary: s) auto

section \<open>Client manager\<close>

type_synonym 'p manager = "(string, 'p option) omap"
type_synonym 'p maker = "string \<Rightarrow> (errmsg \<times> 'p option) option"

definition ClientManager_addAddr :: "'p maker \<Rightarrow> string \<Rightarrow> 'p manager \<Rightarrow> ('p manager \<times> errmsg) option" where
  "ClientManager_addAddr handler addrPort m =
     (case handler addrPort of
        None \<Rightarrow> None
      | Some (errMsg, clientPool) \<Rightarrow>
          if errMsg \<noteq> '''' then Some (m, errMsg) else Some (map_insert addrPort clientPool m, ''''))"

definition ClientManager_removeAddr :: "string \<Rightarrow> 'p manager \<Rightarrow> 'p manager" where
  "ClientManager_removeAddr addrPort m = map_erase addrPort m"

fun ClientManager_addAll :: "'p maker \<Rightarrow> string list \<Rightarrow> 'p manager \<Rightarrow> 'p manager option" where
  "ClientManager_addAll handler [] m = Some m"
| "ClientManager_addAll handler (n # ns) m =
     (case ClientManager_addAddr handler n m of
        None \<Rightarrow> None
      | Some (m, _) \<Rightarrow> ClientManager_addAll handler ns m)"

definition ClientManager_Update :: "'p maker \<Rightarrow> string list \<Rightarrow> 'p manager \<Rightarrow> 'p manager option" where
  "ClientManager_Update handler nodes m =
     (let needAdd = filter (\<lambda>n. map_find n m = None) nodes;
          needRemove = filter (\<lambda>n. n \<notin> set nodes) (map_keys m)
      in map_option (fold ClientManager_removeAddr needRemove) (ClientManager_addAll handler needAdd m))"

text \<open>\<^verbatim>\<open>ok\<close> and the pool.\<close>

definition ClientManager_GetClientPool :: "string \<Rightarrow> 'p manager \<Rightarrow> bool \<times> 'p option" where
  "ClientManager_GetClientPool addr m =
     (case map_find addr m of None \<Rightarrow> (False, None) | Some p \<Rightarrow> (True, p))"

text \<open>
  The address and port of a node; \<open>addr0\<close> and \<open>port0\<close> are the caller's variables before the call.
  \<^verbatim>\<open>stoi\<close> may throw.
\<close>

definition ClientManager_AddrPort2addrAndPort :: "string \<Rightarrow> string \<Rightarrow> int \<Rightarrow> (bool \<times> string \<times> int) option" where
  "ClientManager_AddrPort2addrAndPort addrPort addr0 port0 =
     (case split_str addrPort (CHR '':'') of
        [] \<Rightarrow> Some (False, addr0, port0)
      | l \<Rightarrow>
          (case stoi (last l) of
             None \<Rightarrow> None
           | Some port \<Rightarrow>
               let ok = (if port = -1 then False else True); ok = True in Some (ok, hd l, port)))"

section \<open>The random policy and the registries\<close>

text \<open>\<open>size_\<close> is not initialised by the constructor.\<close>

record RandomLbPolicy =
  lb_keys :: "string list"
  lb_size :: nat

definition RandomLbPolicy_new :: "nat \<Rightarrow> RandomLbPolicy" where
  "RandomLbPolicy_new garbage = \<lparr>lb_keys = [], lb_size = garbage\<rparr>"

text \<open>\<open>r\<close> is the number the random engine gives.  A remainder by zero is \<open>None\<close>.\<close>

definition RandomLbPolicy_Get :: "nat \<Rightarrow> RandomLbPolicy \<Rightarrow> (bool \<times> string) option" where
  "RandomLbPolicy_Get r p =
     (if lb_size p = 0 then Some (False, '''')
      else if lb_keys p = [] then None
      else Some (True, lb_keys p ! (r mod length (lb_keys p))))"

definition RandomLbPolicy_UpdateAllWithoutWeight :: "string list \<Rightarrow> RandomLbPolicy \<Rightarrow> RandomLbPolicy" where
  "RandomLbPolicy_UpdateAllWithoutWeight keys p = p\<lparr>lb_keys := keys, lb_size := length keys\<rparr>"

datatype lb_kind = RandomKind
datatype resolver_kind = StringKind | DnsKind | WatcherKind

definition LbPolicyManager_GetInstance :: "(string, lb_kind) omap \<Rightarrow> (string, lb_kind) omap" where
  "LbPolicyManager_GetInstance m = map_insert ''random'' RandomKind m"

definition LbPolicyManager_GetPolicyFactory :: "string \<Rightarrow> (string, lb_kind) omap \<Rightarrow> lb_kind option" where
  "LbPolicyManager_GetPolicyFactory t m = map_find t m"

definition ResolverManager_Register ::
    "string \<Rightarrow> resolver_kind \<Rightarrow> (string, resolver_kind) omap \<Rightarrow> (string, resolver_kind) omap" where
  "ResolverManager_Register t k m = map_insert t k m"

definition ResolverManager_GetInstance :: "(string, resolver_kind) omap \<Rightarrow> (string, resolver_kind) omap" where
  "ResolverManager_GetInstance m = ResolverManager_Register ''dns'' DnsKind (ResolverManager_Register ''string'' StringKind m)"

text \<open>An unknown resolver type is logged at level FATAL.\<close>

definition ResolverManager_GetResolverFactory :: "string \<Rightarrow> (string, resolver_kind) omap \<Rightarrow> resolver_kind option" where
  "ResolverManager_GetResolverFactory t m = map_find t m"

section \<open>Resolvers\<close>

definition StringResolver_nodes :: "string list \<Rightarrow> nat \<Rightarrow> string list" where
  "StringResolver_nodes ips p = fold (\<lambda>ip. set_insert (ip @ '':'' @ to_string p)) ips []"

text \<open>
  \<open>gethostbyname\<close>: nothing and a description of the failure, or whether the addresses are IPv4 and
  the printed addresses.  The loop runs once per address and inserts \<^verbatim>\<open>h_addr\<close>, the first, each time.
\<close>

type_synonym dns = "string \<Rightarrow> string + bool \<times> string list"

definition DefaultDns_Resolver :: "dns \<Rightarrow> string \<Rightarrow> string list \<Rightarrow> errmsg \<Rightarrow> string list \<times> errmsg" where
  "DefaultDns_Resolver gethostbyname host addrs errMsg =
     (case gethostbyname host of
        Inl e \<Rightarrow> (addrs, ''gethostbyname error for host: '' @ host @ e)
      | Inr (inet, as) \<Rightarrow>
          let addrs = (if inet then fold (\<lambda>_. set_insert (hd as)) as addrs else addrs)
          in (addrs, if addrs = [] then host @ '' no available dns addrs'' else errMsg))"

fun DnsResolver_lookup :: "dns \<Rightarrow> string list \<Rightarrow> string list \<times> errmsg \<Rightarrow> string list \<times> errmsg" where
  "DnsResolver_lookup dns [] s = s"
| "DnsResolver_lookup dns (ip # ips) (nodes, errMsg) =
     DnsResolver_lookup dns ips (DefaultDns_Resolver dns ip nodes errMsg)"

text \<open>
  One resolution: the node set handed to the handler, if it is, and the queue with the next resolution
  pushed (callback 0).
\<close>

definition DnsResolver_resolveOnce ::
    "dns \<Rightarrow> string list \<Rightarrow> nat \<Rightarrow> bool \<Rightarrow> block_queue \<Rightarrow> string list option \<times> block_queue" where
  "DnsResolver_resolveOnce dns ips p isFirst q =
     (let nodes = fst (DnsResolver_lookup dns ips ([], ''''));
          addrPortNodes = fold (\<lambda>node. set_insert (node @ '':'' @ to_string p)) nodes []
      in (if nodes \<noteq> [] then Some addrPortNodes else None,
          if isFirst then BlockQueue_Push 0 q else BlockQueue_PushWithoutLock 0 q))"

section \<open>The channel\<close>

record 'p ClientChannel =
  ch_maxSize :: nat
  ch_lbPolicyType :: string
  ch_resolverType :: string
  ch_pools :: "'p manager"
  ch_balancer :: "RandomLbPolicy option"

definition ClientChannel_new :: "'p ClientChannel" where
  "ClientChannel_new = \<lparr>ch_maxSize = 50, ch_lbPolicyType = ''random'', ch_resolverType = ''string'',
     ch_pools = [], ch_balancer = None\<rparr>"

definition ClientChannel_SetMaxSize :: "nat \<Rightarrow> 'p ClientChannel \<Rightarrow> 'p ClientChannel" where
  "ClientChannel_SetMaxSize n c = c\<lparr>ch_maxSize := n\<rparr>"

definition ClientChannel_SetLbPolicyType :: "string \<Rightarrow> 'p ClientChannel \<Rightarrow> 'p ClientChannel" where
  "ClientChannel_SetLbPolicyType t c = c\<lparr>ch_lbPolicyType := t\<rparr>"

definition ClientChannel_SetResolverType :: "string \<Rightarrow> 'p ClientChannel \<Rightarrow> 'p ClientChannel" where
  "ClientChannel_SetResolverType t c = c\<lparr>ch_resolverType := t\<rparr>"

text \<open>
  The handler that makes pools: \<open>create addr port size\<close> is the pool and what its \<^verbatim>\<open>Init\<close> reported;
  \<open>port0\<close> is the uninitialised variable.
\<close>

definition ClientChannel_makeClient ::
    "(string \<Rightarrow> int \<Rightarrow> nat \<Rightarrow> 'p \<times> errmsg) \<Rightarrow> nat \<Rightarrow> int \<Rightarrow> bool \<Rightarrow> 'p maker" where
  "ClientChannel_makeClient create maxSize port0 exist addrPort =
     (if \<not> exist then Some ('''', None)
      else case ClientManager_AddrPort2addrAndPort addrPort '''' port0 of
        None \<Rightarrow> None
      | Some (ok, addr, port) \<Rightarrow>
          (case create addr port maxSize of
             (p, errMsg) \<Rightarrow> if errMsg \<noteq> '''' then Some (errMsg, None) else Some ('''', Some p)))"

text \<open>The balancer's constructor.\<close>

definition Balancer_new ::
    "nat \<Rightarrow> (string, lb_kind) omap \<Rightarrow> (string, resolver_kind) omap \<Rightarrow> string \<Rightarrow> string \<Rightarrow>
     (RandomLbPolicy \<times> resolver_kind) option" where
  "Balancer_new garbage lbs rs lbType rType =
     (case LbPolicyManager_GetPolicyFactory lbType (LbPolicyManager_GetInstance lbs) of
        None \<Rightarrow> None
      | Some RandomKind \<Rightarrow>
          map_option (Pair (RandomLbPolicy_new garbage))
            (ResolverManager_GetResolverFactory rType (ResolverManager_GetInstance rs)))"

text \<open>The handler the balancer gives to its resolver: first the policy, then the manager.\<close>

definition Balancer_notify :: "'p maker \<Rightarrow> string list \<Rightarrow> 'p ClientChannel \<Rightarrow> 'p ClientChannel option" where
  "Balancer_notify mk nodes c =
     (case ch_balancer c of
        None \<Rightarrow> None
      | Some p \<Rightarrow>
          map_option (\<lambda>m. c\<lparr>ch_balancer := Some (RandomLbPolicy_UpdateAllWithoutWeight nodes p), ch_pools := m\<rparr>)
            (ClientManager_Update mk nodes (ch_pools c)))"

text \<open>\<^verbatim>\<open>Init\<close> with the string resolver, which reports its nodes at once, or with the DNS resolver.\<close>

definition ClientChannel_Init ::
    "nat \<Rightarrow> (string, lb_kind) omap \<Rightarrow> (string, resolver_kind) omap \<Rightarrow> dns \<Rightarrow> 'p maker \<Rightarrow> string list \<Rightarrow> nat \<Rightarrow>
     'p ClientChannel \<Rightarrow> 'p ClientChannel option" where
  "ClientChannel_Init garbage lbs rs dns mk ips p c =
     (case Balancer_new garbage lbs rs (ch_lbPolicyType c) (ch_resolverType c) of
        None \<Rightarrow> None
      | Some (pol, k) \<Rightarrow>
          let c = c\<lparr>ch_balancer := Some pol\<rparr> in
          (case k of
             StringKind \<Rightarrow> Balancer_notify mk (StringResolver_nodes ips p) c
           | DnsKind \<Rightarrow>
               (case fst (DnsResolver_resolveOnce dns ips p True BlockQueue_new) of
                  None \<Rightarrow> Some c
                | Some nodes \<Rightarrow> Balancer_notify mk nodes c)
           | WatcherKind \<Rightarrow> Some c))"

definition ClientChannel_GetClientPool :: "nat \<Rightarrow> 'p ClientChannel \<Rightarrow> (bool \<times> 'p option) option" where
  "ClientChannel_GetClientPool r c =
     (case ch_balancer c of
        None \<Rightarrow> None
      | Some p \<Rightarrow>
          (case RandomLbPolicy_Get r p of
             None \<Rightarrow> None
           | Some (ok, addr) \<Rightarrow>
               if \<not> ok then Some (False, None) else Some (ClientManager_GetClientPool addr (ch_pools c))))"

section \<open>Lemmas\<close>

lemma addAll_spec:
  assumes "omap_ok m" "\<forall>n\<in>set ns. map_find n m = None" "distinct ns" "\<forall>n\<in>set ns. \<exists>e p. mk n = Some (e, p)"
  shows "\<exists>m'. ClientManager_addAll mk ns m = Some m' \<and> omap_ok m' \<and>
    (\<forall>k. map_find k m' = (if k \<in> set ns \<and> fst (the (mk k)) = '''' then Some (snd (the (mk k))) else map_find k m))"
  using assms
proof (induction ns arbitrary: m)
  case (Cons n ns)
  then obtain e p where mk: "mk n = Some (e, p)" by auto
  let ?m = "if e \<noteq> '''' then m else map_insert n p m"
  have a: "\<exists>x. ClientManager_addAddr mk n m = Some (?m, x)" using mk by (simp add: ClientManager_addAddr_def)
  have ok: "omap_ok ?m" using Cons.prems(1) by simp
  have f: "map_find k ?m = (if k = n \<and> e = '''' then Some p else map_find k m)" for k
    using om.find_ins [OF Cons.prems(1), of k n p] Cons.prems(2) by (cases "k = n") auto
  have "\<forall>k\<in>set ns. map_find k ?m = None" using Cons.prems(2,3) f by auto
  from Cons.IH [OF ok this] Cons.prems(3,4) obtain m' where
    m': "ClientManager_addAll mk ns ?m = Some m'" "omap_ok m'"
    "\<forall>k. map_find k m' = (if k \<in> set ns \<and> fst (the (mk k)) = '''' then Some (snd (the (mk k))) else map_find k ?m)"
    by auto
  from a m'(1) have "ClientManager_addAll mk (n # ns) m = Some m'" by auto
  moreover have "map_find k m' = (if k \<in> set (n # ns) \<and> fst (the (mk k)) = '''' then Some (snd (the (mk k))) else map_find k m)" for k
    using m'(3) f [of k] mk Cons.prems(3) by auto
  ultimately show ?case using m'(2) by blast
qed auto

lemma Update_spec:
  assumes "omap_ok m" "distinct nodes" "\<forall>n\<in>set nodes. map_find n m = None \<longrightarrow> (\<exists>e p. mk n = Some (e, p))"
  shows "\<exists>m'. ClientManager_Update mk nodes m = Some m' \<and> omap_ok m' \<and>
    (\<forall>k. map_find k m' =
       (if k \<notin> set nodes then None
        else case map_find k m of
          Some p \<Rightarrow> Some p
        | None \<Rightarrow> if fst (the (mk k)) = '''' then Some (snd (the (mk k))) else None))"
proof -
  let ?add = "filter (\<lambda>n. map_find n m = None) nodes"
  let ?rem = "filter (\<lambda>n. n \<notin> set nodes) (map_keys m)"
  have "\<forall>n\<in>set ?add. map_find n m = None" "distinct ?add" "\<forall>n\<in>set ?add. \<exists>e p. mk n = Some (e, p)"
    using assms(2,3) by auto
  from addAll_spec [OF assms(1) this] obtain m1 where
    1: "ClientManager_addAll mk ?add m = Some m1" "omap_ok m1"
    "\<And>k. map_find k m1 = (if k \<in> set ?add \<and> fst (the (mk k)) = '''' then Some (snd (the (mk k))) else map_find k m)"
    by blast
  have e: "fold ClientManager_removeAddr ?rem m1 = fold map_erase ?rem m1"
    by (simp add: ClientManager_removeAddr_def [abs_def])
  have "map_find k (fold map_erase ?rem m1) =
       (if k \<notin> set nodes then None
        else case map_find k m of
          Some p \<Rightarrow> Some p
        | None \<Rightarrow> if fst (the (mk k)) = '''' then Some (snd (the (mk k))) else None)" for k
  proof -
    have "map_find k m \<noteq> None \<Longrightarrow> k \<in> set (map_keys m)" by (auto simp: map_find_None map_dom_def)
    then show ?thesis
      using om.fold_erase_find [OF 1(2), of k ?rem] 1(3) [of k] by (auto split: option.splits)
  qed
  with 1(1) e om.fold_erase_ok [OF 1(2)] show ?thesis by (simp add: ClientManager_Update_def Let_def)
qed

lemma split_node:
  assumes "CHR '':'' \<notin> set ip" "ip \<noteq> []"
  shows "split_str (ip @ '':'' @ to_string p) (CHR '':'') = [ip, to_string p]"
  using split_join [of "[ip, to_string p]" "CHR '':''"] assms to_string_no_colon to_string_nonempty by auto

lemma StringResolver_set: "set (StringResolver_nodes ips p) = (\<lambda>ip. ip @ '':'' @ to_string p) ` set ips"
  unfolding StringResolver_nodes_def by (subst set_fold_insert) simp

lemma StringResolver_distinct: "distinct (StringResolver_nodes ips p)"
proof -
  have "distinct s \<Longrightarrow> distinct (fold (\<lambda>ip. set_insert (f ip)) xs s)" for f s and xs :: "string list"
    by (induction xs arbitrary: s) (auto simp: set_insert_def distinct_insort_insert)
  then show ?thesis by (simp add: StringResolver_nodes_def)
qed

lemma DnsResolver_lookup_set:
  "set (fst (DnsResolver_lookup dns ips (ns, e))) =
     set ns \<union> {a. \<exists>ip\<in>set ips. \<exists>as. dns ip = Inr (True, a # as)}"
proof (induction ips arbitrary: ns e)
  case (Cons ip ips)
  have const: "set (fold (\<lambda>_. set_insert x) ys s) = (if ys = [] then set s else insert x (set s))" for x s
    and ys :: "string list"
    by (induction ys arbitrary: s) auto
  have "set (fst (DefaultDns_Resolver dns ip ns e)) = set ns \<union> {a. \<exists>as. dns ip = Inr (True, a # as)}"
  proof (cases "dns ip")
    case (Inl x)
    then show ?thesis by (simp add: DefaultDns_Resolver_def)
  next
    case (Inr y)
    then obtain inet as where "dns ip = Inr (inet, as)" by (cases y) auto
    then show ?thesis by (cases as; cases inet) (auto simp: DefaultDns_Resolver_def Let_def const)
  qed
  moreover obtain ns' e' where "DefaultDns_Resolver dns ip ns e = (ns', e')" by fastforce
  ultimately show ?case using Cons.IH [of ns' e'] by auto
qed simp

text \<open>
  \<^verbatim>\<open>LbPolicyI\<close>: what the channel relies on.  After an update the policy chooses one of the
  nodes it was given, can choose any of them, and says so when there is none.
\<close>

locale lb_policy =
  fixes update :: "string list \<Rightarrow> 's \<Rightarrow> 's"
    and get :: "'r \<Rightarrow> 's \<Rightarrow> (bool \<times> string) option"
  assumes chooses: "nodes \<noteq> [] \<Longrightarrow> \<exists>n\<in>set nodes. get r (update nodes p) = Some (True, n)"
    and can_choose: "n \<in> set nodes \<Longrightarrow> \<exists>r. get r (update nodes p) = Some (True, n)"
    and none_left: "get r (update [] p) = Some (False, '''')"
begin

lemma choices: "(\<exists>r. get r (update nodes p) = Some (True, n)) \<longleftrightarrow> n \<in> set nodes"
proof
  assume "\<exists>r. get r (update nodes p) = Some (True, n)"
  then obtain r where r: "get r (update nodes p) = Some (True, n)" by blast
  then have "nodes \<noteq> []" using none_left [of r p] by auto
  with chooses [of nodes r p] r show "n \<in> set nodes" by auto
qed (rule can_choose)

end

interpretation rp: lb_policy RandomLbPolicy_UpdateAllWithoutWeight RandomLbPolicy_Get
proof unfold_locales
  fix nodes :: "string list" and r p
  assume "nodes \<noteq> []"
  then show "\<exists>n\<in>set nodes. RandomLbPolicy_Get r (RandomLbPolicy_UpdateAllWithoutWeight nodes p) = Some (True, n)"
    by (intro bexI [of _ "nodes ! (r mod length nodes)"])
      (simp_all add: RandomLbPolicy_Get_def RandomLbPolicy_UpdateAllWithoutWeight_def)
next
  fix n and nodes :: "string list" and p
  assume "n \<in> set nodes"
  then obtain i where "i < length nodes" "nodes ! i = n" by (auto simp: in_set_conv_nth)
  then show "\<exists>r. RandomLbPolicy_Get r (RandomLbPolicy_UpdateAllWithoutWeight nodes p) = Some (True, n)"
    by (intro exI [of _ i]) (auto simp: RandomLbPolicy_Get_def RandomLbPolicy_UpdateAllWithoutWeight_def)
qed (simp add: RandomLbPolicy_Get_def RandomLbPolicy_UpdateAllWithoutWeight_def)

lemma notify_serves:
  assumes "omap_ok (ch_pools c)" "distinct nodes" "nodes \<noteq> []" "ch_balancer c \<noteq> None"
    and "\<forall>n\<in>set nodes. map_find n (ch_pools c) = None \<longrightarrow> (\<exists>p. mk n = Some ('''', p))"
  shows "\<exists>c'. Balancer_notify mk nodes c = Some c' \<and>
    (\<forall>r. \<exists>n\<in>set nodes. ClientChannel_GetClientPool r c' = Some (ClientManager_GetClientPool n (ch_pools c'))) \<and>
    (\<forall>n\<in>set nodes. fst (ClientManager_GetClientPool n (ch_pools c')) \<and>
       (\<exists>r. ClientChannel_GetClientPool r c' = Some (ClientManager_GetClientPool n (ch_pools c'))))"
proof -
  from assms(4) obtain pol where pol: "ch_balancer c = Some pol" by auto
  have "\<forall>n\<in>set nodes. map_find n (ch_pools c) = None \<longrightarrow> (\<exists>e p. mk n = Some (e, p))" using assms(5) by blast
  from Update_spec [OF assms(1,2) this] obtain m' where m': "ClientManager_Update mk nodes (ch_pools c) = Some m'"
    "\<forall>k. map_find k m' =
       (if k \<notin> set nodes then None
        else case map_find k (ch_pools c) of
          Some p \<Rightarrow> Some p
        | None \<Rightarrow> if fst (the (mk k)) = '''' then Some (snd (the (mk k))) else None)" by blast
  let ?pol = "RandomLbPolicy_UpdateAllWithoutWeight nodes pol"
  let ?c = "c\<lparr>ch_balancer := Some ?pol, ch_pools := m'\<rparr>"
  have notify: "Balancer_notify mk nodes c = Some ?c" using pol m'(1) by (simp add: Balancer_notify_def)
  have get: "ClientChannel_GetClientPool r ?c = Some (ClientManager_GetClientPool n (ch_pools ?c))"
    if "RandomLbPolicy_Get r ?pol = Some (True, n)" for r n
    using that by (simp add: ClientChannel_GetClientPool_def)
  have "\<exists>n\<in>set nodes. ClientChannel_GetClientPool r ?c = Some (ClientManager_GetClientPool n (ch_pools ?c))" for r
    using rp.chooses [OF assms(3), of r pol] get by blast
  moreover have "\<exists>r. ClientChannel_GetClientPool r ?c = Some (ClientManager_GetClientPool n (ch_pools ?c))"
    if "n \<in> set nodes" for n
    using that rp.choices [of nodes pol n] get by blast
  moreover have "fst (ClientManager_GetClientPool n (ch_pools ?c))" if "n \<in> set nodes" for n
    using m'(2) assms(5) that by (auto simp: ClientManager_GetClientPool_def split: option.splits)
  ultimately show ?thesis using notify by blast
qed

lemma notify_Get:
  assumes "omap_ok (ch_pools c)" "distinct nodes" "nodes \<noteq> []" "ch_balancer c \<noteq> None"
    and "\<forall>n\<in>set nodes. map_find n (ch_pools c) = None \<longrightarrow> (\<exists>p. mk n = Some ('''', p))"
  shows "\<exists>c' n. Balancer_notify mk nodes c = Some c' \<and> n \<in> set nodes \<and>
    ClientChannel_GetClientPool r c' = Some (ClientManager_GetClientPool n (ch_pools c')) \<and>
    fst (ClientManager_GetClientPool n (ch_pools c'))"
  using notify_serves [OF assms] by blast

section \<open>Properties\<close>

text \<open>
  An update makes the manager agree with the resolver: afterwards exactly the nodes named have a
  pool, except those whose pool could not be made; a node that had a pool keeps that very pool, and a node
  that is no longer named loses it.
\<close>

theorem ClientManager_Update_spec:
  assumes "omap_ok m" "distinct nodes" "\<forall>n\<in>set nodes. map_find n m = None \<longrightarrow> (\<exists>e p. mk n = Some (e, p))"
  shows "\<exists>m'. ClientManager_Update mk nodes m = Some m' \<and>
    (\<forall>k. ClientManager_GetClientPool k m' =
       (if k \<notin> set nodes then (False, None)
        else case map_find k m of
          Some p \<Rightarrow> (True, p)
        | None \<Rightarrow> if fst (the (mk k)) = '''' then (True, snd (the (mk k))) else (False, None)))"
proof -
  from Update_spec [OF assms] obtain m' where m': "ClientManager_Update mk nodes m = Some m'"
    "\<forall>k. map_find k m' =
       (if k \<notin> set nodes then None
        else case map_find k m of
          Some p \<Rightarrow> Some p
        | None \<Rightarrow> if fst (the (mk k)) = '''' then Some (snd (the (mk k))) else None)" by blast
  then show ?thesis by (auto simp: ClientManager_GetClientPool_def split: option.splits)
qed

theorem ClientManager_Update_spec_witness:
  "\<exists>m'. ClientManager_Update (\<lambda>n. Some (if n = ''c:1'' then ''bad'' else '''', Some (length n))) [''a:10'', ''b:200'', ''c:1'']
      [(''b:200'', Some 99), (''z:1'', Some 7)] = Some m' \<and>
     ClientManager_GetClientPool ''b:200'' m' = (True, Some 99) \<and>
     ClientManager_GetClientPool ''a:10'' m' = (True, Some 4) \<and>
     ClientManager_GetClientPool ''c:1'' m' = (False, None) \<and>
     ClientManager_GetClientPool ''z:1'' m' = (False, None)"
proof -
  let ?mk = "\<lambda>n. Some (if n = ''c:1'' then ''bad'' else '''', Some (length n))"
  let ?m = "[(''b:200'', Some 99), (''z:1'', Some 7)] :: nat manager"
  have "omap_ok ?m" "distinct [''a:10'', ''b:200'', ''c:1'']"
    "\<forall>n\<in>set [''a:10'', ''b:200'', ''c:1'']. map_find n ?m = None \<longrightarrow> (\<exists>e p. ?mk n = Some (e, p))"
    by (simp_all add: less_char_def)
  from ClientManager_Update_spec [OF this] obtain m' where
    "ClientManager_Update ?mk [''a:10'', ''b:200'', ''c:1''] ?m = Some m'"
    "\<And>k. ClientManager_GetClientPool k m' =
       (if k \<notin> set [''a:10'', ''b:200'', ''c:1''] then (False, None)
        else case map_find k ?m of
          Some p \<Rightarrow> (True, p)
        | None \<Rightarrow> if fst (the (?mk k)) = '''' then (True, snd (the (?mk k))) else (False, None))" by blast
  then show ?thesis by (intro exI [of _ m'] conjI) simp_all
qed

text \<open>
  The policy and the manager stay in step: after a resolver has reported its nodes and every new
  pool could be made, a channel with at least one node returns, whatever the random number, the pool of a
  reported node; and each reported node's pool is returned for some random number.
\<close>

theorem ClientChannel_Get_after_notify:
  assumes "omap_ok (ch_pools c)" "distinct nodes" "nodes \<noteq> []" "ch_balancer c \<noteq> None"
    and "\<forall>n\<in>set nodes. map_find n (ch_pools c) = None \<longrightarrow> (\<exists>p. mk n = Some ('''', p))"
  shows "\<exists>c'. Balancer_notify mk nodes c = Some c' \<and>
    (\<forall>r. \<exists>n\<in>set nodes. ClientChannel_GetClientPool r c' = Some (ClientManager_GetClientPool n (ch_pools c'))) \<and>
    (\<forall>n\<in>set nodes. fst (ClientManager_GetClientPool n (ch_pools c')) \<and>
       (\<exists>r. ClientChannel_GetClientPool r c' = Some (ClientManager_GetClientPool n (ch_pools c'))))"
  using assms by (rule notify_serves)

theorem ClientChannel_Get_after_notify_witness:
  "\<exists>c' n. Balancer_notify (\<lambda>n. Some ('''', Some (length n))) [''a:1'', ''b:2'']
      ((ClientChannel_new :: nat ClientChannel)\<lparr>ch_balancer := Some (RandomLbPolicy_new 0)\<rparr>) = Some c' \<and>
     n \<in> {''a:1'', ''b:2''} \<and> ClientChannel_GetClientPool 12345 c' = Some (ClientManager_GetClientPool n (ch_pools c'))"
proof -
  let ?c = "(ClientChannel_new :: nat ClientChannel)\<lparr>ch_balancer := Some (RandomLbPolicy_new 0)\<rparr>"
  have "omap_ok (ch_pools ?c)" "distinct [''a:1'', ''b:2'']" "[''a:1'', ''b:2''] \<noteq> []" "ch_balancer ?c \<noteq> None"
    "\<forall>n\<in>set [''a:1'', ''b:2'']. map_find n (ch_pools ?c) = None \<longrightarrow> (\<exists>p. (\<lambda>n. Some ('''', Some (length n))) n = Some ('''', p))"
    by (simp_all add: ClientChannel_new_def)
  from ClientChannel_Get_after_notify [OF this] show ?thesis by (metis list.simps(15) list.set(1))
qed

text \<open>
  Nodes of the string resolver are read back right: for every address without a colon and every
  port below \<open>2 ^ 31\<close>, splitting the node gives the address and the port, and the nodes are exactly
  those of the configured addresses.
\<close>

theorem StringResolver_roundtrip:
  assumes "ip \<in> set ips" "CHR '':'' \<notin> set ip" "ip \<noteq> []" "p < 2 ^ 31"
  shows "ip @ '':'' @ to_string p \<in> set (StringResolver_nodes ips p) \<and>
    ClientManager_AddrPort2addrAndPort (ip @ '':'' @ to_string p) a0 p0 = Some (True, ip, int p)"
  using assms split_node [OF assms(2,3), of p] stoi_to_string [OF assms(4)]
  by (simp add: StringResolver_set ClientManager_AddrPort2addrAndPort_def)

theorem StringResolver_roundtrip_witness:
  "ClientManager_AddrPort2addrAndPort (''127.0.0.1'' @ '':'' @ to_string 2379) '''' 0 = Some (True, ''127.0.0.1'', 2379)"
  using StringResolver_roundtrip [of "''127.0.0.1''" "[''127.0.0.1'']" 2379 "''''" 0] by simp

text \<open>
  The DNS resolver reports the first address of every host and no other, however many addresses
  a host has; and it resolves only once, since the callback that would resolve again is never run.
\<close>

theorem DnsResolver_first_only:
  "case DnsResolver_resolveOnce dns ips p True BlockQueue_new of (nodes, q) \<Rightarrow>
     set (case nodes of None \<Rightarrow> [] | Some ns \<Rightarrow> ns) =
       {a @ '':'' @ to_string p |a. \<exists>ip\<in>set ips. \<exists>as. dns ip = Inr (True, a # as)} \<and>
     BlockQueue_looper pushes fuel q = None"
proof -
  let ?ns = "fst (DnsResolver_lookup dns ips ([], ''''))"
  have s: "set ?ns = {a. \<exists>ip\<in>set ips. \<exists>as. dns ip = Inr (True, a # as)}"
    by (simp add: DnsResolver_lookup_set)
  have "set (fold (\<lambda>node. set_insert (node @ '':'' @ to_string p)) ?ns []) = (\<lambda>a. a @ '':'' @ to_string p) ` set ?ns"
    by (subst set_fold_insert) simp
  then show ?thesis
    unfolding s by (auto simp: DnsResolver_resolveOnce_def Let_def BlockQueue_Push_def BlockQueue_PushWithoutLock_def
        BlockQueue_looper_def BlockQueue_new_def s simp flip: set_empty)
qed

end
