(* ===== verification/Http_Message.thy ===== *)
theory Http_Message
  imports Text_Util Ordered_Map
begin

text \<open>
  \<^verbatim>\<open>src/extends/small_http_parser\<close>: the header map, the request formatter and the response
  parser.  The parser library itself (\<^verbatim>\<open>http_parser\<close>, not in the repository) is a parameter: for a
  piece of input it makes callbacks, says how much it consumed and whether it failed.
\<close>

section \<open>Map\<close>

type_synonym header_map = "(string, string) omap"

definition Map_Set :: "string \<Rightarrow> string \<Rightarrow> header_map \<Rightarrow> header_map" where
  "Map_Set k v m = map_insert k v m"

text \<open>\<^verbatim>\<open>Get\<close> reads through the end iterator when the key is missing: \<open>None\<close>.\<close>

definition Map_Get :: "string \<Rightarrow> header_map \<Rightarrow> string option" where
  "Map_Get k m = map_find k m"

section \<open>The request formatter\<close>

definition LR :: string where "LR = [CHR 0x0D, CHR 0x0A]"
definition MethodGET :: string where "MethodGET = ''GET''"
definition MethodPOST :: string where "MethodPOST = ''POST''"
definition MethodPUT :: string where "MethodPUT = ''PUT''"

record ReqFormater =
  rq_method :: string
  rq_host :: string
  rq_target :: string
  rq_body :: string
  rq_result :: string
  rq_headers :: header_map
  rq_queryStrings :: header_map

definition ReqFormater_new :: "string \<Rightarrow> string \<Rightarrow> string \<Rightarrow> ReqFormater" where
  "ReqFormater_new method target body =
     \<lparr>rq_method = method, rq_host = '''', rq_target = target, rq_body = body, rq_result = '''',
      rq_headers = [], rq_queryStrings = []\<rparr>"

definition ReqFormater_SetHost :: "string \<Rightarrow> ReqFormater \<Rightarrow> ReqFormater" where
  "ReqFormater_SetHost h r = r\<lparr>rq_host := h\<rparr>"

definition ReqFormater_SetHeader :: "header_map \<Rightarrow> ReqFormater \<Rightarrow> ReqFormater" where
  "ReqFormater_SetHeader m r = r\<lparr>rq_headers := m\<rparr>"

definition ReqFormater_SetQueryString :: "header_map \<Rightarrow> ReqFormater \<Rightarrow> ReqFormater" where
  "ReqFormater_SetQueryString m r = r\<lparr>rq_queryStrings := m\<rparr>"

text \<open>The query loop: \<open>first\<close> selects the separator.\<close>

fun format_query :: "bool \<Rightarrow> header_map \<Rightarrow> string \<Rightarrow> string" where
  "format_query first [] target = target"
| "format_query first ((k, v) # q) target =
     format_query False q (target @ ((if first then ''?'' else ''&'') @ UrlEncode k @ ''='' @ UrlEncode v))"

fun format_headers :: "header_map \<Rightarrow> string" where
  "format_headers [] = []"
| "format_headers ((k, v) # m) = (k @ '': '' @ v @ LR) @ format_headers m"

definition has_body :: "ReqFormater \<Rightarrow> bool" where
  "has_body r \<longleftrightarrow> rq_method r = MethodPUT \<or> rq_method r = MethodPOST"

definition ReqFormater_Format :: "ReqFormater \<Rightarrow> ReqFormater \<times> string" where
  "ReqFormater_Format r =
     (let target = format_query True (rq_queryStrings r) (rq_target r);
          result = rq_method r @ '' '' @ target @ '' HTTP/1.1'' @ LR;
          headers = (if rq_host r \<noteq> '''' then Map_Set ''Host'' (rq_host r) (rq_headers r) else rq_headers r);
          headers = (if has_body r then Map_Set ''Content-Length'' (to_string (length (rq_body r))) headers else headers);
          result = result @ format_headers headers @ LR;
          result = (if has_body r then result @ rq_body r else result)
      in (r\<lparr>rq_target := target, rq_headers := headers, rq_result := result\<rparr>, result))"

section \<open>The response parser\<close>

datatype http_callback = HeaderField string | HeaderValue string | Body string | MessageEnd

record RespParser =
  rp_headers :: header_map
  rp_body :: string
  tmpField :: string
  buf :: string
  rp_finished :: bool

definition RespParser_new :: RespParser where
  "RespParser_new = \<lparr>rp_headers = [], rp_body = '''', tmpField = '''', buf = '''', rp_finished = False\<rparr>"

definition RespParser_onHeaderField :: "string \<Rightarrow> RespParser \<Rightarrow> RespParser" where
  "RespParser_onHeaderField c t = t\<lparr>tmpField := c\<rparr>"

definition RespParser_onHeaderValue :: "string \<Rightarrow> RespParser \<Rightarrow> RespParser" where
  "RespParser_onHeaderValue c t = t\<lparr>rp_headers := Map_Set (tmpField t) c (rp_headers t)\<rparr>"

definition RespParser_onBody :: "string \<Rightarrow> RespParser \<Rightarrow> RespParser" where
  "RespParser_onBody c t = t\<lparr>rp_body := rp_body t @ c\<rparr>"

definition RespParser_onMessageEnd :: "RespParser \<Rightarrow> RespParser" where
  "RespParser_onMessageEnd t = t\<lparr>rp_finished := True\<rparr>"

fun http_call :: "http_callback \<Rightarrow> RespParser \<Rightarrow> RespParser" where
  "http_call (HeaderField c) = RespParser_onHeaderField c"
| "http_call (HeaderValue c) = RespParser_onHeaderValue c"
| "http_call (Body c) = RespParser_onBody c"
| "http_call MessageEnd = RespParser_onMessageEnd"

text \<open>
  \<open>execute\<close> is \<^verbatim>\<open>http_parser_execute\<close> on the new piece: the callbacks, the number of bytes it
  parsed, its error number and the description of the error.  The results are the error message and,
  if there is none, \<^verbatim>\<open>finished\<close>.
\<close>

definition RespParser_Feed ::
    "(string \<Rightarrow> http_callback list \<times> nat \<times> int) \<Rightarrow> (int \<Rightarrow> string) \<Rightarrow> string \<Rightarrow> RespParser \<Rightarrow>
     RespParser \<times> errmsg \<times> bool" where
  "RespParser_Feed execute describe str t =
     (let t = t\<lparr>buf := buf t @ str\<rparr>;
          (calls, nparsed, http_errno) = execute str;
          t = fold http_call calls t
      in if http_errno \<noteq> 0 then (t, ''RespParser Feed failed: '' @ describe http_errno, False)
         else if nparsed \<noteq> length str then (t, ''RespParser Feed failed: unknown'', False)
         else (t, '''', rp_finished t))"

lemmas Http_defs [model_defs] =
  Map_Set_def Map_Get_def RespParser_onHeaderField_def RespParser_onHeaderValue_def RespParser_onBody_def
  RespParser_onMessageEnd_def

section \<open>The query string\<close>

definition query_pair :: "string \<times> string \<Rightarrow> string" where
  "query_pair p = UrlEncode (fst p) @ ''='' @ UrlEncode (snd p)"

lemma format_query_False: "format_query False q t = t @ concat (map (\<lambda>p. ''&'' @ query_pair p) q)"
  by (induction "False" q t rule: format_query.induct) (simp_all add: query_pair_def)

lemma join_cons: "join_str c (t # ts) = t @ concat (map (\<lambda>u. c # u) ts)"
  by (induction ts arbitrary: t) simp_all

lemma format_query_eq:
  "format_query True q t = (if q = [] then t else t @ ''?'' @ join_str (CHR ''&'') (map query_pair q))"
  by (cases q) (auto simp: format_query_False join_cons query_pair_def comp_def)

text \<open>A reader of query strings: split at the ampersands, each piece at its first equals sign.\<close>

definition parse_pair :: "string \<Rightarrow> string \<times> string" where
  "parse_pair s = (UrlDecode (takeWhile (\<lambda>c. c \<noteq> CHR ''='') s), UrlDecode (tl (dropWhile (\<lambda>c. c \<noteq> CHR ''='') s)))"

definition parse_query :: "string \<Rightarrow> (string \<times> string) list" where
  "parse_query s = map parse_pair (split_str s (CHR ''&''))"

lemma parse_query_pair: "parse_pair (query_pair p) = (c_str (fst p), c_str (snd p))"
proof -
  have "CHR ''='' \<notin> set (UrlEncode (fst p))" by (rule UrlEncode_delims) simp
  then have "takeWhile (\<lambda>c. c \<noteq> CHR ''='') (query_pair p) = UrlEncode (fst p)"
    "dropWhile (\<lambda>c. c \<noteq> CHR ''='') (query_pair p) = ''='' @ UrlEncode (snd p)"
    unfolding query_pair_def by (induction "UrlEncode (fst p)") (auto simp: takeWhile_append dropWhile_append)
  then show ?thesis
    by (simp add: parse_pair_def UrlDecode_def UrlEncode_eq url_decode_encode)
       (simp add: c_str_def takeWhile_idem)
qed

lemma query_pair_no_amp: "CHR ''&'' \<notin> set (query_pair p)"
  using UrlEncode_delims [of "CHR ''&''"] by (simp add: query_pair_def)

lemma parse_join: "parse_query (join_str (CHR ''&'') (map query_pair q)) = map (\<lambda>p. (c_str (fst p), c_str (snd p))) q"
proof -
  have "split_str (join_str (CHR ''&'') (map query_pair q)) (CHR ''&'') = map query_pair q"
    by (rule split_join) (auto simp: query_pair_no_amp last_map, simp add: query_pair_def)
  then show ?thesis by (simp add: parse_query_def parse_query_pair comp_def)
qed

section \<open>What a response adds up to\<close>

text \<open>The callbacks of a message whose headers arrive whole and whose body arrives in pieces.\<close>

definition message_calls :: "(string \<times> string) list \<Rightarrow> string list \<Rightarrow> http_callback list" where
  "message_calls hs bs = concat (map (\<lambda>(k, v). [HeaderField k, HeaderValue v]) hs) @ map Body bs @ [MessageEnd]"

text \<open>Feeding pieces one after the other: the first error stops, the last result counts.\<close>

fun RespParser_feeds ::
    "((string \<Rightarrow> http_callback list \<times> nat \<times> int) \<times> string) list \<Rightarrow> (int \<Rightarrow> string) \<Rightarrow> RespParser \<Rightarrow>
     RespParser \<times> errmsg \<times> bool" where
  "RespParser_feeds [] describe t = (t, '''', rp_finished t)"
| "RespParser_feeds ((ex, str) # ps) describe t =
     (case RespParser_Feed ex describe str t of
        (t, errMsg, fin) \<Rightarrow> if errMsg \<noteq> '''' then (t, errMsg, fin) else RespParser_feeds ps describe t)"

lemma RespParser_feeds_fold:
  assumes "\<forall>(ex, str)\<in>set ps. \<exists>cs. ex str = (cs, length str, 0)"
  shows "\<exists>t'. RespParser_feeds ps describe t = (t', '''', rp_finished t') \<and>
    t' = (fold http_call (concat (map (\<lambda>(ex, str). fst (ex str)) ps)) t)\<lparr>buf := buf t @ concat (map snd ps)\<rparr>"
proof -
  have buf_call: "http_call x (t\<lparr>buf := b\<rparr>) = (http_call x t)\<lparr>buf := b\<rparr>" for x b and t :: RespParser
    by (cases x) (simp_all add: Http_defs)
  have buf_calls: "fold http_call xs (t\<lparr>buf := b\<rparr>) = (fold http_call xs t)\<lparr>buf := b\<rparr>" for xs b and t :: RespParser
    by (induction xs arbitrary: t) (simp_all add: buf_call)
  have buf_same: "buf (fold http_call xs t) = buf t" for xs and t :: RespParser
  proof (induction xs arbitrary: t)
    case (Cons x xs)
    have "buf (http_call x t) = buf t" by (cases x) (simp_all add: Http_defs)
    with Cons show ?case by simp
  qed simp
  show ?thesis using assms
  proof (induction ps arbitrary: t)
    case Nil
    show ?case by simp
  next
    case (Cons p ps)
    obtain ex str where p: "p = (ex, str)" by (cases p)
    with Cons.prems obtain cs where cs: "ex str = (cs, length str, 0)" by auto
    then have "RespParser_Feed ex describe str t =
        (let t' = fold http_call cs (t\<lparr>buf := buf t @ str\<rparr>) in (t', '''', rp_finished t'))"
      by (simp add: RespParser_Feed_def Let_def)
    with Cons p cs show ?case by (simp add: Let_def buf_calls buf_same)
  qed
qed

lemma fold_headers:
  "fold http_call (concat (map (\<lambda>(k, v). [HeaderField k, HeaderValue v]) hs)) t =
     t\<lparr>rp_headers := fold (\<lambda>(k, v). map_insert k v) hs (rp_headers t),
       tmpField := (if hs = [] then tmpField t else fst (last hs))\<rparr>"
  by (induction hs arbitrary: t) (auto simp: Http_defs)

lemma fold_bodies: "fold http_call (map Body bs) t = t\<lparr>rp_body := rp_body t @ concat bs\<rparr>"
  by (induction bs arbitrary: t) (simp_all add: Http_defs)

text \<open>The headers after formatting.\<close>

lemma Format_headers:
  assumes "omap_ok (rq_headers r)"
  shows "map_find k (rq_headers (fst (ReqFormater_Format r))) =
    (case map_find k (rq_headers r) of
       Some v \<Rightarrow> Some v
     | None \<Rightarrow> if k = ''Host'' \<and> rq_host r \<noteq> '''' then Some (rq_host r)
               else if k = ''Content-Length'' \<and> has_body r then Some (to_string (length (rq_body r)))
               else None)"
  using assms om.fold_ins_find [of "rq_headers r" k
      "(if rq_host r \<noteq> '''' then [(''Host'', rq_host r)] else []) @
       (if has_body r then [(''Content-Length'', to_string (length (rq_body r)))] else [])"]
  by (auto simp: ReqFormater_Format_def Let_def Map_Set_def split: option.splits)

section \<open>Properties\<close>

text \<open>
  C39.  The query string of a formatted request says exactly what was set: cutting the request line at
  the question mark and reading the pairs back gives the query map, in key order, each key and value up
  to its first zero byte; without query strings the target is unchanged.
\<close>

theorem ReqFormater_query_roundtrip:
  "\<exists>rest. snd (ReqFormater_Format r) = rq_method r @ '' '' @ rq_target r @
       (if rq_queryStrings r = [] then [] else ''?'' @ join_str (CHR ''&'') (map query_pair (rq_queryStrings r))) @
       '' HTTP/1.1'' @ LR @ rest \<and>
     parse_query (join_str (CHR ''&'') (map query_pair (rq_queryStrings r))) =
       map (\<lambda>p. (c_str (fst p), c_str (snd p))) (rq_queryStrings r)"
  by (auto simp: ReqFormater_Format_def Let_def format_query_eq parse_join)

text \<open>
  The headers of a formatted request are the ones the user set, plus the host and, for PUT and
  POST, the length of the body in decimal; a header the user set wins over both.
\<close>

theorem ReqFormater_headers:
  assumes "omap_ok (rq_headers r)"
  shows "map_find k (rq_headers (fst (ReqFormater_Format r))) =
    (case map_find k (rq_headers r) of
       Some v \<Rightarrow> Some v
     | None \<Rightarrow> if k = ''Host'' \<and> rq_host r \<noteq> '''' then Some (rq_host r)
               else if k = ''Content-Length'' \<and> has_body r then Some (to_string (length (rq_body r)))
               else None)"
  using assms by (rule Format_headers)

theorem ReqFormater_headers_witness:
  "map_find ''Content-Length''
     (rq_headers (fst (ReqFormater_Format (ReqFormater_SetHost ''h'' (ReqFormater_new ''PUT'' ''/v2'' ''abc'')))))
   = Some ''3''"
proof -
  let ?r = "ReqFormater_SetHost ''h'' (ReqFormater_new ''PUT'' ''/v2'' ''abc'')"
  have "omap_ok (rq_headers ?r)" by (simp add: ReqFormater_SetHost_def ReqFormater_new_def)
  from ReqFormater_headers [OF this, of "''Content-Length''"] show ?thesis
    by (simp add: ReqFormater_SetHost_def ReqFormater_new_def has_body_def MethodPUT_def MethodPOST_def to_string.simps
        char_of_def bit_0)
qed

text \<open>
  A response is assembled whatever way it is cut into pieces: if the parser library accepts every
  piece and its callbacks, over all pieces, are those of a message with whole headers, then feeding
  reports no error and finishes, the body is the concatenation of its pieces, and the header map holds
  the first value of every field.
\<close>

theorem RespParser_assembles:
  assumes "\<forall>(ex, str)\<in>set ps. \<exists>cs. ex str = (cs, length str, 0)"
    and "concat (map (\<lambda>(ex, str). fst (ex str)) ps) = message_calls hs bs"
  shows "\<exists>t. RespParser_feeds ps describe RespParser_new = (t, '''', True) \<and> rp_body t = concat bs \<and>
    buf t = concat (map snd ps) \<and> (\<forall>k. Map_Get k (rp_headers t) = map_of hs k)"
proof -
  from RespParser_feeds_fold [OF assms(1), of describe RespParser_new] assms(2) obtain t where
    t: "RespParser_feeds ps describe RespParser_new = (t, '''', rp_finished t)"
    "t = (fold http_call (message_calls hs bs) RespParser_new)\<lparr>buf := concat (map snd ps)\<rparr>"
    by (auto simp: RespParser_new_def)
  have "rp_finished t" "rp_body t = concat bs" "rp_headers t = fold (\<lambda>(k, v). map_insert k v) hs []"
    "buf t = concat (map snd ps)"
    unfolding t(2) message_calls_def by (simp_all add: fold_headers fold_bodies Http_defs RespParser_new_def)
  moreover have "map_find k (fold (\<lambda>(k, v). map_insert k v) hs []) = map_of hs k" for k
    using om.fold_ins_find [of "[]" k hs] by simp
  ultimately show ?thesis using t(1) by (simp add: Map_Get_def)
qed

theorem RespParser_assembles_witness:
  "\<exists>t. RespParser_feeds [(\<lambda>s. ([HeaderField ''A'', HeaderValue ''1'', HeaderField ''A'', HeaderValue ''2'', Body ''xy''], length s, 0), ''p1''),
       (\<lambda>s. ([Body ''z'', MessageEnd], length s, 0), ''p2'')] (\<lambda>_. '''') RespParser_new = (t, '''', True) \<and>
     rp_body t = ''xyz'' \<and> Map_Get ''A'' (rp_headers t) = Some ''1''"
proof -
  let ?ps = "[(\<lambda>s. ([HeaderField ''A'', HeaderValue ''1'', HeaderField ''A'', HeaderValue ''2'', Body ''xy''], length s, 0 :: int), ''p1''),
       (\<lambda>s. ([Body ''z'', MessageEnd], length s, 0), ''p2'')]"
  have "\<forall>(ex, str)\<in>set ?ps. \<exists>cs. ex str = (cs, length str, 0)"
    "concat (map (\<lambda>(ex, str). fst (ex str)) ?ps) = message_calls [(''A'', ''1''), (''A'', ''2'')] [''xy'', ''z'']"
    by (simp_all add: message_calls_def)
  from RespParser_assembles [OF this, of "\<lambda>_. ''''"] show ?thesis by auto
qed

text \<open>
  A header field that the library reports in two pieces loses its first piece: the value is stored
  under the second piece alone.
\<close>

theorem RespParser_split_field:
  "RespParser_Feed (\<lambda>s. ([HeaderField a, HeaderField b, HeaderValue v], length s, 0)) describe str RespParser_new =
     (RespParser_new\<lparr>tmpField := b, rp_headers := [(b, v)], buf := str\<rparr>, '''', False)"
  by (simp add: RespParser_Feed_def RespParser_new_def Http_defs)

text \<open>
  Formatting a request twice repeats its query string in the target.
\<close>

theorem ReqFormater_Format_twice:
  assumes "rq_queryStrings r \<noteq> []"
  shows "rq_target (fst (ReqFormater_Format (fst (ReqFormater_Format r)))) =
    (let q = ''?'' @ join_str (CHR ''&'') (map query_pair (rq_queryStrings r)) in rq_target r @ q @ q)"
  using assms by (simp add: ReqFormater_Format_def Let_def format_query_eq)

end
