(* ===== verification/Base_Client.thy ===== *)
theory Base_Client
  imports Http_Message Byte_Buffer
begin

text \<open>
  The request clients of \<^verbatim>\<open>src/small_client\<close>: \<^verbatim>\<open>base_client.h\<close>, the protocol of
  one request over a pooled connection (write, read until the answer is complete, time out), and its two
  instances \<^verbatim>\<open>http_client.h\<close> and \<^verbatim>\<open>redis_client.h\<close>, which fill the write buffer
  and take the answer from the read buffer.
\<close>

section \<open>The base client\<close>

text \<open>
  \<open>bc_timer\<close> tells whether there is a timer object, \<open>bc_armed\<close> whether it can still run out.  \<open>bc_calls\<close> are the calls the client
  has made, in order: the user's handler, the pool's \<^verbatim>\<open>Insert\<close>, the requests to the connection
  and to the timer.
\<close>

datatype base_call =
    OnDone errmsg
  | PoolInsert errmsg
  | CallAsyncWrite
  | CallAsyncReadAny
  | StartTimer nat
  | CancelTimer

record base_client =
  bc_timeoutMs :: nat
  bc_timer :: bool
  bc_armed :: bool
  bc_finished :: bool
  bc_calls :: "base_call list"

definition BaseClient_new :: base_client where
  "BaseClient_new = \<lparr>bc_timeoutMs = 0, bc_timer = False, bc_armed = False, bc_finished = False, bc_calls = []\<rparr>"

definition BaseClient_SetTimeoutMs :: "nat \<Rightarrow> base_client \<Rightarrow> base_client" where
  "BaseClient_SetTimeoutMs ms c = c\<lparr>bc_timeoutMs := ms\<rparr>"

definition call :: "base_call \<Rightarrow> base_client \<Rightarrow> base_client" where
  "call x c = c\<lparr>bc_calls := bc_calls c @ [x]\<rparr>"

definition BaseClient_Finish :: "errmsg \<Rightarrow> base_client \<Rightarrow> base_client" where
  "BaseClient_Finish m c =
     (if bc_finished c then c
      else call (PoolInsert m) (call (OnDone m) (c\<lparr>bc_finished := True\<rparr>)))"

text \<open>
  \<open>pool\<close> and \<open>client\<close>: whether the channel has a pool and the pool a client; \<open>pushErr\<close>: what
  \<^verbatim>\<open>ReqPush\<close> reports.
\<close>

definition BaseClient_doReq :: "bool \<Rightarrow> bool \<Rightarrow> errmsg \<Rightarrow> base_client \<Rightarrow> base_client" where
  "BaseClient_doReq pool client pushErr c =
     (if \<not> pool then call (OnDone ''clientPool nullptr'') c
      else if \<not> client then call (OnDone ''client nullptr'') c
      else if pushErr \<noteq> '''' then BaseClient_Finish pushErr c
      else
        let c = (if bc_timeoutMs c \<noteq> 0 then call (StartTimer (bc_timeoutMs c)) (c\<lparr>bc_timer := True, bc_armed := True\<rparr>) else c)
        in call CallAsyncWrite c)"

text \<open>The closures \<^verbatim>\<open>doReq\<close> hands to the timer and to the connection.\<close>

definition BaseClient_onTimer :: "errmsg \<Rightarrow> base_client \<Rightarrow> base_client" where
  "BaseClient_onTimer m c = (if m \<noteq> '''' then c else BaseClient_Finish ''timeout'' c)"

definition BaseClient_onWrite :: "errmsg \<Rightarrow> base_client \<Rightarrow> base_client" where
  "BaseClient_onWrite m c = (if m \<noteq> '''' then BaseClient_Finish m c else call CallAsyncReadAny c)"

text \<open>\<open>popErr\<close> and \<open>finish\<close> are what \<^verbatim>\<open>RespPop\<close> reports on the bytes read.\<close>

definition BaseClient_onRead :: "errmsg \<Rightarrow> errmsg \<Rightarrow> bool \<Rightarrow> base_client \<Rightarrow> base_client" where
  "BaseClient_onRead m popErr finish c =
     (let c = (if bc_timer c then call CancelTimer (c\<lparr>bc_armed := False\<rparr>) else c)
      in if m \<noteq> '''' then BaseClient_Finish m c
         else if popErr \<noteq> '''' then BaseClient_Finish popErr c
         else if finish then BaseClient_Finish '''' c
         else c)"

text \<open>What can happen after \<^verbatim>\<open>doReq\<close>: a timer that was cancelled does not run out.\<close>

datatype base_event = Written errmsg | Received errmsg errmsg bool | TimeOut errmsg

fun base_step :: "base_event \<Rightarrow> base_client \<Rightarrow> base_client" where
  "base_step (Written m) c = BaseClient_onWrite m c"
| "base_step (Received m e f) c = BaseClient_onRead m e f c"
| "base_step (TimeOut m) c = (if \<not> bc_armed c then c else BaseClient_onTimer m (c\<lparr>bc_armed := False\<rparr>))"

text \<open>The part of the calls the user and the pool see.\<close>

definition answers :: "base_client \<Rightarrow> base_call list" where
  "answers c = filter (\<lambda>x. (\<exists>m. x = OnDone m) \<or> (\<exists>m. x = PoolInsert m)) (bc_calls c)"

text \<open>
  The specification: the first event that decides the request.  \<open>armed\<close> is whether a time-out can
  still come.
\<close>

fun outcome :: "bool \<Rightarrow> base_event list \<Rightarrow> errmsg option" where
  "outcome armed [] = None"
| "outcome armed (Written m # es) = (if m \<noteq> '''' then Some m else outcome armed es)"
| "outcome armed (Received m e f # es) =
     (if m \<noteq> '''' then Some m else if e \<noteq> '''' then Some e else if f then Some '''' else outcome False es)"
| "outcome armed (TimeOut m # es) =
     (if armed \<and> m = '''' then Some ''timeout'' else outcome False es)"

section \<open>The HTTP client\<close>

record HttpClient =
  hc_host :: string
  formarter :: ReqFormater
  parser :: RespParser

definition HttpClient_new :: "string \<Rightarrow> string \<Rightarrow> string \<Rightarrow> HttpClient" where
  "HttpClient_new method target body =
     \<lparr>hc_host = '''', formarter = ReqFormater_new method target body, parser = RespParser_new\<rparr>"

definition HttpClient_SetHeaders :: "header_map \<Rightarrow> HttpClient \<Rightarrow> HttpClient" where
  "HttpClient_SetHeaders m c = c\<lparr>formarter := ReqFormater_SetHeader m (formarter c)\<rparr>"

definition HttpClient_SetQueryString :: "header_map \<Rightarrow> HttpClient \<Rightarrow> HttpClient" where
  "HttpClient_SetQueryString m c = c\<lparr>formarter := ReqFormater_SetQueryString m (formarter c)\<rparr>"

definition HttpClient_SetHost :: "string \<Rightarrow> HttpClient \<Rightarrow> HttpClient" where
  "HttpClient_SetHost host c = c\<lparr>hc_host := host\<rparr>"

definition HttpClient_GetRespStr :: "HttpClient \<Rightarrow> string" where
  "HttpClient_GetRespStr c = rp_body (parser c)"

definition HttpClient_GetRespHeader :: "HttpClient \<Rightarrow> header_map" where
  "HttpClient_GetRespHeader c = rp_headers (parser c)"

definition HttpClient_ReqPush :: "string \<Rightarrow> HttpClient \<Rightarrow> Buffer \<Rightarrow> (HttpClient \<times> Buffer) option" where
  "HttpClient_ReqPush addr c b =
     (let c = (if hc_host c = '''' then c\<lparr>hc_host := addr\<rparr> else c);
          (fm, req) = ReqFormater_Format (ReqFormater_SetHost (hc_host c) (formarter c))
      in map_option (\<lambda>b. (c\<lparr>formarter := fm\<rparr>, b)) (Buffer_Push req b))"

text \<open>
  The loop of \<^verbatim>\<open>RespPop\<close>.  \<open>execute\<close> is the parser library, given the input it had before and
  the new piece.
\<close>

partial_function (option) HttpClient_pop_loop ::
    "(string \<Rightarrow> string \<Rightarrow> http_callback list \<times> nat \<times> int) \<Rightarrow> (int \<Rightarrow> string) \<Rightarrow> RespParser \<Rightarrow> bool \<Rightarrow> Buffer \<Rightarrow>
     (RespParser \<times> Buffer \<times> errmsg \<times> bool) option" where
  "HttpClient_pop_loop execute describe t finish b =
     (case Buffer_PopHead 1024 b of
        None \<Rightarrow> None
      | Some (b, tmp, len) \<Rightarrow>
          if len = 0 then Some (t, b, '''', finish)
          else
            (case RespParser_Feed (execute (buf t)) describe tmp t of
               (t, errMsg, finish) \<Rightarrow>
                 if errMsg \<noteq> '''' then Some (t, b, errMsg @ '' with buffer: '' @ tmp, finish)
                 else HttpClient_pop_loop execute describe t finish b))"

definition HttpClient_RespPop ::
    "(string \<Rightarrow> string \<Rightarrow> http_callback list \<times> nat \<times> int) \<Rightarrow> (int \<Rightarrow> string) \<Rightarrow> HttpClient \<Rightarrow> Buffer \<Rightarrow>
     (HttpClient \<times> Buffer \<times> errmsg \<times> bool) option" where
  "HttpClient_RespPop execute describe c b =
     map_option (\<lambda>(t, b, e, f). (c\<lparr>parser := t\<rparr>, b, e, f))
       (HttpClient_pop_loop execute describe (parser c) False b)"

section \<open>The Redis client\<close>

text \<open>
  The reply of the hiredis library.  Its \<^verbatim>\<open>str\<close> is a string for strings, status and error
  replies, and a null pointer for the others; \<open>RArray\<close> holds the elements' replies.
\<close>

datatype redis_reply =
  RString string | RArray "redis_reply list" | RInteger int | RNil | RStatus string | RError string

fun reply_str :: "redis_reply \<Rightarrow> string option" where
  "reply_str (RString s) = Some s"
| "reply_str (RStatus s) = Some s"
| "reply_str (RError s) = Some s"
| "reply_str _ = None"

datatype redis_type = TUnset | TString | TArray | TInteger | TNil | TStatus | TError

fun reply_type :: "redis_reply \<Rightarrow> redis_type" where
  "reply_type (RString s) = TString"
| "reply_type (RArray rs) = TArray"
| "reply_type (RInteger i) = TInteger"
| "reply_type RNil = TNil"
| "reply_type (RStatus s) = TStatus"
| "reply_type (RError s) = TError"

record RedisClient =
  reader_in :: string
  reply_value :: string
  arrayValues :: "string list"
  respType :: redis_type

definition RedisClient_new :: RedisClient where
  "RedisClient_new = \<lparr>reader_in = '''', reply_value = '''', arrayValues = [], respType = TUnset\<rparr>"

text \<open>\<open>formatted\<close> is the answer of \<^verbatim>\<open>redisFormatCommand\<close>: a negative code or the bytes.\<close>

definition RedisClient_ReqPush :: "int + string \<Rightarrow> (int \<Rightarrow> string) \<Rightarrow> Buffer \<Rightarrow> (Buffer \<times> errmsg) option" where
  "RedisClient_ReqPush formatted showInt b =
     (case formatted of
        Inl code \<Rightarrow> Some (b, ''redisFormatCommand error! len = '' @ showInt code)
      | Inr cmd \<Rightarrow> map_option (\<lambda>b. (b, '''')) (Buffer_Push cmd b))"

partial_function (option) RedisClient_feed_loop :: "RedisClient \<Rightarrow> Buffer \<Rightarrow> (RedisClient \<times> Buffer) option" where
  "RedisClient_feed_loop c b =
     (case Buffer_PopHead 1024 b of
        None \<Rightarrow> None
      | Some (b, tmp, len) \<Rightarrow>
          if len = 0 then Some (c, b)
          else RedisClient_feed_loop (c\<lparr>reader_in := reader_in c @ tmp\<rparr>) b)"

text \<open>
  The elements' strings are copied up to their first zero byte; a null \<^verbatim>\<open>str\<close> is \<open>None\<close>, a
  crash.
\<close>

definition RedisClient_element :: "redis_reply \<Rightarrow> string list \<Rightarrow> string list option" where
  "RedisClient_element r vs = map_option (\<lambda>s. vs @ [c_str s]) (reply_str r)"

fun RedisClient_elements :: "redis_reply list \<Rightarrow> string list \<Rightarrow> string list option" where
  "RedisClient_elements [] vs = Some vs"
| "RedisClient_elements (r # rs) vs = Option.bind (RedisClient_element r vs) (RedisClient_elements rs)"

text \<open>
  \<open>getReply\<close> is \<^verbatim>\<open>redisReaderGetReply\<close> on all the input so far: an error code, or the reply if
  it is complete.  \<open>finish\<close> is the caller's variable, which \<^verbatim>\<open>doReq\<close> leaves uninitialised.
\<close>

definition RedisClient_RespPop ::
    "(string \<Rightarrow> int + redis_reply option) \<Rightarrow> (int \<Rightarrow> string) \<Rightarrow> bool \<Rightarrow> RedisClient \<Rightarrow> Buffer \<Rightarrow>
     (RedisClient \<times> Buffer \<times> errmsg \<times> bool) option" where
  "RedisClient_RespPop getReply showInt finish c b =
     (case RedisClient_feed_loop c b of
        None \<Rightarrow> None
      | Some (c, b) \<Rightarrow>
          (case getReply (reader_in c) of
             Inl ret \<Rightarrow> Some (c, b, ''redisReaderGetReply error: '' @ showInt ret, True)
           | Inr None \<Rightarrow> Some (c, b, '''', finish)
           | Inr (Some r) \<Rightarrow>
               if reply_type r = TError then Some (c, b, ''redisReply return REDIS_REPLY_ERROR'', True)
               else
                 let c = c\<lparr>respType := reply_type r\<rparr> in
                 if reply_type r = TNil then Some (c, b, '''', True)
                 else
                   (case r of
                      RArray rs \<Rightarrow> map_option (\<lambda>vs. (c\<lparr>arrayValues := vs\<rparr>, b, '''', True)) (RedisClient_elements rs (arrayValues c))
                    | _ \<Rightarrow> Some (c\<lparr>reply_value := reply_value c @ (case reply_str r of None \<Rightarrow> '''' | Some s \<Rightarrow> s)\<rparr>, b, '''', True))))"

text \<open>
  The three \<^verbatim>\<open>GetResp\<close>: error, \<^verbatim>\<open>ok\<close>, result.  What \<^verbatim>\<open>stoll\<close> throws is
  caught by value as a plain \<^verbatim>\<open>std::exception\<close>.
\<close>

definition RedisClient_GetResp_int :: "RedisClient \<Rightarrow> errmsg \<times> bool \<times> int option" where
  "RedisClient_GetResp_int c =
     (if respType c = TNil then ('''', False, None)
      else if respType c \<noteq> TInteger \<and> respType c \<noteq> TString then (''invalid resp type'', False, None)
      else case stoll (reply_value c) of
             Some v \<Rightarrow> ('''', True, Some v)
           | None \<Rightarrow> (''std::exception'', False, None))"

definition RedisClient_GetResp_string :: "RedisClient \<Rightarrow> errmsg \<times> bool \<times> string option" where
  "RedisClient_GetResp_string c =
     (if respType c = TNil then ('''', False, None)
      else if respType c \<noteq> TString then (''invalid resp type'', False, None)
      else ('''', True, Some (reply_value c)))"

definition RedisClient_GetResp_array :: "RedisClient \<Rightarrow> errmsg \<times> bool \<times> string list option" where
  "RedisClient_GetResp_array c =
     (if respType c = TNil then ('''', False, None)
      else if respType c \<noteq> TArray then (''invalid resp type'', False, None)
      else ('''', True, Some (arrayValues c)))"

section \<open>Lemmas\<close>

lemma answers_call [simp]:
  "answers (call (OnDone m) c) = answers c @ [OnDone m]"
  "answers (call (PoolInsert m) c) = answers c @ [PoolInsert m]"
  "answers (call CallAsyncWrite c) = answers c"
  "answers (call CallAsyncReadAny c) = answers c"
  "answers (call (StartTimer n) c) = answers c"
  "answers (call CancelTimer c) = answers c"
  by (simp_all add: answers_def call_def)

lemma call_fields [simp]:
  "bc_finished (call x c) = bc_finished c" "bc_armed (call x c) = bc_armed c" "bc_timer (call x c) = bc_timer c"
  "bc_timeoutMs (call x c) = bc_timeoutMs c"
  by (simp_all add: call_def)

lemma answers_fields [simp]:
  "answers (c\<lparr>bc_armed := a\<rparr>) = answers c" "answers (c\<lparr>bc_timer := t\<rparr>) = answers c"
  "answers (c\<lparr>bc_finished := f\<rparr>) = answers c"
  by (simp_all add: answers_def)

lemma Finish_answers:
  "answers (BaseClient_Finish m c) = answers c @ (if bc_finished c then [] else [OnDone m, PoolInsert m])"
  "bc_finished (BaseClient_Finish m c)"
  by (simp_all add: BaseClient_Finish_def)

lemmas base_defs = BaseClient_onWrite_def BaseClient_onRead_def BaseClient_onTimer_def

lemma base_step_finished:
  "bc_finished c \<Longrightarrow> bc_finished (base_step e c) \<and> answers (base_step e c) = answers c"
  by (cases e) (auto simp: base_defs Let_def Finish_answers)

lemma base_steps_finished:
  "bc_finished c \<Longrightarrow> answers (fold base_step es c) = answers c"
  by (induction es arbitrary: c) (simp_all add: base_step_finished)

text \<open>A timer that is not there cannot run out.\<close>

definition armed_ok :: "base_client \<Rightarrow> bool" where
  "armed_ok c \<longleftrightarrow> (bc_armed c \<longrightarrow> bc_timer c)"

lemma base_steps_outcome:
  assumes "\<not> bc_finished c" "armed_ok c"
  shows "answers (fold base_step es c) = answers c @
    (case outcome (bc_armed c) es of None \<Rightarrow> [] | Some m \<Rightarrow> [OnDone m, PoolInsert m])"
  using assms
proof (induction es arbitrary: c)
  case (Cons e es)
  have fin: "answers (fold base_step es (BaseClient_Finish m c')) = answers c' @ [OnDone m, PoolInsert m]"
    if "\<not> bc_finished c'" for m c'
    using that by (simp add: base_steps_finished Finish_answers)
  show ?case
  proof (cases e)
    case (Written m)
    with Cons.prems Cons.IH [of "call CallAsyncReadAny c"] fin [of c m] show ?thesis
      by (cases "m = ''''") (simp_all add: base_defs armed_ok_def)
  next
    case (Received m p f)
    define d where "d = (if bc_timer c then call CancelTimer (c\<lparr>bc_armed := False\<rparr>) else c)"
    have d: "\<not> bc_finished d" "\<not> bc_armed d" "armed_ok d" "answers d = answers c"
      using Cons.prems by (auto simp: armed_ok_def d_def)
    have step: "BaseClient_onRead m p f c =
      (if m \<noteq> '''' then BaseClient_Finish m d else if p \<noteq> '''' then BaseClient_Finish p d
       else if f then BaseClient_Finish '''' d else d)" for m p f
      by (simp only: BaseClient_onRead_def Let_def d_def)
    show ?thesis
      using Cons.IH [OF d(1,3)] fin [OF d(1)] d(2,4)
      by (cases "m = ''''"; cases "p = ''''"; cases f) (simp_all add: step Received)
  next
    case (TimeOut m)
    with Cons.prems Cons.IH [of c] Cons.IH [of "c\<lparr>bc_armed := False\<rparr>"] fin [of "c\<lparr>bc_armed := False\<rparr>"] show ?thesis
      by (cases "bc_armed c"; cases "m = ''''") (simp_all add: base_defs armed_ok_def)
  qed
qed simp

lemma doReq_answers:
  "answers (fold base_step es (BaseClient_doReq True True pushErr (BaseClient_SetTimeoutMs ms BaseClient_new))) =
     (case (if pushErr \<noteq> '''' then Some pushErr else outcome (ms \<noteq> 0) es) of
        None \<Rightarrow> []
      | Some m \<Rightarrow> [OnDone m, PoolInsert m])"
proof -
  let ?c = "BaseClient_doReq True True pushErr (BaseClient_SetTimeoutMs ms BaseClient_new)"
  have n: "answers BaseClient_new = []" by (simp add: answers_def BaseClient_new_def)
  have s: "answers (BaseClient_SetTimeoutMs ms c) = answers c" for c
    by (simp add: BaseClient_SetTimeoutMs_def answers_def)
  show ?thesis
  proof (cases "pushErr = ''''")
    case True
    then have "\<not> bc_finished ?c" "armed_ok ?c" "bc_armed ?c = (ms \<noteq> 0)" "answers ?c = []"
      by (simp_all add: BaseClient_doReq_def BaseClient_SetTimeoutMs_def BaseClient_new_def armed_ok_def Let_def answers_def call_def)
    with base_steps_outcome [of ?c es] True show ?thesis by simp
  next
    case False
    then have "?c = BaseClient_Finish pushErr (BaseClient_SetTimeoutMs ms BaseClient_new)"
      by (simp add: BaseClient_doReq_def)
    then show ?thesis using False
      by (simp add: base_steps_finished Finish_answers s n) (simp add: BaseClient_SetTimeoutMs_def BaseClient_new_def)
  qed
qed

lemma pop_1024:
  assumes "Buffer_ok b" "1024 \<le> Buffer_room b"
  obtains b' n where "Buffer_PopHead 1024 b = Some (b', take 1024 (Buffer_data b), n)"
    "n = 0 \<longleftrightarrow> Buffer_data b = []" "Buffer_ok b'" "1024 \<le> Buffer_room b'"
    "Buffer_data b' = drop 1024 (Buffer_data b)"
proof -
  from Buffer_PopHead_ok [OF assms(1), of 1024] assms(2) obtain b' n where
    p: "Buffer_PopHead 1024 b = Some (b', take 1024 (Buffer_data b), n)"
    "unat n = min 1024 (length (Buffer_data b))" "Buffer_ok b'"
    "Buffer_data b' = drop 1024 (Buffer_data b)" "Buffer_room b \<le> Buffer_room b'"
    by auto
  have "n = 0 \<longleftrightarrow> unat n = 0" by (simp add: unat_eq_0)
  also have "\<dots> \<longleftrightarrow> Buffer_data b = []" using p(2) by (auto simp: min_def)
  finally show thesis using that p assms(2) by simp
qed

lemma pop_loop_drains:
  assumes "\<forall>before str. \<exists>cs. execute before str = (cs, length str, 0)" "Buffer_ok b" "1024 \<le> Buffer_room b"
  shows "\<exists>t' b'. HttpClient_pop_loop execute describe t finish b =
      Some (t', b', '''', if Buffer_data b = [] then finish else rp_finished t') \<and>
    Buffer_data b' = [] \<and> Buffer_ok b' \<and> buf t' = buf t @ Buffer_data b"
  using assms(2,3)
proof (induction "length (Buffer_data b)" arbitrary: b t finish rule: less_induct)
  case less
  from pop_1024 [OF less.prems] obtain b1 n where
    p: "Buffer_PopHead 1024 b = Some (b1, take 1024 (Buffer_data b), n)" "n = 0 \<longleftrightarrow> Buffer_data b = []"
    "Buffer_ok b1" "1024 \<le> Buffer_room b1" "Buffer_data b1 = drop 1024 (Buffer_data b)" .
  show ?case
  proof (cases "Buffer_data b = []")
    case True
    with p show ?thesis by (subst HttpClient_pop_loop.simps) simp
  next
    case False
    let ?tmp = "take 1024 (Buffer_data b)"
    obtain t1 where t1: "RespParser_Feed (execute (buf t)) describe ?tmp t = (t1, '''', rp_finished t1)"
      "buf t1 = buf t @ ?tmp"
    proof -
      from assms(1) obtain cs where cs: "execute (buf t) ?tmp = (cs, length ?tmp, 0)" by blast
      have "buf (fold http_call xs t) = buf t" for xs and t :: RespParser
      proof (induction xs arbitrary: t)
        case (Cons x xs)
        then show ?case by (cases x) (simp_all add: Http_defs)
      qed simp
      with cs that show thesis by (auto simp: RespParser_Feed_def Let_def)
    qed
    have "length (Buffer_data b1) < length (Buffer_data b)" using False p(5) by simp
    from less.hyps [OF this p(3,4), of t1 "rp_finished t1"] obtain t2 b2 where
      2: "HttpClient_pop_loop execute describe t1 (rp_finished t1) b1 =
        Some (t2, b2, '''', if Buffer_data b1 = [] then rp_finished t1 else rp_finished t2)"
      "Buffer_data b2 = []" "Buffer_ok b2" "buf t2 = buf t1 @ Buffer_data b1" by blast
    have "HttpClient_pop_loop execute describe t finish b = HttpClient_pop_loop execute describe t1 (rp_finished t1) b1"
      using p(1,2) False t1(1) by (subst HttpClient_pop_loop.simps) simp
    moreover have "Buffer_data b1 = [] \<Longrightarrow> t2 = t1"
    proof -
      assume e: "Buffer_data b1 = []"
      from pop_1024 [OF p(3,4)] obtain b3 n3 where
        "Buffer_PopHead 1024 b1 = Some (b3, take 1024 (Buffer_data b1), n3)" "n3 = 0 \<longleftrightarrow> Buffer_data b1 = []" .
      with e show "t2 = t1" using 2(1) by (subst (asm) HttpClient_pop_loop.simps) simp
    qed
    ultimately show ?thesis using 2 t1(2) p(5) False by (intro exI [of _ t2] exI [of _ b2]) auto
  qed
qed

lemma feed_loop_drains:
  assumes "Buffer_ok b" "1024 \<le> Buffer_room b"
  shows "\<exists>b'. RedisClient_feed_loop c b = Some (c\<lparr>reader_in := reader_in c @ Buffer_data b\<rparr>, b') \<and>
    Buffer_data b' = [] \<and> Buffer_ok b'"
  using assms
proof (induction "length (Buffer_data b)" arbitrary: b c rule: less_induct)
  case less
  from pop_1024 [OF less.prems] obtain b1 n where
    p: "Buffer_PopHead 1024 b = Some (b1, take 1024 (Buffer_data b), n)" "n = 0 \<longleftrightarrow> Buffer_data b = []"
    "Buffer_ok b1" "1024 \<le> Buffer_room b1" "Buffer_data b1 = drop 1024 (Buffer_data b)" .
  show ?case
  proof (cases "Buffer_data b = []")
    case True
    with p show ?thesis by (subst RedisClient_feed_loop.simps) simp
  next
    case False
    then have "length (Buffer_data b1) < length (Buffer_data b)" using p(5) by simp
    from less.hyps [OF this p(3,4), of "c\<lparr>reader_in := reader_in c @ take 1024 (Buffer_data b)\<rparr>"] p False
    show ?thesis by (subst RedisClient_feed_loop.simps) simp
  qed
qed

section \<open>Properties\<close>

text \<open>
  C23.  A request is answered at most once, and always with the first thing that decides it: without a
  pool or an idle client the user's handler gets the reason at once and nothing else; otherwise the user's
  handler and then the pool's \<^verbatim>\<open>Insert\<close> are called exactly once, both with the outcome of the
  first event that fails, completes or times out the request, in any order of events and however many
  come later; and not at all while none has come.
\<close>

theorem BaseClient_answers_once:
  "answers (BaseClient_doReq False client pushErr c) = answers c @ [OnDone ''clientPool nullptr''] \<and>
   answers (BaseClient_doReq True False pushErr c) = answers c @ [OnDone ''client nullptr''] \<and>
   answers (fold base_step es (BaseClient_doReq True True pushErr (BaseClient_SetTimeoutMs ms BaseClient_new))) =
     (case (if pushErr \<noteq> '''' then Some pushErr else outcome (ms \<noteq> 0) es) of
        None \<Rightarrow> []
      | Some m \<Rightarrow> [OnDone m, PoolInsert m])"
  by (simp only: doReq_answers) (simp add: BaseClient_doReq_def)

text \<open>
  A client object serves one request: once it has answered, a further request on it is written to
  the connection, but is never answered, and its connection never goes back to the pool, whatever events
  follow.
\<close>

theorem BaseClient_second_request_lost:
  assumes "bc_finished c"
  shows "answers (fold base_step es (BaseClient_doReq True True '''' c)) = answers c \<and>
    CallAsyncWrite \<in> set (bc_calls (BaseClient_doReq True True '''' c))"
proof -
  let ?c = "BaseClient_doReq True True '''' c"
  have "bc_finished ?c" "answers ?c = answers c" "CallAsyncWrite \<in> set (bc_calls ?c)"
    using assms by (simp_all add: BaseClient_doReq_def Let_def call_def answers_def)
  with base_steps_finished [of ?c es] show ?thesis by simp
qed

text \<open>
  The time-out covers the first piece of an answer only: the handler of the first read cancels the
  timer also when the answer is not complete, so an answer that stops halfway never times out.
\<close>

theorem BaseClient_no_timeout_after_first_piece:
  "answers (fold base_step (Written '''' # Received '''' '''' False # map TimeOut ms)
     (BaseClient_doReq True True '''' (BaseClient_SetTimeoutMs n BaseClient_new))) = []"
proof -
  have "outcome False (map TimeOut ms) = None" by (induction ms) simp_all
  then show ?thesis by (simp only: doReq_answers) simp
qed

text \<open>
  The HTTP client takes the whole read buffer, in pieces of at most 1024 bytes, and hands it to the
  parser in order: if the parser accepts what it is given, the loop ends, the buffer is empty, the
  parser's input has grown by exactly the bytes that were in the buffer, and the request is finished
  exactly if there were bytes and the message is complete.
\<close>

theorem HttpClient_RespPop_drains:
  assumes "\<forall>before str. \<exists>cs. execute before str = (cs, length str, 0)" "Buffer_ok b" "1024 \<le> Buffer_room b"
  shows "\<exists>c' b'. HttpClient_RespPop execute describe c b =
      Some (c', b', '''', Buffer_data b \<noteq> [] \<and> rp_finished (parser c')) \<and>
    Buffer_data b' = [] \<and> buf (parser c') = buf (parser c) @ Buffer_data b"
proof -
  from pop_loop_drains [OF assms, of describe "parser c" False] obtain t b' where
    "HttpClient_pop_loop execute describe (parser c) False b =
       Some (t, b', '''', if Buffer_data b = [] then False else rp_finished t)"
    "Buffer_data b' = []" "buf t = buf (parser c) @ Buffer_data b" by blast
  then show ?thesis by (simp add: HttpClient_RespPop_def)
qed

theorem HttpClient_RespPop_drains_witness:
  "\<exists>b c' b'. Buffer_Push ''HTTP'' Buffer_new = Some b \<and>
     HttpClient_RespPop (\<lambda>before str. ([Body str], length str, 0)) (\<lambda>_. '''') (HttpClient_new ''GET'' ''/'' '''') b =
       Some (c', b', '''', rp_finished (parser c')) \<and> Buffer_data b' = [] \<and> buf (parser c') = ''HTTP''"
proof -
  have "length ''HTTP'' \<le> Buffer_room Buffer_new" by (simp add: Buffer_room_def Buffer_new_def)
  from Buffer_Write_ok [OF Buffer_new_ok(1) this] obtain b where b: "Buffer_Push ''HTTP'' Buffer_new = Some b"
    "Buffer_ok b" "Buffer_data b = ''HTTP''" "Buffer_room b = Buffer_room Buffer_new - 4"
    by (auto simp: Buffer_Push_def Buffer_new_ok)
  have "\<forall>before str. \<exists>cs. (\<lambda>before str. ([Body str], length str, 0 :: int)) before str = (cs, length str, 0)" by simp
  moreover have "1024 \<le> Buffer_room b" unfolding b(4) by (simp add: Buffer_room_def Buffer_new_def)
  ultimately show ?thesis
    using HttpClient_RespPop_drains [of "\<lambda>before str. ([Body str], length str, 0)" b "\<lambda>_. ''''" "HttpClient_new ''GET'' ''/'' ''''"] b
    by (auto simp: HttpClient_new_def RespParser_new_def)
qed

text \<open>
  The request on the wire is the formatted request: pushing it appends exactly its text to the write
  buffer, and the Host header is the host the user set, or else the address of the connection.
\<close>

theorem HttpClient_ReqPush_wire:
  assumes "Buffer_ok b" "omap_ok (rq_headers (formarter c))"
    "length (snd (ReqFormater_Format (ReqFormater_SetHost (if hc_host c = '''' then addr else hc_host c) (formarter c)))) \<le> Buffer_room b"
  shows "\<exists>c' b'. HttpClient_ReqPush addr c b = Some (c', b') \<and>
    Buffer_data b' = Buffer_data b @
      snd (ReqFormater_Format (ReqFormater_SetHost (if hc_host c = '''' then addr else hc_host c) (formarter c))) \<and>
    (map_find ''Host'' (rq_headers (formarter c)) = None \<and> addr \<noteq> '''' \<longrightarrow>
       map_find ''Host'' (rq_headers (formarter c')) = Some (if hc_host c = '''' then addr else hc_host c))"
proof -
  let ?h = "if hc_host c = '''' then addr else hc_host c"
  let ?f = "ReqFormater_SetHost ?h (formarter c)"
  from Buffer_Write_ok [OF assms(1,3)] obtain b' where
    b': "Buffer_Push (snd (ReqFormater_Format ?f)) b = Some b'" "Buffer_data b' = Buffer_data b @ snd (ReqFormater_Format ?f)"
    by (auto simp: Buffer_Push_def)
  have ok: "omap_ok (rq_headers ?f)" using assms(2) by (simp add: ReqFormater_SetHost_def)
  have fm: "map_find ''Host'' (rq_headers (fst (ReqFormater_Format ?f))) = Some ?h"
    if "map_find ''Host'' (rq_headers (formarter c)) = None" "?h \<noteq> ''''"
    using Format_headers [OF ok, of "''Host''"] that by (simp add: ReqFormater_SetHost_def)
  have "HttpClient_ReqPush addr c b =
    Some ((if hc_host c = '''' then c\<lparr>hc_host := addr\<rparr> else c)\<lparr>formarter := fst (ReqFormater_Format ?f)\<rparr>, b')"
    using b'(1) by (cases "hc_host c = ''''"; cases "ReqFormater_Format ?f") (simp_all add: HttpClient_ReqPush_def Let_def)
  with b'(2) fm show ?thesis by auto
qed

text \<open>
  A Redis reply gets through: if the library completes a reply on the reader's input followed by the
  whole read buffer, a string reply is what \<^verbatim>\<open>GetResp\<close> returns, a nil reply is the absence
  of a value without an error, an error reply is an error of the request, an array of strings is returned
  element by element, and asking for the wrong type is an error, never a value.
\<close>

theorem RedisClient_reply:
  assumes "Buffer_ok b" "1024 \<le> Buffer_room b" "getReply (Buffer_data b) = Inr (Some r)"
    "\<forall>rs. r = RArray rs \<longrightarrow> (\<exists>ss. rs = map RString ss)"
  shows "\<exists>c b' e. RedisClient_RespPop getReply showInt f RedisClient_new b = Some (c, b', e, True) \<and>
    (case r of
       RString s \<Rightarrow> e = '''' \<and> RedisClient_GetResp_string c = ('''', True, Some s) \<and>
                    fst (RedisClient_GetResp_array c) \<noteq> ''''
     | RNil \<Rightarrow> e = '''' \<and> RedisClient_GetResp_string c = ('''', False, None) \<and>
               RedisClient_GetResp_array c = ('''', False, None) \<and> RedisClient_GetResp_int c = ('''', False, None)
     | RError s \<Rightarrow> e \<noteq> ''''
     | RArray rs \<Rightarrow> e = '''' \<and> RedisClient_GetResp_array c = ('''', True, Some (map (\<lambda>r. c_str (the (reply_str r))) rs)) \<and>
                   fst (RedisClient_GetResp_string c) \<noteq> '''' \<and> fst (RedisClient_GetResp_int c) \<noteq> ''''
     | _ \<Rightarrow> e = '''' \<and> fst (RedisClient_GetResp_string c) \<noteq> '''' \<and> fst (RedisClient_GetResp_array c) \<noteq> '''')"
proof -
  from feed_loop_drains [OF assms(1,2), of RedisClient_new] obtain b' where
    f: "RedisClient_feed_loop RedisClient_new b = 
      Some (\<lparr>reader_in = Buffer_data b, reply_value = '''', arrayValues = [], respType = TUnset\<rparr>, b')"
    by (auto simp: RedisClient_new_def)
  note defs = RedisClient_RespPop_def [of getReply showInt f RedisClient_new b, unfolded f] assms(3) RedisClient_GetResp_string_def RedisClient_GetResp_array_def
    RedisClient_GetResp_int_def Let_def
  show ?thesis
  proof (cases r)
    case (RArray rs)
    with assms(4) obtain ss where ss: "rs = map RString ss" by blast
    have "RedisClient_elements (map RString ss) vs = Some (vs @ map c_str ss)" for vs
      by (induction ss arbitrary: vs) (simp_all add: RedisClient_element_def)
    with RArray ss show ?thesis by (simp add: defs comp_def)
  qed (simp_all add: defs)
qed

theorem RedisClient_reply_witness:
  "\<exists>b c b' e. Buffer_Push ''$1'' Buffer_new = Some b \<and>
     RedisClient_RespPop (\<lambda>_. Inr (Some (RArray [RString ''4'', RString ''5'']))) (\<lambda>_. '''') False RedisClient_new b = Some (c, b', e, True) \<and>
     RedisClient_GetResp_array c = ('''', True, Some [''4'', ''5''])"
proof -
  have "length ''$1'' \<le> Buffer_room Buffer_new" by (simp add: Buffer_room_def Buffer_new_def)
  from Buffer_Write_ok [OF Buffer_new_ok(1) this] obtain b where b: "Buffer_Push ''$1'' Buffer_new = Some b"
    "Buffer_ok b" "Buffer_room b = Buffer_room Buffer_new - 2"
    by (auto simp: Buffer_Push_def Buffer_new_ok)
  have "1024 \<le> Buffer_room b" unfolding b(3) by (simp add: Buffer_room_def Buffer_new_def)
  moreover have "(\<lambda>_. Inr (Some (RArray [RString ''4'', RString ''5'']))) (Buffer_data b) =
    (Inr (Some (RArray [RString ''4'', RString ''5''])) :: int + redis_reply option)" by simp
  moreover have "\<forall>rs. RArray [RString ''4'', RString ''5''] = RArray rs \<longrightarrow> (\<exists>ss. rs = map RString ss)"
    by (auto intro: exI [of _ "[''4'', ''5'']"])
  ultimately obtain c b' e where
    "RedisClient_RespPop (\<lambda>_. Inr (Some (RArray [RString ''4'', RString ''5'']))) (\<lambda>_. '''') False RedisClient_new b = Some (c, b', e, True)"
    "RedisClient_GetResp_array c = ('''', True, Some [''4'', ''5''])"
    using RedisClient_reply [OF b(2), of "\<lambda>_. Inr (Some (RArray [RString ''4'', RString ''5'']))" _ "\<lambda>_. ''''" False]
    by (auto simp: c_str_def)
  with b(1) show ?thesis by blast
qed

text \<open>
  An integer reply cannot be read: the code keeps only the reply's string, which the library leaves
  empty for integers, and converting the empty string throws; and a null element of an array, a key that
  does not exist, is a crash.
\<close>

theorem RedisClient_integer_unreadable:
  assumes "Buffer_ok b" "1024 \<le> Buffer_room b"
  shows "(\<exists>c b'. RedisClient_RespPop (\<lambda>_. Inr (Some (RInteger i))) showInt f RedisClient_new b = Some (c, b', '''', True) \<and>
      RedisClient_GetResp_int c = (''std::exception'', False, None)) \<and>
    RedisClient_RespPop (\<lambda>_. Inr (Some (RArray (RNil # rs)))) showInt f RedisClient_new b = None"
proof -
  from feed_loop_drains [OF assms, of RedisClient_new] obtain b' where
    "RedisClient_feed_loop RedisClient_new b =
      Some (\<lparr>reader_in = Buffer_data b, reply_value = '''', arrayValues = [], respType = TUnset\<rparr>, b')"
    by (auto simp: RedisClient_new_def)
  then show ?thesis
    by (simp add: RedisClient_RespPop_def RedisClient_GetResp_int_def stoll_def parse_int_def RedisClient_element_def Let_def)
qed

text \<open>
  While a reply is incomplete \<^verbatim>\<open>RespPop\<close> leaves its result variable as it found it, and its
  caller does not initialise it: whether the request counts as finished is up to the garbage in it.
\<close>

theorem RedisClient_incomplete_garbage:
  assumes "Buffer_ok b" "1024 \<le> Buffer_room b"
  shows "\<exists>c b'. RedisClient_RespPop (\<lambda>_. Inr None) showInt garbage RedisClient_new b = Some (c, b', '''', garbage)"
  using feed_loop_drains [OF assms, of RedisClient_new] by (auto simp: RedisClient_RespPop_def)

end
