(* ===== verification/Request_Path.thy ===== *)
theory Request_Path
  imports Net_Client Client_Channel Base_Client
begin

text \<open>
  Requests over pooled connections: \<^verbatim>\<open>BaseClient::doReq\<close> on the models of what it calls, the
  channel that chooses a pool, the pool that hands out a client, and the connection of that client.  Any number
  of requests are under way at once, on any number of pools, while connections are made, fail and are
  closed by their peers, and while the channel's resolver replaces pools.
\<close>

section \<open>The system\<close>

text \<open>
  The pools that the channel's manager points to, by number.  A request has the pool and the client that it
  holds, if it was given one; the shared pointers keep both alive when the channel drops the pool.
\<close>

type_synonym request = "base_client \<times> (nat \<times> nat) option"

record request_sys =
  rs_pools :: "nat \<Rightarrow> pool"
  rs_channel :: "nat ClientChannel"
  rs_reqs :: "request list"

definition request_start :: "(nat \<Rightarrow> nat list) \<Rightarrow> nat ClientChannel \<Rightarrow> request_sys" where
  "request_start as ch =
     \<lparr>rs_pools = (\<lambda>k. fst (ClientPool_Init (as k) (ClientPool_new (length (as k))))), rs_channel = ch, rs_reqs = []\<rparr>"

definition set_pool :: "nat \<Rightarrow> pool \<Rightarrow> request_sys \<Rightarrow> request_sys" where
  "set_pool k p s = s\<lparr>rs_pools := (rs_pools s)(k := p)\<rparr>"

text \<open>
  When a step of a request client finishes it, its last call is \<^verbatim>\<open>clientPool->Insert(client, errMsg)\<close>;
  \<open>new\<close> is the address of the client the pool makes if it replaces this one.
\<close>

definition BaseClient_Insert :: "nat \<Rightarrow> base_client \<Rightarrow> base_client \<Rightarrow> nat \<Rightarrow> pool \<Rightarrow> pool option" where
  "BaseClient_Insert a c c' new p =
     (if bc_finished c' \<and> \<not> bc_finished c
      then (case last (bc_calls c') of PoolInsert m \<Rightarrow> ClientPool_Insert a m new p | _ \<Rightarrow> None)
      else Some p)"

text \<open>
  \<^verbatim>\<open>doReq\<close> with the random number \<open>r\<close>; a client without a connection is a null dereference in
  \<^verbatim>\<open>GetTcpConnection\<close>.
\<close>

definition BaseClient_request :: "nat \<Rightarrow> nat \<Rightarrow> errmsg \<Rightarrow> nat \<Rightarrow> request_sys \<Rightarrow> request_sys option" where
  "BaseClient_request r ms pushErr new s =
     (let c0 = BaseClient_SetTimeoutMs ms BaseClient_new;
          add = (\<lambda>q s. s\<lparr>rs_reqs := rs_reqs s @ [q]\<rparr>)
      in case ClientChannel_GetClientPool r (rs_channel s) of
        None \<Rightarrow> None
      | Some (ok, pool) \<Rightarrow>
          if \<not> ok then Some (add (BaseClient_doReq False False pushErr c0, None) s)
          else (case pool of
            None \<Rightarrow> None
          | Some k \<Rightarrow>
              (case ClientPool_Get (rs_pools s k) of
                 (p, None) \<Rightarrow> Some (add (BaseClient_doReq True False pushErr c0, None) s)
               | (p, Some a) \<Rightarrow>
                   if conn p a = None then None
                   else let c = BaseClient_doReq True True pushErr c0 in
                     map_option (\<lambda>p. add (c, Some (k, a)) (set_pool k p s)) (BaseClient_Insert a c0 c new p))))"

definition BaseClient_event :: "nat \<Rightarrow> base_event \<Rightarrow> nat \<Rightarrow> request_sys \<Rightarrow> request_sys option" where
  "BaseClient_event i e new s =
     (if i \<ge> length (rs_reqs s) then Some s
      else case rs_reqs s ! i of
        (c, None) \<Rightarrow> Some s
      | (c, Some (k, a)) \<Rightarrow>
          let c' = base_step e c in
          map_option (\<lambda>p. (set_pool k p s)\<lparr>rs_reqs := (rs_reqs s)[i := (c', Some (k, a))]\<rparr>)
            (BaseClient_Insert a c c' new (rs_pools s k)))"

datatype request_op =
    QStart nat nat errmsg nat
  | QEvent nat base_event nat
  | QPool nat pool_op
  | QNotify "nat maker" "string list"

fun request_do :: "request_op \<Rightarrow> request_sys \<Rightarrow> request_sys option" where
  "request_do (QStart r ms pushErr new) s = BaseClient_request r ms pushErr new s"
| "request_do (QEvent i e new) s = BaseClient_event i e new s"
| "request_do (QPool k x) s = map_option (\<lambda>p. set_pool k p s) (pool_exec x (rs_pools s k))"
| "request_do (QNotify mk nodes) s = map_option (\<lambda>ch. s\<lparr>rs_channel := ch\<rparr>) (Balancer_notify mk nodes (rs_channel s))"

text \<open>Request \<open>i\<close> is under way with the client at \<open>a\<close> of pool \<open>k\<close>.\<close>

definition holds :: "request_sys \<Rightarrow> nat \<Rightarrow> nat \<Rightarrow> nat \<Rightarrow> bool" where
  "holds s i k a \<longleftrightarrow> i < length (rs_reqs s) \<and> snd (rs_reqs s ! i) = Some (k, a) \<and> \<not> bc_finished (fst (rs_reqs s ! i))"

text \<open>
  What the environment respects: allocated addresses are fresh, and the pools are used by requests only.  The
  close of a connection that a request uses reaches the pool through the request, whose pending handler is called with the
  error; other connections are closed by \<open>PPeerClosed\<close>.
\<close>

definition fresh :: "nat \<Rightarrow> request_sys \<Rightarrow> bool" where
  "fresh new s \<longleftrightarrow> (\<forall>k. new \<notin> allClients (rs_pools s k) \<and> conn (rs_pools s k) new = None)"

fun request_ok :: "request_sys \<Rightarrow> request_op \<Rightarrow> bool" where
  "request_ok s (QStart r ms pushErr new) = fresh new s"
| "request_ok s (QEvent i e new) = fresh new s"
| "request_ok s (QPool k x) =
     (pool_step_ok (rs_pools s k) x \<and>
      (case x of PGet \<Rightarrow> False | PInsert a m new \<Rightarrow> False | PPeerClosed a m new \<Rightarrow> \<forall>i. \<not> holds s i k a | _ \<Rightarrow> True))"
| "request_ok s (QNotify mk nodes) = True"

inductive request_reach :: "request_sys \<Rightarrow> request_sys \<Rightarrow> bool" for s0 where
  start: "request_reach s0 s0"
| step: "request_reach s0 s \<Longrightarrow> request_ok s x \<Longrightarrow> request_do x s = Some s' \<Longrightarrow> request_reach s0 s'"

section \<open>One pool and one of its clients\<close>

lemma Finish_last: "\<not> bc_finished c \<Longrightarrow> last (bc_calls (BaseClient_Finish m c)) = PoolInsert m"
  by (simp add: BaseClient_Finish_def call_def)

lemma base_step_last:
  assumes "\<not> bc_finished c" "bc_finished (base_step e c)"
  shows "\<exists>m. last (bc_calls (base_step e c)) = PoolInsert m"
  using assms by (cases e) (auto simp: base_defs Let_def Finish_last split: if_splits)

lemma doReq_last:
  assumes "bc_finished (BaseClient_doReq True True e (BaseClient_SetTimeoutMs ms BaseClient_new))"
  shows "e \<noteq> '''' \<and> last (bc_calls (BaseClient_doReq True True e (BaseClient_SetTimeoutMs ms BaseClient_new))) = PoolInsert e"
  using assms by (auto simp: BaseClient_doReq_def BaseClient_SetTimeoutMs_def BaseClient_new_def Let_def Finish_last split: if_splits)

text \<open>A client in use: the pool owns it, does not offer it, and it has a live connection.\<close>

definition in_use :: "pool \<Rightarrow> nat \<Rightarrow> bool" where
  "in_use p a \<longleftrightarrow> a \<in> allClients p \<and> a \<notin> clients p \<and> live_conn (conn p a)"

text \<open>Every client a pool owns is offered, waits for its connection, or is one of \<open>X\<close>.\<close>

definition settled :: "nat set \<Rightarrow> pool \<Rightarrow> bool" where
  "settled X p \<longleftrightarrow> pool_inv p \<and> (\<forall>a\<in>X. in_use p a) \<and> (\<forall>a\<in>allClients p. a \<in> clients p \<or> conn p a = None \<or> a \<in> X)"

lemma settled_Get:
  assumes "settled X p" "ClientPool_Get p = (p', Some a)"
  shows "settled (insert a X) p'" "a \<notin> X" "maxSize p' = maxSize p" "conn p' = conn p" "allClients p' = allClients p"
    "conn p' a \<noteq> None"
proof -
  from assms(2) have ne: "clients p \<noteq> {}" and p': "p' = p\<lparr>clients := clients p - {a}\<rparr>" and a: "a = Min (clients p)"
    by (auto simp: ClientPool_Get_def Let_def split: if_splits)
  have inv: "pool_inv p" using assms(1) by (simp add: settled_def)
  then have "finite (clients p)" by (auto simp: pool_inv_def intro: finite_subset)
  with ne a have a': "a \<in> clients p" by simp
  with inv have "live_conn (conn p a)" "a \<in> allClients p" by (auto simp: pool_inv_def)
  with assms(1) a' show "settled (insert a X) p'" "a \<notin> X"
    by (auto simp: settled_def in_use_def p' pool_inv_def)
  show "maxSize p' = maxSize p" "conn p' = conn p" "allClients p' = allClients p" by (simp_all add: p')
  show "conn p' a \<noteq> None" using \<open>live_conn (conn p a)\<close> by (auto simp: p' live_conn_def)
qed

lemma settled_Insert:
  assumes "settled X p" "a \<in> X" "new \<notin> allClients p" "conn p new = None"
  shows "\<exists>p'. ClientPool_Insert a m new p = Some p' \<and> settled (X - {a}) p' \<and> maxSize p' = maxSize p"
proof -
  have inv: "pool_inv p" and u: "in_use p a" using assms(1,2) by (auto simp: settled_def)
  from u obtain c where c: "conn p a = Some c" "\<not> finished c" "c_event c \<noteq> None"
    by (auto simp: in_use_def live_conn_def)
  then have "\<exists>p'. ClientPool_Insert a m new p = Some p'" by (simp add: ClientPool_Insert_def Let_def)
  then obtain p' where p': "ClientPool_Insert a m new p = Some p'" by blast
  have "pool_step_ok p (PInsert a m new)" using assms(3,4) c by simp
  from pool_inv_exec [OF inv this] p' have i': "pool_inv p'" "maxSize p' = maxSize p" by auto
  have ne: "new \<noteq> a" "new \<notin> X" using assms(1,3) u by (auto simp: in_use_def settled_def)
  have "settled (X - {a}) p'"
  proof (cases "m = ''''")
    case True
    with p' c have "p' = p\<lparr>conn := (conn p)(a := Some (TcpConnection_Reset c)), clients := insert a (clients p)\<rparr>"
      by (simp add: ClientPool_Insert_def)
    with i'(1) assms(1) u show ?thesis by (auto simp: settled_def in_use_def)
  next
    case False
    with p' c have "p' = ClientPool_disconnected a m new (p\<lparr>conn := (conn p)(a := Some (finish_idle c))\<rparr>)"
      by (simp add: ClientPool_Insert_def Let_def)
    with False have "clients p' = clients p - {a}" "allClients p' = insert new (allClients p) - {a}"
      "conn p' = (conn p)(a := Some (finish_idle c), new := None)"
      by (simp_all add: ClientPool_disconnected_def ClientPool_initClient_def Let_def)
    with i'(1) assms(1) ne show ?thesis by (auto simp: settled_def in_use_def)
  qed
  with p' i'(2) show ?thesis by blast
qed

lemma settled_exec:
  assumes "settled X p" "pool_step_ok p x" "pool_exec x p = Some p'"
    and "case x of PGet \<Rightarrow> False | PInsert a m new \<Rightarrow> False | PPeerClosed a m new \<Rightarrow> a \<notin> X | _ \<Rightarrow> True"
  shows "settled X p'" "maxSize p' = maxSize p"
proof -
  have inv: "pool_inv p" using assms(1) by (simp add: settled_def)
  from pool_inv_exec [OF inv assms(2,3)] have i': "pool_inv p'" and "maxSize p' = maxSize p" by auto
  then show "maxSize p' = maxSize p" by simp
  have X: "a \<notin> X" if "conn p a = None" for a using assms(1) that by (auto simp: settled_def in_use_def live_conn_def)
  show "settled X p'"
  proof (cases x)
    case (PConnected a ev)
    with assms(2,3) have "a \<notin> X" "clients p' = insert a (clients p)" "allClients p' = allClients p" "\<forall>b. b \<noteq> a \<longrightarrow> conn p' b = conn p b"
      using X by (auto simp: ClientPool_Insert_def)
    with assms(1) i' show ?thesis by (auto simp: settled_def in_use_def)
  next
    case (PConnectFailed a m new)
    with assms(2,3) have "a \<notin> X" "new \<notin> X" "clients p' = clients p - {a}" "allClients p' = insert new (allClients p) - {a}"
      "conn p' = (conn p)(new := None)"
      using X by (auto simp: ClientPool_disconnected_def ClientPool_initClient_def Let_def)
    with assms(1) i' show ?thesis by (auto simp: settled_def in_use_def)
  next
    case (PPeerClosed a m new)
    show ?thesis
    proof (cases "conn p a")
      case None
      with PPeerClosed assms(1,3) show ?thesis by simp
    next
      case (Some c)
      show ?thesis
      proof (cases "finished c")
        case True
        with Some PPeerClosed assms(1,3) show ?thesis by (simp add: finish_idle_def fun_upd_idem)
      next
        case False
        with Some PPeerClosed assms(2-4) have "a \<notin> X" "new \<notin> X" "clients p' = clients p - {a}"
          "allClients p' = insert new (allClients p) - {a}" "conn p' = (conn p)(a := Some (finish_idle c), new := None)"
          using X by (auto simp: ClientPool_disconnected_def ClientPool_initClient_def Let_def)
        with assms(1) i' show ?thesis by (auto simp: settled_def in_use_def)
      qed
    qed
  qed (use assms(4) in auto)
qed

section \<open>All requests and all pools\<close>

definition used :: "request_sys \<Rightarrow> nat \<Rightarrow> nat set" where
  "used s k = {a. \<exists>i. holds s i k a}"

definition request_inv :: "request_sys \<Rightarrow> bool" where
  "request_inv s \<longleftrightarrow> (\<forall>k. settled (used s k) (rs_pools s k)) \<and> (\<forall>i j k a. holds s i k a \<longrightarrow> holds s j k a \<longrightarrow> i = j)"

lemma holds_set_pool [simp]: "holds (set_pool k p s) = holds s" "rs_reqs (set_pool k p s) = rs_reqs s"
  "rs_pools (set_pool k p s) = (rs_pools s)(k := p)"
  by (simp_all add: set_pool_def holds_def fun_eq_iff)

lemma holds_append:
  "holds (s\<lparr>rs_reqs := rs_reqs s @ [(c, q)]\<rparr>) i k a \<longleftrightarrow>
     holds s i k a \<or> i = length (rs_reqs s) \<and> q = Some (k, a) \<and> \<not> bc_finished c"
  by (auto simp: holds_def nth_append)

lemma holds_update:
  "i < length (rs_reqs s) \<Longrightarrow> holds (s\<lparr>rs_reqs := (rs_reqs s)[i := (c, q)]\<rparr>) j k a \<longleftrightarrow>
     (if j = i then q = Some (k, a) \<and> \<not> bc_finished c else holds s j k a)"
  by (auto simp: holds_def)

text \<open>A request that takes no client, or whose client has been given back, changes nothing.\<close>

lemma request_inv_add:
  assumes "request_inv s" "q = None \<or> bc_finished c"
  shows "request_inv (s\<lparr>rs_reqs := rs_reqs s @ [(c, q)]\<rparr>)"
proof -
  have "holds (s\<lparr>rs_reqs := rs_reqs s @ [(c, q)]\<rparr>) = holds s"
    using assms(2) by (auto simp: holds_append fun_eq_iff)
  with assms(1) show ?thesis by (simp add: request_inv_def used_def)
qed

lemma request_inv_take:
  assumes "request_inv s" "ClientPool_Get (rs_pools s k) = (p, Some a)" "\<not> bc_finished c"
  shows "request_inv ((set_pool k p s)\<lparr>rs_reqs := rs_reqs s @ [(c, Some (k, a))]\<rparr>)"
proof -
  have st: "settled (used s k) (rs_pools s k)" using assms(1) by (simp add: request_inv_def)
  note g = settled_Get [OF st assms(2)]
  let ?s = "(set_pool k p s)\<lparr>rs_reqs := rs_reqs s @ [(c, Some (k, a))]\<rparr>"
  have h: "holds ?s i l b \<longleftrightarrow> holds s i l b \<or> i = length (rs_reqs s) \<and> l = k \<and> b = a" for i l b
    using holds_append [of "set_pool k p s" c "Some (k, a)" i l b] assms(3) by auto
  have "used ?s l = (if l = k then insert a (used s k) else used s l)" for l
    by (auto simp: used_def h)
  with g(1) assms(1) have "\<forall>l. settled (used ?s l) (rs_pools ?s l)" by (simp add: request_inv_def)
  moreover have "i = j" if "holds ?s i l b" "holds ?s j l b" for i j l b
  proof -
    have "\<not> holds s x k a" for x using g(2) by (auto simp: used_def)
    moreover have "holds s i l b \<Longrightarrow> holds s j l b \<Longrightarrow> i = j" using assms(1) unfolding request_inv_def by blast
    ultimately show ?thesis using that unfolding h by blast
  qed
  ultimately show ?thesis by (simp add: request_inv_def)
qed

lemma request_inv_event:
  assumes inv: "request_inv s" and fr: "fresh new s" and i: "i < length (rs_reqs s)" "rs_reqs s ! i = (c, Some (k, a))"
  shows "\<exists>p. BaseClient_Insert a c (base_step e c) new (rs_pools s k) = Some p \<and>
    request_inv ((set_pool k p s)\<lparr>rs_reqs := (rs_reqs s)[i := (base_step e c, Some (k, a))]\<rparr>) \<and>
    maxSize p = maxSize (rs_pools s k)"
proof -
  let ?c = "base_step e c" and ?P = "rs_pools s k"
  have st: "settled (used s k) ?P" using inv by (simp add: request_inv_def)
  have h: "holds ((set_pool k p s)\<lparr>rs_reqs := (rs_reqs s)[i := (?c, Some (k, a))]\<rparr>) j l b \<longleftrightarrow>
      (if j = i then l = k \<and> b = a \<and> \<not> bc_finished ?c else holds s j l b)" for p j l b
    using holds_update [of i "set_pool k p s" ?c "Some (k, a)" j l b] i(1) by auto
  have hi: "holds s i l b \<longleftrightarrow> l = k \<and> b = a \<and> \<not> bc_finished c" for l b using i by (auto simp: holds_def)
  show ?thesis
  proof (cases "bc_finished ?c \<and> \<not> bc_finished c")
    case False
    have "bc_finished c \<Longrightarrow> bc_finished ?c" using base_step_finished by blast
    with False have "holds ((set_pool k ?P s)\<lparr>rs_reqs := (rs_reqs s)[i := (?c, Some (k, a))]\<rparr>) = holds s"
      by (auto simp: h hi fun_eq_iff)
    moreover have "BaseClient_Insert a c ?c new ?P = Some ?P" using False by (auto simp: BaseClient_Insert_def)
    ultimately show ?thesis using inv by (intro exI [of _ ?P]) (simp add: request_inv_def used_def)
  next
    case True
    then obtain m where m: "last (bc_calls ?c) = PoolInsert m" using base_step_last by blast
    have u: "a \<in> used s k" using True hi by (auto simp: used_def)
    have "new \<notin> allClients ?P" "conn ?P new = None" using fr by (simp_all add: fresh_def)
    from settled_Insert [OF st u this] obtain p where
      p: "ClientPool_Insert a m new ?P = Some p" "settled (used s k - {a}) p" "maxSize p = maxSize ?P" by blast
    let ?s = "(set_pool k p s)\<lparr>rs_reqs := (rs_reqs s)[i := (?c, Some (k, a))]\<rparr>"
    have one: "j = i" if "holds s j k a" for j using inv that True hi unfolding request_inv_def by blast
    have hs: "holds ?s j l b \<longleftrightarrow> holds s j l b \<and> j \<noteq> i" for j l b using True by (simp add: h)
    have "used ?s l = (if l = k then used s k - {a} else used s l)" for l
      using one by (auto simp: used_def hs hi)
    with p(2) inv have "request_inv ?s" by (simp add: request_inv_def hs) blast
    with p(1,3) True m show ?thesis by (intro exI [of _ p]) (simp add: BaseClient_Insert_def)
  qed
qed

lemma request_inv_set_pool:
  assumes "request_inv s" "settled (used s k) p"
  shows "request_inv (set_pool k p s)"
proof -
  have "used (set_pool k p s) = used s" by (simp add: used_def fun_eq_iff)
  with assms show ?thesis by (simp add: request_inv_def)
qed

lemma request_inv_request:
  assumes inv: "request_inv s" and fr: "fresh new s" and st: "BaseClient_request r ms e new s = Some s'"
  shows "request_inv s' \<and> (\<forall>k. maxSize (rs_pools s' k) = maxSize (rs_pools s k))"
proof -
  obtain pok pool where ch: "ClientChannel_GetClientPool r (rs_channel s) = Some (pok, pool)"
    using st by (auto simp: BaseClient_request_def Let_def split: option.splits)
  show ?thesis
  proof (cases pok)
    case False
    with st ch request_inv_add [OF inv, of None] show ?thesis by (auto simp: BaseClient_request_def Let_def)
  next
    case True
    with st ch obtain k where k: "pool = Some k" by (cases pool) (auto simp: BaseClient_request_def Let_def)
    obtain p oa where get: "ClientPool_Get (rs_pools s k) = (p, oa)" by (cases "ClientPool_Get (rs_pools s k)")
    show ?thesis
    proof (cases oa)
      case None
      with st ch k True get request_inv_add [OF inv, of None] show ?thesis by (auto simp: BaseClient_request_def Let_def)
    next
      case (Some a)
      let ?c = "BaseClient_doReq True True e (BaseClient_SetTimeoutMs ms BaseClient_new)"
      have stl: "settled (used s k) (rs_pools s k)" using inv by (simp add: request_inv_def)
      note g = settled_Get [OF stl get [unfolded Some]]
      have c0: "\<not> bc_finished (BaseClient_SetTimeoutMs ms BaseClient_new)"
        by (simp add: BaseClient_SetTimeoutMs_def BaseClient_new_def)
      from st ch k True get Some obtain p' where
        p': "BaseClient_Insert a (BaseClient_SetTimeoutMs ms BaseClient_new) ?c new p = Some p'"
        "s' = (set_pool k p' s)\<lparr>rs_reqs := rs_reqs s @ [(?c, Some (k, a))]\<rparr>"
        by (auto simp: BaseClient_request_def Let_def split: if_splits)
      show ?thesis
      proof (cases "bc_finished ?c")
        case False
        with p' have "p' = p" by (simp add: BaseClient_Insert_def)
        with request_inv_take [OF inv get [unfolded Some] False] p'(2) g(3) show ?thesis by simp
      next
        case True
        with p'(1) doReq_last [OF True] c0 have i: "ClientPool_Insert a e new p = Some p'" by (simp add: BaseClient_Insert_def)
        have "new \<notin> allClients p" "conn p new = None" using fr g(4,5) by (simp_all add: fresh_def)
        from settled_Insert [OF g(1) _ this, of a e] i have "settled (insert a (used s k) - {a}) p'" "maxSize p' = maxSize p" by auto
        with g(2) have "settled (used s k) p'" by simp
        from request_inv_add [OF request_inv_set_pool [OF inv this], of "Some (k, a)" ?c] True p'(2) \<open>maxSize p' = maxSize p\<close> g(3)
        show ?thesis by simp
      qed
    qed
  qed
qed

lemma request_inv_step:
  assumes "request_inv s" "request_ok s x" "request_do x s = Some s'"
  shows "request_inv s' \<and> (\<forall>k. maxSize (rs_pools s' k) = maxSize (rs_pools s k))"
proof (cases x)
  case (QStart r ms e new)
  with request_inv_request assms show ?thesis by auto
next
  case (QEvent i e new)
  show ?thesis
  proof (cases "i < length (rs_reqs s)")
    case True
    obtain c q where cq: "rs_reqs s ! i = (c, q)" by (cases "rs_reqs s ! i")
    show ?thesis
    proof (cases q)
      case None
      with cq True QEvent assms show ?thesis by (simp add: BaseClient_event_def)
    next
      case (Some ka)
      then obtain k a where "q = Some (k, a)" by (cases ka) auto
      with request_inv_event [OF assms(1) _ True, of new c k a e] cq True QEvent assms(2,3) show ?thesis
        by (auto simp: BaseClient_event_def Let_def)
    qed
  qed (use QEvent assms in \<open>simp add: BaseClient_event_def\<close>)
next
  case (QPool k x)
  with assms(3) obtain p where p: "pool_exec x (rs_pools s k) = Some p" "s' = set_pool k p s" by auto
  have st: "settled (used s k) (rs_pools s k)" using assms(1) by (simp add: request_inv_def)
  have ok: "pool_step_ok (rs_pools s k) x"
    "case x of PGet \<Rightarrow> False | PInsert a m new \<Rightarrow> False | PPeerClosed a m new \<Rightarrow> a \<notin> used s k | _ \<Rightarrow> True"
    using assms(2) QPool by (auto simp: used_def split: pool_op.splits)
  from settled_exec [OF st ok(1) p(1) ok(2)] request_inv_set_pool [OF assms(1)] p(2) show ?thesis by simp
next
  case (QNotify mk nodes)
  with assms show ?thesis by (auto simp: request_inv_def used_def holds_def)
qed

lemma request_inv_start:
  assumes "\<forall>k. distinct (as k)"
  shows "request_inv (request_start as ch)" "maxSize (rs_pools (request_start as ch) k) = length (as k)"
proof -
  have h: "\<not> holds (request_start as ch) i k a" for i k a by (simp add: request_start_def holds_def)
  have i: "pool_inv (rs_pools (request_start as ch) k) \<and> maxSize (rs_pools (request_start as ch) k) = length (as k)" for k
    using pool_inv_init [of "as k"] assms by (simp add: request_start_def)
  then show "maxSize (rs_pools (request_start as ch) k) = length (as k)" by simp
  have "conn (rs_pools (request_start as ch) k) a = None" for k a
    by (simp add: request_start_def ClientPool_new_def fold_initClient)
  with h i show "request_inv (request_start as ch)" by (simp add: request_inv_def settled_def used_def)
qed

lemma request_reach_inv:
  assumes "\<forall>k. distinct (as k)" "request_reach (request_start as ch) s"
  shows "request_inv s \<and> (\<forall>k. maxSize (rs_pools s k) = length (as k))"
  using assms(2)
proof (induction rule: request_reach.induct)
  case start
  show ?case using request_inv_start [OF assms(1)] by simp
next
  case (step s x s')
  with request_inv_step [of s x s'] show ?case by auto
qed

text \<open>What each request has told its user and its pool.\<close>

fun answered :: "request \<Rightarrow> bool" where
  "answered (c, None) = (\<exists>m. m \<noteq> '''' \<and> answers c = [OnDone m])"
| "answered (c, Some ka) = (if bc_finished c then \<exists>m. answers c = [OnDone m, PoolInsert m] else answers c = [])"

lemma base_step_answers:
  "\<not> bc_finished c \<Longrightarrow> if bc_finished (base_step e c) then \<exists>m. answers (base_step e c) = answers c @ [OnDone m, PoolInsert m]
     else answers (base_step e c) = answers c"
  by (cases e) (auto simp: base_defs Let_def Finish_answers)

lemma answered_step: "answered (c, Some ka) \<Longrightarrow> answered (base_step e c, Some ka)"
  using base_step_answers [of c e] base_step_finished [of c e] by (auto split: if_splits)

lemma answered_new:
  "answered (BaseClient_doReq False b e (BaseClient_SetTimeoutMs ms BaseClient_new), None)"
  "answered (BaseClient_doReq True False e (BaseClient_SetTimeoutMs ms BaseClient_new), None)"
  "answered (BaseClient_doReq True True e (BaseClient_SetTimeoutMs ms BaseClient_new), Some ka)"
proof -
  have n: "answers (BaseClient_SetTimeoutMs ms BaseClient_new) = []" "\<not> bc_finished (BaseClient_SetTimeoutMs ms BaseClient_new)"
    by (simp_all add: answers_def BaseClient_SetTimeoutMs_def BaseClient_new_def)
  then show "answered (BaseClient_doReq False b e (BaseClient_SetTimeoutMs ms BaseClient_new), None)"
    "answered (BaseClient_doReq True False e (BaseClient_SetTimeoutMs ms BaseClient_new), None)"
    "answered (BaseClient_doReq True True e (BaseClient_SetTimeoutMs ms BaseClient_new), Some ka)"
    by (auto simp: BaseClient_doReq_def Let_def Finish_answers)
qed

lemma answered_do:
  assumes "\<forall>q\<in>set (rs_reqs s). answered q" "request_do x s = Some s'"
  shows "\<forall>q\<in>set (rs_reqs s'). answered q"
proof (cases x)
  case (QStart r ms e new)
  with assms show ?thesis
    by (auto simp: BaseClient_request_def Let_def answered_new simp del: answered.simps
        split: option.splits if_splits prod.splits)
next
  case (QEvent i e new)
  show ?thesis
  proof (cases "i < length (rs_reqs s)")
    case True
    obtain c q where cq: "rs_reqs s ! i = (c, q)" by (cases "rs_reqs s ! i")
    have "answered (c, q)" using assms(1) True cq by (metis nth_mem)
    with cq True QEvent assms show ?thesis
      by (auto simp: BaseClient_event_def Let_def answered_step simp del: answered.simps
          split: option.splits dest!: set_update_subset_insert [THEN subsetD])
  qed (use QEvent assms in \<open>simp add: BaseClient_event_def\<close>)
qed (use assms in auto)

text \<open>Neither making a request nor any event of one crashes.\<close>

lemma request_no_crash:
  assumes inv: "request_inv s"
  shows "fresh new s \<Longrightarrow> BaseClient_event i e new s \<noteq> None"
    and "fresh new s \<Longrightarrow> ClientChannel_GetClientPool r (rs_channel s) \<in> {Some (False, None)} \<union> range (\<lambda>k. Some (True, Some k)) \<Longrightarrow>
      BaseClient_request r ms m new s \<noteq> None"
proof -
  assume fr: "fresh new s"
  show "BaseClient_event i e new s \<noteq> None"
  proof (cases "i < length (rs_reqs s)")
    case True
    obtain c q where cq: "rs_reqs s ! i = (c, q)" by (cases "rs_reqs s ! i")
    show ?thesis
    proof (cases q)
      case (Some ka)
      then obtain k a where "q = Some (k, a)" by (cases ka) auto
      with request_inv_event [OF inv fr True, of c k a e] cq True show ?thesis by (auto simp: BaseClient_event_def Let_def)
    qed (use cq True in \<open>simp add: BaseClient_event_def\<close>)
  qed (simp add: BaseClient_event_def)
  assume ch: "ClientChannel_GetClientPool r (rs_channel s) \<in> {Some (False, None)} \<union> range (\<lambda>k. Some (True, Some k))"
  show "BaseClient_request r ms m new s \<noteq> None"
  proof (cases "ClientChannel_GetClientPool r (rs_channel s) = Some (False, None)")
    case False
    with ch obtain k where k: "ClientChannel_GetClientPool r (rs_channel s) = Some (True, Some k)" by blast
    obtain p oa where get: "ClientPool_Get (rs_pools s k) = (p, oa)" by (cases "ClientPool_Get (rs_pools s k)")
    show ?thesis
    proof (cases oa)
      case (Some a)
      have stl: "settled (used s k) (rs_pools s k)" using inv by (simp add: request_inv_def)
      note g = settled_Get [OF stl get [unfolded Some]]
      have f: "new \<notin> allClients p" "conn p new = None" using fr g(4,5) by (simp_all add: fresh_def)
      have c0: "\<not> bc_finished (BaseClient_SetTimeoutMs ms BaseClient_new)"
        by (simp add: BaseClient_SetTimeoutMs_def BaseClient_new_def)
      from settled_Insert [OF g(1) _ f, of a m] obtain p' where "ClientPool_Insert a m new p = Some p'" by auto
      with doReq_last [of m ms] c0 have
        "BaseClient_Insert a (BaseClient_SetTimeoutMs ms BaseClient_new)
           (BaseClient_doReq True True m (BaseClient_SetTimeoutMs ms BaseClient_new)) new p \<noteq> None"
        by (auto simp: BaseClient_Insert_def)
      with k get Some g(6) show ?thesis by (auto simp: BaseClient_request_def Let_def)
    qed (use k get in \<open>simp add: BaseClient_request_def Let_def\<close>)
  qed (simp add: BaseClient_request_def Let_def)
qed

text \<open>What the invariant says of a pool and each of its clients.\<close>

lemma request_inv_conserves:
  assumes inv: "request_inv s" and m: "\<forall>k. maxSize (rs_pools s k) = n k"
  shows "card (allClients (rs_pools s k)) = n k"
    and "a \<in> allClients (rs_pools s k) \<Longrightarrow>
      if conn (rs_pools s k) a = None then a \<notin> clients (rs_pools s k) \<and> (\<forall>i. \<not> holds s i k a)
      else live_conn (conn (rs_pools s k) a) \<and>
        (if a \<in> clients (rs_pools s k) then \<forall>i. \<not> holds s i k a else \<exists>!i. holds s i k a)"
    and "holds s i k a \<Longrightarrow> a \<in> allClients (rs_pools s k)"
proof -
  have st: "settled (used s k) (rs_pools s k)" for k using inv by (simp add: request_inv_def)
  have u: "in_use (rs_pools s k) a" if "holds s i k a" for i k a using st that unfolding settled_def used_def by blast
  have nh: "\<not> holds s i k a" if "conn (rs_pools s k) a = None \<or> a \<in> clients (rs_pools s k)" for i k a
    using u [of i k a] that by (auto simp: in_use_def live_conn_def)
  show "card (allClients (rs_pools s k)) = n k"
    using st m by (simp add: settled_def pool_inv_def)
  show "if conn (rs_pools s k) a = None then a \<notin> clients (rs_pools s k) \<and> (\<forall>i. \<not> holds s i k a)
      else live_conn (conn (rs_pools s k) a) \<and>
        (if a \<in> clients (rs_pools s k) then \<forall>i. \<not> holds s i k a else \<exists>!i. holds s i k a)"
    if "a \<in> allClients (rs_pools s k)"
  proof (cases "a \<in> clients (rs_pools s k)")
    case True
    with st [of k] have "live_conn (conn (rs_pools s k) a)" by (auto simp: settled_def pool_inv_def)
    with True nh show ?thesis by (auto simp: live_conn_def)
  next
    case False
    show ?thesis
    proof (cases "conn (rs_pools s k) a = None")
      case True
      with False nh show ?thesis by simp
    next
      case ne: False
      with that False st [of k] have "a \<in> used s k" by (auto simp: settled_def)
      then obtain i where i: "holds s i k a" by (auto simp: used_def)
      with inv have "\<exists>!i. holds s i k a" unfolding request_inv_def by blast
      with ne False u [OF i] show ?thesis by (simp add: in_use_def del: not_None_eq)
    qed
  qed
  show "holds s i k a \<Longrightarrow> a \<in> allClients (rs_pools s k)" using u by (simp add: in_use_def)
qed

section \<open>Properties\<close>

text \<open>
  C24.  Pooled clients are conserved.  After any history of requests, their events and time-outs, connects, failed connects,
  closed connections and resolver reports, every pool owns as many clients as it was made with, and each of them is
  offered with a live connection, or still connecting, or in the hands of exactly one request that is under way, with a live
  connection: no client is lost, shared by two requests, or given back dead; and every request has been answered
  exactly once or is under way.
\<close>

theorem Request_conserves_clients:
  assumes "\<forall>k. distinct (as k)" "request_reach (request_start as ch) s"
  shows "(\<forall>k. card (allClients (rs_pools s k)) = length (as k) \<and>
      (\<forall>a\<in>allClients (rs_pools s k).
        if conn (rs_pools s k) a = None then a \<notin> clients (rs_pools s k) \<and> (\<forall>i. \<not> holds s i k a)
        else live_conn (conn (rs_pools s k) a) \<and>
          (if a \<in> clients (rs_pools s k) then \<forall>i. \<not> holds s i k a else \<exists>!i. holds s i k a))) \<and>
    (\<forall>i k a. holds s i k a \<longrightarrow> a \<in> allClients (rs_pools s k)) \<and>
    (\<forall>q\<in>set (rs_reqs s). answered q)"
proof -
  have ans: "\<forall>q\<in>set (rs_reqs s). answered q"
    using assms(2)
  proof (induction rule: request_reach.induct)
    case (step s x s')
    with answered_do [of s x s'] show ?case by blast
  qed (simp add: request_start_def)
  from request_reach_inv [OF assms] have inv: "request_inv s" and m: "\<forall>k. maxSize (rs_pools s k) = length (as k)" by simp_all
  note c = request_inv_conserves [OF inv m]
  show ?thesis using c(1) c(2) c(3) ans by (intro conjI allI ballI impI) blast+
qed

theorem Request_conserves_clients_witness:
  "\<exists>s. request_reach (request_start (\<lambda>_. [10]) (ClientChannel_new\<lparr>ch_balancer := Some (RandomLbPolicy_new 0)\<rparr>)) s \<and>
     clients (rs_pools s 3) = {} \<and> holds s 0 3 10 \<and> card (allClients (rs_pools s 3)) = 1"
proof -
  let ?ch = "(ClientChannel_new :: nat ClientChannel)\<lparr>ch_balancer := Some (RandomLbPolicy_new 0)\<rparr>"
  let ?s0 = "request_start (\<lambda>_. [10]) ?ch"
  let ?p0 = "fst (ClientPool_Init [10] (ClientPool_new 1))"
  let ?mk = "\<lambda>n. Some ('''', Some (3 :: nat))"
  have p0: "rs_pools ?s0 k = ?p0" "allClients ?p0 = {10}" "conn ?p0 a = None" "clients ?p0 = {}" for k a
    by (simp_all add: request_start_def ClientPool_new_def ClientPool_initClient_def)
  obtain ch where ch: "Balancer_notify ?mk [''a:1''] ?ch = Some ch"
    "ClientChannel_GetClientPool 0 ch = Some (True, Some 3)"
    by (simp add: Balancer_notify_def ClientManager_Update_def ClientManager_addAddr_def ClientChannel_GetClientPool_def
        RandomLbPolicy_Get_def RandomLbPolicy_UpdateAllWithoutWeight_def ClientManager_GetClientPool_def map_keys_def
        ClientChannel_new_def)
  let ?s1 = "?s0\<lparr>rs_channel := ch\<rparr>"
  have 1: "request_reach ?s0 ?s1"
    by (rule request_reach.step [OF request_reach.start, of _ "QNotify ?mk [''a:1'']"]) (simp_all add: ch request_start_def)
  obtain p where p: "pool_exec (PConnected 10 (fst (Event_new 5 0))) ?p0 = Some p" "clients p = {10}" "conn p 10 \<noteq> None"
    "allClients p = {10}" "\<And>a. a \<noteq> 10 \<Longrightarrow> conn p a = None"
    by (simp add: ClientPool_Insert_def ClientPool_new_def ClientPool_initClient_def)
  let ?s2 = "set_pool 3 p ?s1"
  have 2: "request_reach ?s0 ?s2"
    by (rule request_reach.step [OF 1, of "QPool 3 (PConnected 10 (fst (Event_new 5 0)))"]) (simp_all add: p p0 del: ClientPool_Init.simps pool_exec.simps One_nat_def)
  let ?c = "BaseClient_doReq True True '''' (BaseClient_SetTimeoutMs 0 BaseClient_new)"
  let ?s3 = "(set_pool 3 (p\<lparr>clients := {}\<rparr>) ?s2)\<lparr>rs_reqs := [(?c, Some (3, 10))]\<rparr>"
  have nf: "\<not> bc_finished ?c" by (simp add: BaseClient_doReq_def BaseClient_SetTimeoutMs_def BaseClient_new_def Let_def)
  have get: "ClientPool_Get p = (p\<lparr>clients := {}\<rparr>, Some 10)" using p(2) by (simp add: ClientPool_Get_def)
  have "request_do (QStart 0 0 '''' 20) ?s2 = Some ?s3"
    using nf p(3) ch(2) get by (simp add: BaseClient_request_def Let_def BaseClient_Insert_def set_pool_def request_start_def)
  moreover have "request_ok ?s2 (QStart 0 0 '''' 20)"
    using p p0 by (simp add: fresh_def del: ClientPool_Init.simps One_nat_def)
  ultimately have 3: "request_reach ?s0 ?s3" by (intro request_reach.step [OF 2])
  have "holds ?s3 0 3 10" using nf by (simp add: holds_def)
  have d: "\<forall>k. distinct ((\<lambda>_ :: nat. [10 :: nat]) k)" by simp
  note Request_conserves_clients [OF d 3, THEN conjunct1, rule_format, of 3, THEN conjunct1]
  with 3 \<open>holds ?s3 0 3 10\<close> show ?thesis by (intro exI [of _ ?s3] conjI) simp_all
qed

text \<open>
  C25.  A request never crashes on its pooled client: in every reachable state, making a request on a channel that names a
  pool, or none, and every event of every request, runs through, and in particular the pool's
  proviso holds, that no client with a closed connection comes back as a good one.
\<close>

theorem Request_never_crashes:
  assumes "\<forall>k. distinct (as k)" "request_reach (request_start as ch) s" "fresh new s"
  shows "BaseClient_event i e new s \<noteq> None \<and>
    (ClientChannel_GetClientPool r (rs_channel s) \<in> {Some (False, None)} \<union> range (\<lambda>k. Some (True, Some k)) \<longrightarrow>
      BaseClient_request r ms m new s \<noteq> None)"
  using request_no_crash [of s new] request_reach_inv [OF assms(1,2)] assms(3) by blast

theorem Request_never_crashes_witness:
  "BaseClient_event 0 (TimeOut '''') 20 (request_start (\<lambda>_. [10]) ClientChannel_new) \<noteq> None"
proof -
  have "fresh 20 (request_start (\<lambda>_. [10]) (ClientChannel_new :: nat ClientChannel))"
    by (simp add: fresh_def request_start_def ClientPool_new_def ClientPool_initClient_def)
  from Request_never_crashes [OF _ request_reach.start this] show ?thesis by simp
qed

text \<open>
  Bytes that arrive on a pooled connection while nobody uses it are kept, and the next request on it takes them as its
  answer: its first read calls the handler at once with exactly these bytes.
\<close>

theorem ClientPool_late_bytes_answer_next:
  assumes "0 < length bs" "length bs \<le> 1024"
  shows "\<exists>c1 c2. TcpConnection_readHandler se (int (length bs)) 0 bs (TcpConnection_Reset c) = Some (c1, []) \<and>
    TcpConnection_AsyncReadAny h c1 = Some (c2, [FCall h '''']) \<and> Buffer_data (ReadBuffer c2) = bs"
proof -
  let ?c = "TcpConnection_Reset c"
  have r: "ReadBuffer ?c = Buffer_Reset (ReadBuffer c)" "userReadHandler ?c = None" "readedSize ?c = 0" "expectSize ?c = 0"
    by (simp_all add: TcpConnection_Reset_def TcpConnection_ResetRead_def)
  have "length bs \<le> Buffer_room (Buffer_Reset (ReadBuffer c))" using assms(2) by (simp add: Buffer_room_Reset)
  from Buffer_Write_ok [OF Buffer_Reset_ok(1) this] obtain b where
    b: "Buffer_Write bs (ReadBuffer ?c) = Some b" "Buffer_data b = bs" by (auto simp: r Buffer_Reset_ok(2))
  let ?n = "of_int (int (length bs)) :: u64"
  have "unat ?n = length bs" using assms(2) by (simp add: unat_of_nat64)
  then have ne: "?n \<noteq> 0" using assms(1) by (metis length_0_conv length_greater_0_conv unat_0)
  let ?c1 = "?c\<lparr>ReadBuffer := b, readedSize := ?n\<rparr>"
  have "TcpConnection_readHandler se (int (length bs)) 0 bs ?c = Some (?c1, [])"
    using assms(1) b(1) by (simp add: TcpConnection_readHandler_def Socket_Read_def Let_def r)
  then show ?thesis using ne b(2) by (simp add: TcpConnection_AsyncReadAny_def TcpConnection_ResetRead_def Let_def)
qed

theorem ClientPool_late_bytes_answer_next_witness:
  "\<exists>c1 c2. TcpConnection_readHandler (\<lambda>_. '''') 3 0 ''old'' (TcpConnection_Reset (TcpConnection_new (fst (Event_new 5 0)) (Handler 0 []))) = Some (c1, []) \<and>
     TcpConnection_AsyncReadAny (Handler 1 []) c1 = Some (c2, [FCall (Handler 1 []) '''']) \<and> Buffer_data (ReadBuffer c2) = ''old''"
  using ClientPool_late_bytes_answer_next [of "''old''" "\<lambda>_. ''''" "TcpConnection_new (fst (Event_new 5 0)) (Handler 0 [])" "Handler 1 []"]
  by simp

end
