(* ===== verification/Flow_Service.thy ===== *)
theory Flow_Service
  imports Prelude
begin

text \<open>
  The flow service (\<^verbatim>\<open>small_flow.h\<close>): a request goes through the registered steps
  (\<^verbatim>\<open>Ploy\<close>) in order; a step may suspend the flow while it waits for an answer, and the
  answer's handler calls \<^verbatim>\<open>Run\<close> again, which continues behind it.
\<close>

section \<open>State\<close>

text \<open>
  The context of the flow, with two observations: \<open>flow_ran\<close>, the steps that were run, and
  \<open>finishes\<close>, how often \<^verbatim>\<open>event.Finish()\<close> was called.
\<close>

record FlowCtx =
  flow_errMsg :: errmsg
  nextIndex :: nat
  suspend :: bool
  flow_ran :: "nat list"
  finishes :: nat

definition FlowCtx_new :: FlowCtx where
  "FlowCtx_new = \<lparr>flow_errMsg = '''', nextIndex = 0, suspend = False, flow_ran = [], finishes = 0\<rparr>"

text \<open>
  What the code of a step may do with the flow: report an error, ask for suspension, or call
  \<^verbatim>\<open>Run\<close> itself, which is what happens when a client answers a request at once.
\<close>

datatype flow_act = SetErr errmsg | SetSuspend | RunAgain

type_synonym ploy = "flow_act list"

definition event_Finish :: "FlowCtx \<Rightarrow> FlowCtx" where
  "event_Finish c = c\<lparr>finishes := finishes c + 1\<rparr>"

section \<open>Running\<close>

text \<open>\<open>run\<close> is the inner call of \<^verbatim>\<open>Run\<close>.\<close>

fun ploy_acts :: "(FlowCtx \<Rightarrow> FlowCtx option) \<Rightarrow> ploy \<Rightarrow> FlowCtx \<Rightarrow> FlowCtx option" where
  "ploy_acts run [] c = Some c"
| "ploy_acts run (SetErr m # as) c = ploy_acts run as (c\<lparr>flow_errMsg := m\<rparr>)"
| "ploy_acts run (SetSuspend # as) c = ploy_acts run as (c\<lparr>suspend := True\<rparr>)"
| "ploy_acts run (RunAgain # as) c = Option.bind (run c) (ploy_acts run as)"

text \<open>The loop over the steps from index \<open>i\<close> on.\<close>

fun flow_loop :: "(FlowCtx \<Rightarrow> FlowCtx option) \<Rightarrow> nat \<Rightarrow> ploy list \<Rightarrow> FlowCtx \<Rightarrow> FlowCtx option" where
  "flow_loop run i [] c = Some (event_Finish c)"
| "flow_loop run i (p # ps) c =
     (case ploy_acts run p (c\<lparr>nextIndex := i + 1, flow_ran := flow_ran c @ [i]\<rparr>) of
        None \<Rightarrow> None
      | Some c \<Rightarrow>
          if flow_errMsg c \<noteq> '''' then Some (event_Finish c)
          else if suspend c then Some c
          else flow_loop run (i + 1) ps c)"

text \<open>
  \<^verbatim>\<open>Run\<close>.  The fuel bounds how deep the calls of \<^verbatim>\<open>Run\<close> inside steps nest;
  one more than the number of steps is enough (\<open>FlowService_Run_total\<close>).
\<close>

fun FlowService_Run :: "nat \<Rightarrow> ploy list \<Rightarrow> FlowCtx \<Rightarrow> FlowCtx option" where
  "FlowService_Run 0 ps c = None"
| "FlowService_Run (Suc fuel) ps c =
     (let c = c\<lparr>suspend := False\<rparr> in
      if flow_errMsg c \<noteq> '''' then Some (event_Finish c)
      else flow_loop (FlowService_Run fuel ps) (nextIndex c) (drop (nextIndex c) ps) c)"

definition FlowService_AddPloy :: "ploy \<Rightarrow> ploy list \<Rightarrow> ploy list" where
  "FlowService_AddPloy p ps = ps @ [p]"

text \<open>
  A call of \<^verbatim>\<open>Run\<close>: the first, or that of an answer's handler.  It comes with the error its caller has put
  into the context, if any.
\<close>

definition flow_call :: "nat \<Rightarrow> ploy list \<Rightarrow> errmsg \<Rightarrow> FlowCtx \<Rightarrow> FlowCtx option" where
  "flow_call fuel ps m c = FlowService_Run fuel ps (if m = [] then c else c\<lparr>flow_errMsg := m\<rparr>)"

fun flow_history :: "nat \<Rightarrow> ploy list \<Rightarrow> errmsg list \<Rightarrow> FlowCtx \<Rightarrow> FlowCtx option" where
  "flow_history fuel ps [] c = Some c"
| "flow_history fuel ps (m # ms) c = Option.bind (flow_call fuel ps m c) (flow_history fuel ps ms)"

text \<open>Callers that call only while the event has not been finished.\<close>

fun called_unfinished :: "nat \<Rightarrow> ploy list \<Rightarrow> errmsg list \<Rightarrow> FlowCtx \<Rightarrow> bool" where
  "called_unfinished fuel ps [] c = True"
| "called_unfinished fuel ps (m # ms) c =
     (finishes c = 0 \<and> (case flow_call fuel ps m c of None \<Rightarrow> True | Some c' \<Rightarrow> called_unfinished fuel ps ms c'))"

section \<open>Lemmas\<close>

lemma ploy_acts_total:
  assumes "\<And>c. k \<le> nextIndex c \<Longrightarrow> \<exists>c'. run c = Some c' \<and> nextIndex c \<le> nextIndex c'" "k \<le> nextIndex c"
  shows "\<exists>c'. ploy_acts run p c = Some c' \<and> nextIndex c \<le> nextIndex c'"
  using assms(2)
proof (induction p arbitrary: c)
  case (Cons a p)
  show ?case
  proof (cases a)
    case RunAgain
    from assms(1) [OF Cons.prems] obtain c1 where c1: "run c = Some c1" "nextIndex c \<le> nextIndex c1" by blast
    with Cons.prems Cons.IH [of c1] RunAgain show ?thesis by auto
  next
    case (SetErr m)
    with Cons.IH [of "c\<lparr>flow_errMsg := m\<rparr>"] Cons.prems show ?thesis by simp
  next
    case SetSuspend
    with Cons.IH [of "c\<lparr>suspend := True\<rparr>"] Cons.prems show ?thesis by simp
  qed
qed simp

lemma flow_loop_total:
  assumes "\<And>c. i < nextIndex c \<Longrightarrow> \<exists>c'. run c = Some c' \<and> nextIndex c \<le> nextIndex c'"
  shows "\<exists>c'. flow_loop run i ps c = Some c' \<and> min i (nextIndex c) \<le> nextIndex c'"
  using assms
proof (induction ps arbitrary: i c)
  case (Cons p ps)
  let ?c = "c\<lparr>nextIndex := i + 1, flow_ran := flow_ran c @ [i]\<rparr>"
  from ploy_acts_total [of "i + 1" run ?c p] Cons.prems obtain c1 where
    c1: "ploy_acts run p ?c = Some c1" "i + 1 \<le> nextIndex c1" by auto
  from Cons.IH [of "i + 1" c1] Cons.prems obtain c2 where
    c2: "flow_loop run (i + 1) ps c1 = Some c2" "min (i + 1) (nextIndex c1) \<le> nextIndex c2" by auto
  show ?case using c1 c2 by (cases "flow_errMsg c1 \<noteq> ''''"; cases "suspend c1") (auto simp: event_Finish_def)
qed (simp add: event_Finish_def)

lemma FlowService_Run_enough:
  "length ps < fuel + nextIndex c \<Longrightarrow> 0 < fuel \<Longrightarrow>
     \<exists>c'. FlowService_Run fuel ps c = Some c' \<and> nextIndex c \<le> nextIndex c'"
proof (induction fuel arbitrary: c)
  case (Suc fuel)
  let ?c = "c\<lparr>suspend := False\<rparr>"
  have r: "\<exists>c'. FlowService_Run fuel ps x = Some c' \<and> nextIndex x \<le> nextIndex c'"
    if "nextIndex c < nextIndex x" "0 < fuel" for x
    using Suc.IH [of x] Suc.prems that by simp
  show ?case
  proof (cases "flow_errMsg c = '''' \<and> nextIndex c < length ps")
    case True
    with Suc.prems have "0 < fuel" by simp
    with r flow_loop_total [of "nextIndex c" "FlowService_Run fuel ps" "drop (nextIndex c) ps" ?c] True
    show ?thesis by auto
  next
    case False
    then show ?thesis by (auto simp: event_Finish_def Let_def)
  qed
qed simp

text \<open>Steps that do not call \<^verbatim>\<open>Run\<close> themselves.\<close>

definition plain_ploy :: "ploy \<Rightarrow> bool" where
  "plain_ploy p \<longleftrightarrow> RunAgain \<notin> set p"

lemma plain_acts:
  "plain_ploy p \<Longrightarrow> \<exists>m b. ploy_acts run p c = Some (c\<lparr>flow_errMsg := m, suspend := b\<rparr>)"
proof (induction p arbitrary: c)
  case Nil
  show ?case by (rule exI [of _ "flow_errMsg c"], rule exI [of _ "suspend c"]) simp
next
  case (Cons a p)
  then have p: "plain_ploy p" by (simp add: plain_ploy_def)
  show ?case
  proof (cases a)
    case (SetErr m)
    from Cons.IH [OF p, of "c\<lparr>flow_errMsg := m\<rparr>"] SetErr show ?thesis by simp
  next
    case SetSuspend
    from Cons.IH [OF p, of "c\<lparr>suspend := True\<rparr>"] SetSuspend show ?thesis by simp
  qed (use Cons.prems in \<open>simp add: plain_ploy_def\<close>)
qed

definition flow_inv :: "ploy list \<Rightarrow> FlowCtx \<Rightarrow> bool" where
  "flow_inv ps c \<longleftrightarrow> flow_ran c = [0..<nextIndex c] \<and> nextIndex c \<le> length ps"

text \<open>A call finishes the event once, without an error only behind the last step, or it gets on.\<close>

definition flow_turn :: "ploy list \<Rightarrow> FlowCtx \<Rightarrow> FlowCtx \<Rightarrow> bool" where
  "flow_turn ps c c' \<longleftrightarrow> flow_inv ps c' \<and>
     (finishes c' = Suc (finishes c) \<and> (flow_errMsg c' = [] \<longrightarrow> nextIndex c' = length ps) \<or>
      finishes c' = finishes c \<and> nextIndex c < nextIndex c')"

lemma flow_loop_plain:
  assumes "\<forall>p\<in>set qs. plain_ploy p" "flow_ran c = [0..<i]" "nextIndex c = i" "i + length qs = length ps"
  shows "\<exists>c'. flow_loop run i qs c = Some c' \<and> flow_turn ps c c'"
  using assms
proof (induction qs arbitrary: i c)
  case (Cons q qs)
  let ?c = "c\<lparr>nextIndex := i + 1, flow_ran := flow_ran c @ [i]\<rparr>"
  from Cons.prems(1) have "plain_ploy q" by simp
  from plain_acts [OF this, of run ?c] obtain m b where
    a: "ploy_acts run q ?c = Some (?c\<lparr>flow_errMsg := m, suspend := b\<rparr>)" by blast
  let ?c1 = "?c\<lparr>flow_errMsg := m, suspend := b\<rparr>"
  have "\<exists>c'. flow_loop run (i + 1) qs ?c1 = Some c' \<and> flow_turn ps ?c1 c'"
    by (rule Cons.IH) (use Cons.prems in auto)
  with a Cons.prems show ?case by (cases "m = []"; cases b) (auto simp: flow_turn_def flow_inv_def event_Finish_def)
qed (simp add: flow_turn_def flow_inv_def event_Finish_def)

lemma flow_call_plain:
  assumes "\<forall>p\<in>set ps. plain_ploy p" "flow_inv ps c"
  shows "\<exists>c'. flow_call (Suc fuel) ps m c = Some c' \<and> flow_turn ps c c'"
proof -
  let ?c = "(if m = [] then c else c\<lparr>flow_errMsg := m\<rparr>)\<lparr>suspend := False\<rparr>"
  show ?thesis
  proof (cases "flow_errMsg ?c = []")
    case True
    have "\<exists>c'. flow_loop (FlowService_Run fuel ps) (nextIndex c) (drop (nextIndex c) ps) ?c = Some c' \<and> flow_turn ps ?c c'"
      by (rule flow_loop_plain) (use assms in \<open>auto simp: flow_inv_def dest: in_set_dropD\<close>)
    with True show ?thesis by (auto simp: flow_call_def flow_turn_def split: if_splits)
  next
    case False
    with assms(2) show ?thesis by (auto simp: flow_call_def flow_turn_def flow_inv_def event_Finish_def)
  qed
qed

lemma flow_history_plain:
  assumes "\<forall>p\<in>set ps. plain_ploy p" "flow_inv ps c" "0 < finishes c \<or> n \<le> nextIndex c"
  shows "\<exists>c'. flow_history (Suc fuel) ps ms c = Some c' \<and> flow_inv ps c' \<and> (0 < finishes c' \<or> n + length ms \<le> nextIndex c')"
  using assms(2,3)
proof (induction ms arbitrary: c n)
  case (Cons m ms)
  from flow_call_plain [OF assms(1) Cons.prems(1), of fuel m] obtain c1 where
    c1: "flow_call (Suc fuel) ps m c = Some c1" "flow_turn ps c c1" by blast
  then have "flow_inv ps c1" "0 < finishes c1 \<or> Suc n \<le> nextIndex c1" using Cons.prems(2) by (auto simp: flow_turn_def)
  from Cons.IH [OF this] c1(1) show ?case by auto
qed simp

lemma flow_history_once:
  assumes "\<forall>p\<in>set ps. plain_ploy p" "flow_inv ps c" "called_unfinished (Suc fuel) ps ms c" "flow_history (Suc fuel) ps ms c = Some c'"
    and "finishes c \<le> 1" "finishes c = 1 \<and> flow_errMsg c = [] \<longrightarrow> nextIndex c = length ps"
  shows "finishes c' \<le> 1 \<and> (finishes c' = 1 \<and> flow_errMsg c' = [] \<longrightarrow> nextIndex c' = length ps)"
  using assms(2-)
proof (induction ms arbitrary: c)
  case (Cons m ms)
  from flow_call_plain [OF assms(1) Cons.prems(1), of fuel m] obtain c1 where
    c1: "flow_call (Suc fuel) ps m c = Some c1" "flow_turn ps c c1" by blast
  with Cons.prems(2,3) have "finishes c = 0" "called_unfinished (Suc fuel) ps ms c1" "flow_history (Suc fuel) ps ms c1 = Some c'" by auto
  with c1(2) Cons.IH [of c1] show ?case by (auto simp: flow_turn_def)
qed simp

section \<open>Properties\<close>

text \<open>
  C27.  A request runs every step at most once, in order.  If the steps do not call \<^verbatim>\<open>Run\<close> inside
  themselves, then whatever they do otherwise and whatever the answers that resume the flow report, after any number of
  calls of \<^verbatim>\<open>Run\<close> the steps run are an initial segment of the list, and as soon as there were more calls
  than steps the event has been finished.  If no call comes after the event has been finished (the code does not check
  this), it is finished at most once, and without an error only behind the last step.  Both conditions are needed:
  \<open>Flow_answered_at_once_runs_twice\<close> and \<open>Flow_error_suspended_finishes_twice\<close>.
\<close>

theorem Flow_runs_each_once:
  assumes "\<forall>p\<in>set ps. plain_ploy p"
  shows "\<exists>c. flow_history (Suc fuel) ps ms FlowCtx_new = Some c \<and> flow_ran c = [0..<nextIndex c] \<and>
    nextIndex c \<le> length ps \<and> (length ps < length ms \<longrightarrow> 0 < finishes c) \<and>
    (called_unfinished (Suc fuel) ps ms FlowCtx_new \<longrightarrow>
       finishes c \<le> 1 \<and> (finishes c = 1 \<and> flow_errMsg c = [] \<longrightarrow> nextIndex c = length ps))"
proof -
  have i: "flow_inv ps FlowCtx_new" by (simp add: flow_inv_def FlowCtx_new_def)
  from flow_history_plain [OF assms i, of 0 fuel ms] obtain c where
    c: "flow_history (Suc fuel) ps ms FlowCtx_new = Some c" "flow_inv ps c" "0 < finishes c \<or> length ms \<le> nextIndex c" by auto
  have "finishes FlowCtx_new = 0" by (simp add: FlowCtx_new_def)
  with c flow_history_once [OF assms i _ c(1)] show ?thesis by (intro exI [of _ c]) (auto simp: flow_inv_def)
qed

theorem Flow_runs_each_once_witness:
  "\<exists>c. flow_history 1 [[SetSuspend], [], [SetErr ''no'']] [[], []] FlowCtx_new = Some c \<and>
     finishes c = 1 \<and> flow_ran c = [0, 1, 2]"
proof -
  let ?ps = "[[SetSuspend], [], [SetErr ''no'']]"
  have "\<forall>p\<in>set ?ps. plain_ploy p" by (simp add: plain_ploy_def)
  from Flow_runs_each_once [OF this, of 0 "[[], []]"] obtain c where
    c: "flow_history 1 ?ps [[], []] FlowCtx_new = Some c" "flow_ran c = [0..<nextIndex c]"
      "called_unfinished 1 ?ps [[], []] FlowCtx_new \<longrightarrow> finishes c \<le> 1" by auto
  have "called_unfinished 1 ?ps [[], []] FlowCtx_new" by (simp add: flow_call_def FlowCtx_new_def)
  moreover have "0 < finishes c \<and> nextIndex c = 3" using c(1) by (auto simp: flow_call_def FlowCtx_new_def event_Finish_def)
  moreover have "[0..<3] = [0, 1, 2 :: nat]" by (simp add: upt_rec)
  ultimately show ?thesis using c by (intro exI [of _ c]) auto
qed

text \<open>
  A step that has sent a request, asked for suspension and reports an error: the event is finished for the error, and once
  more when the answer comes before the event is gone.
\<close>

theorem Flow_error_suspended_finishes_twice:
  assumes "e \<noteq> []"
  shows "\<exists>c. flow_history (Suc fuel) ([SetSuspend, SetErr e] # ps) [[], []] FlowCtx_new = Some c \<and> flow_ran c = [0] \<and> finishes c = 2"
  using assms by (simp add: flow_call_def FlowCtx_new_def event_Finish_def)

text \<open>
  C28.  \<^verbatim>\<open>Run\<close> returns, also when steps call it again: nested calls start behind the step that
  makes them, so they nest no deeper than there are steps.
\<close>

theorem FlowService_Run_total:
  "\<exists>c'. FlowService_Run (Suc (length ps)) ps c = Some c'"
  using FlowService_Run_enough [of ps "Suc (length ps)" c] by auto

lemma flow_loop_idle:
  "flow_errMsg c = '''' \<Longrightarrow> \<not> suspend c \<Longrightarrow>
     flow_loop run i (replicate n []) c =
       Some (c\<lparr>nextIndex := if n = 0 then nextIndex c else i + n, flow_ran := flow_ran c @ [i..<i + n],
               finishes := finishes c + 1\<rparr>)"
  by (induction n arbitrary: i c) (auto simp: event_Finish_def upt_rec [of "Suc _"] upt_conv_Cons simp del: upt_Suc)

text \<open>
  A step that is answered at once, after it has asked for suspension, makes the flow run twice: the
  inner call clears the suspension, runs the rest and finishes the event; the outer call then goes on
  behind the step, runs the rest again and finishes the event again.
\<close>

theorem Flow_answered_at_once_runs_twice:
  "\<exists>c. FlowService_Run (Suc (Suc fuel)) ([SetSuspend, RunAgain] # replicate n []) FlowCtx_new = Some c \<and>
     flow_ran c = [0..<n + 1] @ [1..<n + 1] \<and> finishes c = 2"
  by (auto simp: FlowCtx_new_def flow_loop_idle upt_conv_Cons simp del: upt_Suc)

text \<open>
  The order the repository's own steps use, request first and suspension afterwards, is safe against
  that, but not against errors: when the answer comes at once and a later step fails, the inner call
  finishes the event and the outer one, seeing the error, finishes it again.
\<close>

theorem Flow_error_finishes_twice:
  assumes "e \<noteq> ''''"
  shows "\<exists>c. FlowService_Run (Suc (Suc fuel)) ([RunAgain, SetSuspend] # [SetErr e] # ps) FlowCtx_new = Some c \<and>
     flow_ran c = [0, 1] \<and> finishes c = 2"
  using assms by (simp add: FlowCtx_new_def event_Finish_def)

end
