(* ===== verification/Grpc_Service.thy ===== *)
theory Grpc_Service
  imports Text_Util Ordered_Map
begin

text \<open>
  The gRPC server's calls (\<^verbatim>\<open>grpc_server.h\<close>, \<^verbatim>\<open>grpc_service.h\<close>,
  \<^verbatim>\<open>grpc_looper.h\<close>) as a state machine over tags: each call owns a
  \<^verbatim>\<open>GrpcEvent\<close>, whose address is the tag the completion queue gives back.  The queue itself
  is third-party code; what is used of it is that it returns a tag once for every operation started with
  it.  At the end the trace ids (\<^verbatim>\<open>trace_id.h\<close>).
\<close>

section \<open>State\<close>

datatype server_status = SPROCESS | SPROCESSING
datatype service_status = PROCESS | FINISH

text \<open>
  One call: the service it belongs to, the state of \<^verbatim>\<open>GrpcServerEvent\<close> and of \<^verbatim>\<open>GrpcServiceEvent\<close>, and two
  observations: \<open>g_pending\<close>, the operations started with the tag and not yet returned, and
  \<open>g_alive\<close>, whether the \<^verbatim>\<open>GrpcEvent\<close> still exists.
\<close>

record grpc_event =
  g_of :: nat
  g_server :: server_status
  g_service :: service_status
  g_pending :: nat
  g_alive :: bool

text \<open>The tags made so far, in order; a tag is its position.\<close>

type_synonym grpc_sys = "grpc_event list"

text \<open>
  \<^verbatim>\<open>Init\<close> of the server's event makes the service's event, whose constructor starts the wait
  for a request.
\<close>

definition GrpcServiceEvent_new :: "nat \<Rightarrow> grpc_event" where
  "GrpcServiceEvent_new v = \<lparr>g_of = v, g_server = SPROCESS, g_service = PROCESS, g_pending = 1, g_alive = True\<rparr>"

definition GrpcServerEvent_Init :: "nat \<Rightarrow> grpc_sys \<Rightarrow> grpc_sys" where
  "GrpcServerEvent_Init v s = s @ [GrpcServiceEvent_new v]"

definition upd :: "nat \<Rightarrow> (grpc_event \<Rightarrow> grpc_event) \<Rightarrow> grpc_sys \<Rightarrow> grpc_sys" where
  "upd t f s = s[t := f (s ! t)]"

text \<open>\<^verbatim>\<open>Finish\<close> of the service's event starts the response with the same tag.\<close>

definition GrpcServiceEvent_Finish :: "nat \<Rightarrow> grpc_sys \<Rightarrow> grpc_sys" where
  "GrpcServiceEvent_Finish t = upd t (\<lambda>e. e\<lparr>g_service := FINISH, g_pending := g_pending e + 1\<rparr>)"

text \<open>
  \<open>onMessage\<close> tells how often the user's handler calls \<^verbatim>\<open>Finish\<close> before it returns; it is
  given the message of the call, \<^verbatim>\<open>canceled\<close> when the queue reports failure.
\<close>

definition GrpcServiceEvent_Proceed :: "(nat \<Rightarrow> errmsg \<Rightarrow> nat) \<Rightarrow> nat \<Rightarrow> bool \<Rightarrow> grpc_sys \<Rightarrow> grpc_sys" where
  "GrpcServiceEvent_Proceed onMessage t ok s =
     (case g_service (s ! t) of
        PROCESS \<Rightarrow>
          (let s = upd t (g_service_update (\<lambda>_. FINISH)) s
           in (GrpcServiceEvent_Finish t ^^ onMessage t (if ok then '''' else ''canceled'')) s)
      | FINISH \<Rightarrow> upd t (g_alive_update (\<lambda>_. False)) s)"

definition GrpcServerEvent_Proceed :: "(nat \<Rightarrow> errmsg \<Rightarrow> nat) \<Rightarrow> nat \<Rightarrow> bool \<Rightarrow> grpc_sys \<Rightarrow> grpc_sys" where
  "GrpcServerEvent_Proceed onMessage t ok s =
     (case g_server (s ! t) of
        SPROCESS \<Rightarrow>
          GrpcServiceEvent_Proceed onMessage t ok
            (GrpcServerEvent_Init (g_of (s ! t)) (upd t (g_server_update (\<lambda>_. SPROCESSING)) s))
      | SPROCESSING \<Rightarrow> GrpcServiceEvent_Proceed onMessage t ok s)"

text \<open>
  One turn of the looper: the queue returns a tag with a pending operation.  \<open>None\<close> is a call on an
  event that has been deleted.
\<close>

definition GrpcLooper_next :: "(nat \<Rightarrow> errmsg \<Rightarrow> nat) \<Rightarrow> nat \<Rightarrow> bool \<Rightarrow> grpc_sys \<Rightarrow> grpc_sys option" where
  "GrpcLooper_next onMessage t ok s =
     (if \<not> g_alive (s ! t) then None
      else Some (GrpcServerEvent_Proceed onMessage t ok (upd t (\<lambda>e. e\<lparr>g_pending := g_pending e - 1\<rparr>) s)))"

text \<open>
  A history.  A later \<^verbatim>\<open>Finish\<close> comes from the handler of some answer and only reaches a call
  that still exists (\<^verbatim>\<open>serviceEvent_.lock()\<close>).
\<close>

datatype grpc_input = QueueReturns nat bool | LaterFinish nat

fun grpc_step :: "(nat \<Rightarrow> errmsg \<Rightarrow> nat) \<Rightarrow> grpc_input \<Rightarrow> grpc_sys \<Rightarrow> grpc_sys option" where
  "grpc_step onMessage (QueueReturns t ok) s =
     (if t < length s \<and> 0 < g_pending (s ! t) then GrpcLooper_next onMessage t ok s else Some s)"
| "grpc_step onMessage (LaterFinish t) s =
     (if t < length s \<and> g_service (s ! t) = FINISH \<and> g_alive (s ! t) then Some (GrpcServiceEvent_Finish t s) else Some s)"

fun grpc_events :: "(nat \<Rightarrow> errmsg \<Rightarrow> nat) \<Rightarrow> grpc_input list \<Rightarrow> grpc_sys \<Rightarrow> grpc_sys option" where
  "grpc_events onMessage [] s = Some s"
| "grpc_events onMessage (i # is) s = Option.bind (grpc_step onMessage i s) (grpc_events onMessage is)"

text \<open>
  The server: its address, the ports and services given to the library's builder, and the map of the
  services by name.  A service is a number.
\<close>

record GrpcServer =
  sv_addr :: string
  sv_ports :: "string list"
  sv_builder :: "nat list"
  sv_services :: "(string, nat) omap"

definition GrpcServer_new :: "string \<Rightarrow> GrpcServer" where
  "GrpcServer_new addr = \<lparr>sv_addr = addr, sv_ports = [], sv_builder = [], sv_services = []\<rparr>"

definition GrpcServer_Init :: "GrpcServer \<Rightarrow> GrpcServer" where
  "GrpcServer_Init sv = sv\<lparr>sv_ports := sv_ports sv @ [sv_addr sv]\<rparr>"

definition GrpcServer_Register :: "string \<Rightarrow> nat \<Rightarrow> GrpcServer \<Rightarrow> GrpcServer" where
  "GrpcServer_Register name v sv =
     sv\<lparr>sv_builder := sv_builder sv @ [v], sv_services := map_insert name v (sv_services sv)\<rparr>"

text \<open>
  \<^verbatim>\<open>Run\<close> starts one event for every service of the map, in the order of the names.  Making the
  event of a service whose message handler was not set ends the program (\<open>None\<close>); \<open>handled\<close> tells
  which have one.
\<close>

definition GrpcService_CreateEvent :: "(nat \<Rightarrow> bool) \<Rightarrow> nat \<Rightarrow> grpc_sys \<Rightarrow> grpc_sys option" where
  "GrpcService_CreateEvent handled v s = (if \<not> handled v then None else Some (GrpcServerEvent_Init v s))"

fun GrpcServer_start :: "(nat \<Rightarrow> bool) \<Rightarrow> nat list \<Rightarrow> grpc_sys \<Rightarrow> grpc_sys option" where
  "GrpcServer_start handled [] s = Some s"
| "GrpcServer_start handled (v # vs) s =
     Option.bind (GrpcService_CreateEvent handled v s) (GrpcServer_start handled vs)"

definition GrpcServer_Run :: "(nat \<Rightarrow> bool) \<Rightarrow> GrpcServer \<Rightarrow> grpc_sys option" where
  "GrpcServer_Run handled sv = GrpcServer_start handled (map snd (sv_services sv)) []"

text \<open>A server after a series of registrations.\<close>

definition GrpcServer_with :: "string \<Rightarrow> (string \<times> nat) list \<Rightarrow> GrpcServer" where
  "GrpcServer_with addr regs =
     fold (\<lambda>(name, v). GrpcServer_Register name v) regs (GrpcServer_Init (GrpcServer_new addr))"

text \<open>How often a history asks later for the response of a call.\<close>

definition asked :: "grpc_input list \<Rightarrow> nat \<Rightarrow> nat" where
  "asked is t = length (filter (\<lambda>i. i = LaterFinish t) is)"

text \<open>The calls of a service that wait for a request.\<close>

definition listening :: "nat \<Rightarrow> grpc_sys \<Rightarrow> nat set" where
  "listening v s = {t. t < length s \<and> g_server (s ! t) = SPROCESS \<and> g_of (s ! t) = v}"

section \<open>Trace ids\<close>

text \<open>
  \<^verbatim>\<open>GetTraceId\<close> increments the counter and then reads it again: two atomic accesses, here as two
  steps of a thread.  \<open>ti_got\<close> collects the ids handed out.
\<close>

record trace =
  traceId :: u64
  ti_between :: "nat set"
  ti_got :: "(nat \<times> string) list"

datatype trace_step = Increment nat | ReadId nat

fun trace_do :: "trace_step \<Rightarrow> trace \<Rightarrow> trace" where
  "trace_do (Increment th) s = s\<lparr>traceId := traceId s + 1, ti_between := insert th (ti_between s)\<rparr>"
| "trace_do (ReadId th) s =
     (if th \<in> ti_between s
      then s\<lparr>ti_between := ti_between s - {th}, ti_got := ti_got s @ [(th, to_string (unat (traceId s)))]\<rparr>
      else s)"

definition TraceInstance_GetTraceId :: "nat \<Rightarrow> trace \<Rightarrow> trace" where
  "TraceInstance_GetTraceId th s = trace_do (ReadId th) (trace_do (Increment th) s)"

definition TraceInstance_new :: trace where
  "TraceInstance_new = \<lparr>traceId = 0, ti_between = {}, ti_got = []\<rparr>"

section \<open>Lemmas\<close>

text \<open>What holds of a call when at most one response is asked for, now or in the rest of the history.\<close>

definition call_ok :: "(nat \<Rightarrow> errmsg \<Rightarrow> nat) \<Rightarrow> grpc_input list \<Rightarrow> nat \<Rightarrow> grpc_event \<Rightarrow> bool" where
  "call_ok onMessage is t e \<longleftrightarrow>
     (case g_server e of
        SPROCESS \<Rightarrow> g_service e = PROCESS \<and> g_pending e = 1 \<and> g_alive e
      | SPROCESSING \<Rightarrow> g_service e = FINISH \<and>
          (if g_alive e then g_pending e + asked is t \<le> 1 else g_pending e = 0))"

definition grpc_inv :: "(nat \<Rightarrow> errmsg \<Rightarrow> nat) \<Rightarrow> nat set \<Rightarrow> grpc_input list \<Rightarrow> grpc_sys \<Rightarrow> bool" where
  "grpc_inv onMessage services is s \<longleftrightarrow>
     (\<forall>t<length s. call_ok onMessage is t (s ! t) \<and> g_of (s ! t) \<in> services) \<and>
     (\<forall>v\<in>services. \<exists>t. listening v s = {t})"

lemma asked_Cons: "asked (i # is) t = (if i = LaterFinish t then 1 else 0) + asked is t"
  by (simp add: asked_def)

lemma call_ok_weaken: "call_ok onMessage (i # is) t e \<Longrightarrow> call_ok onMessage is t e"
  by (auto simp: call_ok_def asked_Cons split: server_status.splits if_splits)

lemma upd_simps [simp]:
  "length (upd t f s) = length s"
  "t < length s \<Longrightarrow> upd t f s ! t = f (s ! t)"
  "u \<noteq> t \<Longrightarrow> upd t f s ! u = s ! u"
  "t < length s \<Longrightarrow> upd t f (upd t g s) = upd t (\<lambda>e. f (g e)) s"
  by (simp_all add: upd_def)

lemma GrpcServer_start_map:
  "(\<forall>v\<in>set vs. handled v) \<Longrightarrow> GrpcServer_start handled vs s = Some (s @ map GrpcServiceEvent_new vs)"
  by (induction vs arbitrary: s) (simp_all add: GrpcService_CreateEvent_def GrpcServerEvent_Init_def)

lemma started_inv:
  assumes "distinct vs"
  shows "grpc_inv onMessage (set vs) is (map GrpcServiceEvent_new vs)"
proof -
  have "\<exists>t. listening v (map GrpcServiceEvent_new vs) = {t}" if "v \<in> set vs" for v
  proof -
    from that obtain i where i: "i < length vs" "vs ! i = v" by (auto simp: in_set_conv_nth)
    then have "listening v (map GrpcServiceEvent_new vs) = {i}"
      using nth_eq_iff_index_eq [OF assms] by (auto simp: listening_def GrpcServiceEvent_new_def)
    then show ?thesis by blast
  qed
  then show ?thesis by (auto simp: grpc_inv_def call_ok_def GrpcServiceEvent_new_def)
qed

text \<open>The services that run are the first of each name.\<close>

lemma GrpcServer_with_services:
  "sv_services (GrpcServer_with addr regs) = fold (\<lambda>(k, v). map_insert k v) regs []"
proof -
  have "sv_services (fold (\<lambda>(name, v). GrpcServer_Register name v) regs sv) =
      fold (\<lambda>(k, v). map_insert k v) regs (sv_services sv)" for sv
    by (induction regs arbitrary: sv) (auto simp: GrpcServer_Register_def)
  then show ?thesis by (simp add: GrpcServer_with_def GrpcServer_Init_def GrpcServer_new_def)
qed

lemma GrpcServer_with_set:
  "omap_ok (sv_services (GrpcServer_with addr regs))"
  "(name, v) \<in> set (sv_services (GrpcServer_with addr regs)) \<longleftrightarrow> map_of regs name = Some v"
proof -
  show ok: "omap_ok (sv_services (GrpcServer_with addr regs))"
    unfolding GrpcServer_with_services by (rule om.fold_ins_ok [OF om.ok_empty])
  have "map_find name (sv_services (GrpcServer_with addr regs)) = map_of regs name"
    unfolding GrpcServer_with_services by (simp add: om.fold_ins_find [OF om.ok_empty])
  with map_find_in_set [OF ok, of name v] show "(name, v) \<in> set (sv_services (GrpcServer_with addr regs)) \<longleftrightarrow> map_of regs name = Some v"
    by simp
qed

lemma GrpcServer_Run_inv:
  assumes "distinct (map snd regs)" "\<forall>(name, v)\<in>set regs. handled v"
  shows "\<exists>g. GrpcServer_Run handled (GrpcServer_with addr regs) = Some g \<and>
    grpc_inv onMessage {v. \<exists>name. map_of regs name = Some v} is g"
proof -
  let ?m = "sv_services (GrpcServer_with addr regs)"
  have sub: "set ?m \<subseteq> set regs" using GrpcServer_with_set(2) map_of_SomeD by (metis subrelI)
  have "inj_on snd (set ?m)" by (rule inj_on_subset [OF _ sub]) (use assms(1) in \<open>simp add: distinct_map\<close>)
  moreover have "distinct ?m" using omap_ok_distinct [OF GrpcServer_with_set(1)] by (simp add: distinct_map)
  ultimately have "distinct (map snd ?m)" by (simp add: distinct_map)
  from started_inv [OF this] have "grpc_inv onMessage (set (map snd ?m)) is (map GrpcServiceEvent_new (map snd ?m))" .
  moreover have "set (map snd ?m) = {v. \<exists>name. map_of regs name = Some v}"
    using GrpcServer_with_set(2) [of _ _ addr regs] by (auto simp: image_iff) force
  moreover have "\<forall>v\<in>set (map snd ?m). handled v" using sub assms(2) by fastforce
  ultimately show ?thesis by (simp add: GrpcServer_Run_def GrpcServer_start_map)
qed

text \<open>A request has arrived: the call turns to processing and a new one listens in its place.\<close>

lemma grpc_request:
  assumes "t < length s" "g_server (s ! t) = SPROCESS" "g_service (s ! t) = PROCESS" "g_alive (s ! t)"
    and "k = onMessage t (if ok then '''' else ''canceled'')" "k \<le> 1" "g_pending (s ! t) = 1"
  shows "GrpcLooper_next onMessage t ok s =
    Some (upd t (\<lambda>e. e\<lparr>g_server := SPROCESSING, g_service := FINISH, g_pending := k\<rparr>) s @
          [GrpcServiceEvent_new (g_of (s ! t))])"
proof -
  have app: "upd t f (xs @ ys) = upd t f xs @ ys" if "t < length xs" for f ys and xs :: grpc_sys
    using that by (simp add: upd_def list_update_append nth_append)
  have u: "upd t f s = upd t g s" if "f (s ! t) = g (s ! t)" for f g
    using that by (simp add: upd_def)
  note defs = GrpcLooper_next_def GrpcServerEvent_Proceed_def GrpcServiceEvent_Proceed_def
    GrpcServiceEvent_Finish_def GrpcServerEvent_Init_def app nth_append Let_def
  consider "onMessage t (if ok then '''' else ''canceled'') = 0" "k = 0"
    | "onMessage t (if ok then '''' else ''canceled'') = Suc 0" "k = Suc 0"
    using assms(5,6) by linarith
  then show ?thesis
  proof cases
    case 1
    with assms(1-4,7) show ?thesis by (simp add: defs) (rule u, simp)
  next
    case 2
    with assms(1-4,7) show ?thesis by (simp add: defs) (rule u, simp)
  qed
qed

lemma grpc_response:
  assumes "t < length s" "g_server (s ! t) = SPROCESSING" "g_service (s ! t) = FINISH" "g_alive (s ! t)"
  shows "GrpcLooper_next onMessage t ok s =
    Some (upd t (\<lambda>e. e\<lparr>g_pending := g_pending e - 1, g_alive := False\<rparr>) s)"
  using assms by (simp add: GrpcLooper_next_def GrpcServerEvent_Proceed_def GrpcServiceEvent_Proceed_def)

lemma listening_simps:
  "listening v (s @ [GrpcServiceEvent_new w]) = listening v s \<union> (if v = w then {length s} else {})"
  by (auto simp: listening_def GrpcServiceEvent_new_def nth_append less_Suc_eq)

lemma listening_upd:
  "t < length s \<Longrightarrow> g_server (f (s ! t)) = SPROCESSING \<Longrightarrow> listening v (upd t f s) = listening v s - {t}"
  by (auto simp: listening_def upd_def nth_list_update)

lemma listening_request:
  assumes "t < length s" "g_server (s ! t) = SPROCESS" "g_server (f (s ! t)) = SPROCESSING" "listening v s = {x}"
  shows "\<exists>x. listening v (upd t f s @ [GrpcServiceEvent_new (g_of (s ! t))]) = {x}"
proof (cases "v = g_of (s ! t)")
  case True
  then have "t \<in> listening v s" using assms(1,2) by (simp add: listening_def)
  with assms(4) have "listening v s = {t}" by auto
  then have "listening v (upd t f s @ [GrpcServiceEvent_new (g_of (s ! t))]) = {length s}"
    using listening_upd [of t s f v] assms(1,3) True by (simp add: listening_simps)
  then show ?thesis by blast
next
  case False
  then have "t \<notin> listening v s" by (simp add: listening_def)
  with listening_upd [of t s f v] assms(1,3,4) False show ?thesis by (simp add: listening_simps)
qed

lemma grpc_step_inv:
  assumes i: "grpc_inv onMessage services (i # is) s"
    and once: "\<And>t m. onMessage t m + asked (i # is) t \<le> 1"
  shows "\<exists>s'. grpc_step onMessage i s = Some s' \<and> grpc_inv onMessage services is s'"
proof -
  have ok: "call_ok onMessage (i # is) t (s ! t)" if "t < length s" for t
    using i that by (simp add: grpc_inv_def)
  have of_service: "g_of (s ! t) \<in> services" if "t < length s" for t using i that by (simp add: grpc_inv_def)
  have l: "\<exists>t. listening v s = {t}" if "v \<in> services" for v using i that by (simp add: grpc_inv_def)
  have keep: "grpc_inv onMessage services is s"
    using i call_ok_weaken by (auto simp: grpc_inv_def)
  have upd_inv: "grpc_inv onMessage services is (upd t f s)"
    if "t < length s" "g_server (s ! t) = SPROCESSING" "g_server (f (s ! t)) = SPROCESSING"
      "call_ok onMessage is t (f (s ! t))" "g_of (f (s ! t)) = g_of (s ! t)" for t f
  proof -
    have "t \<notin> listening v s" for v using that(2) by (simp add: listening_def)
    then have "listening v (upd t f s) = listening v s" for v using listening_upd [of t s f v] that(1,3) by simp
    with l have "\<exists>t'. listening v (upd t f s) = {t'}" if "v \<in> services" for v using that by simp
    moreover have "call_ok onMessage is u (upd t f s ! u)" "g_of (upd t f s ! u) \<in> services" if "u < length s" for u
      using call_ok_weaken [OF ok [OF that]] of_service [OF that] \<open>call_ok onMessage is t (f (s ! t))\<close> \<open>t < length s\<close>
        \<open>g_of (f (s ! t)) = g_of (s ! t)\<close>
      by (cases "u = t"; simp)+
    ultimately show ?thesis by (simp add: grpc_inv_def)
  qed
  show ?thesis
  proof (cases i)
    case (QueueReturns t b)
    show ?thesis
    proof (cases "t < length s \<and> 0 < g_pending (s ! t)")
      case False
      then have "grpc_step onMessage i s = Some s" using QueueReturns by (simp only: grpc_step.simps if_False)
      with keep show ?thesis by blast
    next
      case True
      show ?thesis
      proof (cases "g_server (s ! t)")
        case SPROCESS
        with ok [of t] True have p: "g_service (s ! t) = PROCESS" "g_pending (s ! t) = 1" "g_alive (s ! t)"
          by (auto simp: call_ok_def)
        define k where "k = onMessage t (if b then '''' else ''canceled'')"
        have k: "k + asked is t \<le> 1" using once [of t "if b then '''' else ''canceled''"] by (simp add: k_def asked_Cons QueueReturns)
        let ?f = "\<lambda>e. e\<lparr>g_server := SPROCESSING, g_service := FINISH, g_pending := k\<rparr>"
        let ?s = "upd t ?f s @ [GrpcServiceEvent_new (g_of (s ! t))]"
        from grpc_request [of t s k onMessage b] SPROCESS p k_def k True QueueReturns
        have s': "grpc_step onMessage i s = Some ?s" by simp
        have "call_ok onMessage is u (?s ! u)" if u: "u < length ?s" for u
        proof (cases "u < length s")
          case ul: True
          with call_ok_weaken [OF ok [OF ul]] True p(3) k show ?thesis
            by (cases "u = t") (auto simp: nth_append call_ok_def)
        next
          case False
          with u have "u = length s" by simp
          then show ?thesis by (simp add: nth_append call_ok_def GrpcServiceEvent_new_def)
        qed
        moreover have "\<exists>x. listening v ?s = {x}" if "v \<in> services" for v
          using l [OF that] listening_request [of t s ?f v] True SPROCESS by auto
        moreover have "g_of (?s ! u) \<in> services" if "u < length ?s" for u
          using that of_service True by (cases "u = t") (auto simp: nth_append less_Suc_eq GrpcServiceEvent_new_def)
        ultimately have "grpc_inv onMessage services is ?s" unfolding grpc_inv_def by blast
        with s' show ?thesis by blast
      next
        case SPROCESSING
        with ok [of t] True have p: "g_service (s ! t) = FINISH" "g_alive (s ! t)" "g_pending (s ! t) \<le> 1"
          by (auto simp: call_ok_def split: if_splits)
        from grpc_response [of t s onMessage b] SPROCESSING p(1,2) True QueueReturns have
          "grpc_step onMessage i s = Some (upd t (\<lambda>e. e\<lparr>g_pending := g_pending e - 1, g_alive := False\<rparr>) s)" by simp
        with upd_inv [of t "\<lambda>e. e\<lparr>g_pending := g_pending e - 1, g_alive := False\<rparr>"] SPROCESSING True p
        show ?thesis by (simp add: call_ok_def)
      qed
    qed
  next
    case (LaterFinish t)
    show ?thesis
    proof (cases "t < length s \<and> g_service (s ! t) = FINISH \<and> g_alive (s ! t)")
      case False
      with LaterFinish keep show ?thesis by auto
    next
      case True
      with ok [of t] LaterFinish have p: "g_server (s ! t) = SPROCESSING" "g_pending (s ! t) + Suc (asked is t) \<le> 1"
        by (auto simp: call_ok_def asked_Cons split: server_status.splits)
      with upd_inv [of t "\<lambda>e. e\<lparr>g_service := FINISH, g_pending := g_pending e + 1\<rparr>"] True LaterFinish
      show ?thesis by (simp add: GrpcServiceEvent_Finish_def call_ok_def)
    qed
  qed
qed

lemma grpc_events_inv:
  assumes "grpc_inv onMessage services is s" "\<And>t m. onMessage t m + asked is t \<le> 1"
  shows "\<exists>s'. grpc_events onMessage is s = Some s' \<and> grpc_inv onMessage services [] s'"
  using assms
proof (induction "is" arbitrary: s)
  case (Cons i "is")
  from grpc_step_inv [OF Cons.prems] obtain s1 where
    s1: "grpc_step onMessage i s = Some s1" "grpc_inv onMessage services is s1" by blast
  have "onMessage t m + asked is t \<le> 1" for t m
    using Cons.prems(2) [of t m] by (simp add: asked_Cons split: if_splits)
  from Cons.IH [OF s1(2) this] s1(1) show ?case by simp
qed simp

lemma GetTraceId_eq:
  "TraceInstance_GetTraceId th s =
     s\<lparr>traceId := traceId s + 1, ti_between := ti_between s - {th},
       ti_got := ti_got s @ [(th, to_string (unat (traceId s + 1)))]\<rparr>"
  by (simp add: TraceInstance_GetTraceId_def)

lemma trace_count: "traceId (fold TraceInstance_GetTraceId ths s) = traceId s + of_nat (length ths)"
  by (induction ths arbitrary: s) (simp_all add: GetTraceId_eq)

lemma trace_ids:
  "map snd (ti_got (fold TraceInstance_GetTraceId ths s)) =
     map snd (ti_got s) @ map (\<lambda>i. to_string (unat (traceId s + of_nat i + 1))) [0..<length ths]"
proof (induction ths rule: rev_induct)
  case (snoc th ths)
  have "fold TraceInstance_GetTraceId (ths @ [th]) s = TraceInstance_GetTraceId th (fold TraceInstance_GetTraceId ths s)"
    by simp
  with snoc show ?case by (simp only: GetTraceId_eq [of th]) (simp add: trace_count)
qed simp

section \<open>Properties\<close>

text \<open>
  C26.  The server keeps listening and never touches a deleted call.  If every registered service has a
  message handler, and the response of every call is asked for at most once, by the message handler or later,
  then the server starts, and whatever order the completion queue returns the tags in, and with whatever
  success: no history calls a deleted event; the service registered first under its name has exactly one call
  waiting for a request, another service of that name has none; and a deleted call has no operation under way.
\<close>

theorem Grpc_keeps_listening:
  assumes "\<forall>t m. onMessage t m + asked is t \<le> 1" "distinct (map snd regs)" "\<forall>(name, v)\<in>set regs. handled v"
  shows "\<exists>s. Option.bind (GrpcServer_Run handled (GrpcServer_with addr regs)) (grpc_events onMessage is) = Some s \<and>
    (\<forall>(name, v)\<in>set regs.
       if map_of regs name = Some v then \<exists>!t. t < length s \<and> g_server (s ! t) = SPROCESS \<and> g_of (s ! t) = v
       else \<forall>t<length s. g_of (s ! t) \<noteq> v) \<and>
    (\<forall>t<length s. g_alive (s ! t) \<or> g_pending (s ! t) = 0)"
proof -
  let ?S = "{v. \<exists>name. map_of regs name = Some v}"
  from GrpcServer_Run_inv [OF assms(2,3)] obtain g where
    g: "GrpcServer_Run handled (GrpcServer_with addr regs) = Some g" "grpc_inv onMessage ?S is g" by blast
  from grpc_events_inv [OF g(2)] assms(1) obtain s where
    s: "grpc_events onMessage is g = Some s" "grpc_inv onMessage ?S [] s" by blast
  have one: "\<exists>!t. t < length s \<and> g_server (s ! t) = SPROCESS \<and> g_of (s ! t) = v" if "v \<in> ?S" for v
  proof -
    from s(2) that obtain t where "listening v s = {t}" unfolding grpc_inv_def by blast
    then have "u \<in> listening v s \<longleftrightarrow> u = t" for u by auto
    then show ?thesis unfolding listening_def by auto
  qed
  have none: "\<forall>t<length s. g_of (s ! t) \<noteq> v" if "(name, v) \<in> set regs" "map_of regs name \<noteq> Some v" for name v
  proof -
    have "v \<notin> ?S"
    proof
      assume "v \<in> ?S"
      then obtain n where n: "map_of regs n = Some v" by blast
      from assms(2) have "inj_on snd (set regs)" by (simp add: distinct_map)
      from inj_onD [OF this _ map_of_SomeD [OF n] that(1)] have "n = name" by simp
      with n that(2) show False by simp
    qed
    with s(2) show ?thesis unfolding grpc_inv_def by blast
  qed
  have "g_alive (s ! t) \<or> g_pending (s ! t) = 0" if "t < length s" for t
  proof -
    have "call_ok onMessage [] t (s ! t)" using s(2) that by (simp add: grpc_inv_def)
    then show ?thesis
      by (cases "g_server (s ! t)"; cases "g_alive (s ! t)") (simp_all add: call_ok_def)
  qed
  moreover have "\<forall>(name, v)\<in>set regs.
       if map_of regs name = Some v then \<exists>!t. t < length s \<and> g_server (s ! t) = SPROCESS \<and> g_of (s ! t) = v
       else \<forall>t<length s. g_of (s ! t) \<noteq> v"
    using one none by (simp split: prod.splits) blast
  ultimately show ?thesis using g(1) s(1) by (intro exI [of _ s]) simp
qed

theorem Grpc_keeps_listening_witness:
  "\<exists>s. Option.bind (GrpcServer_Run (\<lambda>_. True) (GrpcServer_with ''addr'' [(''a'', 5), (''a'', 6)]))
      (grpc_events (\<lambda>t m. if t = 0 then 1 else 0) [QueueReturns 0 True, QueueReturns 0 True, QueueReturns 1 True, LaterFinish 1]) = Some s \<and>
     (\<exists>!t. t < length s \<and> g_server (s ! t) = SPROCESS \<and> g_of (s ! t) = 5) \<and> (\<forall>t<length s. g_of (s ! t) \<noteq> 6)"
proof -
  have "\<forall>t m. (if t = 0 then 1 else 0 :: nat) +
    asked [QueueReturns 0 True, QueueReturns 0 True, QueueReturns 1 True, LaterFinish 1] t \<le> 1"
    by (auto simp: asked_def)
  from Grpc_keeps_listening [OF this, of "[(''a'', 5), (''a'', 6)]" "\<lambda>_. True" "''addr''"]
  show ?thesis by auto
qed

text \<open>
  The bound is needed: a message handler that asks for its response twice starts two operations with
  the same tag; the first that returns deletes the call, and the second is delivered to the deleted call.
\<close>

theorem Grpc_double_finish:
  "Option.bind (GrpcServer_Run (\<lambda>_. True) (GrpcServer_with addr [(name, 0)]))
     (grpc_events (\<lambda>_ _. 2) [QueueReturns 0 True, QueueReturns 0 b, QueueReturns 0 c]) = None"
  by (simp add: GrpcServer_Run_def GrpcServer_with_def GrpcServer_Register_def GrpcServer_Init_def GrpcServer_new_def
      GrpcService_CreateEvent_def GrpcServerEvent_Init_def GrpcServiceEvent_new_def GrpcLooper_next_def
      GrpcServerEvent_Proceed_def GrpcServiceEvent_Proceed_def GrpcServiceEvent_Finish_def upd_def numeral_2_eq_2)

text \<open>
  Calls of \<^verbatim>\<open>GetTraceId\<close> that do not overlap hand out different ids, as long as there are
  fewer than \<open>2 ^ 64\<close>.
\<close>

theorem TraceId_unique:
  assumes "length ths < 2 ^ 64"
  shows "distinct (map snd (ti_got (fold TraceInstance_GetTraceId ths TraceInstance_new)))"
proof -
  let ?id = "\<lambda>i. to_string (unat (of_nat i + 1 :: u64))"
  have u: "unat (of_nat i + 1 :: u64) = i + 1" if "i < length ths" for i
  proof -
    have "(of_nat i + 1 :: u64) = of_nat (i + 1)" by simp
    moreover have "i + 1 < 2 ^ 64" using that assms by simp
    ultimately show ?thesis by (simp only: unat_of_nat) (simp add: mod_less)
  qed
  have "inj_on ?id {0..<length ths}"
  proof (rule inj_onI)
    fix i j assume ij: "i \<in> {0..<length ths}" "j \<in> {0..<length ths}" "?id i = ?id j"
    then have "int (unat (of_nat i + 1 :: u64)) = int (unat (of_nat j + 1 :: u64))"
      by (simp only: to_string_value [symmetric])
    with u ij show "i = j" by simp
  qed
  moreover have "map snd (ti_got (fold TraceInstance_GetTraceId ths TraceInstance_new)) = map ?id [0..<length ths]"
    by (simp add: trace_ids TraceInstance_new_def)
  ultimately show ?thesis by (simp add: distinct_map)
qed

theorem TraceId_unique_witness:
  "distinct (map snd (ti_got (fold TraceInstance_GetTraceId [7, 7, 8] TraceInstance_new)))"
  by (rule TraceId_unique) simp

text \<open>
  Overlapping calls can hand out the same id: both threads increment before either reads.
\<close>

theorem TraceId_race:
  "map snd (ti_got (fold trace_do [Increment 0, Increment 1, ReadId 0, ReadId 1] TraceInstance_new)) = [''2'', ''2'']"
  by (simp add: TraceInstance_new_def to_string.simps char_of_def bit_0)

end
