(* ===== verification/Grpc_Client.thy ===== *)
theory Grpc_Client
  imports Grpc_Service Client_Channel
begin

text \<open>
  The gRPC client side of \<^verbatim>\<open>src/small_server\<close>: the channel that keeps one stub per node
  (\<^verbatim>\<open>grpc_client_channel.h\<close>), the client of one call (\<^verbatim>\<open>grpc_client.h\<close>) with the event
  that carries it through the completion queue (\<^verbatim>\<open>grpc_looper.h\<close>), and the \<^verbatim>\<open>WithService\<close>
  wrappers of the clients, which run a handler only while its service call lives, and under its lock.
  \<open>None\<close> is a crash, or a thread that waits.
\<close>

section \<open>The channel\<close>

text \<open>
  The channel is \<open>ClientChannel\<close> with stubs in place of pools; it has no size, so \<open>ch_maxSize\<close> stays
  unused.  \<open>create\<close> is \<^verbatim>\<open>NewStub\<close> on a channel to the node, which reports no error.
\<close>

type_synonym 'p GrpcClientChannel = "'p ClientChannel"

definition GrpcClientChannel_new :: "'p GrpcClientChannel" where
  "GrpcClientChannel_new = ClientChannel_new"

definition GrpcClientChannel_SetLbPolicyType :: "string \<Rightarrow> 'p GrpcClientChannel \<Rightarrow> 'p GrpcClientChannel" where
  "GrpcClientChannel_SetLbPolicyType t c = c\<lparr>ch_lbPolicyType := t\<rparr>"

definition GrpcClientChannel_SetResolverType :: "string \<Rightarrow> 'p GrpcClientChannel \<Rightarrow> 'p GrpcClientChannel" where
  "GrpcClientChannel_SetResolverType t c = c\<lparr>ch_resolverType := t\<rparr>"

definition GrpcClientChannel_makeStub :: "(string \<Rightarrow> 'p) \<Rightarrow> bool \<Rightarrow> 'p maker" where
  "GrpcClientChannel_makeStub create exist addrPort = Some ('''', if \<not> exist then None else Some (create addrPort))"

definition GrpcClientChannel_Init ::
    "nat \<Rightarrow> (string, lb_kind) omap \<Rightarrow> (string, resolver_kind) omap \<Rightarrow> dns \<Rightarrow> (string \<Rightarrow> 'p) \<Rightarrow> string list \<Rightarrow> nat \<Rightarrow>
     'p GrpcClientChannel \<Rightarrow> 'p GrpcClientChannel option" where
  "GrpcClientChannel_Init garbage lbs rs dns create ips p c =
     ClientChannel_Init garbage lbs rs dns (GrpcClientChannel_makeStub create True) ips p c"

definition GrpcClientChannel_GetClientPool :: "nat \<Rightarrow> 'p GrpcClientChannel \<Rightarrow> (bool \<times> 'p option) option" where
  "GrpcClientChannel_GetClientPool r c =
     (case ch_balancer c of
        None \<Rightarrow> None
      | Some p \<Rightarrow>
          Option.bind (RandomLbPolicy_Get r p) (\<lambda>(ok, addr).
            if \<not> ok then Some (False, None) else Some (ClientManager_GetClientPool addr (ch_pools c))))"

section \<open>The client of a call\<close>

text \<open>
  All clients of a program: \<open>gr_events\<close> maps the tags of the existing \<^verbatim>\<open>GrpcEvent\<close>s to the
  client they keep alive, \<open>gr_event\<close> and \<open>gr_onDone\<close> are the members of the clients (a handler is a
  name), \<open>gr_context\<close> tells whether the client's \<^verbatim>\<open>grpcContext_\<close> has been given to a call,
  \<open>gr_pending\<close> are the tags of the calls under way, \<open>gr_answers\<close> the calls of handlers.
\<close>

record client_sys =
  gr_events :: "nat \<Rightarrow> nat option"
  gr_next :: nat
  gr_event :: "nat \<Rightarrow> nat option"
  gr_onDone :: "nat \<Rightarrow> nat option"
  gr_context :: "nat \<Rightarrow> bool"
  gr_pending :: "nat list"
  gr_answers :: "(nat \<times> nat \<times> errmsg) list"

definition client_sys_new :: client_sys where
  "client_sys_new = \<lparr>gr_events = (\<lambda>_. None), gr_next = 0, gr_event = (\<lambda>_. None), gr_onDone = (\<lambda>_. None),
     gr_context = (\<lambda>_. False), gr_pending = [], gr_answers = []\<rparr>"

text \<open>\<^verbatim>\<open>new GrpcEvent(shared_from_this())\<close>, stored in the member, and \<^verbatim>\<open>delete this\<close>.\<close>

definition GrpcEvent_new :: "nat \<Rightarrow> client_sys \<Rightarrow> client_sys" where
  "GrpcEvent_new i s =
     s\<lparr>gr_events := (gr_events s)(gr_next s := Some i), gr_event := (gr_event s)(i := Some (gr_next s)),
       gr_next := gr_next s + 1\<rparr>"

definition GrpcEvent_Clean :: "nat \<Rightarrow> client_sys \<Rightarrow> client_sys" where
  "GrpcEvent_Clean t s = s\<lparr>gr_events := (gr_events s)(t := None)\<rparr>"

definition GrpcClient_onDone :: "nat \<Rightarrow> errmsg \<Rightarrow> client_sys \<Rightarrow> client_sys option" where
  "GrpcClient_onDone i m s =
     map_option (\<lambda>h. s\<lparr>gr_answers := gr_answers s @ [(i, h, m)]\<rparr>) (gr_onDone s i)"

text \<open>
  \<open>stub\<close> is what the channel's \<^verbatim>\<open>GetClientPool\<close> gives; a null stub is dereferenced.
  \<^verbatim>\<open>PrepareAsyncHandler\<close> is given the client's own context, and the library's documentation forbids
  a \<^verbatim>\<open>ClientContext\<close> in more than one call: \<open>None\<close> as well.
\<close>

definition GrpcClient_doReq :: "bool \<times> 'p option \<Rightarrow> nat \<Rightarrow> nat \<Rightarrow> client_sys \<Rightarrow> client_sys option" where
  "GrpcClient_doReq stub h i s =
     (let s = s\<lparr>gr_onDone := (gr_onDone s)(i := Some h)\<rparr> in
      if \<not> fst stub then GrpcClient_onDone i ''stub is nullptr'' s
      else let s = GrpcEvent_new i s in
        case (snd stub, gr_event s i) of
          (Some _, Some t) \<Rightarrow>
            if gr_context s i then None
            else Some (s\<lparr>gr_context := (gr_context s)(i := True), gr_pending := gr_pending s @ [t]\<rparr>)
        | _ \<Rightarrow> None)"

text \<open>\<open>status\<close> is the status of the call, which the library has filled in.\<close>

definition GrpcClient_Proceed :: "bool \<Rightarrow> bool \<Rightarrow> nat \<Rightarrow> client_sys \<Rightarrow> client_sys option" where
  "GrpcClient_Proceed ok status i s =
     Option.bind (GrpcClient_onDone i (if \<not> ok \<or> \<not> status then ''Grpc Client failed'' else '''') s) (\<lambda>s.
       map_option (\<lambda>t. GrpcEvent_Clean t s) (gr_event s i))"

definition GrpcEvent_Proceed :: "bool \<Rightarrow> bool \<Rightarrow> nat \<Rightarrow> client_sys \<Rightarrow> client_sys option" where
  "GrpcEvent_Proceed ok status t s = Option.bind (gr_events s t) (\<lambda>i. GrpcClient_Proceed ok status i s)"

text \<open>A history: a request, or the queue giving back the tag of a call under way.\<close>

datatype 'p client_input = Request nat nat "bool \<times> 'p option" | Returned nat bool bool

fun client_step :: "'p client_input \<Rightarrow> client_sys \<Rightarrow> client_sys option" where
  "client_step (Request i h stub) s = GrpcClient_doReq stub h i s"
| "client_step (Returned t ok status) s =
     (if t \<in> set (gr_pending s)
      then GrpcEvent_Proceed ok status t (s\<lparr>gr_pending := remove1 t (gr_pending s)\<rparr>)
      else Some s)"

definition client_run :: "'p client_input list \<Rightarrow> client_sys option" where
  "client_run is = fold (\<lambda>x r. Option.bind r (client_step x)) is (Some client_sys_new)"

text \<open>The requests in a history: client, handler and stub.\<close>

fun requests :: "'p client_input list \<Rightarrow> (nat \<times> nat \<times> bool \<times> 'p option) list" where
  "requests [] = []"
| "requests (Request i h stub # is) = (i, h, stub) # requests is"
| "requests (Returned t ok status # is) = requests is"

section \<open>Handlers that belong to a service call\<close>

text \<open>
  User code: a handler, by name, and the requests it makes that are answered at once, before it returns,
  by their handlers.  Each is the closure of \<^verbatim>\<open>DoReq\<close> of a client \<^verbatim>\<open>WithService\<close>:
  nothing if the service call is gone, else the user's handler under the call's lock.
\<close>

datatype user_code = User nat "user_code list"

fun WithService_onDone ::
    "('l \<Rightarrow> 'l option) \<Rightarrow> ('l \<Rightarrow> 'l option) \<Rightarrow> bool \<Rightarrow> user_code \<Rightarrow> 'l \<times> nat list \<Rightarrow> ('l \<times> nat list) option"
  and WithService_answers ::
    "('l \<Rightarrow> 'l option) \<Rightarrow> ('l \<Rightarrow> 'l option) \<Rightarrow> bool \<Rightarrow> user_code list \<Rightarrow> 'l \<times> nat list \<Rightarrow> ('l \<times> nat list) option" where
  "WithService_onDone lock unlock alive (User n cs) (l, hs) =
     (if \<not> alive then Some (l, hs)
      else Option.bind (lock l) (\<lambda>l.
        Option.bind (WithService_answers lock unlock alive cs (l, hs @ [n])) (\<lambda>(l, hs).
          map_option (\<lambda>l. (l, hs)) (unlock l))))"
| "WithService_answers lock unlock alive [] s = Some s"
| "WithService_answers lock unlock alive (c # cs) s =
     Option.bind (WithService_onDone lock unlock alive c s) (WithService_answers lock unlock alive cs)"

text \<open>\<^verbatim>\<open>GrpcServiceEvent::Proceed\<close> calls the message handler under the same lock.\<close>

definition GrpcServiceEvent_onMessage ::
    "('l \<Rightarrow> 'l option) \<Rightarrow> ('l \<Rightarrow> 'l option) \<Rightarrow> user_code \<Rightarrow> 'l \<times> nat list \<Rightarrow> ('l \<times> nat list) option" where
  "GrpcServiceEvent_onMessage lock unlock c s =
     (case c of User n cs \<Rightarrow>
        Option.bind (lock (fst s)) (\<lambda>l.
          Option.bind (WithService_answers lock unlock True cs (l, snd s @ [n])) (\<lambda>(l, hs).
            map_option (\<lambda>l. (l, hs)) (unlock l))))"

text \<open>The handlers in the order they start.\<close>

fun user_names :: "user_code \<Rightarrow> nat list" where
  "user_names (User n cs) = n # concat (map user_names cs)"

section \<open>The looper\<close>

text \<open>
  \<^verbatim>\<open>Init\<close> with a server's builder and without.  Logging at level FATAL ends the program, and so
  does assigning a new thread to \<^verbatim>\<open>thread_\<close> while the old one runs: \<open>None\<close>.
\<close>

record GrpcLooper =
  lp_cq :: bool
  lp_scq :: bool
  lp_thread :: bool

definition GrpcLooper_new :: GrpcLooper where
  "GrpcLooper_new = \<lparr>lp_cq = False, lp_scq = False, lp_thread = False\<rparr>"

definition GrpcLooper_run :: "GrpcLooper \<Rightarrow> GrpcLooper option" where
  "GrpcLooper_run l = (if lp_thread l then None else Some (l\<lparr>lp_thread := True\<rparr>))"

definition GrpcLooper_InitServer :: "GrpcLooper \<Rightarrow> GrpcLooper option" where
  "GrpcLooper_InitServer l = (if lp_scq l then None else GrpcLooper_run (l\<lparr>lp_scq := True, lp_cq := True\<rparr>))"

definition GrpcLooper_Init :: "GrpcLooper \<Rightarrow> GrpcLooper option" where
  "GrpcLooper_Init l = (if lp_cq l then None else GrpcLooper_run (l\<lparr>lp_cq := True\<rparr>))"

section \<open>Lemmas\<close>

text \<open>
  What holds after a history in which every client makes at most one request: an event exists exactly
  while its call is under way, is the one its client's member points to, and every request has been
  answered, by its handler, or has its call under way.
\<close>

definition underway :: "nat \<Rightarrow> client_sys \<Rightarrow> nat" where
  "underway i s = length (filter (\<lambda>t. gr_events s t = Some i) (gr_pending s))"

definition answered :: "nat \<Rightarrow> client_sys \<Rightarrow> nat" where
  "answered i s = length (filter (\<lambda>a. fst a = i) (gr_answers s))"

definition requested :: "nat \<Rightarrow> 'p client_input list \<Rightarrow> nat" where
  "requested i is = length (filter (\<lambda>r. fst r = i) (requests is))"

definition asks :: "'p client_input list \<Rightarrow> (nat \<times> nat) set" where
  "asks is = (\<lambda>(i, h, stub). (i, h)) ` set (requests is)"

definition client_inv :: "'p client_input list \<Rightarrow> client_sys \<Rightarrow> bool" where
  "client_inv is s \<longleftrightarrow>
     distinct (gr_pending s) \<and> (\<forall>t. gr_events s t \<noteq> None \<longleftrightarrow> t \<in> set (gr_pending s)) \<and>
     (\<forall>t\<in>set (gr_pending s). t < gr_next s) \<and>
     (\<forall>t i. gr_events s t = Some i \<longrightarrow> gr_event s i = Some t \<and> gr_onDone s i \<noteq> None) \<and>
     (\<forall>i. answered i s + underway i s = requested i is) \<and>
     (\<forall>i h. gr_onDone s i = Some h \<longrightarrow> (i, h) \<in> asks is) \<and>
     (\<forall>i. gr_context s i \<longrightarrow> requested i is \<noteq> 0) \<and>
     (\<forall>a\<in>set (gr_answers s). (fst a, fst (snd a)) \<in> asks is)"

lemma requests_append: "requests (is @ js) = requests is @ requests js"
  by (induction "is" rule: requests.induct) auto

lemma requested_simps [simp]:
  "requested i (is @ [Request j h stub]) = requested i is + (if j = i then 1 else 0)"
  "requested i (is @ [Returned t ok status]) = requested i is"
  by (simp_all add: requested_def requests_append)

lemma asks_simps [simp]:
  "asks [] = {}"
  "asks (is @ [Request i h stub]) = insert (i, h) (asks is)"
  "asks (is @ [Returned t ok status]) = asks is"
  by (auto simp: asks_def requests_append)

lemma requested_zero: "requested i is = 0 \<longleftrightarrow> i \<notin> fst ` set (requests is)"
  unfolding requested_def by (simp add: filter_empty_conv) force

lemma requested_count: "requested i is = count_list (map fst (requests is)) i"
proof -
  have "length (filter (\<lambda>r. fst r = i) rs) = count_list (map fst rs) i" for rs :: "(nat \<times> nat \<times> bool \<times> 'a option) list"
    by (induction rs) auto
  then show ?thesis by (simp add: requested_def)
qed

lemma count_list_1_distinct: "distinct xs \<Longrightarrow> x \<in> set xs \<Longrightarrow> count_list xs x = 1"
  by (induction xs) (auto simp: count_list_0_iff)

lemma client_inv_new: "client_inv [] client_sys_new"
  by (simp add: client_inv_def client_sys_new_def answered_def underway_def requested_def)

lemmas client_defs =
  GrpcClient_doReq_def GrpcClient_onDone_def GrpcEvent_new_def GrpcEvent_Clean_def GrpcClient_Proceed_def
  GrpcEvent_Proceed_def

lemma client_request_inv:
  assumes inv: "client_inv is s" and new: "requested i is = 0" and stub: "fst stub \<longrightarrow> snd stub \<noteq> None"
  shows "\<exists>s'. client_step (Request i h stub) s = Some s' \<and> client_inv (is @ [Request i h stub]) s'"
proof -
  let ?is = "is @ [Request i h stub]"
  have none: "gr_events s t \<noteq> Some i" for t
  proof
    assume t: "gr_events s t = Some i"
    with inv have "t \<in> set (gr_pending s)" by (auto simp: client_inv_def)
    with t have "underway i s \<noteq> 0" by (auto simp: underway_def filter_empty_conv)
    moreover from inv have "answered i s + underway i s = requested i is" by (simp add: client_inv_def)
    ultimately show False using new by simp
  qed
  have fresh: "gr_next s \<notin> set (gr_pending s)" "gr_events s (gr_next s) = None"
    using inv by (auto simp: client_inv_def)
  show ?thesis
  proof (cases "fst stub")
    case False
    let ?s = "s\<lparr>gr_onDone := (gr_onDone s)(i := Some h), gr_answers := gr_answers s @ [(i, h, ''stub is nullptr'')]\<rparr>"
    have "client_step (Request i h stub) s = Some ?s" using False by (simp add: client_defs)
    moreover have "client_inv ?is ?s"
      using inv none by (auto simp: client_inv_def answered_def underway_def)
    ultimately show ?thesis by blast
  next
    case True
    with stub obtain p where p: "stub = (True, Some p)" by (cases stub) auto
    let ?t = "gr_next s"
    let ?s = "s\<lparr>gr_onDone := (gr_onDone s)(i := Some h), gr_events := (gr_events s)(?t := Some i),
      gr_event := (gr_event s)(i := Some ?t), gr_next := ?t + 1, gr_context := (gr_context s)(i := True),
      gr_pending := gr_pending s @ [?t]\<rparr>"
    have "\<not> gr_context s i" using inv new by (auto simp: client_inv_def)
    then have "client_step (Request i h stub) s = Some ?s" by (simp add: client_defs p)
    moreover have "underway j ?s = underway j s + (if j = i then 1 else 0)" for j
      using fresh(1) by (auto simp: underway_def intro!: arg_cong [where f = length] filter_cong)
    then have "client_inv ?is ?s"
      using inv none fresh by (auto simp: client_inv_def answered_def less_Suc_eq)
    ultimately show ?thesis by blast
  qed
qed

lemma client_returned_inv:
  assumes inv: "client_inv is s"
  shows "\<exists>s'. client_step (Returned t ok status :: 'p client_input) s = Some s' \<and> client_inv (is @ [Returned t ok status :: 'p client_input]) s'"
proof (cases "t \<in> set (gr_pending s)")
  case False
  then show ?thesis using inv by (simp add: client_inv_def requests_append)
next
  case True
  with inv obtain i where i: "gr_events s t = Some i" "gr_event s i = Some t" by (force simp: client_inv_def)
  with inv obtain h where h: "gr_onDone s i = Some h" by (force simp: client_inv_def)
  let ?m = "if \<not> ok \<or> \<not> status then ''Grpc Client failed'' else ''''"
  let ?s = "s\<lparr>gr_pending := remove1 t (gr_pending s), gr_answers := gr_answers s @ [(i, h, ?m)],
    gr_events := (gr_events s)(t := None)\<rparr>"
  have step: "client_step (Returned t ok status :: 'p client_input) s = Some ?s" using True i h by (simp add: client_defs)
  have arith: "a' = a + d \<Longrightarrow> u' + d = u \<Longrightarrow> a + u = r \<Longrightarrow> a' + u' = r" for a a' d u u' r :: nat
    by simp
  have u: "underway j ?s + (if j = i then 1 else 0) = underway j s" for j
  proof -
    from split_list [OF True] obtain xs ys where xy: "gr_pending s = xs @ t # ys" by blast
    moreover from this inv have nt: "t \<notin> set xs" "t \<notin> set ys" by (auto simp: client_inv_def)
    moreover have "filter (\<lambda>u. gr_events ?s u = Some j) zs = filter (\<lambda>u. gr_events s u = Some j) zs" if "t \<notin> set zs" for zs
      using that by (intro filter_cong) auto
    ultimately show ?thesis using i by (simp add: underway_def)
  qed
  have a: "answered j ?s = answered j s + (if j = i then 1 else 0)" for j
    by (simp add: answered_def)
  have "answered j s + underway j s = requested j is" for j
    using inv by (simp add: client_inv_def)
  then have "answered j ?s + underway j ?s = requested j is" for j
    by (rule arith [OF a u])
  moreover have "distinct (gr_pending s)" "\<forall>t. gr_events s t \<noteq> None \<longleftrightarrow> t \<in> set (gr_pending s)"
    "\<forall>t\<in>set (gr_pending s). t < gr_next s"
    "\<forall>t i. gr_events s t = Some i \<longrightarrow> gr_event s i = Some t \<and> gr_onDone s i \<noteq> None"
    "\<forall>i h. gr_onDone s i = Some h \<longrightarrow> (i, h) \<in> asks is" "\<forall>a\<in>set (gr_answers s). (fst a, fst (snd a)) \<in> asks is"
    "\<forall>i. gr_context s i \<longrightarrow> requested i is \<noteq> 0"
    using inv unfolding client_inv_def by blast+
  ultimately have "client_inv (is @ [Returned t ok status :: 'p client_input]) ?s"
    using h unfolding client_inv_def by (intro conjI) simp_all
  with step show ?thesis by blast
qed

lemma client_run_inv:
  assumes "distinct (map fst (requests is))" "\<forall>(i, h, stub)\<in>set (requests is). fst stub \<longrightarrow> snd stub \<noteq> None"
  shows "\<exists>s. client_run is = Some s \<and> client_inv is s"
  using assms
proof (induction "is" rule: rev_induct)
  case Nil
  then show ?case using client_inv_new by (simp add: client_run_def)
next
  case (snoc x "is")
  then obtain s where s: "client_run is = Some s" "client_inv is s" by (auto simp: requests_append)
  have "\<exists>s'. client_step x s = Some s' \<and> client_inv (is @ [x]) s'"
  proof (cases x)
    case (Request i h stub)
    with snoc.prems have "requested i is = 0" "fst stub \<longrightarrow> snd stub \<noteq> None"
      by (auto simp: requests_append requested_zero)
    from client_request_inv [OF s(2) this] Request show ?thesis by simp
  next
    case (Returned t ok status)
    with client_returned_inv [OF s(2)] show ?thesis by simp
  qed
  with s(1) show ?case by (simp add: client_run_def)
qed

text \<open>Handlers under a lock, for every lock a thread can take again.\<close>

context reentrant_lock
begin

lemma WithService_answers_run:
  "(\<And>c l hs. c \<in> set cs \<Longrightarrow> mine l \<Longrightarrow> WithService_onDone lock unlock True c (l, hs) = Some (l, hs @ user_names c)) \<Longrightarrow>
     mine l \<Longrightarrow> WithService_answers lock unlock True cs (l, hs) = Some (l, hs @ concat (map user_names cs))"
  by (induction cs arbitrary: hs) auto

lemma WithService_run: "mine l \<Longrightarrow> WithService_onDone lock unlock True c (l, hs) = Some (l, hs @ user_names c)"
proof (induction c arbitrary: l hs)
  case (User n cs)
  from lock_law [OF User.prems] obtain l' where l': "lock l = Some l'" "mine l'" "unlock l' = Some l" by blast
  from WithService_answers_run [OF User.IH l'(2)] l'(1,3) show ?case by simp
qed

end

lemma onMessage_alive: "GrpcServiceEvent_onMessage lock unlock c s = WithService_onDone lock unlock True c s"
  by (cases c; cases s) (simp add: GrpcServiceEvent_onMessage_def)

section \<open>Properties\<close>

text \<open>
  Every request of a gRPC client is answered exactly once.  In every history in which a client object
  makes one request, nothing crashes; a request is either answered or its call is under way, never both
  and never twice; whoever is answered is the handler of that very request; and the events that exist
  are exactly those of the calls under way, so none leaks and none is used after its deletion.
\<close>

theorem GrpcClient_answers_once:
  assumes "distinct (map fst (requests is))" "\<forall>(i, h, stub)\<in>set (requests is). fst stub \<longrightarrow> snd stub \<noteq> None"
  shows "\<exists>s. client_run is = Some s \<and>
    (\<forall>(i, h, stub)\<in>set (requests is). answered i s + underway i s = 1) \<and>
    (\<forall>(i, h, m)\<in>set (gr_answers s). \<exists>stub. (i, h, stub) \<in> set (requests is)) \<and>
    dom (gr_events s) = set (gr_pending s)"
proof -
  from client_run_inv [OF assms] obtain s where s: "client_run is = Some s" "client_inv is s" by blast
  have one: "requested i is = 1" if "(i, h, stub) \<in> set (requests is)" for i h stub
  proof -
    from that have "i \<in> set (map fst (requests is))" by force
    with assms(1) show ?thesis by (simp add: requested_count count_list_1_distinct)
  qed
  have "\<exists>stub. (i, h, stub) \<in> set (requests is)" if "(i, h, m) \<in> set (gr_answers s)" for i h m
  proof -
    from s(2) that have "(i, h) \<in> asks is" unfolding client_inv_def by force
    then show ?thesis by (auto simp: asks_def)
  qed
  moreover have "dom (gr_events s) = set (gr_pending s)" using s(2) unfolding client_inv_def dom_def by blast
  moreover have "\<forall>i. answered i s + underway i s = requested i is" using s(2) by (simp add: client_inv_def)
  ultimately show ?thesis using s(1) one by (intro exI [of _ s]) auto
qed

theorem GrpcClient_answers_once_witness:
  "let is = [Request 0 10 (True, Some ()), Request 1 11 (False, None), Request 2 12 (True, Some ()),
             Returned 1 True True, Returned 0 True False, Returned 0 True True]
   in \<exists>s. client_run is = Some s \<and> answered 0 s + underway 0 s = 1 \<and> answered 1 s + underway 1 s = 1 \<and>
        answered 2 s + underway 2 s = 1 \<and>
        gr_answers s = [(1, 11, ''stub is nullptr''), (2, 12, ''''), (0, 10, ''Grpc Client failed'')]"
  using GrpcClient_answers_once [of "[Request 0 10 (True, Some ()), Request 1 11 (False, None), Request 2 12 (True, Some ()),
      Returned 1 True True, Returned 0 True False, Returned 0 True True]"]
  by (simp add: client_run_def client_defs client_sys_new_def)

text \<open>
  A client object makes one request: a second one that is given a stub, while the first is under way or
  after its answer, hands the same context to the library again.
\<close>

theorem GrpcClient_second_request:
  "client_run [Request 0 10 (True, Some ()), Request 0 11 (True, Some ())] = None"
  "client_run [Request 0 10 (True, Some ()), Returned 0 ok status, Request 0 11 (True, Some ())] = None"
  by (simp_all add: client_run_def client_defs client_sys_new_def)

text \<open>
  A handler of a service call runs under the call's lock and only while the call lives.  The message
  handler and every handler answered at once inside it run, each once, in the order of the calls, on the
  thread that holds the lock, and the lock ends as it was; once the call is gone a handler does nothing.
  This needs the recursive lock: with a plain one, the first answer inside the message handler waits for
  ever, and a thread that does not hold the lock waits.
\<close>

theorem WithService_under_lock:
  assumes "rec_mine t l" "u \<noteq> t"
  shows "GrpcServiceEvent_onMessage (NormalRecursiveLock_Lock t) (NormalRecursiveLock_UnLock t) c (l, hs) =
      Some (l, hs @ user_names c) \<and>
    WithService_onDone (NormalRecursiveLock_Lock t) (NormalRecursiveLock_UnLock t) False c (l, hs) = Some (l, hs) \<and>
    WithService_onDone (NormalRecursiveLock_Lock u) (NormalRecursiveLock_UnLock u) True c (Some (t, 1), hs) = None \<and>
    GrpcServiceEvent_onMessage (NormalLock_Lock t) (NormalLock_UnLock t) (User n (d # ds)) (MakeLock, hs) = None"
proof (intro conjI)
  show "GrpcServiceEvent_onMessage (NormalRecursiveLock_Lock t) (NormalRecursiveLock_UnLock t) c (l, hs) =
      Some (l, hs @ user_names c)"
    unfolding onMessage_alive using assms(1) by (rule rl.WithService_run)
  show "WithService_onDone (NormalRecursiveLock_Lock t) (NormalRecursiveLock_UnLock t) False c (l, hs) = Some (l, hs)"
    by (cases c) simp
  show "WithService_onDone (NormalRecursiveLock_Lock u) (NormalRecursiveLock_UnLock u) True c (Some (t, 1), hs) = None"
    using assms(2) by (cases c) (simp add: NormalRecursiveLock_Lock_def)
  show "GrpcServiceEvent_onMessage (NormalLock_Lock t) (NormalLock_UnLock t) (User n (d # ds)) (MakeLock, hs) = None"
    by (cases d) (simp add: GrpcServiceEvent_onMessage_def NormalLock_Lock_def MakeLock_def)
qed

theorem WithService_under_lock_witness:
  "GrpcServiceEvent_onMessage (NormalRecursiveLock_Lock 3) (NormalRecursiveLock_UnLock 3)
     (User 0 [User 1 [User 2 []], User 4 []]) (MakeRecursiveLock, []) = Some (MakeRecursiveLock, [0, 1, 2, 4]) \<and>
   WithService_onDone (NormalRecursiveLock_Lock 7) (NormalRecursiveLock_UnLock 7) True
     (User 0 [User 1 [User 2 []], User 4 []]) (Some (3, 1), []) = None"
  using WithService_under_lock [of 3 MakeRecursiveLock 7 "User 0 [User 1 [User 2 []], User 4 []]" "[]"]
  by (simp add: rec_mine_def MakeRecursiveLock_def del: WithService_onDone.simps)

text \<open>
  A gRPC channel that has been given addresses hands out a stub of one of them, whatever the random
  number, so the request of a new client on it is started: the error \<^verbatim>\<open>stub is nullptr\<close> does not occur.
\<close>

theorem GrpcClient_reaches_stub:
  assumes "ips \<noteq> []" "\<not> gr_context s i"
  shows "\<exists>c ip. GrpcClientChannel_Init garbage [] [] dns create ips p GrpcClientChannel_new = Some c \<and> ip \<in> set ips \<and>
    GrpcClientChannel_GetClientPool r c = Some (True, Some (create (ip @ '':'' @ to_string p))) \<and>
    (\<exists>s'. GrpcClient_doReq (True, Some (create (ip @ '':'' @ to_string p))) h i s = Some s' \<and>
       gr_pending s' = gr_pending s @ [gr_next s] \<and> gr_answers s' = gr_answers s)"
proof -
  let ?mk = "GrpcClientChannel_makeStub create True"
  let ?nodes = "StringResolver_nodes ips p"
  let ?c = "(GrpcClientChannel_new :: 'a GrpcClientChannel)\<lparr>ch_balancer := Some (RandomLbPolicy_new garbage)\<rparr>"
  have init: "GrpcClientChannel_Init garbage [] [] dns create ips p GrpcClientChannel_new = Balancer_notify ?mk ?nodes ?c"
    by (simp add: GrpcClientChannel_Init_def ClientChannel_Init_def Balancer_new_def GrpcClientChannel_new_def
        ClientChannel_new_def LbPolicyManager_GetPolicyFactory_def LbPolicyManager_GetInstance_def
        ResolverManager_GetResolverFactory_def ResolverManager_GetInstance_def ResolverManager_Register_def
        less_char_def)
  have mk: "?mk n = Some ('''', Some (create n))" for n by (simp add: GrpcClientChannel_makeStub_def)
  have pools: "ch_pools ?c = []" by (simp add: GrpcClientChannel_new_def ClientChannel_new_def)
  have "?nodes \<noteq> []" using StringResolver_set [of ips p] assms by force
  moreover have d: "distinct ?nodes" by (rule StringResolver_distinct)
  moreover have "omap_ok (ch_pools ?c)" "ch_balancer ?c \<noteq> None" by (simp_all add: pools)
  ultimately obtain c n where c: "Balancer_notify ?mk ?nodes ?c = Some c" "n \<in> set ?nodes"
    "ClientChannel_GetClientPool r c = Some (ClientManager_GetClientPool n (ch_pools c))"
    using notify_Get [of ?c ?nodes ?mk r] mk by blast
  from c(1) have "ClientManager_Update ?mk ?nodes [] = Some (ch_pools c)"
    by (auto simp: Balancer_notify_def pools split: option.splits)
  moreover from Update_spec [OF _ d, of "[]" ?mk] mk obtain m' where
    m': "ClientManager_Update ?mk ?nodes [] = Some m'"
    "\<forall>k. map_find k m' = (if k \<notin> set ?nodes then None else Some (Some (create k)))"
    by auto
  ultimately have "map_find n (ch_pools c) = Some (Some (create n))" using c(2) mk by auto
  with c(3) have "GrpcClientChannel_GetClientPool r c = Some (True, Some (create n))"
    by (simp add: GrpcClientChannel_GetClientPool_def ClientChannel_GetClientPool_def ClientManager_GetClientPool_def
        split: option.splits bind_splits prod.splits if_splits)
  moreover from c(2) obtain ip where "ip \<in> set ips" "n = ip @ '':'' @ to_string p"
    unfolding StringResolver_set by blast
  ultimately show ?thesis
    using c(1) assms(2) by (intro exI [of _ c] exI [of _ ip]) (simp add: init client_defs Let_def)
qed

theorem GrpcClient_reaches_stub_witness:
  "\<exists>c ip. GrpcClientChannel_Init 9 [] [] dns id [''10.0.0.1'', ''10.0.0.22''] 80 GrpcClientChannel_new = Some c \<and>
     ip \<in> {''10.0.0.1'', ''10.0.0.22''} \<and>
     GrpcClientChannel_GetClientPool 5 c = Some (True, Some (ip @ '':'' @ to_string 80))"
  using GrpcClient_reaches_stub [of "[''10.0.0.1'', ''10.0.0.22'']" client_sys_new 0 9 dns id 80 5 0]
  by (auto simp: client_sys_new_def)

text \<open>
  The looper is initialised once, by a server or by a program that has only clients: a second
  initialisation ends the program, in whichever order the two come.
\<close>

theorem GrpcLooper_Init_once:
  "(\<exists>l. GrpcLooper_InitServer GrpcLooper_new = Some l \<and> lp_cq l \<and> lp_scq l \<and> lp_thread l \<and>
      GrpcLooper_InitServer l = None \<and> GrpcLooper_Init l = None) \<and>
   (\<exists>l. GrpcLooper_Init GrpcLooper_new = Some l \<and> lp_cq l \<and> \<not> lp_scq l \<and> lp_thread l \<and>
      GrpcLooper_InitServer l = None \<and> GrpcLooper_Init l = None)"
  by (simp add: GrpcLooper_InitServer_def GrpcLooper_Init_def GrpcLooper_run_def GrpcLooper_new_def)

end
