(* ===== verification/Service_Clients.thy ===== *)
theory Service_Clients
  imports Grpc_Client Base_Client
begin

text \<open>
  The clients a service call makes for its own requests: \<^verbatim>\<open>GetHttpClient\<close>,
  \<^verbatim>\<open>GetRedisClient\<close> and \<^verbatim>\<open>GetGrpcClient\<close> of \<^verbatim>\<open>grpc_service.h\<close>, and the
  \<^verbatim>\<open>WithService\<close> classes of \<^verbatim>\<open>http_client.h\<close>, \<^verbatim>\<open>redis_client.h\<close> and
  \<^verbatim>\<open>grpc_client.h\<close>.  Such a client holds a weak pointer to the call; here the calls are those of
  \<open>Grpc_Service\<close>, a call lives as long as its \<open>g_alive\<close>, and the weak pointer is its tag.
\<close>

section \<open>The clients\<close>

record 'c with_service =
  ws_client :: 'c
  ws_event :: "nat option"

definition HttpClientWithService_new :: "string \<Rightarrow> string \<Rightarrow> string \<Rightarrow> HttpClient with_service" where
  "HttpClientWithService_new method target body = \<lparr>ws_client = HttpClient_new method target body, ws_event = None\<rparr>"

definition RedisClientWithService_new :: "RedisClient with_service" where
  "RedisClientWithService_new = \<lparr>ws_client = RedisClient_new, ws_event = None\<rparr>"

text \<open>A gRPC client is its number in \<open>Grpc_Client\<close>.\<close>

definition GrpcClientWithService_new :: "nat \<Rightarrow> nat with_service" where
  "GrpcClientWithService_new i = \<lparr>ws_client = i, ws_event = None\<rparr>"

definition WithService_SetServiceEvent :: "nat option \<Rightarrow> 'c with_service \<Rightarrow> 'c with_service" where
  "WithService_SetServiceEvent e w = w\<lparr>ws_event := e\<rparr>"

text \<open>\<^verbatim>\<open>serviceEvent_.lock()\<close>: the call, if it still exists.\<close>

definition WithService_GetServiceEvent :: "grpc_sys \<Rightarrow> 'c with_service \<Rightarrow> nat option" where
  "WithService_GetServiceEvent s w =
     (case ws_event w of None \<Rightarrow> None | Some t \<Rightarrow> if g_alive (s ! t) then Some t else None)"

text \<open>\<^verbatim>\<open>myself_\<close> is set by \<^verbatim>\<open>Init\<close> and cleared when the response has been sent.\<close>

definition GrpcServiceEvent_myself :: "grpc_sys \<Rightarrow> nat \<Rightarrow> nat option" where
  "GrpcServiceEvent_myself s t = (if g_alive (s ! t) then Some t else None)"

definition GrpcServiceEvent_GetHttpClient ::
    "grpc_sys \<Rightarrow> nat \<Rightarrow> string \<Rightarrow> string \<Rightarrow> string \<Rightarrow> HttpClient with_service" where
  "GrpcServiceEvent_GetHttpClient s t method target req =
     WithService_SetServiceEvent (GrpcServiceEvent_myself s t) (HttpClientWithService_new method target req)"

definition GrpcServiceEvent_GetRedisClient :: "grpc_sys \<Rightarrow> nat \<Rightarrow> RedisClient with_service" where
  "GrpcServiceEvent_GetRedisClient s t = WithService_SetServiceEvent (GrpcServiceEvent_myself s t) RedisClientWithService_new"

definition GrpcServiceEvent_GetGrpcClient :: "grpc_sys \<Rightarrow> nat \<Rightarrow> nat \<Rightarrow> nat with_service" where
  "GrpcServiceEvent_GetGrpcClient s t i =
     WithService_SetServiceEvent (GrpcServiceEvent_myself s t) (GrpcClientWithService_new i)"

text \<open>
  The closure that \<^verbatim>\<open>DoReq\<close> of any of the three hands to its base class, run when the answer
  comes: \<open>c\<close> is the user's handler.
\<close>

definition WithService_answer ::
    "('l \<Rightarrow> 'l option) \<Rightarrow> ('l \<Rightarrow> 'l option) \<Rightarrow> grpc_sys \<Rightarrow> 'c with_service \<Rightarrow> user_code \<Rightarrow> 'l \<times> nat list \<Rightarrow>
     ('l \<times> nat list) option" where
  "WithService_answer lock unlock s w c st =
     WithService_onDone lock unlock (WithService_GetServiceEvent s w \<noteq> None) c st"

section \<open>Lemmas\<close>

text \<open>What a call does never brings another one back, and the system only grows.\<close>

definition dead_stays :: "grpc_sys \<Rightarrow> grpc_sys \<Rightarrow> bool" where
  "dead_stays s s' \<longleftrightarrow> length s \<le> length s' \<and> (\<forall>t<length s. g_alive (s' ! t) \<longrightarrow> g_alive (s ! t))"

lemma dead_stays_refl [simp]: "dead_stays s s" by (simp add: dead_stays_def)

lemma dead_stays_trans: "dead_stays s s1 \<Longrightarrow> dead_stays s1 s2 \<Longrightarrow> dead_stays s s2"
  unfolding dead_stays_def by (meson less_le_trans order_trans)

lemma dead_stays_upd: "(g_alive (f (s ! t)) \<longrightarrow> g_alive (s ! t)) \<Longrightarrow> dead_stays s (upd t f s)"
  by (cases "t < length s") (auto simp: dead_stays_def upd_def nth_list_update split: if_splits)

lemma dead_stays_init: "dead_stays s (GrpcServerEvent_Init v s)"
  by (simp add: dead_stays_def GrpcServerEvent_Init_def nth_append)

lemma dead_stays_finish: "dead_stays s (GrpcServiceEvent_Finish t s)"
  unfolding GrpcServiceEvent_Finish_def by (rule dead_stays_upd) simp

lemma dead_stays_finishes: "dead_stays s ((GrpcServiceEvent_Finish t ^^ n) s)"
  by (induction n) (auto intro: dead_stays_trans dead_stays_finish)

lemma dead_stays_service: "dead_stays s (GrpcServiceEvent_Proceed onMessage t ok s)"
proof (cases "g_service (s ! t)")
  case PROCESS
  have "dead_stays s (upd t (g_service_update (\<lambda>_. FINISH)) s)" by (rule dead_stays_upd) simp
  from dead_stays_trans [OF this dead_stays_finishes] PROCESS show ?thesis
    by (simp add: GrpcServiceEvent_Proceed_def)
next
  case FINISH
  then show ?thesis by (auto simp: GrpcServiceEvent_Proceed_def intro: dead_stays_upd)
qed

lemma dead_stays_server: "dead_stays s (GrpcServerEvent_Proceed onMessage t ok s)"
proof (cases "g_server (s ! t)")
  case SPROCESS
  have "dead_stays s (upd t (g_server_update (\<lambda>_. SPROCESSING)) s)" by (rule dead_stays_upd) simp
  from dead_stays_trans [OF dead_stays_trans [OF this dead_stays_init] dead_stays_service] SPROCESS
  show ?thesis by (simp add: GrpcServerEvent_Proceed_def)
qed (simp add: GrpcServerEvent_Proceed_def dead_stays_service)

lemma dead_stays_step: "grpc_step onMessage i s = Some s' \<Longrightarrow> dead_stays s s'"
proof (cases i)
  case (QueueReturns t ok)
  have "dead_stays s (upd t (\<lambda>e. e\<lparr>g_pending := g_pending e - 1\<rparr>) s)" by (rule dead_stays_upd) simp
  from dead_stays_trans [OF this dead_stays_server] QueueReturns show "grpc_step onMessage i s = Some s' \<Longrightarrow> ?thesis"
    by (auto simp: GrpcLooper_next_def split: if_splits)
qed (auto simp: dead_stays_finish split: if_splits)

lemma dead_stays_events: "grpc_events onMessage is s = Some s' \<Longrightarrow> dead_stays s s'"
proof (induction "is" arbitrary: s)
  case (Cons i "is")
  then obtain s1 where "grpc_step onMessage i s = Some s1" "grpc_events onMessage is s1 = Some s'"
    by (auto simp: bind_eq_Some_conv)
  with Cons.IH show ?case by (blast intro: dead_stays_trans dead_stays_step)
qed simp

lemma WithService_answer_gone:
  "WithService_GetServiceEvent s w = None \<Longrightarrow> WithService_answer lock unlock s w c (l, hs) = Some (l, hs)"
  by (cases c) (simp add: WithService_answer_def)

section \<open>Properties\<close>

text \<open>
  C33.  A handler belongs to its call.  Let a call that exists make a client, and the answer come after any
  history.  If the call still exists, the handler and all it causes runs once, under the call's lock, which
  ends as it was.  If it is gone, the handler does not run, then or after any further history, and the lock
  is not touched.
\<close>

theorem ServiceClient_follows_call:
  assumes "g_alive (s ! t)" "t < length s" "w = WithService_SetServiceEvent (GrpcServiceEvent_myself s t) w0"
    and "grpc_events onMessage is s = Some s'" "rec_mine th l"
  shows "WithService_answer (NormalRecursiveLock_Lock th) (NormalRecursiveLock_UnLock th) s' w c (l, hs) =
      Some (l, if g_alive (s' ! t) then hs @ user_names c else hs) \<and>
    (\<forall>js s''. \<not> g_alive (s' ! t) \<and> grpc_events onMessage js s' = Some s'' \<longrightarrow>
       WithService_answer lock unlock s'' w c (l', hs) = Some (l', hs))"
proof -
  have e: "WithService_GetServiceEvent s1 w = (if g_alive (s1 ! t) then Some t else None)" for s1
    using assms(1,3) by (simp add: WithService_GetServiceEvent_def WithService_SetServiceEvent_def GrpcServiceEvent_myself_def)
  have "t < length s'" using dead_stays_events [OF assms(4)] assms(2) by (simp add: dead_stays_def)
  then have "\<not> g_alive (s'' ! t)" if "\<not> g_alive (s' ! t)" "grpc_events onMessage js s' = Some s''" for js s''
    using dead_stays_events [OF that(2)] that(1) by (auto simp: dead_stays_def)
  moreover have "WithService_answer (NormalRecursiveLock_Lock th) (NormalRecursiveLock_UnLock th) s' w c (l, hs) =
      Some (l, hs @ user_names c)" if "g_alive (s' ! t)"
    using that rl.WithService_run [OF assms(5)] by (simp add: WithService_answer_def e)
  ultimately show ?thesis by (auto simp: e WithService_answer_gone)
qed

text \<open>A request that the message handler started is answered after its call has sent the response.\<close>

theorem ServiceClient_follows_call_witness:
  "\<exists>s s'. grpc_events (\<lambda>_ _. 1) [QueueReturns 0 True] [GrpcServiceEvent_new 7] = Some s \<and>
     grpc_events (\<lambda>_ _. 1) [QueueReturns 0 True] s = Some s' \<and>
     WithService_answer (NormalRecursiveLock_Lock 3) (NormalRecursiveLock_UnLock 3) s
       (GrpcServiceEvent_GetRedisClient s 0) (User 1 [User 2 []]) (None, []) = Some (None, [1, 2]) \<and>
     WithService_answer (NormalRecursiveLock_Lock 3) (NormalRecursiveLock_UnLock 3) s'
       (GrpcServiceEvent_GetRedisClient s 0) (User 1 [User 2 []]) (None, []) = Some (None, [])"
proof -
  note defs = GrpcLooper_next_def GrpcServerEvent_Proceed_def GrpcServiceEvent_Proceed_def GrpcServiceEvent_Finish_def
    GrpcServerEvent_Init_def GrpcServiceEvent_new_def upd_def
  obtain s where s: "grpc_events (\<lambda>_ _. 1) [QueueReturns 0 True] [GrpcServiceEvent_new 7] = Some s"
    "g_alive (s ! 0)" "0 < length s" and s': "\<exists>s'. grpc_events (\<lambda>_ _. 1) [QueueReturns 0 True] s = Some s' \<and> \<not> g_alive (s' ! 0)"
    by (simp add: defs)
  then obtain s' where s': "grpc_events (\<lambda>_ _. 1) [QueueReturns 0 True] s = Some s'" "\<not> g_alive (s' ! 0)" by blast
  have m: "rec_mine 3 None" by (simp add: rec_mine_def)
  note f = ServiceClient_follows_call [OF s(2,3) GrpcServiceEvent_GetRedisClient_def _ m,
    where onMessage = "\<lambda>_ _. 1" and c = "User 1 [User 2 []]" and hs = "[]"]
  from conjunct1 [OF f [OF grpc_events.simps(1)]] s(2) have
    "WithService_answer (NormalRecursiveLock_Lock 3) (NormalRecursiveLock_UnLock 3) s
       (GrpcServiceEvent_GetRedisClient s 0) (User 1 [User 2 []]) (None, []) = Some (None, [1, 2])" by simp
  moreover from conjunct1 [OF f [OF s'(1)]] s'(2) have
    "WithService_answer (NormalRecursiveLock_Lock 3) (NormalRecursiveLock_UnLock 3) s'
       (GrpcServiceEvent_GetRedisClient s 0) (User 1 [User 2 []]) (None, []) = Some (None, [])" by simp
  ultimately show ?thesis using s(1) s'(1) by blast
qed

end
