(* ===== verification/Client_Objects.thy ===== *)
theory Client_Objects
  imports Service_Clients
begin

text \<open>
  Parts of the client objects beside their protocols: the memory a \<^verbatim>\<open>RedisClient\<close> gets from hiredis and
  what its destructor does with it (\<^verbatim>\<open>redis_client.h\<close>); the trace id and the deadline of a
  \<^verbatim>\<open>GrpcClient\<close> (\<^verbatim>\<open>grpc_client.h\<close>); the closures of the \<^verbatim>\<open>WithService\<close>
  classes; and the table of callbacks of a \<^verbatim>\<open>RespParser\<close>.
\<close>

section \<open>The memory of a Redis client\<close>

text \<open>
  Blocks are numbered; each comes from one of three functions of hiredis, and is to be given to the matching
  releasing function (documented: \<^verbatim>\<open>redisFormatCommand\<close> allocates with
  \<^verbatim>\<open>malloc\<close>, so its block belongs to \<^verbatim>\<open>free\<close>).
\<close>

datatype owner = FormatCommand | ReaderCreate | GetReply
datatype releaser = Delete | ReaderFree | FreeReplyObject

record redis_memory =
  rm_next :: nat
  rm_live :: "(nat \<times> owner) list"
  rm_released :: "(nat \<times> releaser) list"
  cmdBuf_ptr :: "nat option"
  reader_ptr :: "nat option"
  reply_ptr :: "nat option"

definition rm_alloc :: "owner \<Rightarrow> redis_memory \<Rightarrow> nat \<times> redis_memory" where
  "rm_alloc w m = (rm_next m, m\<lparr>rm_next := Suc (rm_next m), rm_live := rm_live m @ [(rm_next m, w)]\<rparr>)"

definition rm_release :: "releaser \<Rightarrow> nat option \<Rightarrow> redis_memory \<Rightarrow> redis_memory" where
  "rm_release r p m =
     (case p of
        None \<Rightarrow> m
      | Some b \<Rightarrow> m\<lparr>rm_live := filter (\<lambda>(c, _). c \<noteq> b) (rm_live m), rm_released := rm_released m @ [(b, r)]\<rparr>)"

text \<open>The constructor; \<^verbatim>\<open>ReqPush\<close>, which formats the command or fails; \<^verbatim>\<open>RespPop\<close>.\<close>

definition RedisClient_construct :: redis_memory where
  "RedisClient_construct =
     (let (b, m) = rm_alloc ReaderCreate
        \<lparr>rm_next = 0, rm_live = [], rm_released = [], cmdBuf_ptr = None, reader_ptr = None, reply_ptr = None\<rparr>
      in m\<lparr>reader_ptr := Some b\<rparr>)"

definition RedisClient_format :: "bool \<Rightarrow> redis_memory \<Rightarrow> redis_memory" where
  "RedisClient_format fine m = (if fine then let (b, m) = rm_alloc FormatCommand m in m\<lparr>cmdBuf_ptr := Some b\<rparr> else m)"

definition RedisClient_getReply :: "bool \<Rightarrow> redis_memory \<Rightarrow> redis_memory" where
  "RedisClient_getReply full m =
     (if full then let (b, m) = rm_alloc GetReply m in m\<lparr>reply_ptr := Some b\<rparr> else m\<lparr>reply_ptr := None\<rparr>)"

definition RedisClient_destroy :: "redis_memory \<Rightarrow> redis_memory" where
  "RedisClient_destroy m =
     (let m = rm_release Delete (cmdBuf_ptr m) m;
          m = rm_release ReaderFree (reader_ptr m) m
      in rm_release FreeReplyObject (reply_ptr m) m)"

datatype redis_use = UseReqPush bool | UseRespPop bool

fun redis_do :: "redis_use \<Rightarrow> redis_memory \<Rightarrow> redis_memory" where
  "redis_do (UseReqPush fine) = RedisClient_format fine"
| "redis_do (UseRespPop full) = RedisClient_getReply full"

definition redis_life :: "redis_use list \<Rightarrow> redis_memory" where
  "redis_life us = RedisClient_destroy (fold redis_do us RedisClient_construct)"

lemmas redis_defs [model_defs] =
  rm_alloc_def rm_release_def RedisClient_construct_def RedisClient_format_def RedisClient_getReply_def
  RedisClient_destroy_def redis_life_def Let_def

section \<open>The gRPC client\<close>

text \<open>\<^verbatim>\<open>event_->GetTraceId()\<close>: null before a request, deleted after the answer.\<close>

definition GrpcClient_GetTraceId :: "(nat \<Rightarrow> string) \<Rightarrow> nat \<Rightarrow> client_sys \<Rightarrow> string option" where
  "GrpcClient_GetTraceId trace i s =
     (case gr_event s i of
        None \<Rightarrow> None
      | Some t \<Rightarrow> if gr_events s t = None then None else Some (trace t))"

text \<open>The deadline, in nanoseconds since the epoch, as a 64-bit number.\<close>

definition GrpcClient_SetTimeoutMs :: "u64 \<Rightarrow> u64 \<Rightarrow> u64" where
  "GrpcClient_SetTimeoutMs now ms = now + ms * 1000000"

section \<open>The closures of the classes with a service\<close>

definition RedisClientWithService_onDone ::
    "('l \<Rightarrow> 'l option) \<Rightarrow> ('l \<Rightarrow> 'l option) \<Rightarrow> grpc_sys \<Rightarrow> RedisClient with_service \<Rightarrow> user_code \<Rightarrow> 'l \<times> nat list \<Rightarrow>
     ('l \<times> nat list) option" where
  "RedisClientWithService_onDone lock unlock s w c st =
     (case WithService_GetServiceEvent s w of
        None \<Rightarrow> Some st
      | Some realEvent \<Rightarrow>
          (case (c, st) of (User n cs, (l, hs)) \<Rightarrow>
             Option.bind (lock l) (\<lambda>l.
               Option.bind (WithService_answers lock unlock True cs (l, hs @ [n])) (\<lambda>(l, hs).
                 map_option (\<lambda>l. (l, hs)) (unlock l)))))"

definition GrpcClientWithService_onDone ::
    "('l \<Rightarrow> 'l option) \<Rightarrow> ('l \<Rightarrow> 'l option) \<Rightarrow> grpc_sys \<Rightarrow> nat with_service \<Rightarrow> user_code \<Rightarrow> 'l \<times> nat list \<Rightarrow>
     ('l \<times> nat list) option" where
  "GrpcClientWithService_onDone lock unlock s w c st =
     (case WithService_GetServiceEvent s w of
        None \<Rightarrow> Some st
      | Some realEvent \<Rightarrow>
          (case (c, st) of (User n cs, (l, hs)) \<Rightarrow>
             Option.bind (lock l) (\<lambda>l.
               Option.bind (WithService_answers lock unlock True cs (l, hs @ [n])) (\<lambda>(l, hs).
                 map_option (\<lambda>l. (l, hs)) (unlock l)))))"

section \<open>The callbacks of the response parser\<close>

datatype parser_slot =
    OnChunkComplete | OnChunkHeader | OnHeadersComplete | OnMessageBegin | OnMessageComplete
  | OnUrl | OnStatus | OnHeaderField | OnHeaderValue | OnBody

text \<open>What \<^verbatim>\<open>Init\<close> writes into each slot; the argument is the piece of text the library passes.\<close>

fun RespParser_Init :: "parser_slot \<Rightarrow> (string \<Rightarrow> RespParser \<Rightarrow> RespParser) option" where
  "RespParser_Init OnMessageComplete = Some (\<lambda>_. RespParser_onMessageEnd)"
| "RespParser_Init OnHeaderField = Some RespParser_onHeaderField"
| "RespParser_Init OnHeaderValue = Some RespParser_onHeaderValue"
| "RespParser_Init OnBody = Some RespParser_onBody"
| "RespParser_Init _ = None"

text \<open>The library calls the callback of a slot, if there is one.\<close>

fun slot_call :: "parser_slot \<times> string \<Rightarrow> RespParser \<Rightarrow> RespParser" where
  "slot_call (sl, str) t = (case RespParser_Init sl of None \<Rightarrow> t | Some f \<Rightarrow> f str t)"

fun slot_callback :: "parser_slot \<times> string \<Rightarrow> http_callback list" where
  "slot_callback (OnMessageComplete, str) = [MessageEnd]"
| "slot_callback (OnHeaderField, str) = [HeaderField str]"
| "slot_callback (OnHeaderValue, str) = [HeaderValue str]"
| "slot_callback (OnBody, str) = [Body str]"
| "slot_callback _ = []"

section \<open>Properties\<close>

lemma getReply_incomplete:
  "reply_ptr m = None \<Longrightarrow> fold redis_do (replicate n (UseRespPop False)) m = m"
proof -
  assume "reply_ptr m = None"
  then have eq: "RedisClient_getReply False m = m" by (cases m) (simp add: RedisClient_getReply_def)
  then show ?thesis by (induction n) (simp_all add: funpow_swap1)
qed

text \<open>
  One request leaks nothing: however often the reply is incomplete, at the end of a client that has made one request
  each of its three blocks has been released once.  But the command, allocated by \<^verbatim>\<open>malloc\<close>, goes
  to \<^verbatim>\<open>delete\<close>.
\<close>

theorem RedisClient_frees_one_request:
  "let m = redis_life (UseReqPush True # replicate n (UseRespPop False) @ [UseRespPop True])
   in rm_live m = [] \<and> rm_released m = [(1, Delete), (0, ReaderFree), (2, FreeReplyObject)]"
  using getReply_incomplete [of "RedisClient_format True RedisClient_construct" n]
  by (simp add: redis_defs)

text \<open>A second request on a client loses the first command and the first reply.\<close>

theorem RedisClient_leaks_second_request:
  "rm_live (redis_life [UseReqPush True, UseRespPop True, UseReqPush True, UseRespPop True]) = [(1, FormatCommand), (2, GetReply)]"
  by (simp add: redis_defs)

text \<open>
  A gRPC client has a trace id exactly while its call is under way: in every history in which a client object makes one
  request, asking then succeeds, and once nothing is under way it dereferences a null or deleted event, whichever the
  client.
\<close>

theorem GrpcClient_GetTraceId_while_underway:
  assumes "distinct (map fst (requests is))" "\<forall>(i, h, stub)\<in>set (requests is). fst stub \<longrightarrow> snd stub \<noteq> None"
    and "client_run is = Some s"
  shows "(underway i s \<noteq> 0 \<longrightarrow> GrpcClient_GetTraceId trace i s \<noteq> None) \<and>
    (gr_pending s = [] \<longrightarrow> GrpcClient_GetTraceId trace i s = None)"
proof -
  from client_run_inv [OF assms(1,2)] assms(3) have inv: "client_inv is s" by simp
  have "GrpcClient_GetTraceId trace i s \<noteq> None" if "underway i s \<noteq> 0"
  proof -
    from that obtain t where t: "gr_events s t = Some i" by (auto simp: underway_def filter_empty_conv)
    with inv have "gr_event s i = Some t" unfolding client_inv_def by blast
    with t show ?thesis by (simp add: GrpcClient_GetTraceId_def)
  qed
  moreover have "GrpcClient_GetTraceId trace i s = None" if "gr_pending s = []"
  proof -
    from inv that have "gr_events s t = None" for t unfolding client_inv_def by (metis empty_iff empty_set)
    then show ?thesis by (simp add: GrpcClient_GetTraceId_def split: option.splits)
  qed
  ultimately show ?thesis by blast
qed

theorem GrpcClient_GetTraceId_while_underway_witness:
  "\<exists>s. client_run [Request 0 10 (True, Some ())] = Some s \<and> GrpcClient_GetTraceId (\<lambda>t. ''id'') 0 s \<noteq> None"
proof -
  let ?is = "[Request 0 10 (True, Some ())]"
  obtain s where s: "client_run ?is = Some s" "underway 0 s \<noteq> 0"
    by (simp add: client_run_def client_defs client_sys_new_def underway_def)
  from GrpcClient_GetTraceId_while_underway [OF _ _ s(1), of 0] s show ?thesis by auto
qed

text \<open>The deadline is the present plus the time-out, until the year 2116 and for time-outs below a century.\<close>

theorem GrpcClient_SetTimeoutMs_exact:
  assumes "unat now < 2 ^ 62" "unat ms < 4000000000000"
  shows "unat (GrpcClient_SetTimeoutMs now ms) = unat now + unat ms * 1000000 \<and> unat (GrpcClient_SetTimeoutMs now ms) < 2 ^ 63"
proof -
  have "unat ms * unat (1000000 :: u64) < 2 ^ LENGTH(64)" using assms(2) by simp
  then have m: "unat (ms * 1000000) = unat ms * 1000000" by (simp add: unat_mult_lem [THEN iffD1])
  have "unat now + unat (ms * 1000000) < 2 ^ LENGTH(64)" using assms m by simp
  from unat_add_exact [OF this] m show ?thesis using assms by (simp add: GrpcClient_SetTimeoutMs_def)
qed

theorem GrpcClient_SetTimeoutMs_exact_witness:
  "unat (GrpcClient_SetTimeoutMs 1700000000000000000 250) = 1700000000250000000"
  using GrpcClient_SetTimeoutMs_exact [of 1700000000000000000 250] by simp

text \<open>The three classes with a service run a handler in the same way.\<close>

theorem WithService_classes_agree:
  "RedisClientWithService_onDone lock unlock s w c st = WithService_answer lock unlock s w c st"
  "GrpcClientWithService_onDone lock unlock s v c st = WithService_answer lock unlock s v c st"
  by (cases c; cases st; simp add: RedisClientWithService_onDone_def GrpcClientWithService_onDone_def WithService_answer_def
      split: option.splits)+

text \<open>
  The table that \<^verbatim>\<open>Init\<close> fills makes the library's calls the parser's callbacks: headers, body and the end
  reach it, everything else is dropped.
\<close>

theorem RespParser_Init_callbacks:
  "fold slot_call cs t = fold http_call (concat (map slot_callback cs)) t"
proof (induction cs arbitrary: t)
  case (Cons c cs)
  obtain sl str where "c = (sl, str)" by (cases c)
  with Cons show ?case by (cases sl) simp_all
qed simp

end
