(* ===== verification/Etcd_Watcher.thy ===== *)
theory Etcd_Watcher
  imports Small_Config Http_Message Client_Channel Net_Client
begin

text \<open>
  The etcd client of \<^verbatim>\<open>src/extends/small_watcher\<close>: \<^verbatim>\<open>etcd.cpp\<close>, which keeps a
  key alive (create, then refresh for ever) and follows a directory (list, wait for a change, list again),
  and \<^verbatim>\<open>watcher_resolver.h\<close>, which turns the keys of a directory into the nodes of a client
  channel.

  A request to etcd is an HTTP request of \<open>Base_Client\<close>; here it is its target and body, and an answer
  is the error message of the request with the body and the headers of the response.  A timer is one of
  \<open>Async_Timer\<close>; here it is its delay with what its closure remembers.
\<close>

section \<open>Answers\<close>

text \<open>
  The JSON library as in \<open>Small_Config\<close>, with \<^verbatim>\<open>GetUint64\<close> and the message of a parse error.
  \<^verbatim>\<open>HasMember\<close> on a value that is not an object, and an accessor on a value of another type, fail
  an assertion: \<open>None\<close>.
\<close>

record 'j etcd_lib = "'j json_lib" +
  j_getUint64 :: "'j \<Rightarrow> nat option"
  j_parseError :: "string \<Rightarrow> errmsg"

definition HasMember :: "'j etcd_lib \<Rightarrow> 'j \<Rightarrow> string \<Rightarrow> 'j option option" where
  "HasMember L j n = (if j_isObject L j then Some (j_member L j n) else None)"

datatype 'j answer = Failed errmsg | NoJson errmsg | ErrorCode errmsg bool | Good 'j

text \<open>
  The tests every handler makes: transport, parse, error code with (\<open>True\<close>) or without a
  message.
\<close>

definition Etcd_answer :: "'j etcd_lib \<Rightarrow> errmsg \<Rightarrow> string \<Rightarrow> 'j answer option" where
  "Etcd_answer L errMsg respStr =
     (if errMsg \<noteq> '''' then Some (Failed errMsg)
      else case j_parse L respStr of
        None \<Rightarrow> Some (NoJson (''parse '' @ respStr @ '' Failed: code '' @ j_parseError L respStr))
      | Some doc \<Rightarrow>
          (case HasMember L doc ''errorCode'' of
             None \<Rightarrow> None
           | Some None \<Rightarrow> Some (Good doc)
           | Some (Some c) \<Rightarrow>
               (case j_getUint64 L c of
                  None \<Rightarrow> None
                | Some code \<Rightarrow>
                    (case j_member L doc ''message'' of
                       None \<Rightarrow> Some (ErrorCode (''errorCode: '' @ to_string code) False)
                     | Some m \<Rightarrow>
                         map_option (\<lambda>s. ErrorCode (''errorCode: '' @ to_string code @ '' message: '' @ s) True)
                           (j_getString L m)))))"

section \<open>The channel to etcd\<close>

text \<open>\<^verbatim>\<open>Init\<close>: at most ten clients per node, and the hosts resolved by DNS.\<close>

definition Etcd_Init ::
    "nat \<Rightarrow> (string, lb_kind) omap \<Rightarrow> (string, resolver_kind) omap \<Rightarrow> dns \<Rightarrow> (string \<Rightarrow> int \<Rightarrow> nat \<Rightarrow> 'p \<times> errmsg) \<Rightarrow> int \<Rightarrow>
     string list \<Rightarrow> nat \<Rightarrow> 'p ClientChannel option" where
  "Etcd_Init garbage lbs rs dns create port0 ips p =
     (let c = ClientChannel_SetMaxSize 10 (ClientChannel_SetResolverType ''dns'' ClientChannel_new)
      in ClientChannel_Init garbage lbs rs dns (ClientChannel_makeClient create (ch_maxSize c) port0 True) ips p c)"

text \<open>
  \<^verbatim>\<open>GetLocalIp\<close> borrows a client of a pool and gives it back; every failure is FATAL (\<open>None\<close>).
  \<open>sock\<close>, \<open>result\<close> and \<open>printed\<close> are the connection's socket and what \<^verbatim>\<open>getsockname\<close> and
  \<^verbatim>\<open>inet_ntop\<close> give.  The result is the pool afterwards and the address.
\<close>

definition Etcd_GetLocalIp ::
    "nat \<Rightarrow> (int \<Rightarrow> string) \<Rightarrow> Socket option \<Rightarrow> int \<Rightarrow> string option \<Rightarrow> string \<Rightarrow> pool ClientChannel \<Rightarrow>
     (pool \<times> string) option" where
  "Etcd_GetLocalIp r se sock result printed ip ch =
     (case ClientChannel_GetClientPool r ch of
        Some (True, Some p) \<Rightarrow>
          (case ClientPool_Get p of
             (p, None) \<Rightarrow> None
           | (p, Some a) \<Rightarrow>
               if conn p a = None then None
               else (case TcpConnection_GetLocalIp se sock result printed ip of
                 (errMsg, ip) \<Rightarrow>
                   if errMsg \<noteq> '''' then None
                   else map_option (\<lambda>p. (p, ip)) (ClientPool_Insert a '''' 0 p)))
      | _ \<Rightarrow> None)"

section \<open>Ephemeral keys\<close>

datatype put_kind = Create | Refresh

text \<open>
  \<open>e_waiting\<close>: the requests whose answer is still to come, and \<open>e_timers\<close> the pending timers, each with
  what its closure remembers, by number; \<open>e_clients\<close> is \<^verbatim>\<open>httpClients_\<close>; \<open>e_sent\<close> the requests made.
\<close>

record etcd =
  e_clients :: "nat set"
  e_waiting :: "(nat \<times> put_kind \<times> string \<times> string) list"
  e_timers :: "(nat \<times> put_kind \<times> nat \<times> string \<times> string) list"
  e_next :: nat
  e_sent :: "(string \<times> string) list"

definition Etcd_new :: etcd where
  "Etcd_new = \<lparr>e_clients = {}, e_waiting = [], e_timers = [], e_next = 0, e_sent = []\<rparr>"

definition Etcd_put :: "put_kind \<Rightarrow> string \<Rightarrow> string \<Rightarrow> etcd \<Rightarrow> etcd" where
  "Etcd_put k path v s =
     s\<lparr>e_clients := insert (e_next s) (e_clients s),
       e_waiting := e_waiting s @ [(e_next s, k, path, v)],
       e_next := e_next s + 1,
       e_sent := e_sent s @ [(''/v2/keys'' @ path,
         ''value='' @ v @ ''&ttl=12'' @ (case k of Create \<Rightarrow> '''' | Refresh \<Rightarrow> ''&refresh=true''))]\<rparr>"

definition Etcd_nextCreateEphemral :: "string \<Rightarrow> string \<Rightarrow> etcd \<Rightarrow> etcd" where
  "Etcd_nextCreateEphemral path v s =
     s\<lparr>e_timers := e_timers s @ [(e_next s, Create, 1000, path, v)], e_next := e_next s + 1\<rparr>"

definition Etcd_nextRefresh :: "string \<Rightarrow> string \<Rightarrow> etcd \<Rightarrow> etcd" where
  "Etcd_nextRefresh path v s =
     s\<lparr>e_timers := e_timers s @ [(e_next s, Refresh, 5000, path, v)], e_next := e_next s + 1\<rparr>"

definition Etcd_createEphemeral :: "string \<Rightarrow> string \<Rightarrow> errmsg \<Rightarrow> etcd \<Rightarrow> etcd" where
  "Etcd_createEphemeral path v errMsg s =
     (if errMsg \<noteq> '''' then Etcd_nextCreateEphemral path path s else Etcd_put Create path v s)"

definition Etcd_refresh :: "string \<Rightarrow> string \<Rightarrow> errmsg \<Rightarrow> etcd \<Rightarrow> etcd" where
  "Etcd_refresh path v errMsg s =
     (if errMsg \<noteq> '''' then Etcd_nextCreateEphemral path v s else Etcd_put Refresh path v s)"

definition Etcd_CreateEphemeral :: "string \<Rightarrow> string \<Rightarrow> etcd \<Rightarrow> etcd" where
  "Etcd_CreateEphemeral path v = Etcd_createEphemeral path v ''''"

definition erase_client :: "nat \<Rightarrow> etcd \<Rightarrow> etcd" where
  "erase_client i s = s\<lparr>e_clients := e_clients s - {i}\<rparr>"

text \<open>
  The handlers of the two requests, given the error of the request and the body of the response; a failed assertion in
  the tests of the answer is \<open>None\<close>.  \<^verbatim>\<open>createEphemeral\<close> forgets to drop its client in two
  branches.
\<close>

definition Etcd_createDone :: "'j etcd_lib \<Rightarrow> errmsg \<Rightarrow> string \<Rightarrow> nat \<Rightarrow> string \<Rightarrow> string \<Rightarrow> etcd \<Rightarrow> etcd option" where
  "Etcd_createDone L errMsg respStr i path v s =
     (case Etcd_answer L errMsg respStr of
        None \<Rightarrow> None
      | Some (Failed _) \<Rightarrow> Some (erase_client i (Etcd_nextCreateEphemral path path s))
      | Some (NoJson _) \<Rightarrow> Some (erase_client i (Etcd_nextRefresh path v s))
      | Some (ErrorCode _ True) \<Rightarrow> Some (Etcd_nextCreateEphemral path v s)
      | Some (ErrorCode _ False) \<Rightarrow> Some (erase_client i (Etcd_nextCreateEphemral path v s))
      | Some (Good _) \<Rightarrow> Some (Etcd_nextRefresh path v s))"

definition Etcd_refreshDone :: "'j etcd_lib \<Rightarrow> errmsg \<Rightarrow> string \<Rightarrow> nat \<Rightarrow> string \<Rightarrow> string \<Rightarrow> etcd \<Rightarrow> etcd option" where
  "Etcd_refreshDone L errMsg respStr i path v s =
     (case Etcd_answer L errMsg respStr of
        None \<Rightarrow> None
      | Some (Failed _) \<Rightarrow> Some (erase_client i (Etcd_nextCreateEphemral path path s))
      | Some (NoJson _) \<Rightarrow> Some (erase_client i (Etcd_nextRefresh path v s))
      | Some (ErrorCode _ _) \<Rightarrow> Some (erase_client i (Etcd_nextCreateEphemral path v s))
      | Some (Good _) \<Rightarrow> Some (erase_client i (Etcd_nextRefresh path v s)))"

text \<open>The answer to request \<open>i\<close>, its error and its body, and timer \<open>i\<close> running out or being cancelled.\<close>

datatype etcd_event = Answered nat errmsg string | Fired nat errmsg

fun etcd_step :: "'j etcd_lib \<Rightarrow> etcd_event \<Rightarrow> etcd \<Rightarrow> etcd option" where
  "etcd_step L (Answered i errMsg respStr) s =
     (case map_of (e_waiting s) i of
        None \<Rightarrow> Some s
      | Some (k, path, v) \<Rightarrow>
          (let s = s\<lparr>e_waiting := filter (\<lambda>x. fst x \<noteq> i) (e_waiting s)\<rparr>
           in case k of
                Create \<Rightarrow> Etcd_createDone L errMsg respStr i path v s
              | Refresh \<Rightarrow> Etcd_refreshDone L errMsg respStr i path v s))"
| "etcd_step L (Fired i m) s =
     (case map_of (e_timers s) i of
        None \<Rightarrow> Some s
      | Some (k, ms, path, v) \<Rightarrow>
          (let s = s\<lparr>e_timers := filter (\<lambda>x. fst x \<noteq> i) (e_timers s)\<rparr>
           in Some (case k of Create \<Rightarrow> Etcd_createEphemeral path v m s | Refresh \<Rightarrow> Etcd_refresh path v m s)))"

fun etcd_run :: "'j etcd_lib \<Rightarrow> etcd_event list \<Rightarrow> etcd \<Rightarrow> etcd option" where
  "etcd_run L [] s = Some s"
| "etcd_run L (e # es) s = Option.bind (etcd_step L e s) (etcd_run L es)"

text \<open>
  A body on which the tests of the answer fail an assertion: JSON that is not an object, an error code that is not a
  number, or a message beside it that is not a string.
\<close>

definition malformed :: "'j etcd_lib \<Rightarrow> string \<Rightarrow> bool" where
  "malformed L respStr \<longleftrightarrow>
     (case j_parse L respStr of
        None \<Rightarrow> False
      | Some doc \<Rightarrow> \<not> j_isObject L doc \<or>
          (case j_member L doc ''errorCode'' of
             None \<Rightarrow> False
           | Some c \<Rightarrow> j_getUint64 L c = None \<or>
               (case j_member L doc ''message'' of None \<Rightarrow> False | Some m \<Rightarrow> j_getString L m = None)))"

section \<open>Listing and watching\<close>

text \<open>The keys in a listing: \<^verbatim>\<open>node.nodes[].key\<close>, each level if it is there.\<close>

fun Etcd_node_keys :: "'j etcd_lib \<Rightarrow> 'j list \<Rightarrow> string list option" where
  "Etcd_node_keys L [] = Some []"
| "Etcd_node_keys L (n # ns) =
     (case HasMember L n ''key'' of
        None \<Rightarrow> None
      | Some None \<Rightarrow> Etcd_node_keys L ns
      | Some (Some k) \<Rightarrow> Option.bind (j_getString L k) (\<lambda>s. map_option ((#) s) (Etcd_node_keys L ns)))"

definition Etcd_keys :: "'j etcd_lib \<Rightarrow> 'j \<Rightarrow> string list option" where
  "Etcd_keys L doc =
     (case j_member L doc ''node'' of
        None \<Rightarrow> Some []
      | Some node \<Rightarrow>
          (case HasMember L node ''nodes'' of
             None \<Rightarrow> None
           | Some None \<Rightarrow> Some []
           | Some (Some ns) \<Rightarrow> Option.bind (j_getArray L ns) (Etcd_node_keys L)))"

text \<open>
  The handler of \<^verbatim>\<open>List\<close>: what it passes on, an error or the next index and the keys; \<open>None\<close>
  is a crash: a failed assertion, the header missing, or a header that is not a number.
\<close>

definition Etcd_ListDone ::
    "'j etcd_lib \<Rightarrow> errmsg \<Rightarrow> string \<Rightarrow> header_map \<Rightarrow> (errmsg \<times> u64 \<times> string list) option" where
  "Etcd_ListDone L errMsg respStr headers =
     (case Etcd_answer L errMsg respStr of
        None \<Rightarrow> None
      | Some (Failed e) \<Rightarrow> Some (e, 0, [])
      | Some (NoJson e) \<Rightarrow> Some (e, 0, [])
      | Some (ErrorCode e msg) \<Rightarrow> Some (e, 0, [])
      | Some (Good doc) \<Rightarrow>
          (case Map_Get ''X-Etcd-Index'' headers of
             None \<Rightarrow> None
           | Some str \<Rightarrow>
               (case stoll str of
                  None \<Rightarrow> None
                | Some i \<Rightarrow>
                    if i = - 1 then Some (''invalid etcdIndex '' @ str, 0, [])
                    else map_option (\<lambda>keys. ('''', word_of_int (i + 1), keys)) (Etcd_keys L doc))))"

text \<open>What \<^verbatim>\<open>ListWatch\<close> is waiting for, and what it did.\<close>

datatype lw_pending = ListAnswer | WatchAnswer u64 | WatchTimer u64

record list_watch =
  lw_pending :: "lw_pending list"
  lw_told :: "string list list"
  lw_requests :: "string list"

definition Etcd_listWatch :: "string \<Rightarrow> list_watch \<Rightarrow> list_watch" where
  "Etcd_listWatch path s =
     s\<lparr>lw_pending := lw_pending s @ [ListAnswer], lw_requests := lw_requests s @ [''/v2/keys'' @ path @ ''/'']\<rparr>"

definition Etcd_WatchOnce :: "u64 \<Rightarrow> string \<Rightarrow> string" where
  "Etcd_WatchOnce afterIndex path = ''/v2/keys'' @ path @ ''?wait=true&recursive=true''"

definition Etcd_watch :: "u64 \<Rightarrow> string \<Rightarrow> list_watch \<Rightarrow> list_watch" where
  "Etcd_watch i path s =
     s\<lparr>lw_pending := lw_pending s @ [WatchAnswer i], lw_requests := lw_requests s @ [Etcd_WatchOnce i path]\<rparr>"

definition Etcd_ListWatch :: "string \<Rightarrow> list_watch" where
  "Etcd_ListWatch path = Etcd_listWatch path \<lparr>lw_pending = [], lw_told = [], lw_requests = []\<rparr>"

text \<open>\<open>stop\<close>: what the user's function sets its flag to when it is told the keys.\<close>

definition Etcd_listed :: "(string list \<Rightarrow> bool) \<Rightarrow> string \<Rightarrow> errmsg \<times> u64 \<times> string list \<Rightarrow> list_watch \<Rightarrow> list_watch" where
  "Etcd_listed stop path r s =
     (case r of (errMsg, i, keys) \<Rightarrow>
        if errMsg \<noteq> '''' then Etcd_watch i path s
        else let s = s\<lparr>lw_told := lw_told s @ [keys]\<rparr> in if stop keys then s else Etcd_watch i path s)"

definition Etcd_watched :: "u64 \<Rightarrow> string \<Rightarrow> errmsg \<Rightarrow> list_watch \<Rightarrow> list_watch" where
  "Etcd_watched i path errMsg s =
     (if errMsg \<noteq> '''' then s\<lparr>lw_pending := lw_pending s @ [WatchTimer i]\<rparr> else Etcd_listWatch path s)"

text \<open>The answer to the pending request (a message, and for a listing what it passes on), or the timer.\<close>

datatype lw_event = Listed "errmsg \<times> u64 \<times> string list" | Watched errmsg | Slept

fun lw_step :: "(string list \<Rightarrow> bool) \<Rightarrow> string \<Rightarrow> lw_event \<Rightarrow> list_watch \<Rightarrow> list_watch" where
  "lw_step stop path e s =
     (case (lw_pending s, e) of
        (ListAnswer # ps, Listed r) \<Rightarrow> Etcd_listed stop path r (s\<lparr>lw_pending := ps\<rparr>)
      | (WatchAnswer i # ps, Watched m) \<Rightarrow> Etcd_watched i path m (s\<lparr>lw_pending := ps\<rparr>)
      | (WatchTimer i # ps, Slept) \<Rightarrow> Etcd_watch i path (s\<lparr>lw_pending := ps\<rparr>)
      | _ \<Rightarrow> s)"

section \<open>The resolver\<close>

text \<open>The keys, told by \<^verbatim>\<open>ListWatch\<close>, as nodes: \<open>None\<close> when \<^verbatim>\<open>substr\<close> throws.\<close>

fun WatcherResolver_nodes :: "string \<Rightarrow> string list \<Rightarrow> string list \<Rightarrow> string list option" where
  "WatcherResolver_nodes tgt [] nodes = Some nodes"
| "WatcherResolver_nodes tgt (key # keys) nodes =
     Option.bind (TrimLeft key (tgt @ ''/'')) (\<lambda>n. WatcherResolver_nodes tgt keys (set_insert n nodes))"

definition WatcherResolver_notify ::
    "'p maker \<Rightarrow> string \<Rightarrow> string list \<Rightarrow> 'p ClientChannel \<Rightarrow> 'p ClientChannel option" where
  "WatcherResolver_notify mk tgt keys c =
     Option.bind (WatcherResolver_nodes tgt keys []) (\<lambda>nodes. Balancer_notify mk nodes c)"

section \<open>Lemmas\<close>

lemmas etcd_defs =
  Etcd_put_def Etcd_nextCreateEphemral_def Etcd_nextRefresh_def Etcd_createEphemeral_def Etcd_refresh_def
  Etcd_CreateEphemeral_def Etcd_createDone_def Etcd_refreshDone_def erase_client_def

lemma Etcd_answer_None: "Etcd_answer L errMsg respStr = None \<longleftrightarrow> errMsg = '''' \<and> malformed L respStr"
  by (auto simp: Etcd_answer_def malformed_def HasMember_def split: option.splits)

lemma etcd_run_append: "etcd_run L (es @ ds) s = Option.bind (etcd_run L es s) (etcd_run L ds)"
  by (induction es arbitrary: s) (auto split: bind_splits)

text \<open>
  One activity: a single request or a single timer, short to create and long to refresh; \<open>P\<close> holds of the path and value it
  remembers.
\<close>

definition one_activity :: "(string \<Rightarrow> string \<Rightarrow> bool) \<Rightarrow> etcd \<Rightarrow> bool" where
  "one_activity P s \<longleftrightarrow>
     (\<exists>i k path v. P path v \<and> (e_waiting s = [(i, k, path, v)] \<and> e_timers s = [] \<or>
        e_waiting s = [] \<and> e_timers s = [(i, k, case k of Create \<Rightarrow> 1000 | Refresh \<Rightarrow> 5000, path, v)]))"


definition idle :: "etcd \<Rightarrow> bool" where
  "idle s \<longleftrightarrow> e_waiting s = [] \<and> e_timers s = []"

lemma one_from_idle:
  "idle s \<Longrightarrow> P path v \<Longrightarrow> one_activity P (Etcd_nextCreateEphemral path v s)"
  "idle s \<Longrightarrow> P path v \<Longrightarrow> one_activity P (Etcd_nextRefresh path v s)"
  "idle s \<Longrightarrow> P path v \<Longrightarrow> one_activity P (Etcd_put k path v s)"
  "one_activity P (erase_client i s) = one_activity P s"
  by (simp_all add: one_activity_def idle_def etcd_defs)

text \<open>A step either finds nothing to do or ends the one activity and starts the next.\<close>

lemma etcd_step_cases [consumes 1]:
  assumes "one_activity P s"
  obtains "etcd_step L e s = Some s"
  | s' i m body path v where "e = Answered i m body" "idle s'" "e_sent s' = e_sent s" "P path v"
      "etcd_step L e s = Etcd_createDone L m body i path v s'"
  | s' i m body path v where "e = Answered i m body" "idle s'" "e_sent s' = e_sent s" "P path v"
      "etcd_step L e s = Etcd_refreshDone L m body i path v s'"
  | s' i m path v where "e = Fired i m" "idle s'" "e_sent s' = e_sent s" "P path v"
      "etcd_step L e s = Some (Etcd_createEphemeral path v m s')"
  | s' i m path v where "e = Fired i m" "idle s'" "e_sent s' = e_sent s" "P path v"
      "etcd_step L e s = Some (Etcd_refresh path v m s')"
proof -
  consider (w) i k path v where "e_waiting s = [(i, k, path, v)]" "e_timers s = []" "P path v"
    | (t) i k ms path v where "e_waiting s = []" "e_timers s = [(i, k, ms, path, v)]" "P path v"
    using assms unfolding one_activity_def by blast
  then show thesis
  proof cases
    case w
    show thesis
    proof (cases e)
      case (Answered j m body)
      show thesis
      proof (cases "j = i")
        case False
        with w Answered that(1) show thesis by simp
      next
        case True
        let ?s = "s\<lparr>e_waiting := []\<rparr>"
        have "idle ?s" "e_sent ?s = e_sent s" using w by (simp_all add: idle_def)
        with w Answered True that(2,3) [of i m body ?s path v] show thesis by (cases k) simp_all
      qed
    next
      case (Fired j m)
      with w that(1) show thesis by simp
    qed
  next
    case t
    show thesis
    proof (cases e)
      case (Fired j m)
      show thesis
      proof (cases "j = i")
        case False
        with t Fired that(1) show thesis by simp
      next
        case True
        let ?s = "s\<lparr>e_timers := []\<rparr>"
        have "idle ?s" "e_sent ?s = e_sent s" using t by (simp_all add: idle_def)
        with t Fired True that(4,5) [of i m ?s path v] show thesis by (cases k) simp_all
      qed
    next
      case (Answered j m body)
      with t that(1) show thesis by simp
    qed
  qed
qed



text \<open>No transport failure and no timer that was cancelled.\<close>

fun smooth :: "etcd_event \<Rightarrow> bool" where
  "smooth (Answered i m body) = (m = '''')"
| "smooth (Fired i m) = (m = '''')"

definition keeps_value :: "string \<Rightarrow> string \<Rightarrow> etcd \<Rightarrow> bool" where
  "keeps_value path v s \<longleftrightarrow>
     one_activity (\<lambda>p w. p = path \<and> w = v) s \<and>
     (\<forall>(t, b)\<in>set (e_sent s). t = ''/v2/keys'' @ path \<and> (\<exists>r. b = ''value='' @ v @ ''&ttl=12'' @ r))"

lemma sent_simps:
  "e_sent (Etcd_nextCreateEphemral path v s) = e_sent s" "e_sent (Etcd_nextRefresh path v s) = e_sent s"
  "e_sent (erase_client i s) = e_sent s"
  by (simp_all add: etcd_defs)

lemma etcd_step_value:
  assumes "keeps_value path v s" "smooth e" "etcd_step L e s = Some t"
  shows "keeps_value path v t"
proof -
  let ?P = "\<lambda>p w. p = path \<and> w = v"
  from assms(1) have one: "one_activity ?P s" by (simp add: keeps_value_def)
  note defs = keeps_value_def one_from_idle sent_simps
  have a: "Etcd_answer L '''' body \<noteq> Some (Failed m)" for body m
    by (auto simp: Etcd_answer_def split: option.splits)
  from one show ?thesis
  proof (cases rule: etcd_step_cases [where e = e and L = L])
    case 1
    with assms(1,3) show ?thesis by simp
  next
    case (2 s' i m body p w)
    with assms a [of body] show ?thesis by (auto simp: Etcd_createDone_def defs split: option.splits answer.splits bool.splits)
  next
    case (3 s' i m body p w)
    with assms a [of body] show ?thesis by (auto simp: Etcd_refreshDone_def defs split: option.splits answer.splits)
  next
    case (4 s' i m p w)
    with assms show ?thesis by (simp add: Etcd_createEphemeral_def defs) (auto simp: Etcd_put_def)
  next
    case (5 s' i m p w)
    with assms show ?thesis by (simp add: Etcd_refresh_def defs) (auto simp: Etcd_put_def)
  qed
qed

lemmas lw_defs = Etcd_listWatch_def Etcd_watch_def Etcd_listed_def Etcd_watched_def

definition lw_inv :: "(string list \<Rightarrow> bool) \<Rightarrow> list_watch \<Rightarrow> bool" where
  "lw_inv stop s \<longleftrightarrow>
     (\<forall>keys\<in>set (butlast (lw_told s)). \<not> stop keys) \<and>
     (if lw_told s \<noteq> [] \<and> stop (last (lw_told s)) then lw_pending s = [] else length (lw_pending s) = 1)"

lemma lw_step_inv:
  assumes "lw_inv stop s"
  shows "lw_inv stop (lw_step stop path e s)"
proof (cases "lw_pending s")
  case Nil
  with assms show ?thesis by simp
next
  case (Cons p ps)
  with assms have ps: "ps = []" "\<not> (lw_told s \<noteq> [] \<and> stop (last (lw_told s)))"
    by (auto simp: lw_inv_def split: if_splits)
  have "\<forall>keys\<in>set (lw_told s). \<not> stop keys"
  proof (cases "lw_told s" rule: rev_cases)
    case (snoc xs x)
    with assms ps(2) show ?thesis by (auto simp: lw_inv_def)
  qed simp
  with Cons ps assms show ?thesis
    by (cases p; cases e) (auto simp: lw_inv_def lw_defs Let_def split: prod.splits)
qed

text \<open>Listings and states up to the index of the listing.\<close>

fun no_index :: "lw_event \<Rightarrow> lw_event" where
  "no_index (Listed (e, i, keys)) = Listed (e, 0, keys)"
| "no_index x = x"

fun pending_no_index :: "lw_pending \<Rightarrow> lw_pending" where
  "pending_no_index (WatchAnswer i) = WatchAnswer 0"
| "pending_no_index (WatchTimer i) = WatchTimer 0"
| "pending_no_index ListAnswer = ListAnswer"

definition lw_no_index :: "list_watch \<Rightarrow> list_watch" where
  "lw_no_index s = s\<lparr>lw_pending := map pending_no_index (lw_pending s)\<rparr>"

lemma lw_step_no_index:
  "lw_no_index (lw_step stop path e s) = lw_step stop path (no_index e) (lw_no_index s)"
proof (cases "lw_pending s")
  case Nil
  then show ?thesis by (simp add: lw_no_index_def)
next
  case (Cons p ps)
  then show ?thesis
    by (cases p; cases e) (auto simp: lw_no_index_def lw_defs Etcd_WatchOnce_def Let_def)
qed

lemma lw_steps_no_index:
  "lw_no_index (fold (lw_step stop path) es s) = fold (lw_step stop path) (map no_index es) (lw_no_index s)"
  by (induction es arbitrary: s) (simp_all add: lw_step_no_index del: lw_step.simps)

lemma find_prefix: "t \<noteq> [] \<Longrightarrow> find_str 0 (t @ rest) t = 0"
  by (cases t) simp_all

lemma TrimLeft_prefix:
  assumes "t \<noteq> []" "length (t @ rest) < 2 ^ 64"
  shows "TrimLeft (t @ rest) t = Some rest"
proof -
  have "unat (of_nat (length t) :: u64) = length t" using assms(2) by (simp add: unat_of_nat)
  moreover have "(of_nat (length (t @ rest)) - of_nat (length t) :: u64) = of_nat (length rest)" by simp
  moreover have "unat (of_nat (length rest) :: u64) = length rest" using assms(2) by (simp add: unat_of_nat)
  ultimately show ?thesis using assms(1) by (simp add: TrimLeft_def find_prefix Let_def)
qed

lemma WatcherResolver_nodes_set:
  assumes "\<forall>n\<in>set names. length tgt + length n + 1 < 2 ^ 64" "distinct nodes"
  shows "\<exists>r. WatcherResolver_nodes tgt (map (\<lambda>n. tgt @ ''/'' @ n) names) nodes = Some r \<and>
    set r = set names \<union> set nodes \<and> distinct r"
  using assms
proof (induction names arbitrary: nodes)
  case (Cons n names)
  have "TrimLeft ((tgt @ ''/'') @ n) (tgt @ ''/'') = Some n"
    by (rule TrimLeft_prefix) (use Cons.prems(1) in auto)
  moreover have "distinct (set_insert n nodes)" using Cons.prems(2) by (simp add: set_insert_def distinct_insort_insert)
  ultimately show ?case using Cons.IH [of "set_insert n nodes"] Cons.prems(1) by auto
qed simp

section \<open>Properties\<close>


text \<open>A malformed answer to the request under way does end the program.\<close>

theorem Etcd_malformed_ends:
  assumes "malformed L body"
  shows "etcd_run L [Answered 0 '''' body] (Etcd_CreateEphemeral path v Etcd_new) = None"
proof -
  have "Etcd_answer L '''' body = None" using assms by (simp add: Etcd_answer_None)
  then show ?thesis by (simp add: etcd_defs Etcd_new_def Let_def)
qed

text \<open>
  As long as no request fails in transport and no timer is cancelled, every request made for the key,
  creating or refreshing, is for its path and carries its value.
\<close>

theorem Etcd_ephemeral_value:
  assumes "\<forall>e\<in>set es. smooth e" "etcd_run L es (Etcd_CreateEphemeral path v Etcd_new) = Some s"
  shows "\<forall>(t, b)\<in>set (e_sent s). t = ''/v2/keys'' @ path \<and> (\<exists>r. b = ''value='' @ v @ ''&ttl=12'' @ r)"
proof -
  have "keeps_value path v (Etcd_CreateEphemeral path v Etcd_new)"
    by (simp add: keeps_value_def one_activity_def etcd_defs Etcd_new_def)
  then have "keeps_value path v s"
    using assms by (induction es arbitrary: s rule: rev_induct)
      (auto simp: etcd_run_append bind_eq_Some_conv intro: etcd_step_value)
  then show ?thesis by (simp add: keeps_value_def)
qed

text \<open>
  After a transport failure the key is created again with the wrong value: the handler passes the path
  where the value belongs, so the next request registers the path under itself; and a successful creation
  leaves its client in the set for good.
\<close>

theorem Etcd_failure_registers_path:
  "e \<noteq> '''' \<Longrightarrow>
   map_option (\<lambda>s. last (e_sent s)) (etcd_run L [Answered 0 e body, Fired 1 ''''] (Etcd_CreateEphemeral path v Etcd_new)) =
     Some (''/v2/keys'' @ path, ''value='' @ path @ ''&ttl=12'')"
  "Etcd_answer L '''' body = Some (Good doc) \<Longrightarrow>
   map_option (\<lambda>s. (e_clients s, e_waiting s)) (etcd_run L [Answered 0 '''' body] (Etcd_CreateEphemeral path v Etcd_new)) = Some ({0}, [])"
proof -
  show "map_option (\<lambda>s. last (e_sent s)) (etcd_run L [Answered 0 e body, Fired 1 ''''] (Etcd_CreateEphemeral path v Etcd_new)) =
      Some (''/v2/keys'' @ path, ''value='' @ path @ ''&ttl=12'')" if "e \<noteq> ''''"
  proof -
    from that have "Etcd_answer L e body = Some (Failed e)" by (simp add: Etcd_answer_def)
    then show ?thesis by (simp add: etcd_defs Etcd_new_def Let_def)
  qed
  show "map_option (\<lambda>s. (e_clients s, e_waiting s)) (etcd_run L [Answered 0 '''' body] (Etcd_CreateEphemeral path v Etcd_new)) = Some ({0}, [])"
    if "Etcd_answer L '''' body = Some (Good doc)"
    using that by (simp add: etcd_defs Etcd_new_def Let_def)
qed

text \<open>
  Following a directory goes on until the user says stop: whatever the listings, failures and
  changes, there is exactly one request or timer under way as long as the user's function has not asked
  to stop, and none once it has, after which it is not called again.
\<close>

theorem Etcd_ListWatch_goes_on:
  "let s = fold (lw_step stop path) es (Etcd_ListWatch path)
   in (\<forall>keys\<in>set (butlast (lw_told s)). \<not> stop keys) \<and>
      (if lw_told s \<noteq> [] \<and> stop (last (lw_told s)) then lw_pending s = [] else length (lw_pending s) = 1)"
proof -
  have "lw_inv stop (Etcd_ListWatch path)" by (simp add: lw_inv_def Etcd_ListWatch_def lw_defs)
  then have "lw_inv stop (fold (lw_step stop path) es (Etcd_ListWatch path))"
    by (induction es rule: rev_induct) (simp_all add: lw_step_inv del: lw_step.simps)
  then show ?thesis by (simp add: lw_inv_def Let_def)
qed

lemma Etcd_ListWatch_goes_on_witness:
  "let s = fold (lw_step (\<lambda>keys. keys = [''/d/b'']) ''/d'')
             [Listed ('''', 7, [''/d/a'']), Watched ''timeout'', Slept, Watched '''', Listed ('''', 9, [''/d/b'']), Slept]
             (Etcd_ListWatch ''/d'')
   in lw_told s = [[''/d/a''], [''/d/b'']] \<and> lw_pending s = [] \<and>
      \<not> (\<exists>keys\<in>set (butlast (lw_told s)). keys = [''/d/b''])"
  using Etcd_ListWatch_goes_on [of "\<lambda>keys. keys = [''/d/b'']" "''/d''"
      "[Listed ('''', 7, [''/d/a'']), Watched ''timeout'', Slept, Watched '''', Listed ('''', 9, [''/d/b'']), Slept]"]
  by (simp add: Etcd_ListWatch_def lw_defs Let_def)

text \<open>
  The index of a listing is never used: two histories that differ only in the indices the listings
  report make the same requests, so a change between a listing and the watch behind it is not seen.
\<close>

theorem Etcd_index_unused:
  assumes "map no_index es = map no_index es'"
  shows "lw_requests (fold (lw_step stop path) es s) = lw_requests (fold (lw_step stop path) es' s)"
proof -
  have "lw_no_index (fold (lw_step stop path) es s) = lw_no_index (fold (lw_step stop path) es' s)"
    unfolding lw_steps_no_index assms ..
  then have "lw_requests (lw_no_index (fold (lw_step stop path) es s)) = lw_requests (lw_no_index (fold (lw_step stop path) es' s))"
    by simp
  then show ?thesis by (simp add: lw_no_index_def)
qed

text \<open>
  A listing reaches the clients: if the keys told are names in the resolver's directory, the nodes
  are exactly these names, and after the notification the channel, whatever the random number, hands out
  the pool of one of them.
\<close>

theorem WatcherResolver_serves_names:
  assumes "omap_ok (ch_pools c)" "names \<noteq> []" "ch_balancer c \<noteq> None"
    "\<forall>n\<in>set names. length tgt + length n + 1 < 2 ^ 64"
    "\<forall>n\<in>set names. map_find n (ch_pools c) = None \<longrightarrow> (\<exists>p. mk n = Some ('''', p))"
  shows "\<exists>c' n. WatcherResolver_notify mk tgt (map (\<lambda>n. tgt @ ''/'' @ n) names) c = Some c' \<and> n \<in> set names \<and>
    ClientChannel_GetClientPool r c' = Some (ClientManager_GetClientPool n (ch_pools c')) \<and>
    fst (ClientManager_GetClientPool n (ch_pools c'))"
proof -
  from WatcherResolver_nodes_set [OF assms(4), of "[]"] obtain nodes where
    n: "WatcherResolver_nodes tgt (map (\<lambda>n. tgt @ ''/'' @ n) names) [] = Some nodes" "set nodes = set names" "distinct nodes"
    by auto
  with assms(2) have "nodes \<noteq> []" by auto
  from notify_Get [OF assms(1) n(3) this assms(3), of mk r] assms(5) n(1,2) show ?thesis
    by (auto simp: WatcherResolver_notify_def)
qed

theorem WatcherResolver_serves_names_witness:
  "\<exists>c' n. WatcherResolver_notify (\<lambda>n. Some ('''', Some (length n))) ''/srv'' [''/srv/a:1'', ''/srv/b:2'']
      ((ClientChannel_new :: nat ClientChannel)\<lparr>ch_balancer := Some (RandomLbPolicy_new 0)\<rparr>) = Some c' \<and>
     n \<in> {''a:1'', ''b:2''} \<and> ClientChannel_GetClientPool 7 c' = Some (ClientManager_GetClientPool n (ch_pools c'))"
proof -
  let ?c = "(ClientChannel_new :: nat ClientChannel)\<lparr>ch_balancer := Some (RandomLbPolicy_new 0)\<rparr>"
  have "omap_ok (ch_pools ?c)" "[''a:1'', ''b:2''] \<noteq> []" "ch_balancer ?c \<noteq> None"
    "\<forall>n\<in>set [''a:1'', ''b:2'']. length ''/srv'' + length n + 1 < 2 ^ 64"
    "\<forall>n\<in>set [''a:1'', ''b:2'']. map_find n (ch_pools ?c) = None \<longrightarrow> (\<exists>p. (\<lambda>n. Some ('''', Some (length n))) n = Some ('''', p))"
    by (simp_all add: ClientChannel_new_def)
  from WatcherResolver_serves_names [OF this, of 7] show ?thesis by auto
qed

text \<open>
  \<^verbatim>\<open>GetLocalIp\<close> gives back what it borrows: when it returns, the pool holds the same clients, the
  one it used has been reset, and the address is the socket's.
\<close>

theorem Etcd_GetLocalIp_gives_back:
  assumes "Etcd_GetLocalIp r se sock result printed ip0 ch = Some (p', ip)"
  shows "\<exists>p a c. ClientChannel_GetClientPool r ch = Some (True, Some p) \<and> a = Min (clients p) \<and> conn p a = Some c \<and>
    p' = p\<lparr>clients := insert a (clients p), conn := (conn p)(a := Some (TcpConnection_Reset c))\<rparr> \<and>
    TcpConnection_GetLocalIp se sock result printed ip0 = ('''', ip)"
proof -
  from assms obtain p where p: "ClientChannel_GetClientPool r ch = Some (True, Some p)"
    by (auto simp: Etcd_GetLocalIp_def split: option.splits prod.splits bool.splits)
  with assms show ?thesis
    by (auto simp: Etcd_GetLocalIp_def ClientPool_Get_def ClientPool_Insert_def Let_def insert_absorb
        split: option.splits prod.splits if_splits)
qed

end
