(* ===== verification/Resolvers.thy ===== *)
theory Resolvers
  imports Etcd_Watcher Loop_Threads
begin

text \<open>
  The resolvers as objects: the string and the DNS resolver of
  \<^verbatim>\<open>client_channel/resolver\<close>, the resolver of \<^verbatim>\<open>small_watcher\<close>, their factories, and
  the balancer that owns one.  \<open>Client_Channel\<close> describes what the channel sees of the first two; here
  the objects are shown to do that, a channel is run with a watched directory, and the DNS resolver is destroyed.
\<close>

section \<open>The objects\<close>

record StringResolver =
  sr_ips :: "string list"
  sr_port :: nat
  sr_target :: string

record DnsResolver =
  dr_ips :: "string list"
  dr_port :: nat
  dr_target :: string
  dr_queue :: block_queue
  dr_thread :: looper

text \<open>The watcher: its addresses, the channel its \<^verbatim>\<open>Init\<close> makes, and what its \<^verbatim>\<open>ListWatch\<close> waits for.\<close>

record 'p WatcherResolver =
  wr_ips :: "string list"
  wr_port :: nat
  wr_target :: string
  wr_channel :: "'p ClientChannel option"
  wr_watch :: "list_watch option"

datatype 'p resolver = StringR StringResolver | DnsR DnsResolver | WatcherR "'p WatcherResolver"

definition StringResolver_new :: "string list \<Rightarrow> nat \<Rightarrow> string \<Rightarrow> StringResolver" where
  "StringResolver_new ips p tgt = \<lparr>sr_ips = ips, sr_port = p, sr_target = tgt\<rparr>"

definition DnsResolver_new :: "string list \<Rightarrow> nat \<Rightarrow> string \<Rightarrow> DnsResolver" where
  "DnsResolver_new ips p tgt =
     \<lparr>dr_ips = ips, dr_port = p, dr_target = tgt, dr_queue = BlockQueue_new, dr_thread = looper_new\<rparr>"

definition MakeWatcher :: "string list \<Rightarrow> nat \<Rightarrow> string list \<times> nat" where
  "MakeWatcher ips p = (ips, p)"

definition WatcherResolver_new :: "string list \<Rightarrow> nat \<Rightarrow> string \<Rightarrow> 'p WatcherResolver" where
  "WatcherResolver_new ips p tgt =
     (case MakeWatcher ips p of
        (ips, p) \<Rightarrow> \<lparr>wr_ips = ips, wr_port = p, wr_target = tgt, wr_channel = None, wr_watch = None\<rparr>)"

text \<open>The factories' \<^verbatim>\<open>Create\<close>, and its choice by the kind of the factory.\<close>

definition StringResolverFactory_Create :: "string list \<Rightarrow> nat \<Rightarrow> string \<Rightarrow> 'p resolver" where
  "StringResolverFactory_Create ips p tgt = StringR (StringResolver_new ips p tgt)"

definition DnsResolverFactory_Create :: "string list \<Rightarrow> nat \<Rightarrow> string \<Rightarrow> 'p resolver" where
  "DnsResolverFactory_Create ips p tgt = DnsR (DnsResolver_new ips p tgt)"

definition WatcherResolverFactory_Create :: "string list \<Rightarrow> nat \<Rightarrow> string \<Rightarrow> 'p resolver" where
  "WatcherResolverFactory_Create ips p tgt = WatcherR (WatcherResolver_new ips p tgt)"

fun ResolverFactory_Create :: "resolver_kind \<Rightarrow> string list \<Rightarrow> nat \<Rightarrow> string \<Rightarrow> 'p resolver" where
  "ResolverFactory_Create StringKind = StringResolverFactory_Create"
| "ResolverFactory_Create DnsKind = DnsResolverFactory_Create"
| "ResolverFactory_Create WatcherKind = WatcherResolverFactory_Create"

definition WatcherResolverFactory_Init :: "(string, resolver_kind) omap \<Rightarrow> (string, resolver_kind) omap" where
  "WatcherResolverFactory_Init rs = ResolverManager_Register ''watcher'' WatcherKind (ResolverManager_GetInstance rs)"

text \<open>
  \<^verbatim>\<open>Init\<close>: nothing, the start of the queue's thread, or the watcher's own channel, whose making is
  \<open>etcd\<close> (\<open>Etcd_Init\<close> on the watcher's addresses).
\<close>

definition StringResolver_Init :: "StringResolver \<Rightarrow> StringResolver" where
  "StringResolver_Init r = r"

definition DnsResolver_Init :: "DnsResolver \<Rightarrow> DnsResolver option" where
  "DnsResolver_Init r =
     map_option (\<lambda>t. r\<lparr>dr_queue := BlockQueue_Init (dr_queue r), dr_thread := t\<rparr>) (BlockQueue_start (dr_thread r))"

definition WatcherResolver_Init ::
    "(string list \<Rightarrow> nat \<Rightarrow> 'p ClientChannel option) \<Rightarrow> 'p WatcherResolver \<Rightarrow> 'p WatcherResolver option" where
  "WatcherResolver_Init etcd r = map_option (\<lambda>ch. r\<lparr>wr_channel := Some ch\<rparr>) (etcd (wr_ips r) (wr_port r))"

fun Resolver_Init :: "(string list \<Rightarrow> nat \<Rightarrow> 'p ClientChannel option) \<Rightarrow> 'p resolver \<Rightarrow> 'p resolver option" where
  "Resolver_Init etcd (StringR r) = Some (StringR (StringResolver_Init r))"
| "Resolver_Init etcd (DnsR r) = map_option DnsR (DnsResolver_Init r)"
| "Resolver_Init etcd (WatcherR r) = map_option WatcherR (WatcherResolver_Init etcd r)"

text \<open>
  \<^verbatim>\<open>SetNotifyWatcherChange\<close>: the node sets handed to the handler before it returns, and the object;
  a watcher that has not been initialised has no channel to ask.
\<close>

definition StringResolver_SetNotifyWatcherChange :: "StringResolver \<Rightarrow> string list list" where
  "StringResolver_SetNotifyWatcherChange r = [StringResolver_nodes (sr_ips r) (sr_port r)]"

definition DnsResolver_SetNotifyWatcherChange :: "dns \<Rightarrow> DnsResolver \<Rightarrow> string list list \<times> DnsResolver" where
  "DnsResolver_SetNotifyWatcherChange dns r =
     (case DnsResolver_resolveOnce dns (dr_ips r) (dr_port r) True (dr_queue r) of
        (nodes, q) \<Rightarrow> (case nodes of None \<Rightarrow> [] | Some n \<Rightarrow> [n], r\<lparr>dr_queue := q\<rparr>))"

definition WatcherResolver_SetNotifyWatcherChange :: "'p WatcherResolver \<Rightarrow> 'p WatcherResolver option" where
  "WatcherResolver_SetNotifyWatcherChange r =
     (if wr_channel r = None then None else Some (r\<lparr>wr_watch := Some (Etcd_ListWatch (wr_target r))\<rparr>))"

fun Resolver_SetNotifyWatcherChange :: "dns \<Rightarrow> 'p resolver \<Rightarrow> (string list list \<times> 'p resolver) option" where
  "Resolver_SetNotifyWatcherChange dns (StringR r) = Some (StringResolver_SetNotifyWatcherChange r, StringR r)"
| "Resolver_SetNotifyWatcherChange dns (DnsR r) =
     Some (case DnsResolver_SetNotifyWatcherChange dns r of (nss, r) \<Rightarrow> (nss, DnsR r))"
| "Resolver_SetNotifyWatcherChange dns (WatcherR r) =
     map_option (\<lambda>r. ([], WatcherR r)) (WatcherResolver_SetNotifyWatcherChange r)"

section \<open>The balancer with its resolver\<close>

fun notify_all :: "'p maker \<Rightarrow> string list list \<Rightarrow> 'p ClientChannel \<Rightarrow> 'p ClientChannel option" where
  "notify_all mk [] c = Some c"
| "notify_all mk (ns # nss) c = Option.bind (Balancer_notify mk ns c) (notify_all mk nss)"

text \<open>\<^verbatim>\<open>Balancer::Init\<close>; no resolver reports an error in \<^verbatim>\<open>Init\<close>.\<close>

definition Balancer_Init ::
    "(string list \<Rightarrow> nat \<Rightarrow> 'p ClientChannel option) \<Rightarrow> dns \<Rightarrow> 'p maker \<Rightarrow> 'p resolver \<Rightarrow> 'p ClientChannel \<Rightarrow>
     ('p ClientChannel \<times> 'p resolver) option" where
  "Balancer_Init etcd dns mk r c =
     Option.bind (Resolver_Init etcd r) (\<lambda>r.
     Option.bind (Resolver_SetNotifyWatcherChange dns r) (\<lambda>(nss, r).
     map_option (\<lambda>c. (c, r)) (notify_all mk nss c)))"

section \<open>A channel on a watched directory\<close>

text \<open>
  One event of the watcher, with the handler the resolver passed to \<^verbatim>\<open>ListWatch\<close>, which leaves
  \<^verbatim>\<open>stop\<close> alone: a listing that is told goes to the balancer.
\<close>

definition WatcherResolver_step ::
    "'p maker \<Rightarrow> string \<Rightarrow> lw_event \<Rightarrow> list_watch \<times> 'p ClientChannel \<Rightarrow> (list_watch \<times> 'p ClientChannel) option" where
  "WatcherResolver_step mk tgt e = (\<lambda>(s, c).
     let s' = lw_step (\<lambda>_. False) tgt e s
     in if lw_told s' = lw_told s then Some (s', c)
        else map_option (Pair s') (WatcherResolver_notify mk tgt (last (lw_told s')) c))"

fun WatcherResolver_run ::
    "'p maker \<Rightarrow> string \<Rightarrow> lw_event list \<Rightarrow> list_watch \<times> 'p ClientChannel \<Rightarrow> (list_watch \<times> 'p ClientChannel) option" where
  "WatcherResolver_run mk tgt [] s = Some s"
| "WatcherResolver_run mk tgt (e # es) s = Option.bind (WatcherResolver_step mk tgt e s) (WatcherResolver_run mk tgt es)"

text \<open>A listing of the directory \<open>tgt\<close> with the entries \<open>names\<close>.\<close>

fun in_directory :: "string \<Rightarrow> lw_event \<Rightarrow> lw_event" where
  "in_directory tgt (Listed (m, i, names)) = Listed (m, i, map (\<lambda>n. tgt @ ''/'' @ n) names)"
| "in_directory tgt e = e"

fun entries :: "lw_event \<Rightarrow> string list" where
  "entries (Listed (m, i, names)) = names"
| "entries e = []"

section \<open>Destroying a DNS resolver\<close>

text \<open>
  A step of the queue's thread: the pass it is in returns when the wait for an empty queue does.
  The destructor is the queue's.
\<close>

definition DnsResolver_thread :: "DnsResolver \<Rightarrow> DnsResolver" where
  "DnsResolver_thread r =
     r\<lparr>dr_thread := thread_step (BlockQueue_looper (\<lambda>_. []) 0 ((dr_queue r)\<lparr>q_stop := False\<rparr>) \<noteq> None) (dr_thread r)\<rparr>"

definition DnsResolver_join_returns :: "DnsResolver \<Rightarrow> DnsResolver" where
  "DnsResolver_join_returns r = r\<lparr>dr_thread := join_returns (dr_thread r)\<rparr>"

definition DnsResolver_destroy :: "DnsResolver \<Rightarrow> DnsResolver option" where
  "DnsResolver_destroy r =
     map_option (\<lambda>t. r\<lparr>dr_queue := BlockQueue_destroy (dr_queue r), dr_thread := t\<rparr>) (BlockQueue_end (dr_thread r))"

lemmas resolver_defs [model_defs] =
  StringResolver_new_def DnsResolver_new_def WatcherResolver_new_def MakeWatcher_def StringResolverFactory_Create_def
  DnsResolverFactory_Create_def WatcherResolverFactory_Create_def StringResolver_Init_def DnsResolver_Init_def
  WatcherResolver_Init_def StringResolver_SetNotifyWatcherChange_def DnsResolver_SetNotifyWatcherChange_def
  WatcherResolver_SetNotifyWatcherChange_def BlockQueue_Init_def

section \<open>Lemmas\<close>

text \<open>What the channel knows, after a listing of \<open>names\<close> or, as \<open>None\<close>, before any.\<close>

definition serves :: "'p maker \<Rightarrow> string list option \<Rightarrow> 'p ClientChannel \<Rightarrow> bool" where
  "serves mk names c \<longleftrightarrow>
     omap_ok (ch_pools c) \<and>
     (\<exists>pol. ch_balancer c = Some pol \<and>
        (\<forall>ns. names = Some ns \<longrightarrow> set (lb_keys pol) = set ns \<and> lb_size pol = length (lb_keys pol))) \<and>
     (\<forall>k. map_find k (ch_pools c) \<noteq> None \<longrightarrow> fst (the (mk k)) = '''') \<and>
     (\<forall>ns. names = Some ns \<longrightarrow>
        (\<forall>k. map_find k (ch_pools c) \<noteq> None \<longleftrightarrow> k \<in> set ns \<and> fst (the (mk k)) = ''''))"

lemma serves_notify:
  assumes "serves mk names c" "distinct nodes" "\<forall>n\<in>set nodes. \<exists>e p. mk n = Some (e, p)" "set nodes = set ns"
  shows "\<exists>c'. Balancer_notify mk nodes c = Some c' \<and> serves mk (Some ns) c'"
proof -
  from assms(1) obtain pol where c: "omap_ok (ch_pools c)" "ch_balancer c = Some pol"
    "\<forall>k. map_find k (ch_pools c) \<noteq> None \<longrightarrow> fst (the (mk k)) = ''''"
    by (auto simp: serves_def)
  have "\<forall>n\<in>set nodes. map_find n (ch_pools c) = None \<longrightarrow> (\<exists>e p. mk n = Some (e, p))" using assms(3) by blast
  from Update_spec [OF c(1) assms(2) this] obtain m' where m': "ClientManager_Update mk nodes (ch_pools c) = Some m'"
    "omap_ok m'"
    "\<forall>k. map_find k m' =
       (if k \<notin> set nodes then None
        else case map_find k (ch_pools c) of
          Some p \<Rightarrow> Some p
        | None \<Rightarrow> if fst (the (mk k)) = '''' then Some (snd (the (mk k))) else None)" by blast
  have "map_find k m' \<noteq> None \<longleftrightarrow> k \<in> set ns \<and> fst (the (mk k)) = ''''" for k
    using m'(3) c(3) assms(4) by (auto split: option.splits)
  with c m'(1,2) assms(2,4) show ?thesis
    by (auto simp: Balancer_notify_def serves_def RandomLbPolicy_UpdateAllWithoutWeight_def)
qed

lemma serves_listing:
  assumes "serves mk names c" "\<forall>n\<in>set ns. (\<exists>e p. mk n = Some (e, p)) \<and> length tgt + length n + 1 < 2 ^ 64"
  shows "\<exists>c'. WatcherResolver_notify mk tgt (map (\<lambda>n. tgt @ ''/'' @ n) ns) c = Some c' \<and> serves mk (Some ns) c'"
proof -
  from WatcherResolver_nodes_set [of ns tgt "[]"] assms(2) obtain nodes where
    n: "WatcherResolver_nodes tgt (map (\<lambda>n. tgt @ ''/'' @ n) ns) [] = Some nodes" "set nodes = set ns" "distinct nodes"
    by auto
  from serves_notify [OF assms(1) n(3) _ n(2)] assms(2) n show ?thesis by (simp add: WatcherResolver_notify_def)
qed

lemma lw_step_quiet:
  assumes "lw_pending s = [q]" "\<And>i ks. q = ListAnswer \<Longrightarrow> e \<noteq> Listed ('''', i, ks)"
  shows "length (lw_pending (lw_step (\<lambda>_. False) tgt e s)) = 1" "lw_told (lw_step (\<lambda>_. False) tgt e s) = lw_told s"
proof -
  have "length (lw_pending (lw_step (\<lambda>_. False) tgt e s)) = 1 \<and> lw_told (lw_step (\<lambda>_. False) tgt e s) = lw_told s"
  proof (cases e)
    case (Listed r)
    obtain m i ks where r: "r = (m, i, ks)" by (cases r)
    with Listed assms show ?thesis by (cases q) (auto simp: Etcd_listed_def Etcd_watch_def)
  next
    case (Watched m)
    with assms(1) show ?thesis by (cases q) (auto simp: Etcd_watched_def Etcd_listWatch_def)
  next
    case Slept
    with assms(1) show ?thesis by (cases q) (auto simp: Etcd_watch_def)
  qed
  then show "length (lw_pending (lw_step (\<lambda>_. False) tgt e s)) = 1" "lw_told (lw_step (\<lambda>_. False) tgt e s) = lw_told s"
    by simp_all
qed

lemma in_directory_Listed: "in_directory tgt e = Listed (m, i, ks) \<Longrightarrow> \<exists>ns. e = Listed (m, i, ns)"
  by (cases "(tgt, e)" rule: in_directory.cases) auto

definition discovery_ok :: "'p maker \<Rightarrow> string \<Rightarrow> list_watch \<times> 'p ClientChannel \<Rightarrow> bool" where
  "discovery_ok mk tgt x \<longleftrightarrow>
     length (lw_pending (fst x)) = 1 \<and>
     (\<exists>nss. lw_told (fst x) = map (map (\<lambda>n. tgt @ ''/'' @ n)) nss \<and>
        serves mk (if nss = [] then None else Some (last nss)) (snd x))"

lemma discovery_step:
  assumes "discovery_ok mk tgt x" "\<forall>n\<in>set (entries e). (\<exists>e p. mk n = Some (e, p)) \<and> length tgt + length n + 1 < 2 ^ 64"
  shows "\<exists>x'. WatcherResolver_step mk tgt (in_directory tgt e) x = Some x' \<and> discovery_ok mk tgt x'"
proof -
  obtain s c where x: "x = (s, c)" by (cases x)
  from assms(1) obtain q nss where s: "lw_pending s = [q]" "lw_told s = map (map (\<lambda>n. tgt @ ''/'' @ n)) nss"
    "serves mk (if nss = [] then None else Some (last nss)) c"
    by (auto simp: discovery_ok_def x length_Suc_conv)
  let ?s = "lw_step (\<lambda>_. False) tgt (in_directory tgt e) s"
  show ?thesis
  proof (cases "\<exists>i ns. q = ListAnswer \<and> e = Listed ('''', i, ns)")
    case True
    then obtain i ns where q: "q = ListAnswer" "e = Listed ('''', i, ns)" by blast
    have p: "length (lw_pending ?s) = 1" "lw_told ?s = lw_told s @ [map (\<lambda>n. tgt @ ''/'' @ n) ns]"
      using s(1) q by (simp_all add: Etcd_listed_def Etcd_watch_def)
    from serves_listing [OF s(3), of ns tgt] assms(2) q(2) obtain c' where
      c': "WatcherResolver_notify mk tgt (map (\<lambda>n. tgt @ ''/'' @ n) ns) c = Some c'" "serves mk (Some ns) c'" by auto
    have "discovery_ok mk tgt (?s, c')"
      unfolding discovery_ok_def using p c'(2) s(2) by (auto intro!: exI [of _ "nss @ [ns]"] simp del: lw_step.simps)
    moreover have "WatcherResolver_step mk tgt (in_directory tgt e) x = Some (?s, c')"
      using p(2) c'(1) by (simp add: WatcherResolver_step_def x Let_def del: lw_step.simps)
    ultimately show ?thesis by blast
  next
    case False
    have p: "length (lw_pending ?s) = 1" "lw_told ?s = lw_told s"
      by (rule lw_step_quiet [OF s(1)], use False in_directory_Listed in blast)+
    have "discovery_ok mk tgt (?s, c)"
      unfolding discovery_ok_def fst_conv snd_conv p using s(2,3) by blast
    moreover have "WatcherResolver_step mk tgt (in_directory tgt e) x = Some (?s, c)"
      using p(2) by (simp add: WatcherResolver_step_def x Let_def del: lw_step.simps)
    ultimately show ?thesis by blast
  qed
qed

lemma discovery_run:
  assumes "discovery_ok mk tgt x" "\<forall>e\<in>set es. \<forall>n\<in>set (entries e). (\<exists>e p. mk n = Some (e, p)) \<and> length tgt + length n + 1 < 2 ^ 64"
  shows "\<exists>x'. WatcherResolver_run mk tgt (map (in_directory tgt) es) x = Some x' \<and> discovery_ok mk tgt x'"
  using assms
proof (induction es arbitrary: x)
  case (Cons e es)
  from discovery_step [OF Cons.prems(1), of e] Cons.prems(2) obtain x1 where
    x1: "WatcherResolver_step mk tgt (in_directory tgt e) x = Some x1" "discovery_ok mk tgt x1" by auto
  from Cons.IH [OF x1(2)] Cons.prems(2) x1(1) show ?case by auto
qed simp

lemma WatcherResolver_run_watch:
  "WatcherResolver_run mk tgt es (s, c) = Some (s', c') \<Longrightarrow> s' = fold (lw_step (\<lambda>_. False) tgt) es s"
proof (induction es arbitrary: s c)
  case (Cons e es)
  then obtain c1 where "WatcherResolver_run mk tgt es (lw_step (\<lambda>_. False) tgt e s, c1) = Some (s', c')"
    by (auto simp: WatcherResolver_step_def Let_def Option.bind_eq_Some_conv simp del: lw_step.simps split: if_splits)
  from Cons.IH [OF this] show ?case by simp
qed simp

lemma notify_all_one: "notify_all mk [ns] c = Balancer_notify mk ns c"
  by (cases "Balancer_notify mk ns c") auto

section \<open>Properties\<close>

text \<open>
  The objects do what the channel's model says: making the resolver of a kind through its factory, initialising
  it and asking it to notify leaves the channel as \<open>ClientChannel_Init\<close> does; and the DNS resolver's thread,
  once it waits, never comes back.
\<close>

theorem Balancer_Init_agrees:
  assumes "etcd ips p \<noteq> None"
  shows "ClientChannel_Init garbage lbs rs dns mk ips p c =
    Option.bind (Balancer_new garbage lbs rs (ch_lbPolicyType c) (ch_resolverType c)) (\<lambda>(pol, k).
      map_option fst (Balancer_Init etcd dns mk (ResolverFactory_Create k ips p tgt) (c\<lparr>ch_balancer := Some pol\<rparr>)))"
proof (cases "Balancer_new garbage lbs rs (ch_lbPolicyType c) (ch_resolverType c)")
  case (Some x)
  then obtain pol k where x: "x = (pol, k)" by (cases x)
  show ?thesis
  proof (cases k)
    case DnsKind
    have "fst (DnsResolver_resolveOnce dns ips p True (BlockQueue_Init BlockQueue_new)) =
        fst (DnsResolver_resolveOnce dns ips p True BlockQueue_new)"
      by (simp add: DnsResolver_resolveOnce_def Let_def)
    with DnsKind Some x show ?thesis
      by (cases "DnsResolver_resolveOnce dns ips p True (BlockQueue_Init BlockQueue_new)";
          cases "fst (DnsResolver_resolveOnce dns ips p True BlockQueue_new)")
        (simp_all add: ClientChannel_Init_def Balancer_Init_def resolver_defs BlockQueue_start_def thread_start_def looper_new_def
          option.map_comp comp_def notify_all_one option.map_ident Let_def del: notify_all.simps(2))
  next
    case StringKind
    with Some x show ?thesis
      by (simp add: ClientChannel_Init_def Balancer_Init_def resolver_defs option.map_comp comp_def notify_all_one
          option.map_ident del: notify_all.simps(2))
  qed (use Some x assms in \<open>auto simp: ClientChannel_Init_def Balancer_Init_def resolver_defs option.map_comp comp_def
      split: option.splits\<close>)
qed (simp add: ClientChannel_Init_def)

text \<open>
  C37.  Service discovery: a channel on a watched directory follows it.  Whatever the order of listings, failures,
  changes and sleeps, and whichever pools cannot be made, one request or timer is always under way; and after the
  last listing that was told, the nodes of the policy are its entries, a node has a pool iff it is
  an entry and its pool could be made, and the channel answers every random number with such a node, or says that
  it has none when the directory is empty.
\<close>

theorem Channel_follows_directory:
  assumes "\<forall>e\<in>set es. \<forall>n\<in>set (entries e). (\<exists>e p. mk n = Some (e, p)) \<and> length tgt + length n + 1 < 2 ^ 64"
  shows "\<exists>s c nss. WatcherResolver_run mk tgt (map (in_directory tgt) es)
      (Etcd_ListWatch tgt, ClientChannel_new\<lparr>ch_balancer := Some (RandomLbPolicy_new garbage)\<rparr>) = Some (s, c) \<and>
    length (lw_pending s) = 1 \<and> lw_told s = map (map (\<lambda>n. tgt @ ''/'' @ n)) nss \<and>
    (nss \<noteq> [] \<longrightarrow>
       (\<forall>k. fst (ClientManager_GetClientPool k (ch_pools c)) \<longleftrightarrow> k \<in> set (last nss) \<and> fst (the (mk k)) = '''') \<and>
       (if last nss = [] then \<forall>r. ClientChannel_GetClientPool r c = Some (False, None)
        else \<forall>r. \<exists>n\<in>set (last nss). ClientChannel_GetClientPool r c = Some (ClientManager_GetClientPool n (ch_pools c))))"
proof -
  let ?c = "ClientChannel_new\<lparr>ch_balancer := Some (RandomLbPolicy_new garbage)\<rparr>"
  have "discovery_ok mk tgt (Etcd_ListWatch tgt, ?c)"
    by (simp add: discovery_ok_def serves_def Etcd_ListWatch_def Etcd_listWatch_def ClientChannel_new_def)
  from discovery_run [OF this assms] obtain s c where
    r: "WatcherResolver_run mk tgt (map (in_directory tgt) es) (Etcd_ListWatch tgt, ?c) = Some (s, c)" "discovery_ok mk tgt (s, c)"
    by auto
  from r(2) obtain nss where s: "length (lw_pending s) = 1" "lw_told s = map (map (\<lambda>n. tgt @ ''/'' @ n)) nss"
    "serves mk (if nss = [] then None else Some (last nss)) c"
    by (auto simp: discovery_ok_def)
  have "(\<forall>k. fst (ClientManager_GetClientPool k (ch_pools c)) \<longleftrightarrow> k \<in> set (last nss) \<and> fst (the (mk k)) = '''') \<and>
       (if last nss = [] then \<forall>r. ClientChannel_GetClientPool r c = Some (False, None)
        else \<forall>r. \<exists>n\<in>set (last nss). ClientChannel_GetClientPool r c = Some (ClientManager_GetClientPool n (ch_pools c)))"
    if "nss \<noteq> []"
  proof -
    from s(3) that obtain pol where pol: "ch_balancer c = Some pol" "set (lb_keys pol) = set (last nss)"
      "lb_size pol = length (lb_keys pol)"
      "\<And>k. map_find k (ch_pools c) \<noteq> None \<longleftrightarrow> k \<in> set (last nss) \<and> fst (the (mk k)) = ''''"
      by (auto simp: serves_def)
    have u: "RandomLbPolicy_UpdateAllWithoutWeight (lb_keys pol) pol = pol"
      using pol(3) by (simp add: RandomLbPolicy_UpdateAllWithoutWeight_def)
    have "fst (ClientManager_GetClientPool k (ch_pools c)) \<longleftrightarrow> k \<in> set (last nss) \<and> fst (the (mk k)) = ''''" for k
      using pol(4) [of k] by (auto simp: ClientManager_GetClientPool_def split: option.splits)
    moreover have "ClientChannel_GetClientPool r c = Some (False, None)" if "last nss = []" for r
      using that pol by (simp add: ClientChannel_GetClientPool_def RandomLbPolicy_Get_def)
    moreover have "\<exists>n\<in>set (last nss). ClientChannel_GetClientPool r c = Some (ClientManager_GetClientPool n (ch_pools c))"
      if "last nss \<noteq> []" for r
      using rp.chooses [of "lb_keys pol" r pol] that pol(1,2) u by (force simp: ClientChannel_GetClientPool_def)
    ultimately show ?thesis by simp
  qed
  with r(1) s(1,2) show ?thesis by blast
qed


theorem Balancer_Init_agrees_witness:
  "ClientChannel_Init 3 [] [] (\<lambda>_. Inl '''') (\<lambda>n. Some ('''', Some (length n))) [''10.0.0.1''] 80 (ClientChannel_new :: nat ClientChannel) =
    Option.bind (Balancer_new 3 [] [] ''random'' ''string'') (\<lambda>(pol, k).
      map_option fst (Balancer_Init (\<lambda>_ _. Some ClientChannel_new) (\<lambda>_. Inl '''') (\<lambda>n. Some ('''', Some (length n)))
        (ResolverFactory_Create k [''10.0.0.1''] 80 ''/srv'') (ClientChannel_new\<lparr>ch_balancer := Some pol\<rparr>)))"
  using Balancer_Init_agrees [of "\<lambda>_ _. Some ClientChannel_new" "[''10.0.0.1'']" 80 3 "[]" "[]" "\<lambda>_. Inl ''''"
      "\<lambda>n. Some ('''', Some (length n))" "ClientChannel_new :: nat ClientChannel" "''/srv''"]
  by (simp add: ClientChannel_new_def)

theorem Channel_follows_directory_witness:
  "\<exists>s c. WatcherResolver_run (\<lambda>n. Some (if n = ''b:2'' then ''refused'' else '''', Some (length n))) ''/srv''
      (map (in_directory ''/srv'') [Listed (''timeout'', 0, []), Watched '''', Listed ('''', 7, [''c:3'']), Watched ''timeout'', Slept,
        Watched '''', Listed ('''', 9, [''a:1'', ''b:2''])])
      (Etcd_ListWatch ''/srv'', (ClientChannel_new :: nat ClientChannel)\<lparr>ch_balancer := Some (RandomLbPolicy_new 3)\<rparr>) = Some (s, c) \<and>
    length (lw_pending s) = 1 \<and> lw_told s = [[''/srv/c:3''], [''/srv/a:1'', ''/srv/b:2'']] \<and>
    fst (ClientManager_GetClientPool ''a:1'' (ch_pools c)) \<and> \<not> fst (ClientManager_GetClientPool ''b:2'' (ch_pools c)) \<and>
    \<not> fst (ClientManager_GetClientPool ''c:3'' (ch_pools c))"
proof -
  let ?mk = "\<lambda>n. Some (if n = ''b:2'' then ''refused'' else '''', Some (length n))"
  let ?es = "[Listed (''timeout'', 0, []), Watched '''', Listed ('''', 7, [''c:3'']), Watched ''timeout'', Slept,
        Watched '''', Listed ('''', 9, [''a:1'', ''b:2''])]"
  let ?c = "(ClientChannel_new :: nat ClientChannel)\<lparr>ch_balancer := Some (RandomLbPolicy_new 3)\<rparr>"
  have "\<forall>e\<in>set ?es. \<forall>n\<in>set (entries e). (\<exists>e p. ?mk n = Some (e, p)) \<and> length ''/srv'' + length n + 1 < 2 ^ 64" by simp
  from Channel_follows_directory [OF this, of 3] obtain s c nss where
    r: "WatcherResolver_run ?mk ''/srv'' (map (in_directory ''/srv'') ?es) (Etcd_ListWatch ''/srv'', ?c) = Some (s, c)"
    and s: "length (lw_pending s) = 1" "lw_told s = map (map (\<lambda>n. ''/srv'' @ ''/'' @ n)) nss"
    and c: "nss \<noteq> [] \<longrightarrow> (\<forall>k. fst (ClientManager_GetClientPool k (ch_pools c)) \<longleftrightarrow> k \<in> set (last nss) \<and> fst (the (?mk k)) = '''')"
    by blast
  have t: "lw_told s = [[''/srv/c:3''], [''/srv/a:1'', ''/srv/b:2'']]"
    using WatcherResolver_run_watch [OF r] by (simp add: Etcd_ListWatch_def lw_defs)
  then have "nss = [[''c:3''], [''a:1'', ''b:2'']]" using s(2) by (auto simp: Cons_eq_map_conv)
  with r s(1) t c show ?thesis by (intro exI [of _ s] exI [of _ c]) simp
qed

text \<open>
  A DNS resolver does not go away: once it has been initialised, has resolved for the first time and its thread has
  begun to wait, the destructor waits for a thread that never returns, however long they both run.
\<close>

theorem DnsResolver_destroy_hangs:
  assumes "Resolver_Init etcd (ResolverFactory_Create DnsKind ips p tgt) = Some r"
    and "Resolver_SetNotifyWatcherChange dns r = Some (nss, DnsR r')"
    and "set fs \<subseteq> {DnsResolver_thread, DnsResolver_join_returns}"
  shows "\<exists>r1. DnsResolver_destroy (DnsResolver_thread r') = Some r1 \<and>
    lo_joining (dr_thread (fold id fs r1)) \<and> lo_thread (dr_thread (fold id fs r1)) = Live"
proof -
  have r': "lo_thread (dr_thread r') = Live" "\<not> lo_stop (dr_thread r')" "\<not> lo_in_pass (dr_thread r')" "q_cbs (dr_queue r') \<noteq> []"
    using assms(1,2)
    by (auto simp: resolver_defs looper_defs looper_new_def DnsResolver_resolveOnce_def BlockQueue_Push_def
        BlockQueue_PushWithoutLock_def split: prod.splits)
  have stuck: "lo_joining (dr_thread (fold id fs r)) \<and> lo_thread (dr_thread (fold id fs r)) = Live"
    if "lo_joining (dr_thread r)" "lo_thread (dr_thread r) = Live" "lo_in_pass (dr_thread r)" "q_cbs (dr_queue r) \<noteq> []" for r
    using assms(3) that
  proof (induction fs arbitrary: r)
    case (Cons f fs)
    then have "f r = r"
      by (auto simp: DnsResolver_thread_def DnsResolver_join_returns_def thread_step_def join_returns_def BlockQueue_looper_def)
    with Cons show ?case by simp
  qed simp
  show ?thesis
    using r' stuck
    by (auto simp: DnsResolver_destroy_def DnsResolver_thread_def BlockQueue_destroy_def looper_defs)
qed

theorem DnsResolver_destroy_hangs_witness:
  "\<exists>r r' r1. Resolver_Init (\<lambda>_ _. None) (ResolverFactory_Create DnsKind [''h''] 80 '''') = Some (r :: nat resolver) \<and>
     Resolver_SetNotifyWatcherChange (\<lambda>_. Inr (True, [''10.0.0.1''])) r = Some ([[''10.0.0.1:80'']], DnsR r') \<and>
     DnsResolver_destroy (DnsResolver_thread r') = Some r1 \<and>
     lo_joining (dr_thread (fold id (replicate 5 DnsResolver_thread @ [DnsResolver_join_returns]) r1))"
proof -
  let ?t = "\<lparr>lo_thread = Live, lo_stop = False, lo_in_pass = False, lo_joining = False, lo_passes = 0\<rparr>"
  let ?q = "\<lparr>q_started = True, q_stop = False, q_cbs = [], q_ran = []\<rparr>"
  let ?r = "\<lparr>dr_ips = [''h''], dr_port = 80, dr_target = '''', dr_queue = ?q, dr_thread = ?t\<rparr>"
  have 1: "Resolver_Init (\<lambda>_ _. None) (ResolverFactory_Create DnsKind [''h''] 80 '''') = Some (DnsR ?r :: nat resolver)"
    by (simp add: resolver_defs BlockQueue_start_def thread_start_def looper_new_def BlockQueue_new_def)
  have n: "to_string 80 = ''80''" by code_simp
  have 2: "Resolver_SetNotifyWatcherChange (\<lambda>_. Inr (True, [''10.0.0.1''])) (DnsR ?r :: nat resolver) =
      Some ([[''10.0.0.1:80'']], DnsR (?r\<lparr>dr_queue := ?q\<lparr>q_cbs := [0]\<rparr>\<rparr>))"
    by (simp add: resolver_defs DnsResolver_resolveOnce_def DefaultDns_Resolver_def set_insert_def BlockQueue_Push_def BlockQueue_PushWithoutLock_def
        Let_def n insort_insert_key_def)
  have s: "set (replicate 5 DnsResolver_thread @ [DnsResolver_join_returns]) \<subseteq> {DnsResolver_thread, DnsResolver_join_returns}" by auto
  from DnsResolver_destroy_hangs [OF 1 2 s] 1 2 show ?thesis by blast
qed

end
