(* ===== verification/Timer_Loop.thy ===== *)
theory Timer_Loop
  imports Event_Loop Async_Timer
begin

text \<open>
  Timers on the loop.  \<open>Async_Timer\<close> describes one timer and takes the loop as the source of two of its inputs,
  \<open>TLoop\<close> and \<open>TFire\<close>; here any number of timers live on a loop with its two pollers, their events are
  objects of the loop, and a pass of the loop runs what the pollers return.
\<close>

section \<open>The system\<close>

text \<open>A timer has two events in its life: its asyncer's and its own.\<close>

datatype role = AsyncEv nat | TimerEv nat

fun role_timer :: "role \<Rightarrow> nat" where
  "role_timer (AsyncEv j) = j"
| "role_timer (TimerEv j) = j"

fun role_kind :: "role \<Rightarrow> poller_kind" where
  "role_kind (AsyncEv j) = AsyncerKind"
| "role_kind (TimerEv j) = TimerKind"

text \<open>
  The timers, the events they have made, the calls of their handlers and the counter of event ids; there are no
  descriptors, and this state takes the place of the kernel's behind the epoll poller.
  \<open>tm_asked\<close> is a record of what has been asked for, which no operation reads.
\<close>

record 'h timers =
  tm_obj :: "nat \<Rightarrow> 'h Timer"
  tm_ev :: "role \<Rightarrow> int option"
  tm_role :: "int \<Rightarrow> role option"
  tm_calls :: "(nat \<times> 'h \<times> errmsg) list"
  tm_ids :: int
  tm_asked :: "(nat \<times> 'h) list"

type_synonym 'h timer_loop = "'h timers EventLoop"

abbreviation tms :: "'h timer_loop \<Rightarrow> 'h timers" where "tms l \<equiv> kern (epoller l)"

definition upd_tms :: "('h timers \<Rightarrow> 'h timers) \<Rightarrow> 'h timer_loop \<Rightarrow> 'h timer_loop" where
  "upd_tms f l = l\<lparr>epoller := epoller l\<lparr>kern := f (tms l)\<rparr>\<rparr>"

definition no_ctl :: "epoll_op \<Rightarrow> int \<Rightarrow> interest_mask \<Rightarrow> 'k \<Rightarrow> 'k" where
  "no_ctl op f m k = k"

text \<open>\<^verbatim>\<open>EnableReadNotify\<close> and \<^verbatim>\<open>DisableReadNotify\<close> of an event of the loop.\<close>

definition loop_notify :: "bool \<Rightarrow> int \<Rightarrow> 'h timer_loop \<Rightarrow> 'h timer_loop option" where
  "loop_notify on i l =
     (case evs l i of
        None \<Rightarrow> None
      | Some e \<Rightarrow>
          (case ekind l i of
             EpollKind \<Rightarrow> None
           | TimerKind \<Rightarrow>
               (case (if on then Event_EnableReadNotify else Event_DisableReadNotify)
                       TimerPoller_updateEvent TimerPoller_removeEvent e (Some (timerPoller l)) of
                  Some (e, Some p) \<Rightarrow> Some (l\<lparr>evs := (evs l)(i := Some e), timerPoller := p\<rparr>) | _ \<Rightarrow> None)
           | AsyncerKind \<Rightarrow>
               (case (if on then Event_EnableReadNotify else Event_DisableReadNotify)
                       AsyncerPoller_updateEvent AsyncerPoller_removeEvent e (Some (asyncerPoller l)) of
                  Some (e, Some p) \<Rightarrow> Some (l\<lparr>evs := (evs l)(i := Some e), asyncerPoller := p\<rparr>) | _ \<Rightarrow> None)))"

text \<open>A new event for a role, with its notification enabled.\<close>

definition loop_event :: "role \<Rightarrow> int \<Rightarrow> 'h timer_loop \<Rightarrow> 'h timer_loop option" where
  "loop_event r f l =
     (case Event_new f (tm_ids (tms l)) of
        (e, ids) \<Rightarrow>
          loop_notify True (eid e)
            (upd_tms (\<lambda>w. w\<lparr>tm_ids := ids, tm_ev := (tm_ev w)(r := Some (eid e)), tm_role := (tm_role w)(eid e := Some r)\<rparr>)
              (l\<lparr>evs := (evs l)(eid e := Some e), ekind := (ekind l)(eid e := role_kind r), owned := (owned l)(eid e := True)\<rparr>)))"

text \<open>
  What a method of a timer does with an event, from the event's descriptor and flag before and after: make it, turn its
  notification off, or nothing.
\<close>

definition loop_follow :: "role \<Rightarrow> (int \<times> bool) option \<Rightarrow> (int \<times> bool) option \<Rightarrow> 'h timer_loop \<Rightarrow> 'h timer_loop option" where
  "loop_follow r old new l =
     (case (old, new) of
        (None, Some (f, True)) \<Rightarrow> loop_event r f l
      | (Some _, Some (f, False)) \<Rightarrow> Option.bind (tm_ev (tms l) r) (\<lambda>i. loop_notify False i l)
      | _ \<Rightarrow> Some l)"

definition async_flag :: "'h Timer \<Rightarrow> (int \<times> bool) option" where
  "async_flag t = Option.bind (t_asyncer t) (\<lambda>a. map_option (Pair 0) (a_event a))"

text \<open>A step of timer \<open>j\<close> on the loop: the object, its events, the calls it makes.\<close>

definition loop_timer :: "nat \<Rightarrow> ('h Timer \<Rightarrow> ('h Timer \<times> 'h calls) option) \<Rightarrow> 'h timer_loop \<Rightarrow> 'h timer_loop option" where
  "loop_timer j op l =
     (let t = tm_obj (tms l) j in
      Option.bind (op t) (\<lambda>(t', cs).
      Option.bind (loop_follow (AsyncEv j) (async_flag t) (async_flag t') l) (\<lambda>l.
      map_option (upd_tms (\<lambda>w. w\<lparr>tm_obj := (tm_obj w)(j := t'), tm_calls := tm_calls w @ map (Pair j) cs\<rparr>))
        (loop_follow (TimerEv j) (t_event t) (t_event t') l))))"

text \<open>
  The events' callbacks: the asyncer's, at time \<open>start\<close>, and the timer's own, which does not look at the clock.
\<close>

definition Timer_callback :: "u64 \<Rightarrow> 'h timers callback" where
  "Timer_callback start i isRead l =
     (case tm_role (tms l) i of
        None \<Rightarrow> Some l
      | Some (AsyncEv j) \<Rightarrow> loop_timer j (Timer_asyncFire start) l
      | Some (TimerEv j) \<Rightarrow> loop_timer j (\<lambda>t. Timer_fire (fst (the (t_event t))) t) l)"

section \<open>A timer's events\<close>

text \<open>What holds of a timer in every history: its asyncer comes first, its own event when the asyncer has run.\<close>

definition timer_wf :: "'h Timer \<Rightarrow> bool" where
  "timer_wf t \<longleftrightarrow>
     (\<not> t_used t \<longrightarrow> t_asyncer t = None) \<and> (t_asyncer t = None \<longrightarrow> t_event t = None) \<and>
     (\<forall>a. t_asyncer t = Some a \<longrightarrow> a_event a \<noteq> None \<and> a_handler a \<noteq> None \<and> t_handler t \<noteq> None \<and>
        (a_event a = Some True \<longrightarrow> t_event t = None \<and> \<not> a_done a))"

text \<open>How an event may change in one step.\<close>

fun follows :: "(int \<times> bool) option \<Rightarrow> (int \<times> bool) option \<Rightarrow> bool" where
  "follows None None = True"
| "follows None (Some (f, b)) = b"
| "follows (Some (f, b)) (Some (g, c)) = (f = g \<and> (c \<longrightarrow> b))"
| "follows (Some _) None = False"

lemma timer_wf_new: "timer_wf (Timer_new g)"
  by (simp add: timer_wf_def Timer_new_def)

lemma Timer_op_wf:
  assumes "timer_wf t"
  shows "\<exists>t' cs. Timer_op x t = Some (t', cs) \<and> timer_wf t' \<and> follows (async_flag t) (async_flag t') \<and>
    follows (t_event t) (t_event t')"
proof -
  have r: "follows (async_flag t) (async_flag t)" "follows (t_event t) (t_event t)"
    by (cases "async_flag t"; cases "t_event t"; auto)+
  show ?thesis
  proof (cases x)
    case (TWait g ms h)
    show ?thesis
    proof (cases "t_used t")
      case True
      with TWait assms r show ?thesis by (simp add: Timer_AsyncWait_def)
    next
      case False
      with assms have "t_asyncer t = None" "t_event t = None" by (simp_all add: timer_wf_def)
      with TWait False show ?thesis by (auto simp: Timer_defs Asyncer_defs timer_wf_def async_flag_def)
    qed
  next
    case (TLoop now)
    with assms r show ?thesis
      by (cases "t_asyncer t"; cases "t_event t") (auto simp: Timer_defs Asyncer_defs timer_wf_def async_flag_def Let_def)
  next
    case (TFire now)
    with assms r show ?thesis
      by (cases "t_asyncer t"; cases "t_event t") (auto simp: Timer_defs Asyncer_defs timer_wf_def async_flag_def Let_def split: bool.splits)
  next
    case TCancel
    with assms r show ?thesis
      by (cases "t_asyncer t"; cases "t_event t") (auto simp: Timer_defs Asyncer_defs timer_wf_def async_flag_def Let_def split: option.splits)
  qed
qed

section \<open>Objects, events and pollers agree\<close>

definition fd_of :: "'k EventLoop \<Rightarrow> int \<Rightarrow> int" where
  "fd_of l i = (case evs l i of None \<Rightarrow> 0 | Some e \<Rightarrow> fd e)"

definition flag_on :: "(int \<times> bool) option \<Rightarrow> bool" where
  "flag_on f \<longleftrightarrow> (\<exists>d. f = Some (d, True))"

text \<open>The event \<open>i\<close> of a role is as \<open>f\<close>, descriptor and flag, says.\<close>

definition event_as :: "'h timer_loop \<Rightarrow> int \<Rightarrow> role \<Rightarrow> (int \<times> bool) option \<Rightarrow> bool" where
  "event_as l i r f \<longleftrightarrow>
     (\<exists>e. evs l i = Some e \<and> eid e = i \<and> \<not> writeNotify e \<and> owned l i \<and> ekind l i = role_kind r \<and> f = Some (fd e, readNotify e))"

text \<open>\<open>F\<close>: what every timer's events should be.\<close>

definition timers_linked :: "(role \<Rightarrow> (int \<times> bool) option) \<Rightarrow> 'h timer_loop \<Rightarrow> bool" where
  "timers_linked F l \<longleftrightarrow>
     (\<forall>r i. tm_ev (tms l) r = Some i \<longleftrightarrow> tm_role (tms l) i = Some r) \<and>
     (\<forall>i. tm_role (tms l) i \<noteq> None \<longrightarrow> i < tm_ids (tms l)) \<and>
     (\<forall>r. tm_ev (tms l) r = None \<longrightarrow> F r = None) \<and>
     (\<forall>i r. tm_role (tms l) i = Some r \<longrightarrow> event_as l i r (F r)) \<and>
     AsyncerPoller_inv (asyncerPoller l) \<and>
     set (AsyncerPoller_ids (asyncerPoller l)) = {i. \<exists>j. tm_role (tms l) i = Some (AsyncEv j) \<and> flag_on (F (AsyncEv j))} \<and>
     TimerPoller_inv (fd_of l) (timerPoller l) \<and>
     eventSet (timerPoller l) = {i. \<exists>j. tm_role (tms l) i = Some (TimerEv j) \<and> flag_on (F (TimerEv j))}"

lemma TimerPoller_inv_cong:
  assumes "\<And>i. i \<in> eventSet p \<Longrightarrow> f i = g i"
  shows "TimerPoller_inv f p \<longleftrightarrow> TimerPoller_inv g p"
proof -
  have "{i \<in> eventSet p. f i = t} = {i \<in> eventSet p. g i = t}" for t using assms by auto
  moreover have "f ` eventSet p = g ` eventSet p" using assms by (intro image_cong) auto
  ultimately show ?thesis by (simp add: TimerPoller_inv_def bucket_ok_def)
qed

text \<open>What a change of role \<open>r\<close>'s event leaves alone.\<close>

definition same_but :: "role \<Rightarrow> 'h timer_loop \<Rightarrow> 'h timer_loop \<Rightarrow> bool" where
  "same_but r l l' \<longleftrightarrow>
     tm_obj (tms l') = tm_obj (tms l) \<and> tm_calls (tms l') = tm_calls (tms l) \<and>
     (\<forall>i q. tm_role (tms l) i = Some q \<longrightarrow> tm_role (tms l') i = Some q \<and> (q \<noteq> r \<longrightarrow> evs l' i = evs l i)) \<and>
     (\<forall>i q. tm_role (tms l') i = Some q \<longrightarrow> q \<noteq> r \<longrightarrow> tm_role (tms l) i = Some q)"

lemma same_but_objs:
  "same_but r l l' \<Longrightarrow> tm_obj (tms l') = tm_obj (tms l)" "same_but r l l' \<Longrightarrow> tm_calls (tms l') = tm_calls (tms l)"
  unfolding same_but_def by blast+

lemma same_but_refl [simp]: "same_but r l l" by (simp add: same_but_def)

lemma upd_tms_simps [simp]:
  "tms (upd_tms f l) = f (tms l)" "evs (upd_tms f l) = evs l" "ekind (upd_tms f l) = ekind l" "owned (upd_tms f l) = owned l"
  "timerPoller (upd_tms f l) = timerPoller l" "asyncerPoller (upd_tms f l) = asyncerPoller l" "fd_of (upd_tms f l) = fd_of l"
  "holding (upd_tms f l) = holding l"
  by (simp_all add: upd_tms_def fd_of_def [abs_def])

text \<open>Turning a notification on or off does what its poller's law says.\<close>

lemma loop_notify_ok:
  assumes "evs l i = Some e" "eid e = i" "\<not> writeNotify e" "ekind l i = role_kind r"
    "AsyncerPoller_inv (asyncerPoller l)" "TimerPoller_inv (fd_of l) (timerPoller l)"
  shows "\<exists>p q. loop_notify on i l =
      Some (l\<lparr>evs := (evs l)(i := Some (e\<lparr>readNotify := on\<rparr>)), asyncerPoller := p, timerPoller := q\<rparr>) \<and>
    AsyncerPoller_inv p \<and> TimerPoller_inv (fd_of l) q \<and>
    set (AsyncerPoller_ids p) =
      (case r of AsyncEv _ \<Rightarrow> (if on then insert i else (\<lambda>S. S - {i})) (set (AsyncerPoller_ids (asyncerPoller l)))
       | TimerEv _ \<Rightarrow> set (AsyncerPoller_ids (asyncerPoller l))) \<and>
    eventSet q =
      (case r of TimerEv _ \<Rightarrow> (if on then insert i else (\<lambda>S. S - {i})) (eventSet (timerPoller l)) | AsyncEv _ \<Rightarrow> eventSet (timerPoller l))"
proof -
  let ?e = "e\<lparr>readNotify := on\<rparr>"
  have op: "(if on then Event_EnableReadNotify else Event_DisableReadNotify) upd rem e pl = map_option (Pair ?e) (Event_update upd rem ?e pl)"
    for upd rem :: "'p poller_op" and pl
    by (cases on) (simp_all add: Event_op_defs Let_def)
  have fd: "fd ?e = fd_of l (eid ?e)" using assms(1,2) by (simp add: fd_of_def)
  show ?thesis
  proof (cases r)
    case (AsyncEv j)
    from ap.Event_update_law [OF assms(5), of ?e] obtain p where
      "Event_update AsyncerPoller_updateEvent AsyncerPoller_removeEvent ?e (Some (asyncerPoller l)) = Some (Some p)"
      "AsyncerPoller_inv p"
      "set (AsyncerPoller_ids p) = (if on then insert i else (\<lambda>S. S - {i})) (set (AsyncerPoller_ids (asyncerPoller l)))"
      using assms(2,3) by (auto split: if_splits)
    with assms AsyncEv show ?thesis
      by (intro exI [of _ p] exI [of _ "timerPoller l"]) (simp add: loop_notify_def op)
  next
    case (TimerEv j)
    from tp.Event_update_law [OF assms(6) fd] obtain q where
      "Event_update TimerPoller_updateEvent TimerPoller_removeEvent ?e (Some (timerPoller l)) = Some (Some q)"
      "TimerPoller_inv (fd_of l) q"
      "eventSet q = (if on then insert i else (\<lambda>S. S - {i})) (eventSet (timerPoller l))"
      using assms(2,3) by (auto split: if_splits)
    with assms TimerEv show ?thesis
      by (intro exI [of _ "asyncerPoller l"] exI [of _ q]) (simp add: loop_notify_def op)
  qed
qed

lemma event_as_update:
  assumes "event_as l k q f" "evs l' k = evs l k" "owned l' k = owned l k" "ekind l' k = ekind l k"
  shows "event_as l' k q f"
  using assms by (simp add: event_as_def)

lemma loop_event_ok:
  assumes "timers_linked F l" "F r = None" "tm_ev (tms l) r = None"
  shows "\<exists>l'. loop_event r f l = Some l' \<and> timers_linked (F(r := Some (f, True))) l' \<and> same_but r l l'"
proof -
  let ?i = "tm_ids (tms l)"
  let ?e = "\<lparr>fd = f, eid = ?i, readAble = False, writeAble = False, readNotify = False, writeNotify = False\<rparr>"
  define l1 where "l1 = upd_tms (\<lambda>w. w\<lparr>tm_ids := ?i + 1, tm_ev := (tm_ev w)(r := Some ?i), tm_role := (tm_role w)(?i := Some r)\<rparr>)
    (l\<lparr>evs := (evs l)(?i := Some ?e), ekind := (ekind l)(?i := role_kind r), owned := (owned l)(?i := True)\<rparr>)"
  have l1: "evs l1 = (evs l)(?i := Some ?e)" "ekind l1 = (ekind l)(?i := role_kind r)" "owned l1 = (owned l)(?i := True)"
    "asyncerPoller l1 = asyncerPoller l" "timerPoller l1 = timerPoller l" "tm_ev (tms l1) = (tm_ev (tms l))(r := Some ?i)"
    "tm_role (tms l1) = (tm_role (tms l))(?i := Some r)" "tm_ids (tms l1) = ?i + 1" "tm_obj (tms l1) = tm_obj (tms l)"
    "tm_calls (tms l1) = tm_calls (tms l)"
    by (simp_all add: l1_def)
  have L: "\<And>q i. tm_ev (tms l) q = Some i \<longleftrightarrow> tm_role (tms l) i = Some q" "\<And>i. tm_role (tms l) i \<noteq> None \<Longrightarrow> i < ?i"
    "\<And>q. tm_ev (tms l) q = None \<Longrightarrow> F q = None" "\<And>i q. tm_role (tms l) i = Some q \<Longrightarrow> event_as l i q (F q)"
    "AsyncerPoller_inv (asyncerPoller l)" "TimerPoller_inv (fd_of l) (timerPoller l)"
    "set (AsyncerPoller_ids (asyncerPoller l)) = {i. \<exists>j. tm_role (tms l) i = Some (AsyncEv j) \<and> flag_on (F (AsyncEv j))}"
    "eventSet (timerPoller l) = {i. \<exists>j. tm_role (tms l) i = Some (TimerEv j) \<and> flag_on (F (TimerEv j))}"
    using assms(1) unfolding timers_linked_def by blast+
  have new: "tm_role (tms l) ?i = None" using L(2) [of ?i] by (cases "tm_role (tms l) ?i") auto
  have nr: "tm_role (tms l) i \<noteq> Some r" for i using L(1) assms(3) by (metis option.distinct(1))
  have nr': "q \<noteq> r" if "tm_role (tms l) i = Some q" for i q using nr [of i] that by auto
  have "?i \<notin> eventSet (timerPoller l)" using new L(8) by auto
  then have t1: "TimerPoller_inv (fd_of l1) (timerPoller l1)"
    using L(6) unfolding l1(5) by (subst TimerPoller_inv_cong [where g = "fd_of l"]) (auto simp: fd_of_def l1(1))
  have "evs l1 ?i = Some ?e" "eid ?e = ?i" "\<not> writeNotify ?e" "ekind l1 ?i = role_kind r" "AsyncerPoller_inv (asyncerPoller l1)"
    using L(5) by (simp_all add: l1)
  from loop_notify_ok [OF this t1, of True, unfolded l1(4,5) if_True] obtain p q where
    n: "loop_notify True ?i l1 = Some (l1\<lparr>evs := (evs l1)(?i := Some (?e\<lparr>readNotify := True\<rparr>)), asyncerPoller := p, timerPoller := q\<rparr>)"
    and p: "AsyncerPoller_inv p" "TimerPoller_inv (fd_of l1) q"
    "set (AsyncerPoller_ids p) = (case r of AsyncEv _ \<Rightarrow> insert ?i (set (AsyncerPoller_ids (asyncerPoller l)))
       | TimerEv _ \<Rightarrow> set (AsyncerPoller_ids (asyncerPoller l)))"
    "eventSet q = (case r of TimerEv _ \<Rightarrow> insert ?i (eventSet (timerPoller l)) | AsyncEv _ \<Rightarrow> eventSet (timerPoller l))"
    by (elim exE conjE) rule
  let ?l2 = "l1\<lparr>evs := (evs l1)(?i := Some (?e\<lparr>readNotify := True\<rparr>)), asyncerPoller := p, timerPoller := q\<rparr>"
  let ?F = "F(r := Some (f, True))"
  have w: "tm_ev (tms ?l2) = (tm_ev (tms l))(r := Some ?i)" "tm_role (tms ?l2) = (tm_role (tms l))(?i := Some r)"
    "tm_ids (tms ?l2) = ?i + 1" "tm_obj (tms ?l2) = tm_obj (tms l)" "tm_calls (tms ?l2) = tm_calls (tms l)"
    "asyncerPoller ?l2 = p" "timerPoller ?l2 = q" "evs ?l2 = (evs l)(?i := Some (?e\<lparr>readNotify := True\<rparr>))"
    "owned ?l2 = (owned l)(?i := True)" "ekind ?l2 = (ekind l)(?i := role_kind r)"
    by (simp_all add: l1)
  have "loop_event r f l = Some ?l2" using n by (simp add: loop_event_def Event_new_def EventIdCreator_Create_def flip: l1_def)
  moreover have "timers_linked ?F ?l2"
    unfolding timers_linked_def w
  proof (intro conjI allI impI)
    fix q' i
    show "((tm_ev (tms l))(r := Some ?i)) q' = Some i \<longleftrightarrow> ((tm_role (tms l))(?i := Some r)) i = Some q'"
      using L(1) [of q' i] new nr [of i] by auto
    assume "((tm_role (tms l))(?i := Some r)) i = Some q'"
    show "event_as ?l2 i q' (?F q')"
    proof (cases "i = ?i")
      case True
      with \<open>(_(?i := Some r)) i = Some q'\<close> show ?thesis by (simp add: event_as_def w l1)
    next
      case False
      with \<open>(_(?i := Some r)) i = Some q'\<close> have "tm_role (tms l) i = Some q'" by simp
      with nr [of i] have "event_as l i q' (?F q')" using L(4) by auto
      then show ?thesis by (rule event_as_update) (use False in \<open>simp_all add: l1\<close>)
    qed
  next
    fix i assume "((tm_role (tms l))(?i := Some r)) i \<noteq> None"
    then show "i < ?i + 1" using L(2) [of i] by (cases "i = ?i") auto
  next
    fix q' assume "((tm_ev (tms l))(r := Some ?i)) q' = None"
    then show "?F q' = None" using L(3) by (auto split: if_splits)
  next
    show "AsyncerPoller_inv p" by (rule p)
    show "set (AsyncerPoller_ids p) = {i. \<exists>j. ((tm_role (tms l))(?i := Some r)) i = Some (AsyncEv j) \<and> flag_on (?F (AsyncEv j))}"
      unfolding p(3) L(7) using new by (cases r) (auto simp: flag_on_def dest: nr')
    have "TimerPoller_inv (fd_of ?l2) q = TimerPoller_inv (fd_of l1) q"
      by (rule TimerPoller_inv_cong) (simp add: fd_of_def l1(1))
    with p(2) show "TimerPoller_inv (fd_of ?l2) q" by simp
    show "eventSet q = {i. \<exists>j. ((tm_role (tms l))(?i := Some r)) i = Some (TimerEv j) \<and> flag_on (?F (TimerEv j))}"
      unfolding p(4) L(8) using new by (cases r) (auto simp: flag_on_def dest: nr')
  qed
  moreover have "same_but r l ?l2"
    unfolding same_but_def w using new by auto
  ultimately show ?thesis by blast
qed

lemma loop_disable_ok:
  assumes "timers_linked F l" "F r = Some (f, b)"
  shows "\<exists>l'. Option.bind (tm_ev (tms l) r) (\<lambda>i. loop_notify False i l) = Some l' \<and>
    timers_linked (F(r := Some (f, False))) l' \<and> same_but r l l'"
proof -
  have L: "\<And>q i. tm_ev (tms l) q = Some i \<longleftrightarrow> tm_role (tms l) i = Some q" "\<And>i. tm_role (tms l) i \<noteq> None \<Longrightarrow> i < tm_ids (tms l)"
    "\<And>q. tm_ev (tms l) q = None \<Longrightarrow> F q = None" "\<And>i q. tm_role (tms l) i = Some q \<Longrightarrow> event_as l i q (F q)"
    "AsyncerPoller_inv (asyncerPoller l)" "TimerPoller_inv (fd_of l) (timerPoller l)"
    "set (AsyncerPoller_ids (asyncerPoller l)) = {i. \<exists>j. tm_role (tms l) i = Some (AsyncEv j) \<and> flag_on (F (AsyncEv j))}"
    "eventSet (timerPoller l) = {i. \<exists>j. tm_role (tms l) i = Some (TimerEv j) \<and> flag_on (F (TimerEv j))}"
    using assms(1) unfolding timers_linked_def by blast+
  from L(3) [of r] assms(2) obtain i where i: "tm_ev (tms l) r = Some i" by fastforce
  then have ri: "tm_role (tms l) i = Some r" using L(1) by simp
  have one: "tm_role (tms l) k = Some r \<longleftrightarrow> k = i" for k using L(1) i by (metis option.inject)
  have other: "q' = r \<longleftrightarrow> k = i" if "tm_role (tms l) k = Some q'" for k q' using that one by (metis option.inject)
  from L(4) [OF ri] obtain e where e: "evs l i = Some e" "eid e = i" "\<not> writeNotify e" "owned l i" "ekind l i = role_kind r" "f = fd e"
    using assms(2) by (auto simp: event_as_def)
  from loop_notify_ok [OF e(1,2,3,5) L(5,6), of False] obtain p q where
    n: "loop_notify False i l = Some (l\<lparr>evs := (evs l)(i := Some (e\<lparr>readNotify := False\<rparr>)), asyncerPoller := p, timerPoller := q\<rparr>)"
    and p: "AsyncerPoller_inv p" "TimerPoller_inv (fd_of l) q"
    "set (AsyncerPoller_ids p) = (case r of AsyncEv _ \<Rightarrow> set (AsyncerPoller_ids (asyncerPoller l)) - {i}
       | TimerEv _ \<Rightarrow> set (AsyncerPoller_ids (asyncerPoller l)))"
    "eventSet q = (case r of TimerEv _ \<Rightarrow> eventSet (timerPoller l) - {i} | AsyncEv _ \<Rightarrow> eventSet (timerPoller l))"
    by auto
  let ?l = "l\<lparr>evs := (evs l)(i := Some (e\<lparr>readNotify := False\<rparr>)), asyncerPoller := p, timerPoller := q\<rparr>"
  let ?F = "F(r := Some (f, False))"
  have w: "tms ?l = tms l" "asyncerPoller ?l = p" "timerPoller ?l = q" by simp_all
  have "timers_linked ?F ?l"
    unfolding timers_linked_def w
  proof (intro conjI allI impI)
    fix q' k
    show "tm_ev (tms l) q' = Some k \<longleftrightarrow> tm_role (tms l) k = Some q'" by (rule L(1))
    assume k: "tm_role (tms l) k = Some q'"
    show "event_as ?l k q' (?F q')"
    proof (cases "k = i")
      case True
      with k ri e show ?thesis by (simp add: event_as_def)
    next
      case False
      with k one have "q' \<noteq> r" by auto
      with L(4) [OF k] False show ?thesis by (auto intro: event_as_update)
    qed
  next
    fix k assume "tm_role (tms l) k \<noteq> None"
    then show "k < tm_ids (tms l)" by (rule L(2))
  next
    fix q' assume "tm_ev (tms l) q' = None"
    then show "?F q' = None" using L(3) i by auto
  next
    show "AsyncerPoller_inv p" by (rule p)
    show "set (AsyncerPoller_ids p) = {k. \<exists>j. tm_role (tms l) k = Some (AsyncEv j) \<and> flag_on (?F (AsyncEv j))}"
      unfolding p(3) L(7) by (cases r) (auto simp: flag_on_def dest: other)
    have "TimerPoller_inv (fd_of ?l) q = TimerPoller_inv (fd_of l) q"
      by (rule TimerPoller_inv_cong) (simp add: fd_of_def e(1))
    with p(2) show "TimerPoller_inv (fd_of ?l) q" by simp
    show "eventSet q = {k. \<exists>j. tm_role (tms l) k = Some (TimerEv j) \<and> flag_on (?F (TimerEv j))}"
      unfolding p(4) L(8) by (cases r) (auto simp: flag_on_def dest: other)
  qed
  moreover have "same_but r l ?l"
    unfolding same_but_def w by (auto dest: other)
  ultimately show ?thesis using n i by auto
qed

lemma loop_follow_ok:
  assumes "timers_linked F l" "F r = old" "follows old new"
  shows "\<exists>l'. loop_follow r old new l = Some l' \<and> timers_linked (F(r := new)) l' \<and> same_but r l l'"
proof (cases old)
  case None
  show ?thesis
  proof (cases new)
    case None
    with \<open>old = None\<close> assms show ?thesis by (simp add: loop_follow_def fun_upd_idem)
  next
    case (Some x)
    with None assms(3) obtain f where x: "new = Some (f, True)" by (cases x) auto
    have "tm_ev (tms l) r = None"
    proof (rule ccontr)
      assume "tm_ev (tms l) r \<noteq> None"
      then obtain i where "tm_role (tms l) i = Some r" using assms(1) by (auto simp: timers_linked_def)
      then have "event_as l i r (F r)" using assms(1) by (simp add: timers_linked_def)
      with None assms(2) show False by (simp add: event_as_def)
    qed
    with loop_event_ok [OF assms(1)] None assms(2) x show ?thesis by (simp add: loop_follow_def)
  qed
next
  case (Some x)
  then obtain f b where x: "old = Some (f, b)" by (cases x) auto
  with assms(3) obtain c where c: "new = Some (f, c)" "c \<longrightarrow> b" by (cases new) auto
  show ?thesis
  proof (cases c)
    case True
    with c x assms show ?thesis by (simp add: loop_follow_def fun_upd_idem)
  next
    case False
    with loop_disable_ok [OF assms(1), of r f b] x c assms(2) show ?thesis by (simp add: loop_follow_def)
  qed
qed

section \<open>Steps of one timer\<close>

fun role_flags :: "'h timers \<Rightarrow> role \<Rightarrow> (int \<times> bool) option" where
  "role_flags w (AsyncEv j) = async_flag (tm_obj w j)"
| "role_flags w (TimerEv j) = t_event (tm_obj w j)"

definition timers_good :: "'h timer_loop \<Rightarrow> bool" where
  "timers_good l \<longleftrightarrow> timers_linked (role_flags (tms l)) l \<and> (\<forall>j. timer_wf (tm_obj (tms l) j))"

text \<open>A timer and what its handlers have heard.\<close>

definition timer_view :: "'h timer_loop \<Rightarrow> nat \<Rightarrow> 'h Timer \<times> 'h calls" where
  "timer_view l j = (tm_obj (tms l) j, map snd (filter (\<lambda>c. fst c = j) (tm_calls (tms l))))"

definition op_view :: "'h timer_op \<Rightarrow> 'h Timer \<times> 'h calls \<Rightarrow> 'h Timer \<times> 'h calls" where
  "op_view x v = (case Timer_op x (fst v) of None \<Rightarrow> v | Some (t, cs) \<Rightarrow> (t, snd v @ cs))"

text \<open>What a step of timer \<open>j\<close> leaves alone.\<close>

definition others_same :: "nat \<Rightarrow> 'h timer_loop \<Rightarrow> 'h timer_loop \<Rightarrow> bool" where
  "others_same j l l' \<longleftrightarrow>
     (\<forall>i q. tm_role (tms l) i = Some q \<longrightarrow> tm_role (tms l') i = Some q \<and> (role_timer q \<noteq> j \<longrightarrow> evs l' i = evs l i))"

lemma linked_cong:
  assumes "timers_linked F l" "tm_ev (tms l') = tm_ev (tms l)" "tm_role (tms l') = tm_role (tms l)" "tm_ids (tms l') = tm_ids (tms l)"
    "\<And>i. map_option (\<lambda>e. (fd e, eid e, readNotify e, writeNotify e)) (evs l' i) =
       map_option (\<lambda>e. (fd e, eid e, readNotify e, writeNotify e)) (evs l i)"
    "owned l' = owned l" "ekind l' = ekind l" "asyncerPoller l' = asyncerPoller l" "timerPoller l' = timerPoller l"
    "\<And>r. F' r = F r"
  shows "timers_linked F' l'"
proof -
  have F: "F' = F" using assms(10) by auto
  have "event_as l i r (F r) \<Longrightarrow> event_as l' i r (F r)" for i r
    using assms(5) [of i] by (cases "evs l' i") (auto simp: event_as_def assms(6,7))
  moreover have "fd_of l' i = fd_of l i" for i
    using assms(5) [of i] by (cases "evs l' i"; cases "evs l i") (auto simp: fd_of_def)
  then have "fd_of l' = fd_of l" by auto
  ultimately show ?thesis
    using assms(1) unfolding timers_linked_def assms(2-4,8,9) F by (elim conjE, intro conjI) (assumption | simp)+
qed

lemma loop_timer_ok:
  assumes "timers_good l" "op (tm_obj (tms l) j) = Timer_op x (tm_obj (tms l) j)"
  shows "\<exists>l'. loop_timer j op l = Some l' \<and> timers_good l' \<and> timer_view l' = (timer_view l)(j := op_view x (timer_view l j)) \<and>
    others_same j l l'"
proof -
  let ?t = "tm_obj (tms l) j" and ?F = "role_flags (tms l)"
  from assms(1) have L: "timers_linked ?F l" and wf: "\<And>k. timer_wf (tm_obj (tms l) k)" by (simp_all add: timers_good_def)
  from Timer_op_wf [OF wf, of x j] obtain t' cs where
    t': "Timer_op x ?t = Some (t', cs)" "timer_wf t'" "follows (async_flag ?t) (async_flag t')" "follows (t_event ?t) (t_event t')"
    by blast
  from loop_follow_ok [OF L _ t'(3), of "AsyncEv j"] obtain l1 where
    l1: "loop_follow (AsyncEv j) (async_flag ?t) (async_flag t') l = Some l1"
    "timers_linked (?F(AsyncEv j := async_flag t')) l1" "same_but (AsyncEv j) l l1" by auto
  from loop_follow_ok [OF l1(2) _ t'(4), of "TimerEv j"] obtain l2 where
    l2: "loop_follow (TimerEv j) (t_event ?t) (t_event t') l1 = Some l2"
    "timers_linked (?F(AsyncEv j := async_flag t', TimerEv j := t_event t')) l2" "same_but (TimerEv j) l1 l2" by auto
  let ?l = "upd_tms (\<lambda>w. w\<lparr>tm_obj := (tm_obj w)(j := t'), tm_calls := tm_calls w @ map (Pair j) cs\<rparr>) l2"
  have w: "tm_obj (tms l2) = tm_obj (tms l)" "tm_calls (tms l2) = tm_calls (tms l)"
    using same_but_objs [OF l1(3)] same_but_objs [OF l2(3)] by simp_all
  have "loop_timer j op l = Some ?l"
    using t'(1) l1(1) l2(1) assms(2) by (simp add: loop_timer_def Let_def)
  moreover have "timers_linked (role_flags (tms ?l)) ?l"
  proof (rule linked_cong [OF l2(2)])
    fix r show "role_flags (tms ?l) r = (?F(AsyncEv j := async_flag t', TimerEv j := t_event t')) r"
      by (cases r) (simp_all add: w)
  qed simp_all
  then have "timers_good ?l" using wf t'(2) by (simp add: timers_good_def w)
  moreover have "timer_view ?l = (timer_view l)(j := op_view x (timer_view l j))"
  proof
    fix k
    have "map snd (filter (\<lambda>c. fst c = k) (map (Pair j) cs)) = (if k = j then cs else [])"
      by (simp add: filter_map comp_def)
    then show "timer_view ?l k = ((timer_view l)(j := op_view x (timer_view l j))) k"
      by (simp add: timer_view_def op_view_def w t'(1))
  qed
  moreover have "others_same j l ?l"
    unfolding others_same_def
  proof (intro allI impI)
    fix i q assume q: "tm_role (tms l) i = Some q"
    with l1(3) have 1: "tm_role (tms l1) i = Some q" "q \<noteq> AsyncEv j \<Longrightarrow> evs l1 i = evs l i" unfolding same_but_def by blast+
    from l2(3) 1(1) have 2: "tm_role (tms l2) i = Some q" "q \<noteq> TimerEv j \<Longrightarrow> evs l2 i = evs l1 i" unfolding same_but_def by blast+
    have "q \<noteq> AsyncEv j \<and> q \<noteq> TimerEv j" if "role_timer q \<noteq> j" using that by auto
    with 1 2 show "tm_role (tms ?l) i = Some q \<and> (role_timer q \<noteq> j \<longrightarrow> evs ?l i = evs l i)" by auto
  qed
  ultimately show ?thesis by blast
qed

section \<open>A pass\<close>

text \<open>The operation that the callback of a role's event is on its timer.\<close>

fun role_op :: "u64 \<Rightarrow> role \<Rightarrow> 'h Timer \<Rightarrow> 'h timer_op" where
  "role_op start (AsyncEv j) t = TLoop start"
| "role_op start (TimerEv j) t = TFire (fst (the (t_event t)))"

definition ready :: "'h timer_loop \<Rightarrow> int \<Rightarrow> role \<Rightarrow> bool" where
  "ready l i q \<longleftrightarrow> tm_role (tms l) i = Some q \<and> flag_on (role_flags (tms l) q) \<and> (\<exists>e. evs l i = Some e \<and> readAble e)"

lemma good_cong:
  assumes "timers_good l" "tms l' = tms l"
    "\<And>i. map_option (\<lambda>e. (fd e, eid e, readNotify e, writeNotify e)) (evs l' i) =
       map_option (\<lambda>e. (fd e, eid e, readNotify e, writeNotify e)) (evs l i)"
    "owned l' = owned l" "ekind l' = ekind l" "asyncerPoller l' = asyncerPoller l" "timerPoller l' = timerPoller l"
  shows "timers_good l'"
proof -
  have "timers_linked (role_flags (tms l)) l" using assms(1) by (simp add: timers_good_def)
  from linked_cong [OF this, of l' "role_flags (tms l')"] assms have "timers_linked (role_flags (tms l')) l'" by simp
  with assms(1,2) show ?thesis by (simp add: timers_good_def)
qed

lemma event_of_role:
  assumes "timers_good l" "tm_role (tms l) i = Some q"
  shows "event_as l i q (role_flags (tms l) q)"
  using assms by (simp add: timers_good_def timers_linked_def)

lemma ev_of_role: "timers_good l \<Longrightarrow> tm_ev (tms l) r = Some i \<longleftrightarrow> tm_role (tms l) i = Some r"
  unfolding timers_good_def timers_linked_def by blast

lemma EventLoop_one_timer:
  assumes "timers_good l" "ready l i q"
  shows "\<exists>l'. EventLoop_one no_ctl (Timer_callback start) i l = Some (l', [(i, True)]) \<and> timers_good l' \<and>
    timer_view l' = (timer_view l)(role_timer q := op_view (role_op start q (tm_obj (tms l) (role_timer q))) (timer_view l (role_timer q))) \<and>
    (\<forall>k p. tm_role (tms l) k = Some p \<longrightarrow> tm_role (tms l') k = Some p \<and> (role_timer p \<noteq> role_timer q \<longrightarrow> evs l' k = evs l k))"
proof -
  let ?j = "role_timer q" and ?l0 = "l\<lparr>holding := Some i\<rparr>"
  from assms(2) obtain e where e: "tm_role (tms l) i = Some q" "flag_on (role_flags (tms l) q)" "evs l i = Some e" "readAble e"
    by (auto simp: ready_def)
  from event_of_role [OF assms(1) e(1)] e(2,3) have n: "readNotify e" "owned l i" by (auto simp: event_as_def flag_on_def)
  have g0: "timers_good ?l0" by (rule good_cong [OF assms(1)]) simp_all
  have v0: "timer_view ?l0 = timer_view l" by (simp add: timer_view_def [abs_def])
  let ?op = "case q of AsyncEv j \<Rightarrow> Timer_asyncFire start | TimerEv j \<Rightarrow> (\<lambda>t. Timer_fire (fst (the (t_event t))) t)"
  have cb: "Timer_callback start i True ?l0 = loop_timer ?j ?op ?l0"
    using e(1) by (simp add: Timer_callback_def split: role.splits)
  have op: "?op (tm_obj (tms ?l0) ?j) = Timer_op (role_op start q (tm_obj (tms l) ?j)) (tm_obj (tms ?l0) ?j)"
    by (cases q) simp_all
  from loop_timer_ok [of ?l0 ?op ?j "role_op start q (tm_obj (tms l) ?j)", OF g0 op] obtain l1 where
    l1: "loop_timer ?j ?op ?l0 = Some l1" "timers_good l1"
    "timer_view l1 = (timer_view l)(?j := op_view (role_op start q (tm_obj (tms l) ?j)) (timer_view l ?j))" "others_same ?j ?l0 l1"
    unfolding v0 by blast
  have r1: "tm_role (tms l1) k = Some p \<and> (role_timer p \<noteq> ?j \<longrightarrow> evs l1 k = evs l k)" if "tm_role (tms l) k = Some p" for k p
    using l1(4) that by (simp add: others_same_def)
  let ?l2 = "(upd_event i (\<lambda>e. e\<lparr>readAble := False\<rparr>) l1)\<lparr>holding := None\<rparr>"
  have "owned ?l2 i" using event_of_role [OF l1(2), of i q] r1 [OF e(1)] by (auto simp: event_as_def upd_event_def)
  then have "EventLoop_one no_ctl (Timer_callback start) i l = Some (?l2, [(i, True)])"
    using e(3,4) n(1) cb l1(1) by (simp add: EventLoop_one_def Event_Do_def Let_def)
  moreover have "timers_good ?l2"
    by (rule good_cong [OF l1(2)]) (auto simp: upd_event_def option.map_comp comp_def)
  moreover have "timer_view ?l2 = timer_view l1" by (simp add: timer_view_def [abs_def] upd_event_def)
  then have "timer_view ?l2 = (timer_view l)(?j := op_view (role_op start q (tm_obj (tms l) ?j)) (timer_view l ?j))"
    unfolding l1(3) .
  moreover have "tm_role (tms ?l2) k = Some p \<and> (role_timer p \<noteq> ?j \<longrightarrow> evs ?l2 k = evs l k)" if "tm_role (tms l) k = Some p" for k p
    using r1 [OF that] that e(1) by (auto simp: upd_event_def)
  ultimately show ?thesis by blast
qed

text \<open>The events of one kind that a poller has returned run one after the other, each on its own timer.\<close>

lemma dispatch_timers:
  assumes "timers_good l" "distinct is" "\<forall>i\<in>set is. \<exists>j. ready l i (C j)" "C = AsyncEv \<or> C = TimerEv"
  shows "\<exists>l' cbs. EventLoop_dispatch no_ctl (Timer_callback start) is l = Some (l', cbs) \<and> timers_good l' \<and>
    (\<forall>j. timer_view l' j = (if \<exists>i\<in>set is. tm_role (tms l) i = Some (C j)
       then op_view (role_op start (C j) (tm_obj (tms l) j)) (timer_view l j) else timer_view l j))"
  using assms(1-3)
proof (induction "is" arbitrary: l)
  case (Cons i "is")
  have rt: "role_timer (C j) = j" and inj: "C j = C k \<longleftrightarrow> j = k" for j k using assms(4) by auto
  from Cons.prems(3) obtain j0 where j0: "ready l i (C j0)" by auto
  from EventLoop_one_timer [OF Cons.prems(1) this, of start] obtain l1 where
    l1: "EventLoop_one no_ctl (Timer_callback start) i l = Some (l1, [(i, True)])" "timers_good l1"
    "timer_view l1 = (timer_view l)(j0 := op_view (role_op start (C j0) (tm_obj (tms l) j0)) (timer_view l j0))"
    "\<And>k p. tm_role (tms l) k = Some p \<Longrightarrow> tm_role (tms l1) k = Some p \<and> (role_timer p \<noteq> j0 \<longrightarrow> evs l1 k = evs l k)"
    unfolding rt by blast
  have one: "i' = i" if "tm_role (tms l) i' = Some (C j0)" for i'
    using ev_of_role [OF Cons.prems(1), of "C j0" i] ev_of_role [OF Cons.prems(1), of "C j0" i'] j0 that by (simp add: ready_def)
  have obj: "tm_obj (tms l1) j = tm_obj (tms l) j" if "j \<noteq> j0" for j
    using l1(3) that by (metis (no_types) fun_upd_other timer_view_def fst_conv)
  have other: "j \<noteq> j0" if "i' \<in> set is" "tm_role (tms l) i' = Some (C j)" for i' j
    using one that Cons.prems(2) by auto
  have "\<exists>j. ready l1 i' (C j)" if i': "i' \<in> set is" for i'
  proof -
    from Cons.prems(3) i' obtain j where j: "ready l i' (C j)" by auto
    then have r: "tm_role (tms l) i' = Some (C j)" by (simp add: ready_def)
    with other [OF i'] have ne: "j \<noteq> j0" by blast
    have "role_flags (tms l1) (C j) = role_flags (tms l) (C j)" using assms(4) obj [OF ne] by auto
    with j l1(4) [OF r] ne rt have "ready l1 i' (C j)" by (simp add: ready_def)
    then show ?thesis by blast
  qed
  with Cons.IH [OF l1(2)] Cons.prems(2) obtain l2 cbs where
    l2: "EventLoop_dispatch no_ctl (Timer_callback start) is l1 = Some (l2, cbs)" "timers_good l2"
    "\<And>j. timer_view l2 j = (if \<exists>i\<in>set is. tm_role (tms l1) i = Some (C j)
       then op_view (role_op start (C j) (tm_obj (tms l1) j)) (timer_view l1 j) else timer_view l1 j)"
    by auto
  have same_role: "tm_role (tms l1) i' = Some (C j) \<longleftrightarrow> tm_role (tms l) i' = Some (C j)" if "i' \<in> set is" for i' j
    using Cons.prems(3) that l1(4) by (fastforce simp: ready_def)
  have "timer_view l2 j = (if \<exists>i'\<in>set (i # is). tm_role (tms l) i' = Some (C j)
       then op_view (role_op start (C j) (tm_obj (tms l) j)) (timer_view l j) else timer_view l j)" for j
  proof (cases "j = j0")
    case True
    have "\<not> (\<exists>i'\<in>set is. tm_role (tms l1) i' = Some (C j))" using same_role other True by blast
    with True l2(3) [of j] l1(3) j0 show ?thesis by (auto simp: ready_def)
  next
    case False
    have "tm_role (tms l) i \<noteq> Some (C j)" using j0 False inj by (auto simp: ready_def)
    moreover have "(\<exists>i'\<in>set is. tm_role (tms l1) i' = Some (C j)) \<longleftrightarrow> (\<exists>i'\<in>set is. tm_role (tms l) i' = Some (C j))"
      using same_role by blast
    ultimately show ?thesis using False l2(3) [of j] l1(3) obj by simp
  qed
  with l1(1) l2(1,2) show ?case by auto
qed simp

text \<open>The marks that polling makes change no flag that matters here.\<close>

lemma fold_marks:
  "fold apply_mark (map MarkRead is) es i = map_option (\<lambda>e. if i \<in> set is then Event_SetReadAble e else e) (es i)"
proof (induction "is" arbitrary: es)
  case Nil
  show ?case by (cases "es i") simp_all
next
  case (Cons k "is")
  then show ?case by (cases "es i") (auto simp: Event_SetReadAble_def)
qed

lemma marked:
  assumes "timers_good l"
  shows "timers_good (l\<lparr>evs := fold apply_mark (map MarkRead is) (evs l)\<rparr>)"
  by (rule good_cong [OF assms]) (auto simp: fold_marks Event_SetReadAble_def option.map_comp comp_def intro!: option.map_cong0 split: if_splits)

lemma marked_ready:
  assumes "timers_good l" "i \<in> set is" "tm_role (tms l) i = Some q" "flag_on (role_flags (tms l) q)"
  shows "ready (l\<lparr>evs := fold apply_mark (map MarkRead is) (evs l)\<rparr>) i q"
  using event_of_role [OF assms(1,3)] assms(2-4) by (auto simp: ready_def fold_marks event_as_def Event_SetReadAble_def)

lemma alive_role: "timers_good l \<Longrightarrow> tm_role (tms l) i = Some q \<Longrightarrow> ev_alive l i"
  using event_of_role [of l i q] by (auto simp: ev_alive_def event_as_def)

lemma op_view_quiet:
  "async_flag (fst v) \<noteq> Some (0, True) \<Longrightarrow> op_view (TLoop start) v = v"
  "t_event (fst v) \<noteq> Some (d, True) \<or> \<not> d \<le> now \<Longrightarrow> t_event (fst v) = None \<or> fst (the (t_event (fst v))) = d \<Longrightarrow>
     op_view (TFire now) v = v"
proof -
  obtain t cs where v: "v = (t, cs)" by (cases v)
  show "async_flag (fst v) \<noteq> Some (0, True) \<Longrightarrow> op_view (TLoop start) v = v"
    by (cases "t_asyncer t") (auto simp: v op_view_def Timer_asyncFire_def Asyncer_fire_def async_flag_def split: option.splits)
  show "t_event (fst v) \<noteq> Some (d, True) \<or> \<not> d \<le> now \<Longrightarrow> t_event (fst v) = None \<or> fst (the (t_event (fst v))) = d \<Longrightarrow>
     op_view (TFire now) v = v"
    by (auto simp: v op_view_def Timer_fire_def split: option.splits prod.splits bool.splits)
qed

lemma async_pass:
  assumes "timers_good l"
  shows "\<exists>l' cbs. EventLoop_doPoller no_ctl (Timer_callback start) env AsyncerKind l = Some (l', cbs) \<and> timers_good l' \<and>
    timer_view l' = (\<lambda>j. op_view (TLoop start) (timer_view l j))"
proof -
  let ?is = "AsyncerPoller_Poll (ev_alive l) (asyncerPoller l)"
  let ?l = "l\<lparr>evs := fold apply_mark (map MarkRead ?is) (evs l)\<rparr>"
  have ids: "set (AsyncerPoller_ids (asyncerPoller l)) = {i. \<exists>j. tm_role (tms l) i = Some (AsyncEv j) \<and> flag_on (role_flags (tms l) (AsyncEv j))}"
    and inv: "AsyncerPoller_inv (asyncerPoller l)"
    using assms unfolding timers_good_def timers_linked_def by blast+
  have "AsyncerPoller_Poll (ev_alive l) (asyncerPoller l) = filter (ev_alive l) (AsyncerPoller_ids (asyncerPoller l))"
    by (simp add: AsyncerPoller_Poll_def AsyncerPoller_ids_def)
  then have sis: "set ?is = {i. \<exists>j. tm_role (tms l) i = Some (AsyncEv j) \<and> flag_on (role_flags (tms l) (AsyncEv j))}" "distinct ?is"
    using ids inv alive_role [OF assms] by (auto simp: AsyncerPoller_inv_def AsyncerPoller_ids_def)
  have "\<forall>i\<in>set ?is. \<exists>j. ready ?l i (AsyncEv j)"
    using marked_ready [OF assms, of _ ?is] sis(1) by blast
  from dispatch_timers [OF marked [OF assms] sis(2) this, of start] obtain l' cbs where
    l': "EventLoop_dispatch no_ctl (Timer_callback start) ?is ?l = Some (l', cbs)" "timers_good l'"
    "\<And>j. timer_view l' j = (if \<exists>i\<in>set ?is. tm_role (tms l) i = Some (AsyncEv j) then op_view (TLoop start) (timer_view l j) else timer_view l j)"
    by (auto simp: timer_view_def)
  have "timer_view l' j = op_view (TLoop start) (timer_view l j)" for j
  proof (cases "\<exists>i\<in>set ?is. tm_role (tms l) i = Some (AsyncEv j)")
    case False
    have "async_flag (tm_obj (tms l) j) \<noteq> Some (0, True)"
    proof
      assume f: "async_flag (tm_obj (tms l) j) = Some (0, True)"
      then have "tm_ev (tms l) (AsyncEv j) \<noteq> None" using assms unfolding timers_good_def timers_linked_def by (metis option.distinct(1) role_flags.simps(1))
      then obtain i where "tm_role (tms l) i = Some (AsyncEv j)" using ev_of_role [OF assms] by auto
      with f sis(1) False show False by (auto simp: flag_on_def)
    qed
    then have "op_view (TLoop start) (timer_view l j) = timer_view l j" by (intro op_view_quiet(1)) (simp add: timer_view_def)
    with False l'(3) [of j] show ?thesis by simp
  qed (simp add: l'(3))
  with l'(1,2) show ?thesis by (auto simp: EventLoop_doPoller_def EventLoop_Poll_def Let_def comp_def)
qed

lemma sorted_wrt_irreflexive: "sorted_wrt R xs \<Longrightarrow> (\<And>x. \<not> R x x) \<Longrightarrow> distinct xs"
  by (induction xs) auto

lemma op_view_fire:
  assumes "t_event (fst v) = Some (d, True)" "d \<le> now"
  shows "op_view (TFire d) v = op_view (TFire now) v"
  using assms by (simp add: op_view_def Timer_fire_def)

lemma timer_pass:
  assumes "timers_good l"
  shows "\<exists>l' cbs. EventLoop_doPoller no_ctl (Timer_callback start) env TimerKind l = Some (l', cbs) \<and> timers_good l' \<and>
    timer_view l' = (\<lambda>j. op_view (TFire (env_now env)) (timer_view l j))"
proof -
  let ?now = "env_now env"
  let ?is = "TimerPoller_Poll ?now (ev_alive l) (timerPoller l)"
  let ?l = "l\<lparr>evs := fold apply_mark (map MarkRead ?is) (evs l)\<rparr>"
  have ids: "eventSet (timerPoller l) = {i. \<exists>j. tm_role (tms l) i = Some (TimerEv j) \<and> flag_on (role_flags (tms l) (TimerEv j))}"
    and inv: "TimerPoller_inv (fd_of l) (timerPoller l)"
    using assms unfolding timers_good_def timers_linked_def by blast+
  have deadline: "t_event (tm_obj (tms l) j) = Some (fd_of l i, True) \<longleftrightarrow> flag_on (role_flags (tms l) (TimerEv j))"
    if "tm_role (tms l) i = Some (TimerEv j)" for i j
    using event_of_role [OF assms that] by (auto simp: event_as_def flag_on_def fd_of_def)
  have sis: "set ?is = {i. \<exists>j. tm_role (tms l) i = Some (TimerEv j) \<and> flag_on (role_flags (tms l) (TimerEv j)) \<and> fd_of l i \<le> ?now}"
    using Poll_due [OF inv, of ?now "ev_alive l"] ids alive_role [OF assms] by auto
  have "sorted_wrt (fires_before (fd_of l)) ?is" using Poll_due [OF inv] by blast
  then have d: "distinct ?is"
    by (rule sorted_wrt_irreflexive) (simp add: fires_before_def)
  have "\<forall>i\<in>set ?is. \<exists>j. ready ?l i (TimerEv j)"
    using marked_ready [OF assms, of _ ?is] sis by blast
  from dispatch_timers [OF marked [OF assms] d this, of start] obtain l' cbs where
    l': "EventLoop_dispatch no_ctl (Timer_callback start) ?is ?l = Some (l', cbs)" "timers_good l'"
    "\<And>j. timer_view l' j = (if \<exists>i\<in>set ?is. tm_role (tms l) i = Some (TimerEv j)
      then op_view (TFire (fst (the (t_event (tm_obj (tms l) j))))) (timer_view l j) else timer_view l j)"
    by (auto simp: timer_view_def)
  have "timer_view l' j = op_view (TFire ?now) (timer_view l j)" for j
  proof (cases "\<exists>i\<in>set ?is. tm_role (tms l) i = Some (TimerEv j)")
    case True
    then obtain i where i: "tm_role (tms l) i = Some (TimerEv j)" "flag_on (role_flags (tms l) (TimerEv j))" "fd_of l i \<le> ?now"
      using sis by force
    with deadline [OF i(1)] have "t_event (fst (timer_view l j)) = Some (fd_of l i, True)" by (simp add: timer_view_def)
    from op_view_fire [OF this i(3)] True l'(3) [of j] deadline [OF i(1)] i(2) show ?thesis by simp
  next
    case False
    have "op_view (TFire ?now) (timer_view l j) = timer_view l j"
    proof (cases "t_event (tm_obj (tms l) j)")
      case None
      then show ?thesis by (intro op_view_quiet(2) [where d = 0]) (simp_all add: timer_view_def)
    next
      case (Some x)
      obtain d b where x: "x = (d, b)" by (cases x)
      have "tm_ev (tms l) (TimerEv j) \<noteq> None"
        using assms Some unfolding timers_good_def timers_linked_def by (metis option.distinct(1) role_flags.simps(2))
      then obtain i where i: "tm_role (tms l) i = Some (TimerEv j)" using ev_of_role [OF assms] by auto
      have "fd_of l i = d" using event_of_role [OF assms i] Some x by (auto simp: event_as_def fd_of_def)
      moreover have "\<not> (flag_on (role_flags (tms l) (TimerEv j)) \<and> fd_of l i \<le> ?now)" using False sis i by blast
      ultimately have "\<not> b \<or> \<not> d \<le> ?now" using Some x by (auto simp: flag_on_def)
      with Some x show ?thesis by (intro op_view_quiet(2) [where d = d]) (auto simp: timer_view_def)
    qed
    with False l'(3) [of j] show ?thesis by simp
  qed
  with l'(1,2) show ?thesis by (auto simp: EventLoop_doPoller_def EventLoop_Poll_def Let_def comp_def)
qed

lemma empty_epoll_pass: "EventLoop_doPoller ctl cb \<lparr>env_wait = Some [], env_now = now\<rparr> EpollKind l = Some (l, [])"
proof -
  have "Epoller_scan alive sl 0 xs 0 [] = Some []" for alive :: "int \<Rightarrow> bool" and sl and xs :: "(int \<times> poll_flags) list"
    by (cases xs) auto
  then show ?thesis by (simp add: EventLoop_doPoller_def EventLoop_Poll_def Epoller_Poll_def Let_def)
qed

lemma whole_pass:
  assumes "timers_good l"
  shows "\<exists>l' cbs. EventLoop_runOnce no_ctl (Timer_callback start) \<lparr>env_wait = Some [], env_now = now\<rparr> l = Some (l', cbs) \<and> timers_good l' \<and>
    timer_view l' = (\<lambda>j. op_view (TLoop start) (op_view (TFire now) (timer_view l j)))"
proof -
  let ?env = "\<lparr>env_wait = Some [], env_now = now\<rparr>"
  from timer_pass [OF assms, of start ?env] obtain l1 c1 where
    1: "EventLoop_doPoller no_ctl (Timer_callback start) ?env TimerKind l = Some (l1, c1)" "timers_good l1"
    "timer_view l1 = (\<lambda>j. op_view (TFire now) (timer_view l j))" by auto
  from async_pass [OF 1(2), of start ?env] obtain l2 c2 where
    2: "EventLoop_doPoller no_ctl (Timer_callback start) ?env AsyncerKind l1 = Some (l2, c2)" "timers_good l2"
    "timer_view l2 = (\<lambda>j. op_view (TLoop start) (timer_view l1 j))" by auto
  from 1 2 show ?thesis by (simp add: EventLoop_runOnce_def EventLoop_pollers_def empty_epoll_pass)
qed

end
