(* ===== verification/Timer_Programs.thy ===== *)
theory Timer_Programs
  imports Timer_Loop
begin

text \<open>
  Programs that use the timers of \<open>Timer_Loop\<close>: they are made, set, cancelled and destroyed between the passes of a loop
  that lives on.
\<close>

section \<open>Destroying a timer\<close>

text \<open>
  A timer's member that holds an event is released: the event goes, and with it its registration.
\<close>

definition loop_release :: "role \<Rightarrow> 'h timer_loop \<Rightarrow> 'h timer_loop option" where
  "loop_release r l =
     (case tm_ev (tms l) r of
        None \<Rightarrow> Some l
      | Some i \<Rightarrow>
          map_option (upd_tms (\<lambda>w. w\<lparr>tm_ev := (tm_ev w)(r := None), tm_role := (tm_role w)(i := None)\<rparr>))
            (EventLoop_release no_ctl i l))"

text \<open>
  \<^verbatim>\<open>~Timer\<close> and a new timer in its place.  The body of the destructor calls the handler, then the
  members go, the asyncer first; the asyncer's handler, which its own destructor may call, finds the timer's weak
  pointer expired.
\<close>

definition loop_renew :: "nat \<Rightarrow> bool \<Rightarrow> 'h timer_loop \<Rightarrow> 'h timer_loop option" where
  "loop_renew j g l =
     Option.bind (loop_release (AsyncEv j)
       (upd_tms (\<lambda>w. w\<lparr>tm_calls := tm_calls w @ map (Pair j) (Timer_destroy (tm_obj w j))\<rparr>) l)) (\<lambda>l.
     map_option (upd_tms (\<lambda>w. w\<lparr>tm_obj := (tm_obj w)(j := Timer_new g)\<rparr>)) (loop_release (TimerEv j) l))"

text \<open>
  A program: calls of the timers' methods, from any thread between two passes, destruction of a timer and a new one
  for its number, and passes, with what the timer poller and then the callbacks read from the clock.
\<close>

datatype 'h loop_input = Wait nat bool u64 'h | Cancel nat | Renew nat bool | Pass int u64

fun loop_do :: "'h loop_input \<Rightarrow> 'h timer_loop \<Rightarrow> 'h timer_loop option" where
  "loop_do (Wait j g ms h) l = loop_timer j (Timer_AsyncWait g ms h) l"
| "loop_do (Cancel j) l = loop_timer j Timer_cancel l"
| "loop_do (Renew j g) l = loop_renew j g l"
| "loop_do (Pass now start) l =
     map_option fst (EventLoop_runOnce no_ctl (Timer_callback start) \<lparr>env_wait = Some [], env_now = now\<rparr> l)"

fun timer_program :: "'h loop_input list \<Rightarrow> 'h timer_loop \<Rightarrow> 'h timer_loop option" where
  "timer_program [] l = Some l"
| "timer_program (x # xs) l = Option.bind (loop_do x l) (timer_program xs)"

definition timer_loop_new :: "bool \<Rightarrow> 'h timer_loop" where
  "timer_loop_new g =
     \<lparr>evs = (\<lambda>_. None), ekind = (\<lambda>_. EpollKind), owned = (\<lambda>_. False), holding = None,
      epoller = \<lparr>slots = (\<lambda>_. None), pollEvents = [],
        kern = \<lparr>tm_obj = (\<lambda>_. Timer_new g), tm_ev = (\<lambda>_. None), tm_role = (\<lambda>_. None), tm_calls = [], tm_ids = 0, tm_asked = []\<rparr>\<rparr>,
      timerPoller = TimerPoller_new, asyncerPoller = AsyncerPoller_new, stop = False\<rparr>"

section \<open>One timer, life after life\<close>

datatype 'h timer_act = Act "'h timer_op" | Anew bool

fun Timer_acts :: "'h timer_act list \<Rightarrow> 'h Timer \<times> 'h calls \<Rightarrow> ('h Timer \<times> 'h calls) option" where
  "Timer_acts [] s = Some s"
| "Timer_acts (Act x # xs) (t, cs) = Option.bind (Timer_op x t) (\<lambda>(t, cs'). Timer_acts xs (t, cs @ cs'))"
| "Timer_acts (Anew g # xs) (t, cs) = Timer_acts xs (Timer_new g, cs @ Timer_destroy t)"

text \<open>One timer's part of a program: a pass polls the timers first and the asyncers last.\<close>

fun timer_part :: "nat \<Rightarrow> 'h loop_input \<Rightarrow> 'h timer_act list" where
  "timer_part j (Wait k g ms h) = (if k = j then [Act (TWait g ms h)] else [])"
| "timer_part j (Cancel k) = (if k = j then [Act TCancel] else [])"
| "timer_part j (Renew k g) = (if k = j then [Anew g] else [])"
| "timer_part j (Pass now start) = [Act (TFire now), Act (TLoop start)]"

abbreviation timer_parts :: "nat \<Rightarrow> 'h loop_input list \<Rightarrow> 'h timer_act list" where
  "timer_parts j xs \<equiv> concat (map (timer_part j) xs)"

lemma Timer_acts_append: "Timer_acts (xs @ ys) v = Option.bind (Timer_acts xs v) (Timer_acts ys)"
proof (induction xs v rule: Timer_acts.induct)
  case (2 x xs t cs)
  then show ?case by (cases "Timer_op x t") auto
qed simp_all

lemma Timer_acts_one:
  assumes "timer_wf (fst v)"
  shows "Timer_acts [Act x] v = Some (op_view x v)" "timer_wf (fst (op_view x v))"
  using Timer_op_wf [OF assms, of x] by (cases v; auto simp: op_view_def)+

lemma Timer_acts_two:
  assumes "timer_wf (fst v)"
  shows "Timer_acts [Act x, Act y] v = Some (op_view y (op_view x v))"
  using Timer_acts_append [of "[Act x]" "[Act y]" v] Timer_acts_one [OF assms, of x]
    Timer_acts_one(1) [of "op_view x v" y]
  by (simp del: Timer_acts.simps)

section \<open>Between passes the loop holds no event\<close>

lemma loop_notify_holding: "loop_notify on i l = Some l' \<Longrightarrow> holding l' = holding l"
  by (auto simp: loop_notify_def split: option.splits poller_kind.splits prod.splits)

lemma loop_follow_holding: "loop_follow r old new l = Some l' \<Longrightarrow> holding l' = holding l"
  by (auto simp: loop_follow_def loop_event_def upd_tms_def bind_eq_Some_conv split: option.splits prod.splits bool.splits
      dest!: loop_notify_holding)

lemma loop_timer_holding: "loop_timer j op l = Some l' \<Longrightarrow> holding l' = holding l"
  by (auto simp: loop_timer_def Let_def bind_eq_Some_conv dest!: loop_follow_holding)

lemma EventLoop_destroy_holding: "EventLoop_destroy ctl i l = Some l' \<Longrightarrow> holding l' = holding l"
  by (auto simp: EventLoop_destroy_def Let_def split: option.splits poller_kind.splits)

lemma EventLoop_one_holding: "EventLoop_one ctl cb i l = Some (l', cbs) \<Longrightarrow> holding l = None \<Longrightarrow> holding l' = None"
  by (auto simp: EventLoop_one_def Let_def split: option.splits if_splits prod.splits dest!: EventLoop_destroy_holding)

lemma EventLoop_dispatch_holding: "EventLoop_dispatch ctl cb is l = Some (l', cbs) \<Longrightarrow> holding l = None \<Longrightarrow> holding l' = None"
proof (induction "is" arbitrary: l cbs)
  case (Cons i "is")
  then show ?case by (auto split: option.splits prod.splits dest: EventLoop_one_holding)
qed simp

lemma EventLoop_doPoller_holding:
  "EventLoop_doPoller ctl cb env k l = Some (l', cbs) \<Longrightarrow> holding l = None \<Longrightarrow> holding l' = None"
  by (cases k) (auto simp: EventLoop_doPoller_def EventLoop_Poll_def Let_def split: option.splits prod.splits if_splits
      intro: EventLoop_dispatch_holding)

lemma run_pollers_holding: "run_pollers ctl cb env ks l = Some (l', cbs) \<Longrightarrow> holding l = None \<Longrightarrow> holding l' = None"
proof (induction ks arbitrary: l cbs)
  case (Cons k ks)
  then show ?case by (auto split: option.splits prod.splits dest: EventLoop_doPoller_holding)
qed simp

section \<open>Releasing an event\<close>

lemma loop_release_ok:
  assumes "timers_linked F l" "\<forall>i. tm_ev (tms l) r = Some i \<longrightarrow> holding l \<noteq> Some i"
  shows "\<exists>l'. loop_release r l = Some l' \<and> timers_linked (F(r := None)) l' \<and> holding l' = holding l \<and>
    tm_obj (tms l') = tm_obj (tms l) \<and> tm_calls (tms l') = tm_calls (tms l)"
proof (cases "tm_ev (tms l) r")
  case None
  with assms have "F r = None" by (simp add: timers_linked_def)
  with None assms show ?thesis by (simp add: loop_release_def fun_upd_idem)
next
  case (Some i)
  have L: "\<And>q i. tm_ev (tms l) q = Some i \<longleftrightarrow> tm_role (tms l) i = Some q" "\<And>i. tm_role (tms l) i \<noteq> None \<Longrightarrow> i < tm_ids (tms l)"
    "\<And>q. tm_ev (tms l) q = None \<Longrightarrow> F q = None" "\<And>i q. tm_role (tms l) i = Some q \<Longrightarrow> event_as l i q (F q)"
    "AsyncerPoller_inv (asyncerPoller l)" "TimerPoller_inv (fd_of l) (timerPoller l)"
    "set (AsyncerPoller_ids (asyncerPoller l)) = {i. \<exists>j. tm_role (tms l) i = Some (AsyncEv j) \<and> flag_on (F (AsyncEv j))}"
    "eventSet (timerPoller l) = {i. \<exists>j. tm_role (tms l) i = Some (TimerEv j) \<and> flag_on (F (TimerEv j))}"
    using assms(1) unfolding timers_linked_def by blast+
  have ri: "tm_role (tms l) i = Some r" using L(1) Some by simp
  have one: "tm_role (tms l) k = Some r \<longleftrightarrow> k = i" for k using L(1) Some by (metis option.inject)
  from L(4) [OF ri] obtain e where e: "evs l i = Some e" "eid e = i" "\<not> writeNotify e" "ekind l i = role_kind r"
    "F r = Some (fd e, readNotify e)"
    by (auto simp: event_as_def)
  obtain p q where n: "EventLoop_release no_ctl i l =
      Some (l\<lparr>evs := (evs l)(i := None), owned := (owned l)(i := False), asyncerPoller := p, timerPoller := q\<rparr>)"
    and p: "AsyncerPoller_inv p" "TimerPoller_inv (fd_of l) q"
    "set (AsyncerPoller_ids p) = (case r of AsyncEv _ \<Rightarrow> set (AsyncerPoller_ids (asyncerPoller l)) - {i}
       | TimerEv _ \<Rightarrow> set (AsyncerPoller_ids (asyncerPoller l)))"
    "eventSet q = (case r of TimerEv _ \<Rightarrow> eventSet (timerPoller l) - {i} | AsyncEv _ \<Rightarrow> eventSet (timerPoller l))"
  proof (cases r)
    case (AsyncEv j)
    have "eid e \<in> set (AsyncerPoller_ids (asyncerPoller l)) \<longrightarrow> readNotify e \<or> writeNotify e"
      unfolding L(7) using ri e(2,5) AsyncEv by (auto simp: flag_on_def)
    from ap.Event_destroy_law [OF L(5) TrueI this] obtain p where
      "Event_destroy AsyncerPoller_removeEvent e (Some (asyncerPoller l)) = Some (Some p)" "AsyncerPoller_inv p"
      "set (AsyncerPoller_ids p) = set (AsyncerPoller_ids (asyncerPoller l)) - {i}"
      unfolding e(2) by blast
    with that [of "timerPoller l" p] L(6) e AsyncEv assms(2) Some show ?thesis
      by (simp add: EventLoop_release_def EventLoop_destroy_def Let_def)
  next
    case (TimerEv j)
    have "eid e \<in> eventSet (timerPoller l) \<longrightarrow> readNotify e \<or> writeNotify e"
      unfolding L(8) using ri e(2,5) TimerEv by (auto simp: flag_on_def)
    moreover have "fd e = fd_of l (eid e)" using e by (simp add: fd_of_def)
    ultimately obtain q where
      "Event_destroy TimerPoller_removeEvent e (Some (timerPoller l)) = Some (Some q)" "TimerPoller_inv (fd_of l) q"
      "eventSet q = eventSet (timerPoller l) - {i}"
      using tp.Event_destroy_law [OF L(6), of e] unfolding e(2) by blast
    with that [of q "asyncerPoller l"] L(5) e TimerEv assms(2) Some show ?thesis
      by (simp add: EventLoop_release_def EventLoop_destroy_def Let_def)
  qed
  let ?f = "\<lambda>w. w\<lparr>tm_ev := (tm_ev w)(r := None), tm_role := (tm_role w)(i := None)\<rparr>"
  let ?l = "upd_tms ?f (l\<lparr>evs := (evs l)(i := None), owned := (owned l)(i := False), asyncerPoller := p, timerPoller := q\<rparr>)"
  let ?F = "F(r := None)"
  have w: "tm_ev (tms ?l) = (tm_ev (tms l))(r := None)" "tm_role (tms ?l) = (tm_role (tms l))(i := None)"
    "tm_ids (tms ?l) = tm_ids (tms l)" "asyncerPoller ?l = p" "timerPoller ?l = q" by simp_all
  have old: "tm_role (tms l) k = Some q' \<and> k \<noteq> i \<and> q' \<noteq> r" if "((tm_role (tms l))(i := None)) k = Some q'" for k q'
    using that one by (auto split: if_splits)
  have new: "q' \<noteq> r" if "tm_role (tms l) k = Some q'" "k \<noteq> i" for k q' using that one by auto
  have "timers_linked ?F ?l"
    unfolding timers_linked_def w
  proof (intro conjI allI impI)
    fix q' k
    show "((tm_ev (tms l))(r := None)) q' = Some k \<longleftrightarrow> ((tm_role (tms l))(i := None)) k = Some q'"
      using L(1) [of q' k] L(1) [of r k] ri Some by (cases "q' = r"; cases "k = i") auto
    assume "((tm_role (tms l))(i := None)) k = Some q'"
    from old [OF this] show "event_as ?l k q' (?F q')"
      using L(4) [of k q'] by (auto intro: event_as_update)
  next
    fix k assume "((tm_role (tms l))(i := None)) k \<noteq> None"
    then show "k < tm_ids (tms l)" using L(2) by (auto split: if_splits)
  next
    fix q' assume "((tm_ev (tms l))(r := None)) q' = None"
    then show "?F q' = None" using L(3) by (auto split: if_splits)
  next
    show "AsyncerPoller_inv p" by (rule p)
    show "set (AsyncerPoller_ids p) = {k. \<exists>j. ((tm_role (tms l))(i := None)) k = Some (AsyncEv j) \<and> flag_on (?F (AsyncEv j))}"
      unfolding p(3) L(7) using ri by (cases r) (auto simp: flag_on_def dest: old new)
    have "i \<notin> eventSet q" unfolding p(4) L(8) using ri by (cases r) auto
    then have "TimerPoller_inv (fd_of ?l) q = TimerPoller_inv (fd_of l) q"
      by (intro TimerPoller_inv_cong) (auto simp: fd_of_def)
    with p(2) show "TimerPoller_inv (fd_of ?l) q" by simp
    show "eventSet q = {k. \<exists>j. ((tm_role (tms l))(i := None)) k = Some (TimerEv j) \<and> flag_on (?F (TimerEv j))}"
      unfolding p(4) L(8) using ri by (cases r) (auto simp: flag_on_def dest: old new)
  qed
  moreover have "loop_release r l = Some ?l" using Some n by (simp add: loop_release_def)
  ultimately show ?thesis by auto
qed

lemma loop_renew_ok:
  assumes "timers_good l" "holding l = None"
  shows "\<exists>l'. loop_renew j g l = Some l' \<and> timers_good l' \<and> holding l' = None \<and>
    timer_view l' = (timer_view l)(j := (Timer_new g, snd (timer_view l j) @ Timer_destroy (fst (timer_view l j))))"
proof -
  let ?F = "role_flags (tms l)" and ?cs = "Timer_destroy (tm_obj (tms l) j)"
  let ?l0 = "upd_tms (\<lambda>w. w\<lparr>tm_calls := tm_calls w @ map (Pair j) (Timer_destroy (tm_obj w j))\<rparr>) l"
  from assms(1) have L: "timers_linked ?F l" and wf: "\<And>k. timer_wf (tm_obj (tms l) k)" by (simp_all add: timers_good_def)
  have "timers_linked ?F ?l0" by (rule linked_cong [OF L]) simp_all
  from loop_release_ok [OF this, of "AsyncEv j"] assms(2) obtain l1 where
    l1: "loop_release (AsyncEv j) ?l0 = Some l1" "timers_linked (?F(AsyncEv j := None)) l1" "holding l1 = None"
    "tm_obj (tms l1) = tm_obj (tms l)" "tm_calls (tms l1) = tm_calls (tms l) @ map (Pair j) ?cs" by auto
  from loop_release_ok [OF l1(2), of "TimerEv j"] l1(3) obtain l2 where
    l2: "loop_release (TimerEv j) l1 = Some l2" "timers_linked (?F(AsyncEv j := None, TimerEv j := None)) l2" "holding l2 = None"
    "tm_obj (tms l2) = tm_obj (tms l)" "tm_calls (tms l2) = tm_calls (tms l) @ map (Pair j) ?cs"
    using l1(4,5) by auto
  let ?l = "upd_tms (\<lambda>w. w\<lparr>tm_obj := (tm_obj w)(j := Timer_new g)\<rparr>) l2"
  have "loop_renew j g l = Some ?l" using l1(1) l2(1) by (simp add: loop_renew_def)
  moreover have "timers_linked (role_flags (tms ?l)) ?l"
  proof (rule linked_cong [OF l2(2)])
    fix r show "role_flags (tms ?l) r = (?F(AsyncEv j := None, TimerEv j := None)) r"
      by (cases r) (simp_all add: l2(4) Timer_new_def async_flag_def)
  qed simp_all
  then have "timers_good ?l" using wf timer_wf_new by (simp add: timers_good_def l2(4))
  moreover have "timer_view ?l k = ((timer_view l)(j := (Timer_new g, snd (timer_view l j) @ ?cs))) k" for k
  proof -
    have "map snd (filter (\<lambda>c. fst c = k) (map (Pair j) ?cs)) = (if k = j then ?cs else [])" by (simp add: filter_map comp_def)
    then show ?thesis by (simp add: timer_view_def l2(4,5))
  qed
  then have "timer_view ?l = (timer_view l)(j := (Timer_new g, snd (timer_view l j) @ ?cs))" by (rule ext)
  ultimately show ?thesis using l2(3) by (auto simp: timer_view_def)
qed

section \<open>Programs\<close>

lemma timer_view_new: "timer_view (timer_loop_new g) j = (Timer_new g, [])"
  by (simp add: timer_view_def timer_loop_new_def)

lemma timer_loop_new_good: "timers_good (timer_loop_new g :: 'h timer_loop)"
proof -
  let ?l = "timer_loop_new g :: 'h timer_loop"
  have "role_flags (tms ?l) = (\<lambda>_. None)"
  proof (rule ext)
    show "role_flags (tms ?l) r = None" for r
      by (cases r) (simp_all add: timer_loop_new_def async_flag_def Timer_new_def)
  qed
  moreover have "AsyncerPoller_ids AsyncerPoller_new = []" "eventSet TimerPoller_new = {}"
    by (simp_all add: AsyncerPoller_ids_def AsyncerPoller_new_def TimerPoller_new_def)
  then have "timers_linked (\<lambda>_. None) ?l"
    unfolding timers_linked_def by (simp add: timer_loop_new_def AsyncerPoller_new_inv TimerPoller_new_inv flag_on_def)
  ultimately have "timers_linked (role_flags (tms ?l)) ?l" by simp
  moreover have "timer_wf (tm_obj (tms ?l) j)" for j by (simp add: timer_loop_new_def timer_wf_new)
  ultimately show ?thesis unfolding timers_good_def by blast
qed

lemma good_wf: "timers_good l \<Longrightarrow> timer_wf (fst (timer_view l j))"
  by (simp add: timers_good_def timer_view_def)

lemma loop_do_ok:
  assumes "timers_good l" "holding l = None"
  shows "\<exists>l'. loop_do x l = Some l' \<and> timers_good l' \<and> holding l' = None \<and>
    (\<forall>j. Timer_acts (timer_part j x) (timer_view l j) = Some (timer_view l' j))"
proof (cases x)
  case (Wait j g ms h)
  from loop_timer_ok [OF assms(1), of "Timer_AsyncWait g ms h" j "TWait g ms h"] obtain l' where
    l': "loop_timer j (Timer_AsyncWait g ms h) l = Some l'" "timers_good l'" "timer_view l' = (timer_view l)(j := op_view (TWait g ms h) (timer_view l j))"
    by auto
  with Wait Timer_acts_one(1) [OF good_wf [OF assms(1)], of "TWait g ms h" j] loop_timer_holding [OF l'(1)] assms(2)
  show ?thesis by (auto simp del: Timer_acts.simps(2))
next
  case (Cancel j)
  from loop_timer_ok [OF assms(1), of Timer_cancel j TCancel] obtain l' where
    l': "loop_timer j Timer_cancel l = Some l'" "timers_good l'" "timer_view l' = (timer_view l)(j := op_view TCancel (timer_view l j))"
    by auto
  with Cancel Timer_acts_one(1) [OF good_wf [OF assms(1)], of TCancel j] loop_timer_holding [OF l'(1)] assms(2)
  show ?thesis by (auto simp del: Timer_acts.simps(2))
next
  case (Renew j g)
  from loop_renew_ok [OF assms, of j g] obtain l' where
    l': "loop_renew j g l = Some l'" "timers_good l'" "holding l' = None"
    "timer_view l' = (timer_view l)(j := (Timer_new g, snd (timer_view l j) @ Timer_destroy (fst (timer_view l j))))" by auto
  have "Timer_acts [Anew g] v = Some (Timer_new g, snd v @ Timer_destroy (fst v))" for v :: "'a Timer \<times> 'a calls"
    by (cases v) simp
  with l' Renew show ?thesis by simp
next
  case (Pass now start)
  from whole_pass [OF assms(1), of start now] obtain l' cbs where
    l': "EventLoop_runOnce no_ctl (Timer_callback start) \<lparr>env_wait = Some [], env_now = now\<rparr> l = Some (l', cbs)" "timers_good l'"
    "timer_view l' = (\<lambda>j. op_view (TLoop start) (op_view (TFire now) (timer_view l j)))" by auto
  have "holding l' = None" using l'(1) assms(2) by (auto simp: EventLoop_runOnce_def intro: run_pollers_holding)
  with l' Pass Timer_acts_two [OF good_wf [OF assms(1)]] show ?thesis by (simp del: Timer_acts.simps)
qed

lemma timer_program_append: "timer_program (xs @ ys) l = Option.bind (timer_program xs l) (timer_program ys)"
proof (induction xs arbitrary: l)
  case (Cons x xs)
  then show ?case by (cases "loop_do x l") simp_all
qed simp

lemma timer_program_ok:
  assumes "timers_good l" "holding l = None"
  shows "\<exists>l'. timer_program xs l = Some l' \<and> timers_good l' \<and> holding l' = None \<and>
    (\<forall>j. Timer_acts (timer_parts j xs) (timer_view l j) = Some (timer_view l' j))"
  using assms
proof (induction xs arbitrary: l)
  case (Cons x xs)
  from loop_do_ok [OF Cons.prems, of x] obtain l1 where
    1: "loop_do x l = Some l1" "timers_good l1" "holding l1 = None"
    "\<And>j. Timer_acts (timer_part j x) (timer_view l j) = Some (timer_view l1 j)" by blast
  with Cons.IH [OF 1(2,3)] show ?case by (simp add: Timer_acts_append)
qed simp

lemma program_acts:
  "\<exists>l. timer_program xs (timer_loop_new g) = Some l \<and> timers_good l \<and> holding l = None \<and>
    (\<forall>j. Timer_acts (timer_parts j xs) (Timer_new g, []) = Some (timer_view l j))"
  using timer_program_ok [OF timer_loop_new_good, of g xs] unfolding timer_view_new by (simp add: timer_loop_new_def)

section \<open>One life of a timer\<close>

fun ops_of :: "'h timer_act list \<Rightarrow> 'h timer_op list" where
  "ops_of [] = []"
| "ops_of (Act x # xs) = x # ops_of xs"
| "ops_of (Anew g # xs) = ops_of xs"

lemma ops_of_append: "ops_of (xs @ ys) = ops_of xs @ ops_of ys"
  by (induction xs rule: ops_of.induct) simp_all

lemma ops_of_mem: "x \<in> set (ops_of xs) \<Longrightarrow> Act x \<in> set xs"
  by (induction xs rule: ops_of.induct) auto

lemma mem_ops_of: "Act x \<in> set xs \<Longrightarrow> x \<in> set (ops_of xs)"
  by (induction xs rule: ops_of.induct) auto

text \<open>The calls of a life without its end, and the end.\<close>

lemma Timer_life_acts:
  assumes "\<forall>g. Anew g \<notin> set xs" "Timer_acts xs (t, cs) = Some v" "Timer_life (ops_of xs) t = Some ks"
  shows "snd v @ Timer_destroy (fst v) = cs @ ks"
  using assms
proof (induction xs arbitrary: t cs ks)
  case (Cons x xs)
  then obtain y where y: "x = Act y" by (cases x) auto
  from Cons.prems(2) y obtain t' cs' where o': "Timer_op y t = Some (t', cs')" "Timer_acts xs (t', cs @ cs') = Some v"
    by (auto simp: bind_eq_Some_conv)
  from Cons.prems(3) y o'(1) obtain ks' where k: "Timer_life (ops_of xs) t' = Some ks'" "ks = cs' @ ks'" by auto
  from Cons.IH [OF _ o'(2) k(1)] Cons.prems(1) k(2) show ?case by simp
qed auto

lemma Timer_acts_calls: "Timer_acts xs (t, cs) = Some v \<Longrightarrow> \<exists>ds. snd v = cs @ ds"
proof (induction xs "(t, cs)" arbitrary: t cs rule: Timer_acts.induct)
  case (2 x xs t cs)
  then show ?case by (fastforce simp: bind_eq_Some_conv)
next
  case (3 g xs t cs)
  from 3(1) 3(2) show ?case by fastforce
qed auto

lemma outcome_waiting:
  "\<forall>x\<in>set xs. x \<noteq> TCancel \<and> (\<forall>s. x \<noteq> TLoop s) \<Longrightarrow> timer_outcome ms None (xs @ ys) = timer_outcome ms None ys"
proof (induction xs)
  case (Cons x xs)
  then show ?case by (cases x) auto
qed simp

lemma outcome_fires:
  "\<forall>x\<in>set xs. x \<noteq> TCancel \<Longrightarrow> TFire n \<in> set xs \<Longrightarrow> d \<le> n \<Longrightarrow> timer_outcome ms (Some d) xs = ''''"
proof (induction xs)
  case (Cons x xs)
  then show ?case by (cases x) auto
qed simp

text \<open>Success takes a pass that fires at or after the deadline, and before it a pass that has set the deadline.\<close>

lemma outcome_due:
  "timer_outcome ms (Some d) (ops_of (timer_parts j ys)) = '''' \<Longrightarrow> \<exists>vs n s ws. ys = vs @ Pass n s # ws \<and> d \<le> n"
proof (induction ys)
  case (Cons y ys)
  have "(\<exists>n s. y = Pass n s \<and> d \<le> n) \<or> timer_outcome ms (Some d) (ops_of (timer_parts j ys)) = ''''"
    using Cons.prems by (cases y) (auto split: if_splits)
  then show ?case
  proof
    assume "\<exists>n s. y = Pass n s \<and> d \<le> n"
    then show ?thesis by (metis append_Nil)
  next
    assume "timer_outcome ms (Some d) (ops_of (timer_parts j ys)) = ''''"
    from Cons.IH [OF this] show ?thesis by (metis append_Cons)
  qed
qed simp

lemma outcome_due_start:
  "timer_outcome ms None (ops_of (timer_parts j ys)) = '''' \<Longrightarrow>
     \<exists>us n start vs n' s' ws. ys = us @ Pass n start # vs @ Pass n' s' # ws \<and> timer_deadline start ms \<le> n'"
proof (induction ys)
  case (Cons y ys)
  have "(\<exists>n s. y = Pass n s \<and> timer_outcome ms (Some (timer_deadline s ms)) (ops_of (timer_parts j ys)) = '''') \<or>
    timer_outcome ms None (ops_of (timer_parts j ys)) = ''''"
    using Cons.prems by (cases y) (auto split: if_splits)
  then show ?case
  proof
    assume "\<exists>n s. y = Pass n s \<and> timer_outcome ms (Some (timer_deadline s ms)) (ops_of (timer_parts j ys)) = ''''"
    with outcome_due show ?thesis by (metis append_Nil)
  next
    assume "timer_outcome ms None (ops_of (timer_parts j ys)) = ''''"
    from Cons.IH [OF this] show ?thesis by (metis append_Cons)
  qed
qed simp

lemma timer_deadline_exact:
  assumes "unat start + unat ms < 2 ^ 63"
  shows "timer_deadline start ms = int (unat start + unat ms)"
proof -
  have "unat (start + ms) = unat start + unat ms" using assms by (intro unat_add_exact) simp
  with assms sint_eq_uint_63 [of "start + ms"] show ?thesis unfolding timer_deadline_def by simp
qed

lemma timer_part_mem:
  "Act (TWait g ms h) \<in> set (timer_part j x) \<Longrightarrow> x = Wait j g ms h"
  "Act TCancel \<in> set (timer_part j x) \<Longrightarrow> x = Cancel j"
  "Act (TLoop s) \<in> set (timer_part j x) \<Longrightarrow> \<exists>n. x = Pass n s"
  "Anew g' \<in> set (timer_part j x) \<Longrightarrow> x = Renew j g'"
  by (cases x; auto split: if_splits)+

lemma timer_parts_mem:
  "Act TCancel \<in> set (timer_parts j xs) \<Longrightarrow> Cancel j \<in> set xs"
  "Act (TLoop s) \<in> set (timer_parts j xs) \<Longrightarrow> \<exists>n. Pass n s \<in> set xs"
  "Anew g' \<in> set (timer_parts j xs) \<Longrightarrow> Renew j g' \<in> set xs"
  using timer_part_mem by fastforce+

lemma not_reuse_destroy: "filter not_reuse (Timer_destroy t) = Timer_destroy t"
  by (simp add: Timer_destroy_def split: option.split)

text \<open>From the birth of timer \<open>j\<close> to a moment of its life: what has been called since, and what its end would add.\<close>

lemma life_calls:
  assumes "timer_program (xs @ [Renew j g']) (timer_loop_new g0) = Some l0"
    and "\<forall>g. Renew j g \<notin> set ys"
  shows "\<exists>l cs. timer_program (Wait j g ms h # ys) l0 = Some l \<and> timers_good l \<and> holding l = None \<and>
    snd (timer_view l j) = snd (timer_view l0 j) @ cs \<and>
    filter not_reuse cs @ Timer_destroy (tm_obj (tms l) j) = [(h, timer_outcome ms None (ops_of (timer_parts j ys)))]"
proof -
  let ?zs = "timer_parts j (Wait j g ms h # ys)"
  from program_acts [of "xs @ [Renew j g']" g0] have
    g: "timers_good l0" "holding l0 = None" and v0: "Timer_acts (timer_parts j (xs @ [Renew j g'])) (Timer_new g0, []) = Some (timer_view l0 j)"
    unfolding assms(1) by blast+
  have "fst (timer_view l0 j) = Timer_new g'"
    using v0 by (auto simp: Timer_acts_append bind_eq_Some_conv) (metis fst_conv)
  then obtain cs0 where l0: "timer_view l0 j = (Timer_new g', cs0)" by (cases "timer_view l0 j") simp
  from timer_program_ok [OF g, of "Wait j g ms h # ys"] obtain l where
    l: "timer_program (Wait j g ms h # ys) l0 = Some l" "timers_good l" "holding l = None"
    "Timer_acts ?zs (Timer_new g', cs0) = Some (timer_view l j)" unfolding l0 [symmetric] by blast
  from Timer_life_once [of g ms h "ops_of (timer_parts j ys)" g'] obtain ks where
    ks: "Timer_life (ops_of ?zs) (Timer_new g') = Some ks" "filter not_reuse ks = [(h, timer_outcome ms None (ops_of (timer_parts j ys)))]"
    by auto
  have "\<forall>g. Anew g \<notin> set ?zs" using assms(2) timer_parts_mem(3) by fastforce
  from Timer_life_acts [OF this l(4) ks(1)] have eq: "snd (timer_view l j) @ Timer_destroy (tm_obj (tms l) j) = cs0 @ ks"
    by (simp add: timer_view_def)
  from Timer_acts_calls [OF l(4)] obtain cs where cs: "snd (timer_view l j) = cs0 @ cs" by auto
  with eq have "cs @ Timer_destroy (tm_obj (tms l) j) = ks" by simp
  with ks(2) have "filter not_reuse cs @ Timer_destroy (tm_obj (tms l) j) = [(h, timer_outcome ms None (ops_of (timer_parts j ys)))]"
    by (metis filter_append not_reuse_destroy)
  with l(1-3) cs l0 show ?thesis by auto
qed

section \<open>Properties\<close>

text \<open>
  C15.  The loop implements the timers.  Whatever timers are made, set, cancelled and destroyed, and however the passes
  and the clock fall, a program never crashes, and every timer ends in the state, and its handlers have heard
  the calls in the order, that its own operations and destructions give when each pass of the loop is one firing at
  the poller's time and then one run of its asyncer: the two pollers return neither too few nor too many events,
  nothing of a destroyed timer stays behind, and no timer disturbs another.
\<close>

theorem Timers_on_loop:
  "\<exists>l. timer_program xs (timer_loop_new g) = Some l \<and>
    (\<forall>j. Timer_acts (timer_parts j xs) (Timer_new g, []) =
      Some (tm_obj (kern (epoller l)) j, map snd (filter (\<lambda>c. fst c = j) (tm_calls (kern (epoller l))))))"
  using program_acts [of xs g] by (auto simp: timer_view_def)

text \<open>
  C19.  On a loop, whatever happens to other timers, a life of a timer makes exactly one call of the handler it was set
  with: set after any history, and destroyed after any further one, with the message that its own part of the program gives,
  an empty one if it was due before a cancel and before its end.
\<close>

theorem Timer_answers_once_per_life:
  assumes "\<forall>g. Renew j g \<notin> set ys"
  shows "\<exists>l0 l cs. timer_program (xs @ [Renew j g']) (timer_loop_new g0) = Some l0 \<and>
    timer_program (Wait j g ms h # ys @ [Renew j g'']) l0 = Some l \<and>
    map snd (filter (\<lambda>c. fst c = j) (tm_calls (kern (epoller l)))) =
      map snd (filter (\<lambda>c. fst c = j) (tm_calls (kern (epoller l0)))) @ cs \<and>
    filter not_reuse cs = [(h, timer_outcome ms None (ops_of (timer_parts j ys)))]"
proof -
  from program_acts [of "xs @ [Renew j g']" g0] obtain l0 where l0: "timer_program (xs @ [Renew j g']) (timer_loop_new g0) = Some l0" by blast
  from life_calls [OF l0 assms] obtain l cs where
    l: "timer_program (Wait j g ms h # ys) l0 = Some l" "timers_good l" "holding l = None"
    "snd (timer_view l j) = snd (timer_view l0 j) @ cs"
    "filter not_reuse cs @ Timer_destroy (tm_obj (tms l) j) = [(h, timer_outcome ms None (ops_of (timer_parts j ys)))]" by blast
  from loop_renew_ok [OF l(2,3), of j g''] obtain l' where
    l': "loop_renew j g'' l = Some l'"
    and v': "timer_view l' = (timer_view l)(j := (Timer_new g'', snd (timer_view l j) @ Timer_destroy (fst (timer_view l j))))" by blast
  have l'2: "snd (timer_view l' j) = snd (timer_view l j) @ Timer_destroy (tm_obj (tms l) j)"
    unfolding v' by (simp add: timer_view_def)
  let ?ds = "cs @ Timer_destroy (tm_obj (tms l) j)"
  have "timer_program ((Wait j g ms h # ys) @ [Renew j g'']) l0 = Some l'"
    unfolding timer_program_append l(1) using l' by simp
  then have "timer_program (Wait j g ms h # ys @ [Renew j g'']) l0 = Some l'" by (simp only: append_Cons)
  moreover have "snd (timer_view l' j) = snd (timer_view l0 j) @ ?ds" using l'2 l(4) by simp
  moreover have "filter not_reuse ?ds = [(h, timer_outcome ms None (ops_of (timer_parts j ys)))]" using l(5) by (simp add: not_reuse_destroy)
  ultimately show ?thesis using l0 by (auto simp: timer_view_def)
qed

theorem Timer_answers_once_per_life_witness:
  "\<exists>l0 l cs. timer_program ([Wait 0 True 1 (6::nat), Wait 1 True 9 8, Pass 5 5] @ [Renew 0 True]) (timer_loop_new True) = Some l0 \<and>
    timer_program (Wait 0 False 50 7 # [Wait 0 True 3 9, Cancel 1, Pass 1000 1000, Pass 1051 1051] @ [Renew 0 False]) l0 = Some l \<and>
    map snd (filter (\<lambda>c. fst c = 0) (tm_calls (kern (epoller l)))) =
      map snd (filter (\<lambda>c. fst c = 0) (tm_calls (kern (epoller l0)))) @ cs \<and>
    filter not_reuse cs = [(7, '''')]"
proof -
  have "\<forall>g. Renew 0 g \<notin> set [Wait 0 True 3 (9::nat), Cancel 1, Pass 1000 1000, Pass 1051 1051]" by simp
  from Timer_answers_once_per_life [OF this, of "[Wait 0 True 1 6, Wait 1 True 9 8, Pass 5 5]" True True False 50 7 False]
  show ?thesis by (simp only: list.map concat.simps timer_part.simps) (simp add: timer_deadline_def del: timer_program.simps)
qed

text \<open>
  C18.  A timer that is set fires.  After any history a timer \<open>j\<close> is made and set; from then on anything may happen to
  the other timers.  If it is not cancelled and not destroyed, and the loop makes a pass and, at some time not
  before that pass's reading of the clock plus the delay, another, then the program runs and the timer's handler has
  been called exactly once, with no error: the asyncer and the timer poller both deliver.
\<close>

theorem Timer_fires_on_loop:
  assumes "\<forall>g. Renew j g \<notin> set (us @ vs)" and "Cancel j \<notin> set (us @ vs)"
    and "\<forall>n s. Pass n s \<notin> set us"
    and "Pass n' s' \<in> set vs" and "int (unat start + unat ms) \<le> n'" and "unat start + unat ms < 2 ^ 63"
  shows "\<exists>l0 l cs. timer_program (xs @ [Renew j g']) (timer_loop_new g0) = Some l0 \<and>
    timer_program (Wait j g ms h # us @ Pass n start # vs) l0 = Some l \<and>
    map snd (filter (\<lambda>c. fst c = j) (tm_calls (kern (epoller l)))) =
      map snd (filter (\<lambda>c. fst c = j) (tm_calls (kern (epoller l0)))) @ cs \<and>
    filter not_reuse cs = [(h, '''')]"
proof -
  let ?ys = "us @ Pass n start # vs"
  let ?us = "ops_of (timer_parts j us)" and ?vs = "ops_of (timer_parts j vs)"
  from program_acts [of "xs @ [Renew j g']" g0] obtain l0 where l0: "timer_program (xs @ [Renew j g']) (timer_loop_new g0) = Some l0" by blast
  have "\<forall>g. Renew j g \<notin> set ?ys" using assms(1) by auto
  from life_calls [OF l0 this] obtain l cs where
    l: "timer_program (Wait j g ms h # ?ys) l0 = Some l" "snd (timer_view l j) = snd (timer_view l0 j) @ cs"
    "filter not_reuse cs @ Timer_destroy (tm_obj (tms l) j) = [(h, timer_outcome ms None (ops_of (timer_parts j ?ys)))]" by blast
  have "Cancel j \<notin> set us" "Cancel j \<notin> set vs" using assms(2) by simp_all
  then have "TCancel \<notin> set ?us" "TCancel \<notin> set ?vs" using ops_of_mem timer_parts_mem(1) by metis+
  moreover have "TLoop s \<notin> set ?us" for s using assms(3) ops_of_mem timer_parts_mem(2) by metis
  ultimately have "\<forall>x\<in>set ?us. x \<noteq> TCancel \<and> (\<forall>s. x \<noteq> TLoop s)" "\<forall>x\<in>set ?vs. x \<noteq> TCancel" by metis+
  moreover have "Act (TFire n') \<in> set (timer_parts j vs)" using assms(4) by force
  then have "TFire n' \<in> set ?vs" by (rule mem_ops_of)
  ultimately have "timer_outcome ms None (ops_of (timer_parts j ?ys)) = ''''"
    using outcome_waiting [of ?us] outcome_fires [of ?vs n' "timer_deadline start ms" ms] assms(5)
    by (simp add: ops_of_append timer_deadline_exact [OF assms(6)])
  moreover have "Timer_destroy t \<noteq> [(h, '''')]" for t by (simp add: Timer_destroy_def split: option.split)
  ultimately have "filter not_reuse cs = [(h, '''')]" using l(3) by (auto simp: append_eq_Cons_conv)
  with l0 l(1,2) show ?thesis by (auto simp: timer_view_def)
qed

theorem Timer_fires_on_loop_witness:
  "\<exists>l0 l cs. timer_program ([Wait 0 True 1 (6::nat), Pass 1000 1000] @ [Renew 0 True]) (timer_loop_new True) = Some l0 \<and>
    timer_program (Wait 0 True 50 7 # [Wait 1 True 9 8] @ Pass 1001 1002 # [Pass 1010 1010, Cancel 1, Renew 1 True, Pass 1052 1052]) l0 = Some l \<and>
    map snd (filter (\<lambda>c. fst c = 0) (tm_calls (kern (epoller l)))) =
      map snd (filter (\<lambda>c. fst c = 0) (tm_calls (kern (epoller l0)))) @ cs \<and>
    filter not_reuse cs = [(7, '''')]"
  by (rule Timer_fires_on_loop [where n' = 1052 and s' = 1052]) simp_all

text \<open>
  C40.  A timer never fires early.  If after any history a timer is made and set and its handler hears success, then
  since then the loop has made a pass and, after it, another at a time that is not before the first one's reading of
  the clock plus the delay.  The bound is the range of the signed 64-bit deadline.
\<close>

theorem Timer_never_early_on_loop:
  assumes "timer_program (xs @ [Renew j g']) (timer_loop_new g0) = Some l0"
    and "timer_program (Wait j g ms h # ys) l0 = Some l" and "\<forall>g. Renew j g \<notin> set ys"
    and "map snd (filter (\<lambda>c. fst c = j) (tm_calls (kern (epoller l)))) =
      map snd (filter (\<lambda>c. fst c = j) (tm_calls (kern (epoller l0)))) @ cs"
    and "(h, '''') \<in> set cs"
    and "\<forall>n start. Pass n start \<in> set ys \<longrightarrow> unat start + unat ms < 2 ^ 63"
  shows "\<exists>us n start vs n' s' ws. ys = us @ Pass n start # vs @ Pass n' s' # ws \<and> int (unat start + unat ms) \<le> n'"
proof -
  from life_calls [OF assms(1,3), of g ms h] assms(2,4) have
    "filter not_reuse cs @ Timer_destroy (tm_obj (tms l) j) = [(h, timer_outcome ms None (ops_of (timer_parts j ys)))]"
    by (auto simp: timer_view_def simp del: timer_program.simps)
  moreover have "(h, '''') \<in> set (filter not_reuse cs)" using assms(5) by simp
  ultimately have "(h, '''') \<in> {(h, timer_outcome ms None (ops_of (timer_parts j ys)))}"
    by (metis Un_iff empty_set list.simps(15) set_append)
  then have "timer_outcome ms None (ops_of (timer_parts j ys)) = ''''" by simp
  from outcome_due_start [OF this] obtain us n start vs n' s' ws where
    y: "ys = us @ Pass n start # vs @ Pass n' s' # ws" "timer_deadline start ms \<le> n'" by blast
  with assms(6) have "unat start + unat ms < 2 ^ 63" by auto
  from timer_deadline_exact [OF this] y show ?thesis by fastforce
qed

theorem Timer_never_early_on_loop_witness:
  "\<exists>us n start vs n' s' ws. [Pass 1000 1000, Pass 1049 1049, Pass 1051 1051] =
     us @ Pass n start # vs @ Pass n' s' # (ws :: nat loop_input list) \<and> int (unat start + unat (50::u64)) \<le> n'"
proof -
  let ?ys = "[Pass 1000 1000, Pass 1049 1049, Pass 1051 1051] :: nat loop_input list"
  obtain l0 where l0: "timer_program ([] @ [Renew 0 True]) (timer_loop_new True :: nat timer_loop) = Some l0"
    using program_acts [of "[] @ [Renew 0 True]" True] by blast
  have ys: "\<forall>g. Renew 0 g \<notin> set ?ys" "\<forall>n start. Pass n start \<in> set ?ys \<longrightarrow> unat start + unat (50::u64) < 2 ^ 63" by auto
  from life_calls [OF l0 ys(1), of True 50 7] obtain l cs where
    l: "timer_program (Wait 0 True 50 7 # ?ys) l0 = Some l" "snd (timer_view l 0) = snd (timer_view l0 0) @ cs"
    "filter not_reuse cs @ Timer_destroy (tm_obj (tms l) 0) = [(7, timer_outcome 50 None (ops_of (timer_parts 0 ?ys)))]" by blast
  have "timer_outcome 50 None (ops_of (timer_parts 0 ?ys)) = ''''" by (simp add: timer_deadline_def)
  with l(3) have "filter not_reuse cs @ Timer_destroy (tm_obj (tms l) 0) = [(7, '''')]" by (simp only:)
  moreover have "Timer_destroy t \<noteq> [(7, '''')]" for t :: "nat Timer" by (simp add: Timer_destroy_def split: option.split)
  ultimately have "filter not_reuse cs = [(7, '''')]" by (auto simp: append_eq_Cons_conv)
  then have "(7, '''') \<in> set cs" by (metis filter_is_subset list.set_intros(1) subsetD)
  with Timer_never_early_on_loop [OF l0 l(1) ys(1) _ _ ys(2)] l(2) show ?thesis by (simp only: timer_view_def snd_conv)
qed

end
