(* ===== verification/Timer_Handlers.thy ===== *)
theory Timer_Handlers
  imports Timer_Programs "HOL-Library.Multiset"
begin

text \<open>
  Timers whose handlers act: while the loop dispatches, a handler sets, cancels and destroys timers, its own included,
  whose events may be among those that the pass has still to dispatch, and hands them handlers that act in turn.
\<close>

section \<open>Handlers and what they do\<close>

datatype timer_code = Program nat "timer_do list"
  and timer_do = DoWait nat bool u64 timer_code | DoCancel nat | DoRenew nat bool

fun code_script :: "timer_code \<Rightarrow> timer_do list" where "code_script (Program n as) = as"

fun as_input :: "timer_do \<Rightarrow> timer_code loop_input" where
  "as_input (DoWait j g ms h) = Wait j g ms h"
| "as_input (DoCancel j) = Cancel j"
| "as_input (DoRenew j g) = Renew j g"

text \<open>Every handler that a timer is given, whether the timer takes it or not, is noted.\<close>

fun note_asked :: "timer_do \<Rightarrow> timer_code timer_loop \<Rightarrow> timer_code timer_loop" where
  "note_asked (DoWait j g ms h) l = upd_tms (\<lambda>w. w\<lparr>tm_asked := tm_asked w @ [(j, h)]\<rparr>) l"
| "note_asked _ l = l"

text \<open>The handlers that a step from \<open>l\<close> to \<open>l'\<close> has called.\<close>

definition called :: "timer_code timer_loop \<Rightarrow> timer_code timer_loop \<Rightarrow> timer_code list" where
  "called l l' = map (\<lambda>c. fst (snd c)) (drop (length (tm_calls (tms l))) (tm_calls (tms l')))"

text \<open>
  Actions on the loop's thread: one after the other, each followed by the actions of the handlers it calls, which the
  recursive lock lets in.  With one exception the call of a handler is the last time that a method reads its timer, so the
  handler's actions come after the method's effect: a callback of the loop holds the timer by its own pointer, the
  destructor has only the members left to destroy, which no action can see, and the handler that
  \<^verbatim>\<open>AsyncWait\<close> refuses is its argument.  The exception is \<^verbatim>\<open>cancel\<close>: when the asyncer has
  not run, it calls the handler through \<^verbatim>\<open>asyncer_->Cancel()\<close> and then reads \<^verbatim>\<open>event_\<close>.  This
  rest of it stays on the stack as \<open>Canceling j\<close>; it finds no event, since the asyncer did not run, unless the handler
  and what it caused has destroyed the timer, which is a use after free (\<open>None\<close>).
\<close>

datatype timer_frame = Do timer_do | Canceling nat

fun unfinished :: "timer_do \<Rightarrow> timer_code timer_loop \<Rightarrow> timer_frame list" where
  "unfinished (DoCancel j) l =
     (case t_asyncer (tm_obj (tms l) j) of None \<Rightarrow> [] | Some a \<Rightarrow> if a_done a then [] else [Canceling j])"
| "unfinished _ l = []"

fun frees :: "timer_do \<Rightarrow> timer_frame list \<Rightarrow> bool" where
  "frees (DoRenew j g) fs = (Canceling j \<in> set fs)"
| "frees _ fs = False"

definition scripts :: "timer_code list \<Rightarrow> timer_frame list" where
  "scripts hs = map Do (concat (map code_script hs))"

partial_function (option) timer_run :: "timer_frame list \<Rightarrow> timer_code timer_loop \<Rightarrow> timer_code timer_loop option" where
  "timer_run fs l =
     (case fs of
        [] \<Rightarrow> Some l
      | Canceling j # fs \<Rightarrow> timer_run fs l
      | Do a # fs \<Rightarrow>
          if frees a fs then None
          else Option.bind (loop_do (as_input a) (note_asked a l)) (\<lambda>l'.
            timer_run (scripts (called l l') @ unfinished a l @ fs) l'))"

definition Acting_callback :: "u64 \<Rightarrow> timer_code timers callback" where
  "Acting_callback start i isRead l =
     Option.bind (Timer_callback start i isRead l) (\<lambda>l'. timer_run (scripts (called l l')) l')"

datatype acting_input = Outside timer_do | Turn int u64

fun acting_do :: "acting_input \<Rightarrow> timer_code timer_loop \<Rightarrow> timer_code timer_loop option" where
  "acting_do (Outside a) l = timer_run [Do a] l"
| "acting_do (Turn now start) l =
     map_option fst (EventLoop_runOnce no_ctl (Acting_callback start) \<lparr>env_wait = Some [], env_now = now\<rparr> l)"

fun acting_program :: "acting_input list \<Rightarrow> timer_code timer_loop \<Rightarrow> timer_code timer_loop option" where
  "acting_program [] l = Some l"
| "acting_program (x # xs) l = Option.bind (acting_do x l) (acting_program xs)"



section \<open>A timer owes its handler one call\<close>

definition owes :: "'h Timer \<Rightarrow> 'h multiset" where
  "owes t = (case t_handler t of Some h \<Rightarrow> if t_used t \<and> \<not> t_done t then {#h#} else {#} | None \<Rightarrow> {#})"

definition timer_stage :: "'h Timer \<Rightarrow> bool" where
  "timer_stage t \<longleftrightarrow>
     (\<not> t_used t \<and> t_handler t = None \<and> t_asyncer t = None \<and> t_event t = None) \<or>
     (\<exists>ms h d. timer_armed ms h d t) \<or> (\<exists>h. timer_finished h t)"

lemma timer_stage_new: "timer_stage (Timer_new g)" by (simp add: timer_stage_def Timer_new_def)

fun given :: "'h timer_op \<Rightarrow> 'h multiset" where
  "given (TWait g ms h) = {#h#}"
| "given _ = {#}"


lemma timer_finished_eq:
  "timer_finished h t \<longleftrightarrow> t_used t \<and> t_done t \<and> t_handler t = Some h \<and>
     (\<exists>a. t_asyncer t = Some a \<and> a_event a \<noteq> None \<and> a_handler a \<noteq> None \<and> (a_done a \<or> a_event a = Some True))"
  by (auto simp: timer_finished_def)

lemma owes_stage:
  "timer_armed ms h d t \<Longrightarrow> owes t = {#h#}" "timer_finished h t \<Longrightarrow> owes t = {#}"
  by (simp_all add: owes_def timer_armed_def timer_finished_def)

lemma op_owes:
  assumes "timer_stage t" "Timer_op x t = Some (t', cs)"
  shows "timer_stage t'" "owes t + given x = mset (map fst cs) + owes t'"
proof -
  have "timer_stage t' \<and> owes t + given x = mset (map fst cs) + owes t'"
    using assms(1) unfolding timer_stage_def [of t]
  proof (elim disjE exE)
    assume n: "\<not> t_used t \<and> t_handler t = None \<and> t_asyncer t = None \<and> t_event t = None"
    show ?thesis
    proof (cases x)
      case (TWait g ms h)
      with n assms(2) have "timer_armed ms h None t'" "cs = []"
        by (auto simp: Timer_defs Asyncer_defs timer_armed_def)
      with n TWait show ?thesis by (auto simp: timer_stage_def owes_def timer_armed_def)
    qed (use n assms(2) in \<open>auto simp: Timer_defs timer_stage_def owes_def\<close>)
  next
    fix h assume f: "timer_finished h t"
    then obtain a b where a: "t_used t" "t_done t" "t_handler t = Some h" "t_asyncer t = Some a" "a_event a = Some b"
      "a_handler a \<noteq> None" "a_done a \<or> b" by (auto simp del: not_None_eq simp: timer_finished_eq)
    have "timer_finished h t' \<and> mset (map fst cs) = given x"
    proof (cases x)
      case (TWait g ms h')
      with f assms(2) show ?thesis by (auto simp del: not_None_eq simp: timer_finished_eq Timer_AsyncWait_def)
    next
      case (TLoop now)
      with a assms(2) show ?thesis
        by (cases b; cases "a_done a"; auto simp del: not_None_eq simp: timer_finished_eq Timer_asyncFire_def Asyncer_fire_def Timer_onLoop_def call_handler_def Let_def)
    next
      case (TFire now)
      with f a assms(2) show ?thesis
        by (cases "t_event t"; auto simp del: not_None_eq simp: timer_finished_eq Timer_fire_def Let_def split: bool.splits if_splits)
    next
      case TCancel
      with a assms(2) show ?thesis
        by (cases "a_done a"; cases "t_event t"; auto simp del: not_None_eq simp: timer_finished_eq Timer_cancel_def Asyncer_Cancel_def Timer_onLoop_def call_handler_def Let_def)
    qed
    with f show ?thesis by (auto simp: timer_stage_def owes_stage)
  next
    fix ms h d assume a: "timer_armed ms h d t"
    note o' = owes_stage(1) [OF a]
    have "(\<exists>ms h d. timer_armed ms h d t') \<and> owes t' = {#h#} \<and> mset (map fst cs) = given x \<or>
      (\<exists>h. timer_finished h t') \<and> owes t' = {#} \<and> mset (map fst cs) = {#h#} \<and> given x = {#}"
    proof (cases x)
      case (TWait g ms' h')
      with a assms(2) have "t' = t" "mset (map fst cs) = given x" by (auto simp: timer_armed_def Timer_AsyncWait_def)
      with a o' show ?thesis by blast
    next
      case (TLoop now)
      show ?thesis
      proof (cases d)
        case None
        with a TLoop assms(2) have "timer_armed ms h (Some (timer_deadline now ms)) t'" "cs = []"
          by (auto simp: timer_armed_def Timer_defs Asyncer_defs)
        with TLoop owes_stage(1) show ?thesis by fastforce
      next
        case (Some e)
        with a TLoop assms(2) have "t' = t" "cs = []" by (auto simp: timer_armed_def Timer_defs Asyncer_defs)
        with a o' TLoop show ?thesis by auto
      qed
    next
      case (TFire now)
      show ?thesis
      proof (cases "\<exists>e. d = Some e \<and> e \<le> now")
        case True
        with a TFire assms(2) have "timer_finished h t'" "mset (map fst cs) = {#h#}"
          by (auto simp del: not_None_eq simp: timer_armed_def timer_finished_eq Timer_defs call_handler_def)
        with TFire owes_stage(2) show ?thesis by fastforce
      next
        case False
        with a TFire assms(2) have "t' = t" "cs = []" by (cases d; auto simp: timer_armed_def Timer_defs)+
        with a o' TFire show ?thesis by auto
      qed
    next
      case TCancel
      with a assms(2) have "timer_finished h t'" "mset (map fst cs) = {#h#}"
        by (cases d; auto simp del: not_None_eq simp: timer_armed_def timer_finished_eq Timer_defs Asyncer_defs call_handler_def)+
      with TCancel owes_stage(2) show ?thesis by fastforce
    qed
    with o' show ?thesis by (auto simp: timer_stage_def)
  qed
  then show "timer_stage t'" "owes t + given x = mset (map fst cs) + owes t'" by blast+
qed


section \<open>Nothing is left behind\<close>

text \<open>
  Every event belongs to a timer, except that the loop's own pointer may keep the event whose callback is
  running; that one is off.
\<close>

definition tidy :: "'h timer_loop \<Rightarrow> bool" where
  "tidy l \<longleftrightarrow>
     (\<forall>i e. evs l i = Some e \<longrightarrow> i < tm_ids (tms l) \<and>
        (tm_role (tms l) i \<noteq> None \<or> holding l = Some i \<and> \<not> readNotify e \<and> \<not> writeNotify e \<and> \<not> owned l i)) \<and>
     (\<forall>i. holding l = Some i \<longrightarrow> i < tm_ids (tms l)) \<and>
     (\<forall>r i. tm_ev (tms l) r = Some i \<longrightarrow> tm_role (tms l) i \<noteq> None)"

definition held_off :: "'h timer_loop \<Rightarrow> bool" where
  "held_off l \<longleftrightarrow> (\<forall>i r. holding l = Some i \<longrightarrow> tm_role (tms l) i = Some r \<longrightarrow> \<not> flag_on (role_flags (tms l) r))"

text \<open>What making and switching events leaves alone.\<close>

definition stays :: "'h timer_loop \<Rightarrow> 'h timer_loop \<Rightarrow> bool" where
  "stays l l' \<longleftrightarrow>
     tm_obj (tms l') = tm_obj (tms l) \<and> tm_calls (tms l') = tm_calls (tms l) \<and> tm_asked (tms l') = tm_asked (tms l) \<and>
     holding l' = holding l \<and> tm_ids (tms l) \<le> tm_ids (tms l') \<and>
     (\<forall>i<tm_ids (tms l). tm_role (tms l') i = tm_role (tms l) i)"

lemma stays_refl [simp]: "stays l l" by (simp add: stays_def)

lemma stays_trans: "stays l l1 \<Longrightarrow> stays l1 l2 \<Longrightarrow> stays l l2" by (auto simp: stays_def)

lemma loop_notify_result:
  assumes "loop_notify on i l = Some l'"
  shows "\<exists>e e'. evs l i = Some e \<and> evs l' = (evs l)(i := Some e')" "tms l' = tms l" "holding l' = holding l" "owned l' = owned l"
  using assms by (auto simp: loop_notify_def split: option.splits poller_kind.splits prod.splits)

lemma loop_notify_tidy:
  assumes "loop_notify on i l = Some l'" "tm_role (tms l) i \<noteq> None" "tidy l"
  shows "tidy l'" "stays l l'"
proof -
  from loop_notify_result [OF assms(1)] obtain e e' where
    "evs l i = Some e" "evs l' = (evs l)(i := Some e')" "tms l' = tms l" "holding l' = holding l" "owned l' = owned l" by auto
  with assms(2,3) show "tidy l'" "stays l l'" by (auto simp: tidy_def stays_def)
qed

lemma loop_follow_tidy:
  assumes "loop_follow r old new l = Some l'" "tidy l"
  shows "tidy l' \<and> stays l l'"
proof (cases "old = None \<and> (\<exists>f. new = Some (f, True))")
  case True
  then obtain f where f: "old = None" "new = Some (f, True)" by auto
  let ?i = "tm_ids (tms l)"
  let ?e = "\<lparr>fd = f, eid = ?i, readAble = False, writeAble = False, readNotify = False, writeNotify = False\<rparr>"
  let ?l = "upd_tms (\<lambda>w. w\<lparr>tm_ids := ?i + 1, tm_ev := (tm_ev w)(r := Some ?i), tm_role := (tm_role w)(?i := Some r)\<rparr>)
    (l\<lparr>evs := (evs l)(?i := Some ?e), ekind := (ekind l)(?i := role_kind r), owned := (owned l)(?i := True)\<rparr>)"
  have n: "loop_notify True ?i ?l = Some l'"
    using assms(1) f by (simp add: loop_follow_def loop_event_def Event_new_def EventIdCreator_Create_def)
  have w: "tms ?l = (tms l)\<lparr>tm_ids := ?i + 1, tm_ev := (tm_ev (tms l))(r := Some ?i), tm_role := (tm_role (tms l))(?i := Some r)\<rparr>"
    "holding ?l = holding l" "evs ?l = (evs l)(?i := Some ?e)" "owned ?l = (owned l)(?i := True)" by simp_all
  have "tidy ?l"
    using assms(2) unfolding tidy_def w by (auto split: if_splits) (fastforce | force)+
  moreover have "stays l ?l" by (simp add: stays_def w)
  ultimately show ?thesis using loop_notify_tidy [OF n] by (auto intro: stays_trans)
next
  case False
  then have "l' = l \<or> (\<exists>i. tm_ev (tms l) r = Some i \<and> loop_notify False i l = Some l')"
    using assms(1) by (auto simp: loop_follow_def bind_eq_Some_conv split: option.splits prod.splits bool.splits)
  then show ?thesis
  proof (elim disjE exE conjE)
    fix i assume "tm_ev (tms l) r = Some i" "loop_notify False i l = Some l'"
    with assms(2) loop_notify_tidy show ?thesis by (metis tidy_def)
  qed (use assms in simp)
qed

text \<open>A method of a timer, whatever the loop is doing.\<close>

lemma loop_timer_step:
  assumes "timers_good l" "\<forall>j. timer_stage (tm_obj (tms l) j)" "tidy l"
    and "op (tm_obj (tms l) j) = Timer_op x (tm_obj (tms l) j)"
  shows "\<exists>l' t' cs. loop_timer j op l = Some l' \<and> timers_good l' \<and> (\<forall>j. timer_stage (tm_obj (tms l') j)) \<and> tidy l' \<and>
    Timer_op x (tm_obj (tms l) j) = Some (t', cs) \<and> tm_obj (tms l') = (tm_obj (tms l))(j := t') \<and>
    tm_calls (tms l') = tm_calls (tms l) @ map (Pair j) cs \<and> tm_asked (tms l') = tm_asked (tms l) \<and> holding l' = holding l \<and>
    tm_ids (tms l) \<le> tm_ids (tms l') \<and> (\<forall>i<tm_ids (tms l). tm_role (tms l') i = tm_role (tms l) i)"
proof -
  let ?t = "tm_obj (tms l) j"
  from loop_timer_ok [where op = op and j = j and x = x, OF assms(1,4)] obtain l' where l': "loop_timer j op l = Some l'" "timers_good l'" by blast
  then obtain t' cs l1 l2 where s: "Timer_op x ?t = Some (t', cs)"
    "loop_follow (AsyncEv j) (async_flag ?t) (async_flag t') l = Some l1"
    "loop_follow (TimerEv j) (t_event ?t) (t_event t') l1 = Some l2"
    "l' = upd_tms (\<lambda>w. w\<lparr>tm_obj := (tm_obj w)(j := t'), tm_calls := tm_calls w @ map (Pair j) cs\<rparr>) l2"
    using assms(4) by (auto simp: loop_timer_def Let_def bind_eq_Some_conv)
  from loop_follow_tidy [OF s(2) assms(3)] have 1: "tidy l1" "stays l l1" by blast+
  from loop_follow_tidy [OF s(3) 1(1)] have 2: "tidy l2" "stays l l2" using 1(2) by (auto intro: stays_trans)
  have e: "tm_obj (tms l') = (tm_obj (tms l))(j := t')" "tm_calls (tms l') = tm_calls (tms l) @ map (Pair j) cs"
    "tm_asked (tms l') = tm_asked (tms l)" "holding l' = holding l" "tm_ids (tms l) \<le> tm_ids (tms l')"
    "\<forall>i<tm_ids (tms l). tm_role (tms l') i = tm_role (tms l) i"
    using 2(2) by (simp_all add: s(4) stays_def)
  have "timer_stage ?t" using assms(2) by blast
  from op_owes(1) [OF this s(1)] assms(2) have st: "\<forall>k. timer_stage (tm_obj (tms l') k)" unfolding e(1) by simp
  have "tidy l'" using 2(1) by (simp add: s(4) tidy_def)
  with l' s(1) e st show ?thesis by blast
qed


section \<open>Destruction while the loop dispatches\<close>










section \<open>The account of calls\<close>

definition asked_of :: "nat \<Rightarrow> 'h timer_loop \<Rightarrow> 'h multiset" where
  "asked_of j l = mset (map snd (filter (\<lambda>c. fst c = j) (tm_asked (tms l))))"

definition called_of :: "nat \<Rightarrow> 'h timer_loop \<Rightarrow> 'h multiset" where
  "called_of j l = mset (map (\<lambda>c. fst (snd c)) (filter (\<lambda>c. fst c = j) (tm_calls (tms l))))"

definition acting :: "timer_code timer_loop \<Rightarrow> bool" where
  "acting l \<longleftrightarrow> timers_good l \<and> (\<forall>j. timer_stage (tm_obj (tms l) j)) \<and> tidy l \<and>
     (\<forall>j. asked_of j l = called_of j l + owes (tm_obj (tms l) j))"


lemma called_append:
  assumes "tm_calls (tms l') = tm_calls (tms l) @ map (Pair j) cs"
  shows "called l l' = map fst cs"
  by (simp add: called_def assms comp_def)

lemma same_calls: "tm_calls (tms l') = tm_calls (tms l) \<Longrightarrow> called l l' = []"
  by (simp add: called_def)










section \<open>The actions of handlers come to an end\<close>

lemma note_asked_simps:
  "tm_obj (tms (note_asked a l)) = tm_obj (tms l)" "tm_calls (tms (note_asked a l)) = tm_calls (tms l)"
  "holding (note_asked a l) = holding l" "tm_role (tms (note_asked a l)) = tm_role (tms l)" "tm_ids (tms (note_asked a l)) = tm_ids (tms l)"
  "tm_ev (tms (note_asked a l)) = tm_ev (tms l)" "evs (note_asked a l) = evs l" "owned (note_asked a l) = owned l"
  "ekind (note_asked a l) = ekind l" "asyncerPoller (note_asked a l) = asyncerPoller l" "timerPoller (note_asked a l) = timerPoller l"
  by (cases a; simp)+

lemma role_flags_cong: "tm_obj w' = tm_obj w \<Longrightarrow> role_flags w' = role_flags w"
proof (rule ext)
  fix r assume "tm_obj w' = tm_obj w"
  then show "role_flags w' r = role_flags w r" by (cases r) simp_all
qed

lemma note_asked_keeps:
  "timers_good l \<Longrightarrow> timers_good (note_asked a l)" "tidy l \<Longrightarrow> tidy (note_asked a l)" "held_off l \<Longrightarrow> held_off (note_asked a l)"
proof -
  have f: "role_flags (tms (note_asked a l)) = role_flags (tms l)" by (rule role_flags_cong) (rule note_asked_simps)
  have "timers_linked (role_flags (tms (note_asked a l))) (note_asked a l)" if "timers_linked (role_flags (tms l)) l"
    by (rule linked_cong [OF that]) (simp_all add: f note_asked_simps)
  then show "timers_good l \<Longrightarrow> timers_good (note_asked a l)" by (simp add: timers_good_def note_asked_simps)
  show "tidy l \<Longrightarrow> tidy (note_asked a l)" "held_off l \<Longrightarrow> held_off (note_asked a l)"
    by (simp_all add: tidy_def held_off_def f note_asked_simps)
qed
















section \<open>A pass\<close>











lemma acting_new: "acting (timer_loop_new g)"
proof -
  let ?l = "timer_loop_new g :: timer_code timer_loop"
  have "tidy ?l" by (simp add: tidy_def timer_loop_new_def)
  moreover have "asked_of j ?l = {#}" "called_of j ?l = {#}" "tm_obj (tms ?l) j = Timer_new g" for j
    by (simp_all add: asked_of_def called_of_def timer_loop_new_def)
  moreover have "owes (Timer_new g :: timer_code Timer) = {#}" by (simp add: owes_def Timer_new_def)
  moreover have "timers_good ?l" "timer_stage (Timer_new g :: timer_code Timer)"
    by (rule timer_loop_new_good, rule timer_stage_new)
  ultimately show ?thesis by (simp add: acting_def)
qed

section \<open>Property\<close>



text \<open>
  A timer is set and cancelled before the loop has taken up its asyncer, and its handler destroys it:
  \<^verbatim>\<open>cancel\<close> goes on in freed memory.
\<close>

theorem Timer_destroyed_under_cancel:
  "acting_program [Outside (DoWait 0 True 1 (Program 0 [DoRenew 0 True])), Outside (DoCancel 0)] (timer_loop_new True) = None"
proof -
  let ?h = "Program 0 [DoRenew 0 True]"
  let ?l = "timer_loop_new True :: timer_code timer_loop"
  let ?a = "DoWait 0 True 1 ?h"
  have hold: "held_off ?l" by (simp add: held_off_def timer_loop_new_def)
  have obj: "tm_obj (tms (note_asked ?a ?l)) 0 = Timer_new True" "tm_calls (tms (note_asked ?a ?l)) = tm_calls (tms ?l)"
    by (simp_all add: timer_loop_new_def)
  have s: "timers_good (note_asked ?a ?l)" "\<forall>j. timer_stage (tm_obj (tms (note_asked ?a ?l)) j)" "tidy (note_asked ?a ?l)"
    using acting_new [of True] note_asked_keeps [of ?l ?a] unfolding acting_def note_asked_simps by blast+
  from loop_timer_step [OF s, of "Timer_AsyncWait True 1 ?h" 0 "TWait True 1 ?h"] obtain l1 t1 cs1 where
    l1: "loop_timer 0 (Timer_AsyncWait True 1 ?h) (note_asked ?a ?l) = Some l1" "timers_good l1"
      "\<forall>j. timer_stage (tm_obj (tms l1) j)" "tidy l1" "Timer_AsyncWait True 1 ?h (Timer_new True) = Some (t1, cs1)"
      "tm_obj (tms l1) 0 = t1" "tm_calls (tms l1) = tm_calls (tms ?l) @ map (Pair 0) cs1"
    unfolding obj by auto
  from l1(5) have cs1: "cs1 = []" and t1: "\<exists>a. t_asyncer t1 = Some a \<and> \<not> a_done a"
    "\<exists>t2 m. Timer_cancel t1 = Some (t2, [(?h, m)])"
    by (auto simp: Timer_defs Asyncer_defs Timer_new_def Let_def)
  have 1: "timer_run [Do ?a] ?l = Some l1"
    using l1(1) called_append [OF l1(7)] cs1 by (simp add: timer_run.simps scripts_def)
  from loop_timer_step [OF l1(2-4), of Timer_cancel 0 TCancel] t1(2) obtain l2 m where
    l2: "loop_timer 0 Timer_cancel l1 = Some l2" "tm_calls (tms l2) = tm_calls (tms l1) @ map (Pair 0) [(?h, m)]"
    by (auto simp: l1(6))
  have "timer_run [Do (DoCancel 0)] l1 = timer_run [Do (DoRenew 0 True), Canceling 0] l2"
    using l2(1) called_append [OF l2(2)] t1(1) l1(6) by (auto simp: timer_run.simps [of "[Do (DoCancel 0)]"] scripts_def)
  also have "\<dots> = None" by (simp add: timer_run.simps)
  finally show ?thesis using 1 by simp
qed

end
