(* ===== verification/Grpc_Handlers.thy ===== *)
theory Grpc_Handlers
  imports Grpc_Client "HOL-Library.Multiset"
begin

text \<open>
  The clients of \<^verbatim>\<open>grpc_client.h\<close> with handlers that make requests themselves.  \<open>Grpc_Client\<close> has
  handlers that only take the answer and one request per client; here a handler is a tree of requests, made while it
  runs, each with its own handler.  A client carries one call, since it has one context; a request for which there
  was no stub has not used it, so the client may try again.
\<close>

section \<open>Handlers and requests\<close>

text \<open>
  A handler has a name and the requests it makes, in order.  A request names the client, its handler, and what the
  channel gives for a stub at that moment.
\<close>

datatype 'p grpc_handler = Code nat "'p grpc_request list"
  and 'p grpc_request = Req nat "'p grpc_handler" bool "'p option"

fun code_name :: "'p grpc_handler \<Rightarrow> nat" where "code_name (Code n rs) = n"
fun req_client :: "'p grpc_request \<Rightarrow> nat" where "req_client (Req i h ok p) = i"

text \<open>As \<open>client_sys\<close>, \<open>gh_context\<close> included; \<open>gh_requests\<close> is what has been asked for: client and handler of every \<^verbatim>\<open>DoReq\<close>.\<close>

record 'p grpc_clients =
  gh_events :: "nat \<Rightarrow> nat option"
  gh_next :: nat
  gh_event :: "nat \<Rightarrow> nat option"
  gh_onDone :: "nat \<Rightarrow> 'p grpc_handler option"
  gh_context :: "nat \<Rightarrow> bool"
  gh_pending :: "nat list"
  gh_answers :: "(nat \<times> nat \<times> errmsg) list"
  gh_requests :: "(nat \<times> nat) list"

definition grpc_clients_new :: "'p grpc_clients" where
  "grpc_clients_new = \<lparr>gh_events = (\<lambda>_. None), gh_next = 0, gh_event = (\<lambda>_. None), gh_onDone = (\<lambda>_. None),
     gh_context = (\<lambda>_. False), gh_pending = [], gh_answers = [], gh_requests = []\<rparr>"

text \<open>\<^verbatim>\<open>new GrpcEvent\<close>, the member that points to it, and the call with the client's context that carries its tag.\<close>

definition grpc_start :: "nat \<Rightarrow> 'p grpc_clients \<Rightarrow> 'p grpc_clients" where
  "grpc_start i s =
     s\<lparr>gh_events := (gh_events s)(gh_next s := Some i), gh_event := (gh_event s)(i := Some (gh_next s)),
       gh_next := gh_next s + 1, gh_context := (gh_context s)(i := True), gh_pending := gh_pending s @ [gh_next s]\<rparr>"

text \<open>
  A handler called by \<^verbatim>\<open>onDone_\<close>, and \<^verbatim>\<open>doReq\<close>: without a stub the handler runs at once; a null
  stub is dereferenced, and a context that a call has had must not be given to another (\<open>None\<close>, as in \<open>Grpc_Client\<close>).
\<close>

fun grpc_onDone :: "'p grpc_handler \<Rightarrow> nat \<Rightarrow> errmsg \<Rightarrow> 'p grpc_clients \<Rightarrow> 'p grpc_clients option"
  and grpc_doReq :: "'p grpc_request \<Rightarrow> 'p grpc_clients \<Rightarrow> 'p grpc_clients option"
  and grpc_doReqs :: "'p grpc_request list \<Rightarrow> 'p grpc_clients \<Rightarrow> 'p grpc_clients option" where
  "grpc_onDone (Code n rs) i m s = grpc_doReqs rs (s\<lparr>gh_answers := gh_answers s @ [(i, n, m)]\<rparr>)"
| "grpc_doReq (Req i h ok p) s =
     (let s = s\<lparr>gh_onDone := (gh_onDone s)(i := Some h), gh_requests := gh_requests s @ [(i, code_name h)]\<rparr>
      in if \<not> ok then grpc_onDone h i ''stub is nullptr'' s
         else if p = None \<or> gh_context s i then None
         else Some (grpc_start i s))"
| "grpc_doReqs [] s = Some s"
| "grpc_doReqs (r # rs) s = Option.bind (grpc_doReq r s) (grpc_doReqs rs)"

text \<open>\<^verbatim>\<open>Proceed\<close> of the event with tag \<open>t\<close> and of its client: the handler, then the event that the member points to is deleted.\<close>

definition grpc_Proceed :: "bool \<Rightarrow> bool \<Rightarrow> nat \<Rightarrow> 'p grpc_clients \<Rightarrow> 'p grpc_clients option" where
  "grpc_Proceed ok status t s =
     (case gh_events s t of
        None \<Rightarrow> None
      | Some i \<Rightarrow>
          Option.bind (gh_onDone s i) (\<lambda>h.
          Option.bind (grpc_onDone h i (if \<not> ok \<or> \<not> status then ''Grpc Client failed'' else '''') s) (\<lambda>s.
          map_option (\<lambda>t. s\<lparr>gh_events := (gh_events s)(t := None)\<rparr>) (gh_event s i))))"

datatype 'p gh_input = Ask "'p grpc_request" | Back nat bool bool

fun gh_step :: "'p gh_input \<Rightarrow> 'p grpc_clients \<Rightarrow> 'p grpc_clients option" where
  "gh_step (Ask r) s = grpc_doReq r s"
| "gh_step (Back t ok status) s =
     (if t \<in> set (gh_pending s) then grpc_Proceed ok status t (s\<lparr>gh_pending := remove1 t (gh_pending s)\<rparr>) else Some s)"

fun gh_steps :: "'p gh_input list \<Rightarrow> 'p grpc_clients \<Rightarrow> 'p grpc_clients option" where
  "gh_steps [] s = Some s"
| "gh_steps (x # xs) s = Option.bind (gh_step x s) (gh_steps xs)"

section \<open>What a user may do\<close>

text \<open>
  A request that is given a stub is the first one of its client with a stub; one without a stub
  is made on a client that has no event: its call is not under way and its handler is not running for
  it.  A channel that has a stub has no null stub.
\<close>

fun polite_onDone :: "'p grpc_handler \<Rightarrow> nat \<Rightarrow> errmsg \<Rightarrow> 'p grpc_clients \<Rightarrow> bool"
  and polite_doReq :: "'p grpc_request \<Rightarrow> 'p grpc_clients \<Rightarrow> bool"
  and polite_doReqs :: "'p grpc_request list \<Rightarrow> 'p grpc_clients \<Rightarrow> bool" where
  "polite_onDone (Code n rs) i m s = polite_doReqs rs (s\<lparr>gh_answers := gh_answers s @ [(i, n, m)]\<rparr>)"
| "polite_doReq (Req i h ok p) s =
     ((ok \<longrightarrow> p \<noteq> None \<and> \<not> gh_context s i) \<and>
      (\<not> ok \<longrightarrow> (\<forall>t. gh_events s t \<noteq> Some i) \<and> polite_onDone h i ''stub is nullptr''
         (s\<lparr>gh_onDone := (gh_onDone s)(i := Some h), gh_requests := gh_requests s @ [(i, code_name h)]\<rparr>)))"
| "polite_doReqs [] s = True"
| "polite_doReqs (r # rs) s =
     (polite_doReq r s \<and> (case grpc_doReq r s of None \<Rightarrow> True | Some s' \<Rightarrow> polite_doReqs rs s'))"

definition polite_Proceed :: "bool \<Rightarrow> bool \<Rightarrow> nat \<Rightarrow> 'p grpc_clients \<Rightarrow> bool" where
  "polite_Proceed ok status t s =
     (case Option.bind (gh_events s t) (\<lambda>i. map_option (Pair i) (gh_onDone s i)) of
        None \<Rightarrow> True
      | Some (i, h) \<Rightarrow> polite_onDone h i (if \<not> ok \<or> \<not> status then ''Grpc Client failed'' else '''') s)"

fun polite_step :: "'p gh_input \<Rightarrow> 'p grpc_clients \<Rightarrow> bool" where
  "polite_step (Ask r) s = polite_doReq r s"
| "polite_step (Back t ok status) s =
     (t \<in> set (gh_pending s) \<longrightarrow> polite_Proceed ok status t (s\<lparr>gh_pending := remove1 t (gh_pending s)\<rparr>))"

fun polite :: "'p gh_input list \<Rightarrow> 'p grpc_clients \<Rightarrow> bool" where
  "polite [] s = True"
| "polite (x # xs) s = (polite_step x s \<and> (case gh_step x s of None \<Rightarrow> True | Some s' \<Rightarrow> polite xs s'))"

section \<open>The invariant\<close>

text \<open>The request a tag stands for.\<close>

definition gh_asked :: "'p grpc_clients \<Rightarrow> nat \<Rightarrow> nat \<times> nat" where
  "gh_asked s t = (case gh_events s t of None \<Rightarrow> (0, 0) | Some i \<Rightarrow> (i, case gh_onDone s i of None \<Rightarrow> 0 | Some h \<Rightarrow> code_name h))"

text \<open>\<open>R\<close>: the tags whose handler is running.\<close>

definition gh_inv :: "nat set \<Rightarrow> 'p grpc_clients \<Rightarrow> bool" where
  "gh_inv R s \<longleftrightarrow>
     distinct (gh_pending s) \<and> (\<forall>t. gh_events s t \<noteq> None \<longleftrightarrow> t \<in> set (gh_pending s) \<union> R) \<and>
     set (gh_pending s) \<inter> R = {} \<and> (\<forall>t\<in>set (gh_pending s) \<union> R. t < gh_next s) \<and>
     (\<forall>t i. gh_events s t = Some i \<longrightarrow> gh_event s i = Some t \<and> gh_onDone s i \<noteq> None \<and> gh_context s i) \<and>
     mset (map (\<lambda>(i, n, m). (i, n)) (gh_answers s)) + mset (map (gh_asked s) (gh_pending s)) = mset (gh_requests s)"

text \<open>While requests are made, no event goes away, and existing ones keep their client.\<close>

definition grows :: "'p grpc_clients \<Rightarrow> 'p grpc_clients \<Rightarrow> bool" where
  "grows s s' \<longleftrightarrow> gh_next s \<le> gh_next s' \<and> (\<forall>t<gh_next s. gh_events s' t = gh_events s t)"

lemma grows_refl [simp]: "grows s s" by (simp add: grows_def)

lemma grows_trans: "grows s1 s2 \<Longrightarrow> grows s2 s3 \<Longrightarrow> grows s1 s3" by (fastforce simp: grows_def)

text \<open>A request noted, before it is answered or started: one more has been asked for than accounted for.\<close>

lemma gh_asked_note:
  assumes "\<forall>t. gh_events s t \<noteq> Some i"
  shows "gh_asked (s\<lparr>gh_onDone := (gh_onDone s)(i := Some h), gh_requests := q\<rparr>) t = gh_asked s t"
  using assms by (auto simp: gh_asked_def split: option.splits)

lemma gh_inv_answer_now:
  assumes "gh_inv R s" "\<forall>t. gh_events s t \<noteq> Some i"
  shows "gh_inv R (s\<lparr>gh_onDone := (gh_onDone s)(i := Some h), gh_requests := gh_requests s @ [(i, code_name h)],
    gh_answers := gh_answers s @ [(i, code_name h, m)]\<rparr>)"
proof -
  let ?s = "s\<lparr>gh_onDone := (gh_onDone s)(i := Some h), gh_requests := gh_requests s @ [(i, code_name h)],
    gh_answers := gh_answers s @ [(i, code_name h, m)]\<rparr>"
  have "gh_asked ?s = gh_asked s" using assms(2) by (auto simp: gh_asked_def fun_eq_iff split: option.splits)
  with assms show ?thesis by (auto simp: gh_inv_def)
qed

lemma gh_inv_start:
  assumes "gh_inv R s" "\<forall>t. gh_events s t \<noteq> Some i"
  shows "gh_inv R (grpc_start i (s\<lparr>gh_onDone := (gh_onDone s)(i := Some h), gh_requests := gh_requests s @ [(i, code_name h)]\<rparr>))"
proof -
  let ?s = "grpc_start i (s\<lparr>gh_onDone := (gh_onDone s)(i := Some h), gh_requests := gh_requests s @ [(i, code_name h)]\<rparr>)"
  have fresh: "gh_next s \<notin> set (gh_pending s)" "gh_next s \<notin> R" "gh_events s (gh_next s) = None"
    using assms(1) unfolding gh_inv_def by blast+
  have "gh_asked ?s t = gh_asked s t" if "t \<noteq> gh_next s" for t
    using assms(2) that by (auto simp: gh_asked_def grpc_start_def split: option.splits)
  then have m: "map (gh_asked ?s) (gh_pending s) = map (gh_asked s) (gh_pending s)" using fresh(1) by (intro map_cong refl) metis
  have b: "mset (map (\<lambda>(i, n, m). (i, n)) (gh_answers s)) + mset (map (gh_asked s) (gh_pending s)) = mset (gh_requests s)"
    using assms(1) by (simp only: gh_inv_def)
  have "gh_asked ?s (gh_next s) = (i, code_name h)" by (simp add: gh_asked_def grpc_start_def)
  moreover have "gh_pending ?s = gh_pending s @ [gh_next s]" "gh_answers ?s = gh_answers s"
    "gh_requests ?s = gh_requests s @ [(i, code_name h)]"
    by (simp_all add: grpc_start_def)
  ultimately have "mset (map (\<lambda>(i, n, m). (i, n)) (gh_answers ?s)) + mset (map (gh_asked ?s) (gh_pending ?s)) = mset (gh_requests ?s)"
    by (simp only: map_append m list.map mset_append mset.simps b [symmetric]) simp
  moreover have "distinct (gh_pending ?s)" using assms(1) fresh(1) by (simp add: gh_inv_def grpc_start_def)
  moreover have "\<forall>t. gh_events ?s t \<noteq> None \<longleftrightarrow> t \<in> set (gh_pending ?s) \<union> R"
    using assms(1) by (simp add: gh_inv_def grpc_start_def)
  moreover have "set (gh_pending ?s) \<inter> R = {}" using assms(1) fresh(2) by (auto simp: gh_inv_def grpc_start_def)
  moreover have "\<forall>t\<in>set (gh_pending ?s) \<union> R. t < gh_next ?s"
    using assms(1) by (auto simp: gh_inv_def grpc_start_def less_Suc_eq)
  moreover have "\<forall>t j. gh_events ?s t = Some j \<longrightarrow> gh_event ?s j = Some t \<and> gh_onDone ?s j \<noteq> None \<and> gh_context ?s j"
    using assms by (auto simp: gh_inv_def grpc_start_def)
  ultimately show ?thesis unfolding gh_inv_def by blast
qed

lemma grpc_runs:
  fixes h :: "'p grpc_handler" and r :: "'p grpc_request" and rs :: "'p grpc_request list"
  shows "polite_onDone h i m s \<Longrightarrow> gh_inv R (s\<lparr>gh_answers := gh_answers s @ [(i, code_name h, m)]\<rparr>) \<Longrightarrow>
      \<exists>s'. grpc_onDone h i m s = Some s' \<and> gh_inv R s' \<and> grows s s'"
    and "polite_doReq r s \<Longrightarrow> gh_inv R s \<Longrightarrow> \<exists>s'. grpc_doReq r s = Some s' \<and> gh_inv R s' \<and> grows s s'"
    and "polite_doReqs rs s \<Longrightarrow> gh_inv R s \<Longrightarrow> \<exists>s'. grpc_doReqs rs s = Some s' \<and> gh_inv R s' \<and> grows s s'"
proof (induction h i m s and r s and rs s rule: grpc_onDone_grpc_doReq_grpc_doReqs.induct)
  case (1 n rs i m s)
  then show ?case by (simp add: grows_def)
next
  case (2 i h ok p s)
  let ?s = "s\<lparr>gh_onDone := (gh_onDone s)(i := Some h), gh_requests := gh_requests s @ [(i, code_name h)]\<rparr>"
  have i: "\<forall>t. gh_events s t \<noteq> Some i"
  proof (cases ok)
    case True
    with 2(2) have "\<not> gh_context s i" by simp
    with 2(3) show ?thesis unfolding gh_inv_def by blast
  qed (use 2(2) in simp)
  show ?case
  proof (cases ok)
    case True
    then have "grpc_doReq (Req i h ok p) s = Some (grpc_start i ?s)" using 2(2) by simp
    moreover have "grows s (grpc_start i ?s)" by (simp add: grows_def grpc_start_def)
    ultimately show ?thesis using gh_inv_start [OF 2(3) i] by blast
  next
    case False
    have "polite_onDone h i ''stub is nullptr'' ?s" using 2(2) False by simp
    moreover have "gh_inv R (?s\<lparr>gh_answers := gh_answers ?s @ [(i, code_name h, ''stub is nullptr'')]\<rparr>)"
      using gh_inv_answer_now [OF 2(3) i, of h "''stub is nullptr''"] by simp
    ultimately obtain s' where "grpc_onDone h i ''stub is nullptr'' ?s = Some s'" "gh_inv R s'" "grows ?s s'"
      using 2(1) [OF refl False] by blast
    then show ?thesis using False by (auto simp: grows_def)
  qed
next
  case (4 r rs s)
  from 4(1) 4(3,4) obtain s1 where 1: "grpc_doReq r s = Some s1" "gh_inv R s1" "grows s s1" by auto
  with 4(3) have "polite_doReqs rs s1" by simp
  from 4(2) [OF 1(1) this 1(2)] 1 show ?case by (auto intro: grows_trans)
qed simp

lemma grpc_proceeds:
  assumes "gh_inv {} s" "t \<in> set (gh_pending s)" "polite_step (Back t ok status) s"
  shows "\<exists>s'. gh_step (Back t ok status) s = Some s' \<and> gh_inv {} s'"
proof -
  from assms(1,2) obtain i where i: "gh_events s t = Some i" "gh_event s i = Some t" unfolding gh_inv_def by fastforce
  from assms(1) i(1) obtain h where h: "gh_onDone s i = Some h" unfolding gh_inv_def by blast
  let ?m = "if \<not> ok \<or> \<not> status then ''Grpc Client failed'' else ''''"
  let ?s = "s\<lparr>gh_pending := remove1 t (gh_pending s)\<rparr>"
  let ?s1 = "?s\<lparr>gh_answers := gh_answers ?s @ [(i, code_name h, ?m)]\<rparr>"
  have p: "polite_onDone h i ?m ?s" using assms(2,3) i h by (simp add: polite_Proceed_def)
  have inv: "gh_inv {t} ?s1"
  proof -
    have a: "gh_asked ?s1 = gh_asked s" by (auto simp: gh_asked_def fun_eq_iff split: option.splits)
    have "gh_asked s t = (i, code_name h)" using i h by (simp add: gh_asked_def)
    moreover from split_list [OF assms(2)] obtain xs ys where xy: "gh_pending s = xs @ t # ys" by blast
    moreover from xy assms(1) have nt: "t \<notin> set xs" "t \<notin> set ys" by (auto simp: gh_inv_def)
    ultimately have "mset (map (\<lambda>(i, n, m). (i, n)) (gh_answers ?s1)) + mset (map (gh_asked ?s1) (gh_pending ?s1)) = mset (gh_requests ?s1)"
      using assms(1) unfolding a by (simp add: gh_inv_def remove1_append)
    moreover have "set (gh_pending ?s1) \<union> {t} = set (gh_pending s)" "t \<notin> set (gh_pending ?s1)" using nt xy by (auto simp: remove1_append)
    ultimately show ?thesis using assms(1) unfolding gh_inv_def by simp
  qed
  from grpc_runs(1) [OF p inv] obtain s' where
    s': "grpc_onDone h i ?m ?s = Some s'" "gh_inv {t} s'" "grows ?s s'" by blast
  have "t < gh_next s" using assms(1,2) by (auto simp: gh_inv_def)
  with s'(3) i(1) have "gh_events s' t = Some i" by (simp add: grows_def)
  with s'(2) have e: "gh_event s' i = Some t" unfolding gh_inv_def by blast
  have nt: "t \<notin> set (gh_pending s')" using s'(2) by (simp add: gh_inv_def)
  let ?t = "s'\<lparr>gh_events := (gh_events s')(t := None)\<rparr>"
  have "gh_step (Back t ok status) s = Some ?t"
    using assms(2) i h s'(1) e by (simp add: grpc_Proceed_def)
  moreover have "gh_inv {} ?t"
  proof -
    have m: "map (gh_asked ?t) (gh_pending s') = map (gh_asked s') (gh_pending s')"
      using nt by (intro map_cong refl) (auto simp: gh_asked_def split: option.split)
    have f: "gh_answers ?t = gh_answers s'" "gh_pending ?t = gh_pending s'" "gh_requests ?t = gh_requests s'" by simp_all
    have "mset (map (\<lambda>(i, n, m). (i, n)) (gh_answers ?t)) + mset (map (gh_asked ?t) (gh_pending ?t)) = mset (gh_requests ?t)"
      using s'(2) unfolding f m gh_inv_def by blast
    moreover have "distinct (gh_pending ?t) \<and> (\<forall>u. gh_events ?t u \<noteq> None \<longleftrightarrow> u \<in> set (gh_pending ?t) \<union> {})"
      "\<forall>u\<in>set (gh_pending ?t) \<union> {}. u < gh_next ?t"
      "\<forall>u j. gh_events ?t u = Some j \<longrightarrow> gh_event ?t j = Some u \<and> gh_onDone ?t j \<noteq> None \<and> gh_context ?t j"
      using s'(2) nt by (auto simp: gh_inv_def)
    ultimately show ?thesis unfolding gh_inv_def by blast
  qed
  ultimately show ?thesis by blast
qed

lemma gh_steps_inv:
  assumes "polite xs s" "gh_inv {} s"
  shows "\<exists>s'. gh_steps xs s = Some s' \<and> gh_inv {} s'"
  using assms
proof (induction xs arbitrary: s)
  case (Cons x xs)
  have "\<exists>s'. gh_step x s = Some s' \<and> gh_inv {} s'"
  proof (cases x)
    case (Ask r)
    with Cons.prems grpc_runs(2) [of r s "{}"] show ?thesis by auto
  next
    case (Back t ok status)
    show ?thesis
    proof (cases "t \<in> set (gh_pending s)")
      case True
      with Back Cons.prems grpc_proceeds [of s t ok status] show ?thesis by (auto simp del: gh_step.simps polite_step.simps)
    qed (use Back Cons.prems in simp)
  qed
  with Cons show ?case by auto
qed simp

lemma gh_inv_new: "gh_inv {} grpc_clients_new"
  by (simp add: gh_inv_def grpc_clients_new_def)

section \<open>Properties\<close>

text \<open>
  C32.  Exactly once, with nested requests.  Handlers make any requests, as long as each client carries one call, the first
  of its requests for which there is a stub, and a client whose call is under way or whose handler is
  running for it is not asked without a stub; then nothing crashes, and the requests
  made are, with multiplicity, those whose own handler has run and those whose call is under way; the events that
  exist are those of the calls under way, each of another client.
\<close>

theorem GrpcClient_nested_answers_once:
  assumes "polite xs grpc_clients_new"
  shows "\<exists>s. gh_steps xs grpc_clients_new = Some s \<and> distinct (gh_pending s) \<and>
    (\<forall>t. gh_events s t \<noteq> None \<longleftrightarrow> t \<in> set (gh_pending s)) \<and> (\<forall>t u i. gh_events s t = Some i \<and> gh_events s u = Some i \<longrightarrow> t = u) \<and>
    mset (gh_requests s) = mset (map (\<lambda>(i, n, m). (i, n)) (gh_answers s)) +
      mset (map (\<lambda>t. case gh_events s t of Some i \<Rightarrow> (i, code_name (the (gh_onDone s i)))) (gh_pending s))"
proof -
  from gh_steps_inv [OF assms gh_inv_new] obtain s where s: "gh_steps xs grpc_clients_new = Some s" "gh_inv {} s" by blast
  have "gh_asked s t = (case gh_events s t of Some i \<Rightarrow> (i, code_name (the (gh_onDone s i))))" if "t \<in> set (gh_pending s)" for t
  proof -
    from s(2) that obtain i where i: "gh_events s t = Some i" unfolding gh_inv_def by fastforce
    with s(2) obtain h where "gh_onDone s i = Some h" unfolding gh_inv_def by blast
    with i show ?thesis by (simp add: gh_asked_def)
  qed
  then have m: "map (gh_asked s) (gh_pending s) = map (\<lambda>t. case gh_events s t of Some i \<Rightarrow> (i, code_name (the (gh_onDone s i)))) (gh_pending s)"
    by (intro map_cong refl)
  have "distinct (gh_pending s)" "\<forall>t. gh_events s t \<noteq> None \<longleftrightarrow> t \<in> set (gh_pending s)"
    "mset (gh_requests s) = mset (map (\<lambda>(i, n, m). (i, n)) (gh_answers s)) + mset (map (gh_asked s) (gh_pending s))"
    using s(2) unfolding gh_inv_def by simp_all
  moreover have "t = u" if "gh_events s t = Some i \<and> gh_events s u = Some i" for t u i
    using s(2) that unfolding gh_inv_def by (metis option.inject)
  ultimately show ?thesis using s(1) unfolding m by blast
qed

text \<open>A handler that asks another client, which has no stub, so that its handler tries it again, with one; and then a third.\<close>

theorem GrpcClient_nested_answers_once_witness:
  "\<exists>s. gh_steps [Ask (Req 0 (Code 10 [Req 1 (Code 11 [Req 1 (Code 12 []) True (Some ())]) False None]) True (Some ())),
      Back 0 True True, Ask (Req 2 (Code 13 []) True (Some ()))] grpc_clients_new = Some s \<and>
    mset (map (\<lambda>(i, n, m). (i, n)) (gh_answers s)) = {#(0, 10), (1, 11)#} \<and> length (gh_pending s) = 2"
proof -
  let ?xs = "[Ask (Req 0 (Code 10 [Req 1 (Code 11 [Req 1 (Code 12 []) True (Some ())]) False None]) True (Some ())),
      Back 0 True True, Ask (Req 2 (Code 13 []) True (Some ()))]"
  have "polite ?xs grpc_clients_new"
    by (simp add: polite_Proceed_def grpc_Proceed_def grpc_start_def grpc_clients_new_def)
  from GrpcClient_nested_answers_once [OF this] obtain s where s: "gh_steps ?xs grpc_clients_new = Some s" by blast
  then show ?thesis by (auto simp: grpc_Proceed_def grpc_start_def grpc_clients_new_def)
qed

text \<open>
  A client whose request has been answered cannot make another one, neither later nor in the handler of its answer: its
  context has had its call.
\<close>

theorem GrpcClient_reuse:
  "gh_steps [Ask (Req i (Code n []) True (Some p)), Back 0 ok status, Ask (Req i h True (Some q))] grpc_clients_new = None"
  "gh_steps [Ask (Req i (Code n [Req i h True (Some q)]) True (Some p)), Back 0 ok status] grpc_clients_new = None"
  by (simp_all add: grpc_Proceed_def grpc_start_def grpc_clients_new_def)

text \<open>
  A request that finds no stub, made while the client's call is under way, replaces the handler: the answer of the call goes to the
  wrong one.
\<close>

theorem GrpcClient_handler_replaced:
  "\<exists>s. gh_steps [Ask (Req i (Code 10 []) True (Some p)), Ask (Req i (Code 11 []) False q), Back 0 True True] grpc_clients_new = Some s \<and>
    gh_answers s = [(i, 11, ''stub is nullptr''), (i, 11, '''')]"
  by (simp add: grpc_Proceed_def grpc_start_def grpc_clients_new_def)

text \<open>
  With handlers that make no request this is the system of \<open>Grpc_Client\<close>: the same events, members, calls and
  answers, or a crash in both.
\<close>

fun flat :: "'p client_input \<Rightarrow> 'p gh_input" where
  "flat (Request i h stub) = Ask (Req i (Code h []) (fst stub) (snd stub))"
| "flat (Returned t ok status) = Back t ok status"

definition gh_forget :: "'p grpc_clients \<Rightarrow> client_sys" where
  "gh_forget s = \<lparr>gr_events = gh_events s, gr_next = gh_next s, gr_event = gh_event s,
     gr_onDone = (\<lambda>i. map_option code_name (gh_onDone s i)), gr_context = gh_context s, gr_pending = gh_pending s, gr_answers = gh_answers s\<rparr>"

definition leaf_handlers :: "'p grpc_clients \<Rightarrow> bool" where
  "leaf_handlers s \<longleftrightarrow> (\<forall>i h. gh_onDone s i = Some h \<longrightarrow> h = Code (code_name h) [])"

lemma flat_step:
  assumes "leaf_handlers s"
  shows "client_step x (gh_forget s) = map_option gh_forget (gh_step (flat x) s) \<and>
    (\<forall>s'. gh_step (flat x) s = Some s' \<longrightarrow> leaf_handlers s')"
proof (cases x)
  case (Request i h stub)
  obtain ok p where stub: "stub = (ok, p)" by (cases stub)
  have f: "(\<lambda>j. map_option code_name (((gh_onDone s)(i \<mapsto> Code h [])) j)) = (\<lambda>j. map_option code_name (gh_onDone s j))(i \<mapsto> h)" by auto
  show ?thesis
    using assms by (cases ok; cases p) (auto simp: Request stub gh_forget_def client_defs grpc_start_def leaf_handlers_def f Let_def)
next
  case (Returned t ok status)
  show ?thesis
  proof (cases "t \<in> set (gh_pending s) \<and> gh_events s t \<noteq> None \<and> gh_onDone s (the (gh_events s t)) \<noteq> None")
    case True
    then obtain i h where i: "t \<in> set (gh_pending s)" "gh_events s t = Some i" "gh_onDone s i = Some h" by auto
    with assms have "h = Code (code_name h) []" by (simp add: leaf_handlers_def)
    then obtain n where "h = Code n []" by metis
    with i assms show ?thesis
      by (cases "gh_event s i") (auto simp: Returned gh_forget_def client_defs grpc_Proceed_def leaf_handlers_def)
  qed (use assms in \<open>auto simp: Returned gh_forget_def client_defs grpc_Proceed_def split: option.splits\<close>)
qed

theorem Grpc_handlers_agree:
  "client_run xs = map_option gh_forget (gh_steps (map flat xs) grpc_clients_new)"
proof -
  have "fold (\<lambda>x r. Option.bind r (client_step x)) xs (Some (gh_forget s)) = map_option gh_forget (gh_steps (map flat xs) s)"
    if "leaf_handlers s" for s
    using that
  proof (induction xs arbitrary: s)
    case (Cons x xs)
    have none: "fold (\<lambda>x r. Option.bind r (client_step x)) ys None = None" for ys by (induction ys) simp_all
    from flat_step [OF Cons.prems, of x] Cons.IH none show ?case
      by (cases "gh_step (flat x) s") (simp_all del: client_step.simps gh_step.simps)
  qed simp
  moreover have "gh_forget grpc_clients_new = client_sys_new" "leaf_handlers grpc_clients_new"
    by (simp_all add: gh_forget_def grpc_clients_new_def client_sys_new_def leaf_handlers_def)
  ultimately show ?thesis unfolding client_run_def by metis
qed

end
