(* ===== verification/Service_Path.thy ===== *)
theory Service_Path
  imports Request_Path Service_Clients
begin

text \<open>
  Service calls that answer from their own requests: the calls of \<open>Grpc_Service\<close>, the requests of
  \<open>Request_Path\<close> over the channel, its pools and their connections, and the closures of
  \<open>Service_Clients\<close> between them.  The message handler of a call makes a request, the handler of each answer the
  next one, and the last of them calls \<^verbatim>\<open>Finish\<close>.  A request that fails on the spot is answered inside
  \<^verbatim>\<open>DoReq\<close>, so handlers nest, and a handler runs before its client goes back to the pool, as
  \<^verbatim>\<open>BaseClient::Finish\<close> has it.  A turn is one tag of the completion queue or one event of a request, with all the
  handlers it runs, which hold the call's lock.
\<close>

section \<open>The system\<close>

text \<open>
  \<^verbatim>\<open>doReq\<close> up to the end of its handler, and what \<^verbatim>\<open>Finish\<close> does after the handler; the request is
  the last of the list.
\<close>

definition BaseClient_take :: "nat \<Rightarrow> nat \<Rightarrow> errmsg \<Rightarrow> request_sys \<Rightarrow> request_sys option" where
  "BaseClient_take r ms pushErr s =
     (let c0 = BaseClient_SetTimeoutMs ms BaseClient_new;
          add = (\<lambda>q s. s\<lparr>rs_reqs := rs_reqs s @ [q]\<rparr>)
      in case ClientChannel_GetClientPool r (rs_channel s) of
        None \<Rightarrow> None
      | Some (ok, pool) \<Rightarrow>
          if \<not> ok then Some (add (BaseClient_doReq False False pushErr c0, None) s)
          else (case pool of
            None \<Rightarrow> None
          | Some k \<Rightarrow>
              (case ClientPool_Get (rs_pools s k) of
                 (p, None) \<Rightarrow> Some (add (BaseClient_doReq True False pushErr c0, None) s)
               | (p, Some a) \<Rightarrow>
                   if conn p a = None then None
                   else Some (add (BaseClient_doReq True True pushErr c0, Some (k, a)) (set_pool k p s)))))"

definition BaseClient_back :: "nat \<Rightarrow> nat \<Rightarrow> request_sys \<Rightarrow> request_sys option" where
  "BaseClient_back i new s =
     (case rs_reqs s ! i of
        (c, None) \<Rightarrow> Some s
      | (c, Some (k, a)) \<Rightarrow>
          (case last (bc_calls c) of
             PoolInsert m \<Rightarrow> map_option (\<lambda>p. set_pool k p s) (ClientPool_Insert a m new (rs_pools s k))
           | _ \<Rightarrow> None))"

definition waiting :: "request_sys \<Rightarrow> nat \<Rightarrow> bool" where
  "waiting s i \<longleftrightarrow> i < length (rs_reqs s) \<and> snd (rs_reqs s ! i) \<noteq> None \<and> \<not> bc_finished (fst (rs_reqs s ! i))"

definition request_stepped :: "nat \<Rightarrow> base_event \<Rightarrow> request_sys \<Rightarrow> request_sys" where
  "request_stepped i e s =
     s\<lparr>rs_reqs := (rs_reqs s)[i := (base_step e (fst (rs_reqs s ! i)), snd (rs_reqs s ! i))]\<rparr>"

text \<open>
  \<open>sp_clients\<close> has for every request the client that made it, whose weak pointer is its call, and how many requests
  its handler still means to make.
\<close>

record service_sys =
  sp_calls :: grpc_sys
  sp_reqs :: request_sys
  sp_clients :: "(nat with_service \<times> nat) list"

text \<open>
  A handler of call \<open>t\<close> that still has \<open>n\<close> requests to make, and the handlers that run inside it.  What each request draws
  from outside, its random number, time-out, push error and the address of a new client, is
  \<open>env\<close>.  The result tells whether \<^verbatim>\<open>Finish\<close> was called.
\<close>

type_synonym request_env = "nat \<Rightarrow> nat \<times> nat \<times> errmsg \<times> nat"

definition service_client :: "nat \<Rightarrow> nat \<Rightarrow> service_sys \<Rightarrow> nat with_service \<times> nat" where
  "service_client t n s =
     (WithService_SetServiceEvent (GrpcServiceEvent_myself (sp_calls s) t)
        \<lparr>ws_client = length (rs_reqs (sp_reqs s)), ws_event = None\<rparr>, n)"

fun service_handler :: "request_env \<Rightarrow> nat \<Rightarrow> nat \<Rightarrow> service_sys \<Rightarrow> (service_sys \<times> bool) option" where
  "service_handler env t 0 s = Some (s, True)"
| "service_handler env t (Suc n) s =
     (case env n of (r, ms, pushErr, new) \<Rightarrow>
        Option.bind (BaseClient_take r ms pushErr (sp_reqs s)) (\<lambda>q.
          let i = length (rs_reqs (sp_reqs s));
              w = service_client t n s;
              s1 = s\<lparr>sp_reqs := q, sp_clients := sp_clients s @ [w]\<rparr>
          in if waiting q i then Some (s1, False)
             else Option.bind
               (case WithService_GetServiceEvent (sp_calls s1) (fst w) of
                  None \<Rightarrow> Some (s1, False) | Some u \<Rightarrow> service_handler env u n s1)
               (\<lambda>(s2, fin). map_option (\<lambda>q. (s2\<lparr>sp_reqs := q\<rparr>, fin)) (BaseClient_back i new (sp_reqs s2)))))"

text \<open>
  The completion queue returns a tag: a new call runs its message handler, which means to make
  \<open>n\<close> requests.  While it runs only \<^verbatim>\<open>Finish\<close> touches the calls, so \<open>GrpcLooper_next\<close> takes its outcome.
\<close>

definition service_return :: "nat \<Rightarrow> bool \<Rightarrow> nat \<Rightarrow> request_env \<Rightarrow> service_sys \<Rightarrow> service_sys option" where
  "service_return t ok n env s =
     (if t \<ge> length (sp_calls s) \<or> g_pending (sp_calls s ! t) = 0 then Some s
      else Option.bind
        (if g_alive (sp_calls s ! t) \<and> g_service (sp_calls s ! t) = PROCESS then service_handler env t n s else Some (s, False))
        (\<lambda>(s1, fin). map_option (\<lambda>cs. s1\<lparr>sp_calls := cs\<rparr>)
           (GrpcLooper_next (\<lambda>_ _. if fin then 1 else 0) t ok (sp_calls s1))))"

text \<open>
  An event of request \<open>i\<close>.  If it finishes the request, the closure looks for its call, runs the handler if there is one,
  and the client goes back to its pool.
\<close>

definition service_event :: "nat \<Rightarrow> base_event \<Rightarrow> nat \<Rightarrow> request_env \<Rightarrow> service_sys \<Rightarrow> service_sys option" where
  "service_event i e new env s =
     (if i \<ge> length (rs_reqs (sp_reqs s)) \<or> snd (rs_reqs (sp_reqs s) ! i) = None then Some s
      else
        (let s1 = s\<lparr>sp_reqs := request_stepped i e (sp_reqs s)\<rparr>
         in if \<not> waiting (sp_reqs s) i \<or> waiting (sp_reqs s1) i then Some s1
            else case WithService_GetServiceEvent (sp_calls s1) (fst (sp_clients s1 ! i)) of
                None \<Rightarrow> map_option (\<lambda>q. s1\<lparr>sp_reqs := q\<rparr>) (BaseClient_back i new (sp_reqs s1))
              | Some t \<Rightarrow>
                  Option.bind (service_handler env t (snd (sp_clients s1 ! i)) s1) (\<lambda>(s2, fin).
                    map_option (\<lambda>q. s2\<lparr>sp_reqs := q, sp_calls := if fin then GrpcServiceEvent_Finish t (sp_calls s2) else sp_calls s2\<rparr>)
                      (BaseClient_back i new (sp_reqs s2)))))"

datatype service_op =
    SReturn nat bool nat request_env
  | SEvent nat base_event nat request_env
  | SPool nat pool_op
  | SNotify "nat maker" "string list"

fun service_do :: "service_op \<Rightarrow> service_sys \<Rightarrow> service_sys option" where
  "service_do (SReturn t ok n env) s = service_return t ok n env s"
| "service_do (SEvent i e new env) s = service_event i e new env s"
| "service_do (SPool k x) s = map_option (\<lambda>q. s\<lparr>sp_reqs := q\<rparr>) (request_do (QPool k x) (sp_reqs s))"
| "service_do (SNotify mk nodes) s = map_option (\<lambda>q. s\<lparr>sp_reqs := q\<rparr>) (request_do (QNotify mk nodes) (sp_reqs s))"

text \<open>
  What the environment respects: a channel names a pool, or none, and the addresses drawn are fresh
  when they are used.
\<close>

definition channel_names :: "nat \<Rightarrow> request_sys \<Rightarrow> bool" where
  "channel_names r s \<longleftrightarrow>
     ClientChannel_GetClientPool r (rs_channel s) \<in> {Some (False, None)} \<union> range (\<lambda>k. Some (True, Some k))"

definition fresh_after :: "nat \<Rightarrow> (service_sys \<times> bool) option \<Rightarrow> bool" where
  "fresh_after new x \<longleftrightarrow> (case x of None \<Rightarrow> True | Some (s, fin) \<Rightarrow> fresh new (sp_reqs s))"

fun handler_ok :: "request_env \<Rightarrow> nat \<Rightarrow> nat \<Rightarrow> service_sys \<Rightarrow> bool" where
  "handler_ok env t 0 s = True"
| "handler_ok env t (Suc n) s =
     (case env n of (r, ms, pushErr, new) \<Rightarrow> channel_names r (sp_reqs s) \<and>
        (case BaseClient_take r ms pushErr (sp_reqs s) of None \<Rightarrow> True | Some q \<Rightarrow>
          (let i = length (rs_reqs (sp_reqs s));
               s1 = s\<lparr>sp_reqs := q, sp_clients := sp_clients s @ [service_client t n s]\<rparr>
           in waiting q i \<or> handler_ok env t n s1 \<and> fresh_after new (service_handler env t n s1))))"

fun service_ok :: "service_sys \<Rightarrow> service_op \<Rightarrow> bool" where
  "service_ok s (SReturn t ok n env) = handler_ok env t n s"
| "service_ok s (SEvent i e new env) =
     (waiting (sp_reqs s) i \<longrightarrow>
       (let (w, n) = sp_clients s ! i; s1 = s\<lparr>sp_reqs := request_stepped i e (sp_reqs s)\<rparr>
        in waiting (sp_reqs s1) i \<or>
          (case ws_event w of None \<Rightarrow> True | Some t \<Rightarrow>
            handler_ok env t n s1 \<and> fresh_after new (service_handler env t n s1))))"
| "service_ok s (SPool k x) = request_ok (sp_reqs s) (QPool k x)"
| "service_ok s (SNotify mk nodes) = True"

inductive service_reach :: "service_sys \<Rightarrow> service_sys \<Rightarrow> bool" for s0 where
  start: "service_reach s0 s0"
| step: "service_reach s0 s \<Longrightarrow> service_ok s x \<Longrightarrow> service_do x s = Some s' \<Longrightarrow> service_reach s0 s'"

definition service_start :: "grpc_sys \<Rightarrow> request_sys \<Rightarrow> service_sys" where
  "service_start cs q = \<lparr>sp_calls = cs, sp_reqs = q, sp_clients = []\<rparr>"

text \<open>
  A run is a list of turns.  A turn is of call \<open>t\<close>, which is being processed, if it answers its request or returns its
  response; \<open>turns\<close> counts these.
\<close>

fun service_run :: "service_op list \<Rightarrow> service_sys \<Rightarrow> service_sys option" where
  "service_run [] s = Some s"
| "service_run (x # xs) s = (if service_ok s x then Option.bind (service_do x s) (service_run xs) else None)"

fun own_turn :: "nat \<Rightarrow> service_sys \<Rightarrow> service_op \<Rightarrow> bool" where
  "own_turn t s (SReturn u b n env) = (u = t \<and> 0 < g_pending (sp_calls s ! t))"
| "own_turn t s (SEvent i e new env) =
     (waiting (sp_reqs s) i \<and> ws_event (fst (sp_clients s ! i)) = Some t \<and> \<not> waiting (request_stepped i e (sp_reqs s)) i)"
| "own_turn t s _ = False"

fun turns :: "nat \<Rightarrow> service_op list \<Rightarrow> service_sys \<Rightarrow> nat" where
  "turns t [] s = 0"
| "turns t (x # xs) s =
     (if own_turn t s x then 1 else 0) + (case service_do x s of None \<Rightarrow> 0 | Some s' \<Rightarrow> turns t xs s')"

text \<open>The requests of a call that are under way.\<close>

definition requests_of :: "service_sys \<Rightarrow> nat \<Rightarrow> nat set" where
  "requests_of s t = {i. waiting (sp_reqs s) i \<and> ws_event (fst (sp_clients s ! i)) = Some t}"

section \<open>Requests that finish in several parts\<close>

text \<open>With an empty handler, both parts together are the request of \<open>Request_Path\<close>.\<close>

lemma take_back_request:
  "BaseClient_request r ms e new s =
     Option.bind (BaseClient_take r ms e s) (\<lambda>q.
       if waiting q (length (rs_reqs s)) then Some q else BaseClient_back (length (rs_reqs s)) new q)"
proof -
  let ?c0 = "BaseClient_SetTimeoutMs ms BaseClient_new"
  have c0: "\<not> bc_finished ?c0" by (simp add: BaseClient_SetTimeoutMs_def BaseClient_new_def)
  show ?thesis
    using c0 doReq_last [of e ms]
    by (auto simp: BaseClient_request_def BaseClient_take_def BaseClient_back_def BaseClient_Insert_def waiting_def Let_def
        set_pool_def option.map_comp o_def map_option_case split: option.splits prod.splits base_call.splits)
qed

lemma set_pool_same: "set_pool k (rs_pools s k) s = s"
  by (simp add: set_pool_def)

lemma stepped_back_event:
  assumes "i < length (rs_reqs s)" "snd (rs_reqs s ! i) \<noteq> None"
  shows "BaseClient_event i e new s =
     (if waiting s i \<and> \<not> waiting (request_stepped i e s) i then BaseClient_back i new (request_stepped i e s)
      else Some (request_stepped i e s))"
proof -
  obtain c k a where q: "rs_reqs s ! i = (c, Some (k, a))" using assms(2) by (cases "rs_reqs s ! i") auto
  have "\<exists>m. last (bc_calls (base_step e c)) = PoolInsert m" if "\<not> bc_finished c" "bc_finished (base_step e c)"
    using base_step_last that by blast
  moreover have "set_pool k p (s\<lparr>rs_reqs := x\<rparr>) = (set_pool k p s)\<lparr>rs_reqs := x\<rparr>" for p x by (simp add: set_pool_def)
  ultimately show ?thesis using q assms(1)
    by (auto simp: BaseClient_event_def BaseClient_back_def BaseClient_Insert_def waiting_def request_stepped_def Let_def
        set_pool_same)
qed

text \<open>
  \<open>D\<close> are the requests whose handler runs: finished, with their client not yet back in its pool.
\<close>

definition busy :: "nat set \<Rightarrow> request_sys \<Rightarrow> nat \<Rightarrow> nat \<Rightarrow> nat \<Rightarrow> bool" where
  "busy D s i k a \<longleftrightarrow> i < length (rs_reqs s) \<and> snd (rs_reqs s ! i) = Some (k, a) \<and> (\<not> bc_finished (fst (rs_reqs s ! i)) \<or> i \<in> D)"

definition busy_inv :: "nat set \<Rightarrow> request_sys \<Rightarrow> bool" where
  "busy_inv D s \<longleftrightarrow> (\<forall>k. settled {a. \<exists>i. busy D s i k a} (rs_pools s k)) \<and>
     (\<forall>i j k a. busy D s i k a \<longrightarrow> busy D s j k a \<longrightarrow> i = j)"

lemma busy_inv_none: "busy_inv {} s \<longleftrightarrow> request_inv s"
proof -
  have "busy {} s = holds s" by (simp add: busy_def holds_def fun_eq_iff)
  then show ?thesis by (simp add: busy_inv_def request_inv_def used_def)
qed

lemma busy_inv_waiting:
  assumes "waiting s i \<or> snd (rs_reqs s ! i) = None"
  shows "busy_inv (insert i D) s = busy_inv D s"
proof -
  have "busy (insert i D) s = busy D s" using assms by (auto simp: busy_def waiting_def fun_eq_iff)
  then show ?thesis by (simp add: busy_inv_def)
qed

text \<open>The pools keep their number of clients, and requests that are there stay as they are.\<close>

definition extends :: "request_sys \<Rightarrow> request_sys \<Rightarrow> bool" where
  "extends s s' \<longleftrightarrow> (\<forall>k. maxSize (rs_pools s' k) = maxSize (rs_pools s k)) \<and>
     length (rs_reqs s) \<le> length (rs_reqs s') \<and> (\<forall>i<length (rs_reqs s). rs_reqs s' ! i = rs_reqs s ! i)"

lemma extends_refl [simp]: "extends s s" by (simp add: extends_def)

lemma extends_trans: "extends s s1 \<Longrightarrow> extends s1 s2 \<Longrightarrow> extends s s2"
  by (auto simp: extends_def intro: less_le_trans)

lemma extends_waiting: "extends s s' \<Longrightarrow> i < length (rs_reqs s) \<Longrightarrow> waiting s' i = waiting s i"
  by (auto simp: extends_def waiting_def)

definition returning :: "request \<Rightarrow> bool" where
  "returning q \<longleftrightarrow> snd q = None \<or> bc_finished (fst q) \<and> (\<exists>m. last (bc_calls (fst q)) = PoolInsert m)"

lemma take_ok:
  assumes inv: "busy_inv D s" and D: "\<forall>i\<in>D. i < length (rs_reqs s)" and ch: "channel_names r s"
  shows "\<exists>q s'. BaseClient_take r ms e s = Some s' \<and> rs_reqs s' = rs_reqs s @ [q] \<and> Request_Path.answered q \<and>
    (waiting s' (length (rs_reqs s)) \<or> returning q) \<and>
    busy_inv (insert (length (rs_reqs s)) D) s' \<and> extends s s'"
proof -
  let ?c0 = "BaseClient_SetTimeoutMs ms BaseClient_new" and ?n = "length (rs_reqs s)"
  have none: "busy_inv (insert ?n D) (s\<lparr>rs_reqs := rs_reqs s @ [(c, None)]\<rparr>)" for c
  proof -
    have "busy (insert ?n D) (s\<lparr>rs_reqs := rs_reqs s @ [(c, None)]\<rparr>) = busy D s"
      using D by (auto simp: busy_def nth_append fun_eq_iff)
    with inv show ?thesis by (simp add: busy_inv_def)
  qed
  have ext: "extends s (s\<lparr>rs_reqs := rs_reqs s @ [x]\<rparr>)" for x by (simp add: extends_def nth_append)
  show ?thesis
  proof (cases "ClientChannel_GetClientPool r (rs_channel s) = Some (False, None)")
    case True
    with none ext returning_def answered_new(1) show ?thesis by (auto simp: BaseClient_take_def simp del: Request_Path.answered.simps)
  next
    case False
    with ch obtain k where k: "ClientChannel_GetClientPool r (rs_channel s) = Some (True, Some k)"
      by (auto simp: channel_names_def)
    obtain p oa where get: "ClientPool_Get (rs_pools s k) = (p, oa)" by (cases "ClientPool_Get (rs_pools s k)")
    show ?thesis
    proof (cases oa)
      case None
      with k get none ext returning_def answered_new(2) show ?thesis by (auto simp: BaseClient_take_def simp del: Request_Path.answered.simps)
    next
      case (Some a)
      let ?B = "\<lambda>k. {a. \<exists>i. busy D s i k a}"
      have st: "settled (?B k) (rs_pools s k)" using inv by (simp add: busy_inv_def)
      note g = settled_Get [OF st get [unfolded Some]]
      let ?c = "BaseClient_doReq True True e ?c0"
      let ?s = "(set_pool k p s)\<lparr>rs_reqs := rs_reqs s @ [(?c, Some (k, a))]\<rparr>"
      have s': "BaseClient_take r ms e s = Some ?s" using k get Some g(6) by (simp add: BaseClient_take_def)
      have b: "busy (insert ?n D) ?s i l x \<longleftrightarrow> busy D s i l x \<or> i = ?n \<and> l = k \<and> x = a" for i l x
        using D by (auto simp: busy_def nth_append)
      have "settled {x. \<exists>i. busy (insert ?n D) ?s i l x} (rs_pools ?s l)" for l
      proof -
        have "{x. \<exists>i. busy (insert ?n D) ?s i l x} = (if l = k then insert a (?B k) else ?B l)" by (auto simp: b)
        with g(1) inv show ?thesis by (simp add: busy_inv_def)
      qed
      moreover have "i = j" if "busy (insert ?n D) ?s i l x" "busy (insert ?n D) ?s j l x" for i j l x
        using that g(2) inv unfolding b busy_inv_def by blast
      ultimately have "busy_inv (insert ?n D) ?s" by (simp add: busy_inv_def)
      moreover have "extends s ?s" using g(3) by (simp add: extends_def nth_append)
      moreover have "waiting ?s ?n \<or> returning (?c, Some (k, a))"
        using doReq_last [of e ms] by (auto simp: waiting_def returning_def)
      ultimately show ?thesis using s' answered_new(3) by (auto simp del: Request_Path.answered.simps)
    qed
  qed
qed

lemma back_ok:
  assumes inv: "busy_inv (insert i D) s" and i: "i \<notin> D" "i < length (rs_reqs s)" and fr: "fresh new s"
    and q: "returning (rs_reqs s ! i)"
  shows "\<exists>s'. BaseClient_back i new s = Some s' \<and> rs_reqs s' = rs_reqs s \<and> busy_inv D s' \<and> extends s s'"
proof -
  obtain c oka where c: "rs_reqs s ! i = (c, oka)" by (cases "rs_reqs s ! i")
  show ?thesis
  proof (cases oka)
    case None
    with c inv busy_inv_waiting [of s i D] show ?thesis by (simp add: BaseClient_back_def)
  next
    case (Some ka)
    then obtain k a where ka: "oka = Some (k, a)" by (cases ka) auto
    with c q obtain m where f: "bc_finished c" and m: "last (bc_calls c) = PoolInsert m" by (auto simp: returning_def)
    let ?B = "\<lambda>D k. {a. \<exists>i. busy D s i k a}"
    have st: "settled (?B (insert i D) k) (rs_pools s k)" using inv by (simp add: busy_inv_def)
    have bi: "busy (insert i D) s i k a" using c ka i(2) by (simp add: busy_def)
    have bD: "busy D s j l b \<longleftrightarrow> busy (insert i D) s j l b \<and> j \<noteq> i" for j l b
      using c i f by (auto simp: busy_def)
    have one: "j = i" if "busy (insert i D) s j k a" for j using inv bi that unfolding busy_inv_def by blast
    have "new \<notin> allClients (rs_pools s k)" "conn (rs_pools s k) new = None" using fr by (simp_all add: fresh_def)
    from settled_Insert [OF st _ this, of a m] bi obtain p where
      p: "ClientPool_Insert a m new (rs_pools s k) = Some p" "settled (?B (insert i D) k - {a}) p" "maxSize p = maxSize (rs_pools s k)"
      by blast
    have "?B D l = (if l = k then ?B (insert i D) k - {a} else ?B (insert i D) l)" for l
      using one bi c ka by (auto simp: bD) (auto simp: busy_def)
    moreover have "busy D (set_pool k p s) = busy D s" by (simp add: busy_def fun_eq_iff)
    ultimately have "busy_inv D (set_pool k p s)" using p(2) inv by (simp add: busy_inv_def bD) blast
    moreover have "extends s (set_pool k p s)" using p(3) by (simp add: extends_def)
    ultimately show ?thesis using c ka m p(1) by (simp add: BaseClient_back_def)
  qed
qed

section \<open>A handler and what it causes\<close>

definition requests_ok :: "nat set \<Rightarrow> service_sys \<Rightarrow> bool" where
  "requests_ok D s \<longleftrightarrow> busy_inv D (sp_reqs s) \<and> (\<forall>i\<in>D. i < length (rs_reqs (sp_reqs s))) \<and>
     (\<forall>q\<in>set (rs_reqs (sp_reqs s)). Request_Path.answered q) \<and> length (sp_clients s) = length (rs_reqs (sp_reqs s))"

text \<open>
  From \<open>s\<close> to \<open>s'\<close> a handler of call \<open>t\<close> that had \<open>n\<close> requests to make has run: it has called \<^verbatim>\<open>Finish\<close>, or exactly one of its
  requests waits, with fewer to make after it.
\<close>

definition handler_ran :: "nat \<Rightarrow> nat \<Rightarrow> service_sys \<Rightarrow> service_sys \<Rightarrow> bool \<Rightarrow> bool" where
  "handler_ran t n s s' fin \<longleftrightarrow>
     (let N = length (rs_reqs (sp_reqs s)) in
      extends (sp_reqs s) (sp_reqs s') \<and> sp_calls s' = sp_calls s \<and> (\<forall>i<N. sp_clients s' ! i = sp_clients s ! i) \<and>
      (if fin then \<forall>i\<ge>N. \<not> waiting (sp_reqs s') i
       else \<exists>j\<ge>N. (\<forall>i\<ge>N. waiting (sp_reqs s') i \<longleftrightarrow> i = j) \<and> ws_event (fst (sp_clients s' ! j)) = Some t \<and>
         snd (sp_clients s' ! j) < n))"

lemma service_client_event:
  "g_alive (sp_calls s ! t) \<Longrightarrow> ws_event (fst (service_client t n s)) = Some t"
  "snd (service_client t n s) = n"
  by (simp_all add: service_client_def WithService_SetServiceEvent_def GrpcServiceEvent_myself_def)

lemma service_handler_ok:
  assumes "requests_ok D s" "g_alive (sp_calls s ! t)" "handler_ok env t n s"
  shows "\<exists>s' fin. service_handler env t n s = Some (s', fin) \<and> requests_ok D s' \<and> handler_ran t n s s' fin"
  using assms
proof (induction n arbitrary: s D)
  case 0
  have "\<not> waiting (sp_reqs s) i" if "length (rs_reqs (sp_reqs s)) \<le> i" for i using that by (simp add: waiting_def)
  with 0 show ?case by (intro exI [of _ s] exI [of _ True]) (simp add: handler_ran_def)
next
  case (Suc n)
  obtain r ms e new where env: "env n = (r, ms, e, new)" by (cases "env n")
  let ?N = "length (rs_reqs (sp_reqs s))"
  have inv: "busy_inv D (sp_reqs s)" "\<forall>i\<in>D. i < ?N" "\<forall>q\<in>set (rs_reqs (sp_reqs s)). Request_Path.answered q"
    "length (sp_clients s) = ?N" using Suc.prems(1) by (simp_all add: requests_ok_def)
  have ch: "channel_names r (sp_reqs s)" using Suc.prems(3) env by simp
  from take_ok [OF inv(1,2) ch, of ms e] obtain q sr where
    t: "BaseClient_take r ms e (sp_reqs s) = Some sr" "rs_reqs sr = rs_reqs (sp_reqs s) @ [q]" "Request_Path.answered q"
      "waiting sr ?N \<or> returning q" "busy_inv (insert ?N D) sr" "extends (sp_reqs s) sr" by blast
  define s1 where "s1 = s\<lparr>sp_reqs := sr, sp_clients := sp_clients s @ [service_client t n s]\<rparr>"
  have s1: "sp_reqs s1 = sr" "sp_calls s1 = sp_calls s" "sp_clients s1 = sp_clients s @ [service_client t n s]"
    by (simp_all add: s1_def)
  have ok1: "requests_ok (insert ?N D) s1"
    using t inv by (auto simp: requests_ok_def s1 simp del: Request_Path.answered.simps)
  have old: "\<not> waiting (sp_reqs s) i" if "?N \<le> i" for i using that by (simp add: waiting_def)
  show ?case
  proof (cases "waiting sr ?N")
    case True
    then have "service_handler env t (Suc n) s = Some (s1, False)" using t(1) env by (simp add: s1_def Let_def)
    moreover have "requests_ok D s1" using ok1 busy_inv_waiting [of sr ?N D] True inv(2) t(2) by (auto simp: requests_ok_def s1)
    moreover have "handler_ran t (Suc n) s s1 False"
    proof -
      have "waiting sr i \<longleftrightarrow> i = ?N" if "?N \<le> i" for i using that True t(2) by (auto simp: waiting_def)
      moreover have "ws_event (fst (sp_clients s1 ! ?N)) = Some t" "snd (sp_clients s1 ! ?N) = n"
        using inv(4) service_client_event(1) [OF Suc.prems(2), of n] service_client_event(2) by (simp_all add: s1 nth_append)
      ultimately show ?thesis using t(6) inv(4) by (auto simp: handler_ran_def s1 Let_def nth_append)
    qed
    ultimately show ?thesis by blast
  next
    case False
    have lock: "WithService_GetServiceEvent (sp_calls s1) (fst (service_client t n s)) = Some t"
      using service_client_event(1) [OF Suc.prems(2), of n] Suc.prems(2) by (simp add: WithService_GetServiceEvent_def s1)
    have h: "handler_ok env t n s1" "fresh_after new (service_handler env t n s1)"
      using Suc.prems(3) env t(1) False by (simp_all add: s1_def Let_def)
    have "g_alive (sp_calls s1 ! t)" using Suc.prems(2) s1 by simp
    from Suc.IH [OF ok1 this h(1)] obtain s2 fin where
      s2: "service_handler env t n s1 = Some (s2, fin)" "requests_ok (insert ?N D) s2" "handler_ran t n s1 s2 fin" by blast
    have ex: "extends sr (sp_reqs s2)" using s2(3) by (simp add: handler_ran_def s1 Let_def)
    then have N2: "?N < length (rs_reqs (sp_reqs s2))" "rs_reqs (sp_reqs s2) ! ?N = q"
      using t(2) by (auto simp: extends_def)
    have "returning (rs_reqs (sp_reqs s2) ! ?N)" using t(4) False N2(2) by simp
    moreover have "fresh new (sp_reqs s2)" using h(2) s2(1) by (simp add: fresh_after_def)
    ultimately obtain sb where sb: "BaseClient_back ?N new (sp_reqs s2) = Some sb" "rs_reqs sb = rs_reqs (sp_reqs s2)"
      "busy_inv D sb" "extends (sp_reqs s2) sb"
      using back_ok [of ?N D "sp_reqs s2" new] s2(2) N2(1) inv(2) by (auto simp: requests_ok_def)
    let ?s = "s2\<lparr>sp_reqs := sb\<rparr>"
    have "service_handler env t (Suc n) s = Some (?s, fin)"
      using t(1) env False lock s2(1) sb(1) by (simp add: s1_def Let_def)
    moreover have "requests_ok D ?s" using s2(2) sb(2,3) by (simp add: requests_ok_def)
    moreover have "handler_ran t (Suc n) s ?s fin"
    proof -
      have w: "waiting sb = waiting (sp_reqs s2)" using sb(2) by (simp add: waiting_def fun_eq_iff)
      have wN: "\<not> waiting (sp_reqs s2) ?N" using False extends_waiting [OF ex, of ?N] t(2) by simp
      have "extends (sp_reqs s) sb" using extends_trans [OF extends_trans [OF t(6) ex] sb(4)] .
      moreover have "sp_clients ?s ! i = sp_clients s ! i" if "i < ?N" for i
        using s2(3) that t(2) inv(4) by (simp add: handler_ran_def s1 Let_def nth_append)
      moreover have "if fin then \<forall>i\<ge>Suc ?N. \<not> waiting sb i
         else \<exists>j\<ge>Suc ?N. (\<forall>i\<ge>Suc ?N. waiting sb i \<longleftrightarrow> i = j) \<and> ws_event (fst (sp_clients s2 ! j)) = Some t \<and> snd (sp_clients s2 ! j) < n"
        using s2(3) t(2) by (simp add: handler_ran_def s1 Let_def w)
      moreover have "i \<ge> ?N \<longleftrightarrow> i = ?N \<or> i \<ge> Suc ?N" for i by auto
      ultimately show ?thesis using s2(3) wN w unfolding handler_ran_def Let_def
        by (simp add: s1) (metis Suc_leD Suc_leI le_neq_implies_less less_SucI)
    qed
    ultimately show ?thesis by blast
  qed
qed

lemma serves_simps [simp]:
  "requests_of (s\<lparr>sp_calls := cs\<rparr>) t = requests_of s t"
  "rs_reqs q = rs_reqs (sp_reqs s) \<Longrightarrow> requests_of (s\<lparr>sp_reqs := q\<rparr>) t = requests_of s t"
  "rs_reqs q = rs_reqs (sp_reqs s) \<Longrightarrow> requests_of (s\<lparr>sp_reqs := q, sp_calls := cs\<rparr>) t = requests_of s t"
  by (simp_all add: requests_of_def waiting_def)

lemma handler_ran_serves:
  assumes "handler_ran t n s s' fin"
  shows "if fin then requests_of s' u = requests_of s u
    else \<exists>j. requests_of s' u = (if u = t then insert j (requests_of s t) else requests_of s u) \<and> snd (sp_clients s' ! j) < n"
proof -
  let ?N = "length (rs_reqs (sp_reqs s))"
  have old: "i \<in> requests_of s' u \<longleftrightarrow> i \<in> requests_of s u" if "i < ?N" for i u
    using assms that extends_waiting by (auto simp: handler_ran_def requests_of_def Let_def)
  have lt: "i < ?N" if "i \<in> requests_of s u" for i u using that by (simp add: requests_of_def waiting_def)
  show ?thesis
  proof (cases fin)
    case True
    then have "\<not> waiting (sp_reqs s') i" if "?N \<le> i" for i using assms that by (simp add: handler_ran_def Let_def)
    then have "i \<in> requests_of s' u \<Longrightarrow> i < ?N" for i by (auto simp: requests_of_def not_le [symmetric])
    with old lt have "i \<in> requests_of s' u \<longleftrightarrow> i \<in> requests_of s u" for i by meson
    with True show ?thesis by auto
  next
    case False
    with assms obtain j where j: "?N \<le> j" "\<And>i. ?N \<le> i \<Longrightarrow> waiting (sp_reqs s') i \<longleftrightarrow> i = j"
      "ws_event (fst (sp_clients s' ! j)) = Some t" "snd (sp_clients s' ! j) < n"
      by (auto simp: handler_ran_def Let_def)
    have "i \<in> requests_of s' u \<longleftrightarrow> i \<in> (if u = t then insert j (requests_of s t) else requests_of s u)" for i
    proof (cases "i < ?N")
      case True
      with old [of i u] j(1) show ?thesis by auto
    next
      case False
      with lt j have "i \<in> requests_of s' u \<longleftrightarrow> i = j \<and> u = t" by (auto simp: requests_of_def)
      with False lt [of i u] j(1) show ?thesis by auto
    qed
    with j(4) False show ?thesis by auto
  qed
qed

lemma handler_ran_waiting:
  assumes "handler_ran t n s s' fin" "waiting (sp_reqs s') j"
  shows "j \<in> requests_of s' t \<or> waiting (sp_reqs s) j"
proof (cases "j < length (rs_reqs (sp_reqs s))")
  case True
  with assms extends_waiting show ?thesis by (auto simp: handler_ran_def Let_def)
next
  case False
  with assms show ?thesis by (auto simp: handler_ran_def Let_def requests_of_def split: if_splits)
qed

lemma stepped_simps [simp]:
  "rs_pools (request_stepped i e s) = rs_pools s"
  "rs_channel (request_stepped i e s) = rs_channel s"
  "length (rs_reqs (request_stepped i e s)) = length (rs_reqs s)"
  "j \<noteq> i \<Longrightarrow> rs_reqs (request_stepped i e s) ! j = rs_reqs s ! j"
  "i < length (rs_reqs s) \<Longrightarrow> rs_reqs (request_stepped i e s) ! i = (base_step e (fst (rs_reqs s ! i)), snd (rs_reqs s ! i))"
  by (simp_all add: request_stepped_def)

lemma stepped_waiting:
  "waiting (request_stepped i e s) j \<Longrightarrow> waiting s j"
  "j \<noteq> i \<Longrightarrow> waiting (request_stepped i e s) j = waiting s j"
  using base_step_finished [of "fst (rs_reqs s ! i)" e] by (cases "j = i"; auto simp: waiting_def)+

lemma stepped_returning:
  assumes "waiting s i" "\<not> waiting (request_stepped i e s) i"
  shows "returning (rs_reqs (request_stepped i e s) ! i)"
  using assms base_step_last [of "fst (rs_reqs s ! i)" e] by (auto simp: waiting_def returning_def)

lemma stepped_ok:
  assumes ok: "requests_ok {} s" and i: "i < length (rs_reqs (sp_reqs s))" "snd (rs_reqs (sp_reqs s) ! i) \<noteq> None"
  shows "requests_ok (if waiting (sp_reqs s) i \<and> \<not> waiting (request_stepped i e (sp_reqs s)) i then {i} else {})
    (s\<lparr>sp_reqs := request_stepped i e (sp_reqs s)\<rparr>)"
proof -
  let ?r = "sp_reqs s" and ?r1 = "request_stepped i e (sp_reqs s)"
  define D where "D = (if waiting ?r i \<and> \<not> waiting ?r1 i then {i} else {})"
  have "busy D ?r1 j k a = busy {} ?r j k a" for j k a
  proof (cases "j = i")
    case True
    with i base_step_finished [of "fst (rs_reqs ?r ! i)" e] show ?thesis by (auto simp: busy_def waiting_def D_def)
  qed (auto simp: busy_def D_def)
  then have "busy_inv D ?r1" using ok by (simp add: requests_ok_def busy_inv_def)
  moreover have "Request_Path.answered q" if q: "q \<in> set (rs_reqs ?r1)" for q
  proof -
    obtain c ka where c: "rs_reqs ?r ! i = (c, Some ka)" using i(2) by (cases "rs_reqs ?r ! i") auto
    have a: "Request_Path.answered x" if "x \<in> set (rs_reqs ?r)" for x using ok that by (simp add: requests_ok_def)
    have "Request_Path.answered (c, Some ka)" using a [OF nth_mem [OF i(1)]] c by simp
    then have "Request_Path.answered (base_step e c, Some ka)" by (rule answered_step)
    moreover have "q = (base_step e c, Some ka) \<or> q \<in> set (rs_reqs ?r)"
      using q c by (auto simp: request_stepped_def dest!: set_update_subset_insert [THEN subsetD])
    ultimately show ?thesis using a by blast
  qed
  ultimately show ?thesis using ok i(1) by (auto simp: requests_ok_def D_def simp del: Request_Path.answered.simps)
qed

section \<open>The calls\<close>

text \<open>
  A call, given the requests it has under way: it waits for its own, it has one request under way and no response, its
  response is under way, or it is gone.
\<close>

definition served :: "nat set \<Rightarrow> grpc_event \<Rightarrow> bool" where
  "served A e \<longleftrightarrow>
     (case g_server e of
        SPROCESS \<Rightarrow> g_service e = PROCESS \<and> g_pending e = 1 \<and> g_alive e \<and> A = {}
      | SPROCESSING \<Rightarrow> g_service e = FINISH \<and>
          (if A = {} then g_pending e = (if g_alive e then 1 else 0) else g_alive e \<and> g_pending e = 0 \<and> (\<exists>i. A = {i})))"

definition service_inv :: "nat set \<Rightarrow> service_sys \<Rightarrow> bool" where
  "service_inv S s \<longleftrightarrow> requests_ok {} s \<and>
     (\<forall>i. waiting (sp_reqs s) i \<longrightarrow> (\<exists>t<length (sp_calls s). i \<in> requests_of s t)) \<and>
     (\<forall>t<length (sp_calls s). served (requests_of s t) (sp_calls s ! t) \<and> g_of (sp_calls s ! t) \<in> S) \<and>
     (\<forall>v\<in>S. \<exists>t. listening v (sp_calls s) = {t})"

definition same_sizes :: "service_sys \<Rightarrow> service_sys \<Rightarrow> bool" where
  "same_sizes s s' \<longleftrightarrow> (\<forall>k. maxSize (rs_pools (sp_reqs s') k) = maxSize (rs_pools (sp_reqs s) k))"

text \<open>Changing one call that has been served, or nothing but the requests.\<close>

lemma service_inv_upd:
  assumes inv: "service_inv S s" and ok: "requests_ok {} s'" and t: "t < length (sp_calls s)"
    and c: "sp_calls s' = upd t f (sp_calls s)" "g_server (sp_calls s ! t) = SPROCESSING" "g_of (f (sp_calls s ! t)) = g_of (sp_calls s ! t)"
      "g_server (f (sp_calls s ! t)) = SPROCESSING" "served (requests_of s' t) (f (sp_calls s ! t))"
    and o: "\<And>u. u \<noteq> t \<Longrightarrow> requests_of s' u = requests_of s u"
    and w: "\<And>i. waiting (sp_reqs s') i \<Longrightarrow> \<exists>t<length (sp_calls s). i \<in> requests_of s' t"
  shows "service_inv S s'"
proof -
  have "t \<notin> listening v (sp_calls s)" for v using c(2) by (simp add: listening_def)
  then have "listening v (sp_calls s') = listening v (sp_calls s)" for v
    using listening_upd [of t "sp_calls s" f v] t c(1,4) by simp
  moreover have "served (requests_of s' u) (sp_calls s' ! u) \<and> g_of (sp_calls s' ! u) \<in> S" if "u < length (sp_calls s)" for u
    using inv that t c o [of u] by (cases "u = t") (auto simp: service_inv_def)
  ultimately show ?thesis using inv ok w c(1) by (simp add: service_inv_def)
qed

lemma service_inv_same:
  assumes "service_inv S s" "requests_ok {} s'" "sp_calls s' = sp_calls s" "\<And>u. requests_of s' u = requests_of s u"
    "waiting (sp_reqs s') = waiting (sp_reqs s)"
  shows "service_inv S s'"
  using assms by (simp add: service_inv_def)

lemma waiting_served:
  assumes inv: "service_inv S s" and i: "waiting (sp_reqs s) i"
  obtains t where "t < length (sp_calls s)" "ws_event (fst (sp_clients s ! i)) = Some t" "requests_of s t = {i}"
    "g_alive (sp_calls s ! t)" "g_server (sp_calls s ! t) = SPROCESSING" "g_service (sp_calls s ! t) = FINISH"
    "g_pending (sp_calls s ! t) = 0"
proof -
  from assms obtain t where t: "t < length (sp_calls s)" "i \<in> requests_of s t" unfolding service_inv_def by blast
  with inv have "served (requests_of s t) (sp_calls s ! t)" by (simp add: service_inv_def)
  with t have "requests_of s t = {i}" "g_alive (sp_calls s ! t)" "g_server (sp_calls s ! t) = SPROCESSING"
    "g_service (sp_calls s ! t) = FINISH" "g_pending (sp_calls s ! t) = 0"
    by (auto simp: served_def split: server_status.splits if_splits)
  with t that show ?thesis by (auto simp: requests_of_def)
qed

text \<open>The requests that a call has still to make, the one under way included.\<close>

definition requests_left :: "service_sys \<Rightarrow> nat \<Rightarrow> nat" where
  "requests_left s t = (if requests_of s t = {} then 0 else Suc (snd (sp_clients s ! the_elem (requests_of s t))))"

lemma requests_left_same:
  assumes "served (requests_of s u) c" "requests_of s' u = requests_of s u" "\<And>i. i \<in> requests_of s u \<Longrightarrow> sp_clients s' ! i = sp_clients s ! i"
  shows "requests_left s' u = requests_left s u"
  using assms by (auto simp: requests_left_def served_def split: server_status.splits if_splits)

text \<open>The turns that a call has left: its answers and the return of its response.\<close>

definition work :: "service_sys \<Rightarrow> nat \<Rightarrow> nat" where
  "work s t = (if g_alive (sp_calls s ! t) then Suc (requests_left s t) else 0)"

text \<open>An answer: the call asks for its response, or has one request under way again, with fewer to come.\<close>

lemma service_answer:
  assumes inv: "service_inv S s" and i: "waiting (sp_reqs s) i" "ws_event (fst (sp_clients s ! i)) = Some t"
    and fin: "\<not> waiting (request_stepped i e (sp_reqs s)) i" and ok: "service_ok s (SEvent i e new env)"
  shows "\<exists>s'. service_event i e new env s = Some s' \<and> service_inv S s' \<and> length (sp_calls s') = length (sp_calls s) \<and> same_sizes s s' \<and>
    (\<forall>u. u \<noteq> t \<longrightarrow> sp_calls s' ! u = sp_calls s ! u \<and> requests_of s' u = requests_of s u) \<and>
    (\<forall>u<length (sp_calls s). u \<noteq> t \<longrightarrow> requests_left s' u = requests_left s u) \<and>
    requests_left s' t < requests_left s t \<and> t < length (sp_calls s) \<and>
    g_server (sp_calls s' ! t) = SPROCESSING \<and> g_alive (sp_calls s ! t) \<and> g_alive (sp_calls s' ! t)"
proof -
  let ?r = "sp_reqs s" and ?r1 = "request_stepped i e (sp_reqs s)" and ?n = "snd (sp_clients s ! i)"
  let ?s1 = "s\<lparr>sp_reqs := ?r1\<rparr>"
  from i waiting_served [OF inv i(1)] have t: "t < length (sp_calls s)" "requests_of s t = {i}" "g_alive (sp_calls s ! t)"
    "g_server (sp_calls s ! t) = SPROCESSING" "g_service (sp_calls s ! t) = FINISH" "g_pending (sp_calls s ! t) = 0" by auto
  have iN: "i < length (rs_reqs ?r)" "snd (rs_reqs ?r ! i) \<noteq> None" using i(1) by (simp_all add: waiting_def)
  have "requests_ok {} s" using inv by (simp add: service_inv_def)
  from stepped_ok [OF this iN, of e] i(1) fin have ok1: "requests_ok {i} ?s1" by simp
  have w1: "waiting ?r1 j \<longleftrightarrow> waiting ?r j \<and> j \<noteq> i" for j 
    using stepped_waiting(1) [of i e ?r j] stepped_waiting(2) [of j i e ?r] fin by auto
  have s1: "requests_of ?s1 u = requests_of s u - {i}" for u by (auto simp: requests_of_def w1)
  have g: "handler_ok env t ?n ?s1" "fresh_after new (service_handler env t ?n ?s1)"
    using ok i fin by (simp_all add: Let_def split: prod.splits)
  from service_handler_ok [OF ok1 _ g(1)] t(3) obtain s2 b where
    s2: "service_handler env t ?n ?s1 = Some (s2, b)" "requests_ok {i} s2" "handler_ran t ?n ?s1 s2 b" by auto
  have ex: "extends ?r1 (sp_reqs s2)" "sp_calls s2 = sp_calls s" "\<And>j. j < length (rs_reqs ?r) \<Longrightarrow> sp_clients s2 ! j = sp_clients s ! j"
    using s2(3) by (simp_all add: handler_ran_def Let_def)
  have "returning (rs_reqs (sp_reqs s2) ! i)"
    using stepped_returning [OF i(1) fin] ex(1) iN(1) by (simp add: extends_def)
  moreover have "i < length (rs_reqs (sp_reqs s2))" using ex(1) iN(1) by (simp add: extends_def)
  ultimately obtain sb where sb: "BaseClient_back i new (sp_reqs s2) = Some sb" "rs_reqs sb = rs_reqs (sp_reqs s2)" "busy_inv {} sb" "extends (sp_reqs s2) sb"
    using back_ok [of i "{}" "sp_reqs s2" new] s2(1,2) g(2) by (auto simp: requests_ok_def fresh_after_def)
  let ?s = "s2\<lparr>sp_reqs := sb, sp_calls := if b then GrpcServiceEvent_Finish t (sp_calls s2) else sp_calls s2\<rparr>"
  have lock: "WithService_GetServiceEvent (sp_calls s) (fst (sp_clients s ! i)) = Some t"
    using i(2) t(3) by (simp add: WithService_GetServiceEvent_def)
  have ev: "service_event i e new env s = Some ?s"
    using iN i(1) fin lock s2(1) sb(1) by (auto simp: service_event_def Let_def)
  have sv: "requests_of ?s u = requests_of s2 u" for u using sb(2) by simp
  note hs = handler_ran_serves [OF s2(3)]
  have fresh_ok: "requests_ok {} ?s" using s2(2) sb(2,3) by (simp add: requests_ok_def)
  let ?f = "if b then (\<lambda>e. e\<lparr>g_service := FINISH, g_pending := g_pending e + 1\<rparr>) else (\<lambda>e. e)"
  have calls: "sp_calls ?s = upd t ?f (sp_calls s)"
    using t(1) ex(2) by (simp add: GrpcServiceEvent_Finish_def) (simp add: upd_def)
  have o: "requests_of ?s u = requests_of s u" if "u \<noteq> t" for u
  proof -
    have "i \<notin> requests_of s u" using that i(2) by (simp add: requests_of_def)
    with hs [of u] that sb(2) show ?thesis by (cases b) (auto simp: s1)
  qed
  have st: "if b then requests_of ?s t = {} else \<exists>j. requests_of ?s t = {j} \<and> snd (sp_clients s2 ! j) < ?n"
    using hs [of t] t(2) sb(2) by (auto simp: s1 split: if_splits)
  have "served (requests_of ?s t) (?f (sp_calls s ! t))" using st t by (auto simp: served_def split: if_splits)
  moreover have "\<exists>u<length (sp_calls s). j \<in> requests_of ?s u" if j: "waiting (sp_reqs ?s) j" for j
  proof -
    from j handler_ran_waiting [OF s2(3), of j] sb(2) have "j \<in> requests_of ?s t \<or> waiting ?r1 j"
      by (auto simp: sv waiting_def)
    moreover have ?thesis if "waiting ?r1 j"
    proof -
      from that have "waiting ?r j" "j \<noteq> i" by (simp_all add: w1)
      with inv obtain u where "u < length (sp_calls s)" "j \<in> requests_of s u" unfolding service_inv_def by blast
      with \<open>j \<noteq> i\<close> t(2) o [of u] show ?thesis by (cases "u = t") auto
    qed
    ultimately show ?thesis using t(1) by blast
  qed
  ultimately have "service_inv S ?s"
    using service_inv_upd [OF inv fresh_ok t(1) calls] t(4) o by (auto split: if_splits)
  moreover have "requests_left ?s u = requests_left s u" if u: "u \<noteq> t" "u < length (sp_calls s)" for u
  proof (rule requests_left_same [OF _ o [OF u(1)]])
    show "served (requests_of s u) (sp_calls s ! u)" using inv u(2) by (simp add: service_inv_def)
    show "sp_clients ?s ! j = sp_clients s ! j" if "j \<in> requests_of s u" for j
      using that ex(3) by (simp add: requests_of_def waiting_def)
  qed
  moreover have "requests_left ?s t < requests_left s t"
    using st t(2) by (auto simp: requests_left_def split: if_splits)
  moreover have "same_sizes s ?s" using ex(1) sb(4) by (simp add: same_sizes_def extends_def)
  ultimately show ?thesis using ev o calls t by (intro exI [of _ ?s]) (auto split: if_splits)
qed

text \<open>A tag: nothing, a new call that runs its message handler, or a response that has been sent.\<close>

lemma service_return_ok:
  assumes inv: "service_inv S s" and ok: "handler_ok env t n s"
  shows "\<exists>s'. service_return t b n env s = Some s' \<and> service_inv S s' \<and> length (sp_calls s) \<le> length (sp_calls s') \<and> same_sizes s s' \<and>
    (\<forall>u<length (sp_calls s). u \<noteq> t \<longrightarrow> sp_calls s' ! u = sp_calls s ! u \<and> requests_left s' u = requests_left s u) \<and>
    (t < length (sp_calls s) \<longrightarrow> g_server (sp_calls s ! t) = SPROCESSING \<longrightarrow>
       g_server (sp_calls s' ! t) = SPROCESSING \<and> (if g_pending (sp_calls s ! t) = 0 then s' = s else \<not> g_alive (sp_calls s' ! t))) \<and>
    (t < length (sp_calls s) \<longrightarrow> g_server (sp_calls s ! t) = SPROCESS \<longrightarrow>
       g_server (sp_calls s' ! t) = SPROCESSING \<and> g_pending (sp_calls s ! t) = 1 \<and> work s' t \<le> Suc n)"
proof (cases "t \<ge> length (sp_calls s) \<or> g_pending (sp_calls s ! t) = 0")
  case True
  have "served (requests_of s t) (sp_calls s ! t)" if "t < length (sp_calls s)" using inv that by (simp add: service_inv_def)
  with True inv show ?thesis by (auto simp: service_return_def same_sizes_def served_def)
next
  case False
  let ?cs = "sp_calls s"
  have t: "t < length ?cs" "0 < g_pending (?cs ! t)" using False by auto
  have sv: "served (requests_of s u) (?cs ! u)" "g_of (?cs ! u) \<in> S" if "u < length ?cs" for u using inv that by (simp_all add: service_inv_def)
  have rok: "requests_ok {} s" using inv by (simp add: service_inv_def)
  show ?thesis
  proof (cases "g_server (?cs ! t)")
    case SPROCESSING
    with sv(1) [OF t(1)] t(2) have c: "g_service (?cs ! t) = FINISH" "g_alive (?cs ! t)" "g_pending (?cs ! t) = 1" "requests_of s t = {}"
      by (auto simp: served_def split: if_splits)
    let ?f = "\<lambda>e. e\<lparr>g_pending := g_pending e - 1, g_alive := False\<rparr>"
    let ?s = "s\<lparr>sp_calls := upd t ?f ?cs\<rparr>"
    have s': "service_return t b n env s = Some ?s"
      using t c grpc_response [OF t(1) SPROCESSING c(1,2), of "\<lambda>_ _. 0" b] by (simp add: service_return_def)
    have same: "requests_of ?s u = requests_of s u" "requests_left ?s u = requests_left s u" for u by (simp_all add: requests_left_def)
    have "service_inv S ?s"
    proof (rule service_inv_upd [OF inv _ t(1), where f = ?f])
      show "requests_ok {} ?s" using rok by (simp add: requests_ok_def)
      show "served (requests_of ?s t) (?f (?cs ! t))" using c SPROCESSING same by (simp add: served_def)
      show "\<exists>t<length ?cs. i \<in> requests_of ?s t" if "waiting (sp_reqs ?s) i" for i
        using inv that by (simp add: service_inv_def)
    qed (use SPROCESSING same in simp_all)
    with s' t SPROCESSING same show ?thesis by (auto simp: same_sizes_def)
  next
    case SPROCESS
    with sv(1) [OF t(1)] have c: "g_service (?cs ! t) = PROCESS" "g_alive (?cs ! t)" "g_pending (?cs ! t) = 1" "requests_of s t = {}"
      by (auto simp: served_def)
    from service_handler_ok [OF rok c(2) ok] obtain s1 fin where
      s1: "service_handler env t n s = Some (s1, fin)" "requests_ok {} s1" "handler_ran t n s s1 fin" by blast
    have ex: "sp_calls s1 = ?cs" "\<And>i. i < length (rs_reqs (sp_reqs s)) \<Longrightarrow> sp_clients s1 ! i = sp_clients s ! i"
      using s1(3) by (simp_all add: handler_ran_def Let_def)
    let ?f = "\<lambda>e. e\<lparr>g_server := SPROCESSING, g_service := FINISH, g_pending := if fin then 1 else 0\<rparr>"
    let ?new = "GrpcServiceEvent_new (g_of (?cs ! t))"
    let ?s = "s1\<lparr>sp_calls := upd t ?f ?cs @ [?new]\<rparr>"
    have s': "service_return t b n env s = Some ?s"
      using t c s1(1) ex(1) grpc_request [OF t(1) SPROCESS c(1,2) refl, of "\<lambda>_ _. if fin then 1 else 0" b]
      by (simp add: service_return_def)
    have serve: "requests_of ?s u = requests_of s1 u" for u by simp
    note hs = handler_ran_serves [OF s1(3)]
    have o: "requests_of ?s u = requests_of s u" if "u \<noteq> t" for u using hs [of u] that by (auto simp: serve split: if_splits)
    have st: "if fin then requests_of ?s t = {} else \<exists>j. requests_of ?s t = {j}"
      using hs [of t] c(4) by (auto simp: serve split: if_splits)
    have "requests_of s (length ?cs) = {}"
      using inv unfolding service_inv_def requests_of_def by fastforce
    then have sn: "requests_of ?s (length ?cs) = {}" using o [of "length ?cs"] t(1) by simp
    have "served (requests_of ?s u) (sp_calls ?s ! u) \<and> g_of (sp_calls ?s ! u) \<in> S" if u: "u < length (sp_calls ?s)" for u
    proof -
      consider "u = t" | "u < length ?cs" "u \<noteq> t" | "u = length ?cs" using u by fastforce
      then show ?thesis
      proof cases
        case 1
        with st c t(1) sv(2) [OF t(1)] show ?thesis by (auto simp: served_def nth_append split: if_splits)
      next
        case 2
        with sv [OF 2(1)] o [of u] show ?thesis by (simp add: nth_append)
      next
        case 3
        with sn sv(2) [OF t(1)] show ?thesis by (simp add: nth_append served_def GrpcServiceEvent_new_def)
      qed
    qed
    moreover have "\<exists>x. listening v (sp_calls ?s) = {x}" if "v \<in> S" for v
    proof -
      from inv that obtain x where "listening v ?cs = {x}" unfolding service_inv_def by blast
      from listening_request [OF t(1) SPROCESS _ this, of ?f] show ?thesis by simp
    qed
    moreover have "\<exists>u<length (sp_calls ?s). i \<in> requests_of ?s u" if i: "waiting (sp_reqs ?s) i" for i
    proof -
      from i handler_ran_waiting [OF s1(3), of i] have "i \<in> requests_of ?s t \<or> waiting (sp_reqs s) i" by (auto simp: serve)
      moreover have ?thesis if "waiting (sp_reqs s) i"
      proof -
        from inv that obtain u where u: "u < length ?cs" "i \<in> requests_of s u" unfolding service_inv_def by blast
        with c(4) have "u \<noteq> t" by auto
        with o [of u] u show ?thesis by (intro exI [of _ u]) simp
      qed
      moreover have ?thesis if "i \<in> requests_of ?s t" using that t(1) by (intro exI [of _ t]) simp
      ultimately show ?thesis by blast
    qed
    moreover have "requests_ok {} ?s" using s1(2) by (simp add: requests_ok_def)
    ultimately have "service_inv S ?s" unfolding service_inv_def by blast
    moreover have "requests_left ?s u = requests_left s u" if u: "u < length ?cs" "u \<noteq> t" for u
    proof (rule requests_left_same [OF sv(1) [OF u(1)] o [OF u(2)]])
      show "sp_clients ?s ! j = sp_clients s ! j" if "j \<in> requests_of s u" for j using that ex(2) by (simp add: requests_of_def waiting_def)
    qed
    moreover have "same_sizes s ?s" using s1(3) by (simp add: same_sizes_def handler_ran_def extends_def Let_def)
    moreover have "work ?s t \<le> Suc n"
      using hs [of t] c(4) by (auto simp: work_def requests_left_def split: if_splits)
    ultimately show ?thesis using s' t(1) SPROCESS c(3) by (intro exI [of _ ?s]) (simp add: nth_append)
  qed
qed

text \<open>An event that does not finish its request, and what happens to the pools and the channel.\<close>

lemma requests_only:
  assumes inv: "service_inv S s" and ok: "requests_ok {} (s\<lparr>sp_reqs := q\<rparr>)" and w: "waiting q = waiting (sp_reqs s)"
    and m: "\<forall>k. maxSize (rs_pools q k) = maxSize (rs_pools (sp_reqs s) k)"
  shows "service_inv S (s\<lparr>sp_reqs := q\<rparr>)" "same_sizes s (s\<lparr>sp_reqs := q\<rparr>)" "work (s\<lparr>sp_reqs := q\<rparr>) = work s"
proof -
  have sv: "requests_of (s\<lparr>sp_reqs := q\<rparr>) = requests_of s" using w by (simp add: requests_of_def fun_eq_iff)
  show "service_inv S (s\<lparr>sp_reqs := q\<rparr>)" by (rule service_inv_same [OF inv ok]) (simp_all add: sv w)
  show "same_sizes s (s\<lparr>sp_reqs := q\<rparr>)" using m by (simp add: same_sizes_def)
  show "work (s\<lparr>sp_reqs := q\<rparr>) = work s" by (simp add: work_def requests_left_def sv fun_eq_iff)
qed

lemma service_event_quiet:
  assumes inv: "service_inv S s" and q: "\<not> waiting (sp_reqs s) i \<or> waiting (request_stepped i e (sp_reqs s)) i"
  shows "\<exists>s'. service_event i e new env s = Some s' \<and> service_inv S s' \<and> same_sizes s s' \<and> work s' = work s \<and> sp_calls s' = sp_calls s"
proof (cases "i \<ge> length (rs_reqs (sp_reqs s)) \<or> snd (rs_reqs (sp_reqs s) ! i) = None")
  case True
  with inv show ?thesis by (auto simp: service_event_def same_sizes_def)
next
  case False
  have "requests_ok {} s" using inv by (simp add: service_inv_def)
  from stepped_ok [OF this, of i e] q False if_not_P [of "waiting (sp_reqs s) i \<and> \<not> waiting (request_stepped i e (sp_reqs s)) i" "{i}" "{}"]
  have "requests_ok {} (s\<lparr>sp_reqs := request_stepped i e (sp_reqs s)\<rparr>)" by simp
  moreover have "waiting (request_stepped i e (sp_reqs s)) = waiting (sp_reqs s)"
  proof
    fix j
    show "waiting (request_stepped i e (sp_reqs s)) j = waiting (sp_reqs s) j"
      using q stepped_waiting(1) [of i e "sp_reqs s" j] stepped_waiting(2) [of j i e "sp_reqs s"] by (cases "j = i") auto
  qed
  moreover have "service_event i e new env s = Some (s\<lparr>sp_reqs := request_stepped i e (sp_reqs s)\<rparr>)"
    using q False by (auto simp: service_event_def Let_def)
  ultimately show ?thesis using requests_only [OF inv] by simp
qed

lemma service_pool_ok:
  assumes inv: "service_inv S s" and ok: "request_ok (sp_reqs s) x" and q: "request_do x (sp_reqs s) = Some q"
    and x: "case x of QPool k y \<Rightarrow> True | QNotify mk ns \<Rightarrow> True | _ \<Rightarrow> False"
  shows "service_inv S (s\<lparr>sp_reqs := q\<rparr>)" "same_sizes s (s\<lparr>sp_reqs := q\<rparr>)" "work (s\<lparr>sp_reqs := q\<rparr>) = work s"
proof -
  have r: "requests_ok {} s" using inv by (simp add: service_inv_def)
  then have "request_inv (sp_reqs s)" by (simp add: requests_ok_def busy_inv_none)
  note st = request_inv_step [OF this ok q]
  have rq: "rs_reqs q = rs_reqs (sp_reqs s)" using x q by (cases x) auto
  have "requests_ok {} (s\<lparr>sp_reqs := q\<rparr>)" using r st rq by (simp add: requests_ok_def busy_inv_none)
  moreover have "waiting q = waiting (sp_reqs s)" using rq by (simp add: waiting_def fun_eq_iff)
  ultimately show "service_inv S (s\<lparr>sp_reqs := q\<rparr>)" "same_sizes s (s\<lparr>sp_reqs := q\<rparr>)" "work (s\<lparr>sp_reqs := q\<rparr>) = work s"
    using requests_only [OF inv, of q] st by simp_all
qed

lemma service_step:
  assumes inv: "service_inv S s" and ok: "service_ok s x" and d: "service_do x s = Some s'"
  shows "service_inv S s' \<and> same_sizes s s'"
    and "t < length (sp_calls s) \<Longrightarrow> g_server (sp_calls s ! t) = SPROCESSING \<Longrightarrow>
      t < length (sp_calls s') \<and> g_server (sp_calls s' ! t) = SPROCESSING \<and> work s' t + (if own_turn t s x then 1 else 0) \<le> work s t"
proof -
  have "service_inv S s' \<and> same_sizes s s' \<and> (t < length (sp_calls s) \<and> g_server (sp_calls s ! t) = SPROCESSING \<longrightarrow>
      t < length (sp_calls s') \<and> g_server (sp_calls s' ! t) = SPROCESSING \<and> work s' t + (if own_turn t s x then 1 else 0) \<le> work s t)"
  proof (cases x)
    case (SReturn u b n env)
    with ok have h: "handler_ok env u n s" by simp
    show ?thesis
    proof (cases "u = t")
      case True
      have "served (requests_of s t) (sp_calls s ! t)" if "t < length (sp_calls s)" using inv that by (simp add: service_inv_def)
      with service_return_ok [OF inv h, of b] SReturn d True show ?thesis
        by (auto simp: work_def served_def split: if_splits)
    next
      case False
      with service_return_ok [OF inv h, of b] SReturn d show ?thesis by (auto simp: work_def)
    qed
  next
    case (SEvent i e new env)
    show ?thesis
    proof (cases "\<not> waiting (sp_reqs s) i \<or> waiting (request_stepped i e (sp_reqs s)) i")
      case True
      with service_event_quiet [OF inv True, of new env] SEvent d show ?thesis by auto
    next
      case False
      with waiting_served [OF inv] obtain u where u: "ws_event (fst (sp_clients s ! i)) = Some u" by metis
      have "service_ok s (SEvent i e new env)" using ok SEvent by simp
      with service_answer [OF inv _ u, of e new env] False SEvent d u show ?thesis
        by (cases "u = t") (auto simp: work_def)
    qed
  next
    case (SPool k y)
    with service_pool_ok [OF inv, of "QPool k y"] ok d show ?thesis by auto
  next
    case (SNotify mk ns)
    with service_pool_ok [OF inv, of "QNotify mk ns"] ok d show ?thesis by auto
  qed
  then show "service_inv S s' \<and> same_sizes s s'"
    and "t < length (sp_calls s) \<Longrightarrow> g_server (sp_calls s ! t) = SPROCESSING \<Longrightarrow>
      t < length (sp_calls s') \<and> g_server (sp_calls s' ! t) = SPROCESSING \<and> work s' t + (if own_turn t s x then 1 else 0) \<le> work s t"
    by blast+
qed

text \<open>A server that has started, on a channel whose pools have just been made.\<close>

lemma GrpcServer_start_Some: "GrpcServer_start handled vs s = Some g \<Longrightarrow> g = s @ map GrpcServiceEvent_new vs"
proof (induction vs arbitrary: s)
  case (Cons v vs)
  then have "GrpcServer_start handled vs (s @ [GrpcServiceEvent_new v]) = Some g"
    by (auto simp: GrpcService_CreateEvent_def GrpcServerEvent_Init_def split: if_splits)
  from Cons.IH [OF this] show ?case by simp
qed simp

lemma service_inv_start:
  assumes "\<forall>k. distinct (as k)" "distinct (map snd regs)" "\<forall>(name, v)\<in>set regs. handled v"
    and run: "GrpcServer_Run handled (GrpcServer_with saddr regs) = Some g"
  shows "service_inv {v. \<exists>name. map_of regs name = Some v} (service_start g (request_start as ch))"
proof -
  let ?s = "service_start g (request_start as ch)"
  have g: "g = map GrpcServiceEvent_new (map snd (sv_services (GrpcServer_with saddr regs)))"
    using GrpcServer_start_Some [OF run [unfolded GrpcServer_Run_def]] by simp
  from GrpcServer_Run_inv [OF assms(2,3), of saddr "\<lambda>_ _. 0" "[]"] run have
    i: "grpc_inv (\<lambda>_ _. 0) {v. \<exists>name. map_of regs name = Some v} [] g" by auto
  have w: "\<not> waiting (sp_reqs ?s) j" "requests_of ?s t = {}" for j t
    by (simp_all add: waiting_def requests_of_def service_start_def request_start_def)
  have "requests_ok {} ?s"
    using request_inv_start(1) [OF assms(1), of ch] by (simp add: requests_ok_def busy_inv_none service_start_def) (simp add: request_start_def)
  moreover have "served {} (g ! t)" if "t < length g" for t using that by (simp add: g served_def GrpcServiceEvent_new_def)
  ultimately show ?thesis using i w by (simp add: service_inv_def grpc_inv_def) (simp add: service_start_def)
qed

lemma service_reach_inv:
  assumes "service_inv S s0" "service_reach s0 s"
  shows "service_inv S s \<and> same_sizes s0 s"
  using assms(2)
proof (induction rule: service_reach.induct)
  case (step s x s')
  with service_step(1) [of S s x s'] show ?case by (simp add: same_sizes_def)
qed (use assms(1) in \<open>simp add: same_sizes_def\<close>)

lemma service_run_work:
  "service_inv S s \<Longrightarrow> service_run xs s = Some s' \<Longrightarrow> t < length (sp_calls s) \<Longrightarrow> g_server (sp_calls s ! t) = SPROCESSING \<Longrightarrow>
   turns t xs s + work s' t \<le> work s t \<and> service_inv S s' \<and> t < length (sp_calls s') \<and> g_server (sp_calls s' ! t) = SPROCESSING"
proof (induction xs arbitrary: s)
  case (Cons x xs)
  from Cons.prems(2) obtain s1 where s1: "service_ok s x" "service_do x s = Some s1" "service_run xs s1 = Some s'"
    by (auto simp: bind_eq_Some_conv split: if_splits)
  note st = service_step [OF Cons.prems(1) s1(1,2)]
  from Cons.IH [of s1] st(1) st(2) [OF Cons.prems(3,4)] s1 show ?case by auto
qed simp

text \<open>Tags that return and events of requests run through.\<close>

definition is_turn :: "service_op \<Rightarrow> bool" where
  "is_turn x \<longleftrightarrow> (case x of SReturn t ok n env \<Rightarrow> True | SEvent i e new env \<Rightarrow> True | _ \<Rightarrow> False)"

lemma service_turn_runs:
  assumes inv: "service_inv S s" and ok: "service_ok s x" and x: "is_turn x"
  shows "service_do x s \<noteq> None"
proof (cases x)
  case (SEvent i e new env)
  show ?thesis
  proof (cases "\<not> waiting (sp_reqs s) i \<or> waiting (request_stepped i e (sp_reqs s)) i")
    case True
    with service_event_quiet [OF inv True, of new env] SEvent show ?thesis by auto
  next
    case False
    with waiting_served [OF inv] obtain u where "ws_event (fst (sp_clients s ! i)) = Some u" by metis
    with service_answer [OF inv _ this, of e new env] False SEvent ok show ?thesis by auto
  qed
next
  case (SReturn t b n env)
  with service_return_ok [OF inv, of env t n b] ok show ?thesis by auto
qed (use x in \<open>simp_all add: is_turn_def\<close>)

section \<open>Properties\<close>

text \<open>
  C30.  Calls and their requests keep together.  In every reachable state, whatever tags, events, answers, failures and resolver
  reports have come, and however handlers have nested: every call waits for its own, or has exactly one request under way and
  no response, or has its response under way, or is gone with nothing under way; every request under way is of exactly
  one call, which still exists; each service has exactly one call that listens; each pool owns as many
  clients as at first, each offered, connecting, or held by exactly one request under way.  And the next tag that returns,
  whatever its handlers go on to request, and the next event of any request run through: no deleted call is called,
  no null pool, client or connection is dereferenced, and a finished request finds its call.
\<close>

theorem Service_calls_own_requests:
  assumes "\<forall>k. distinct (as k)" "distinct (map snd regs)" "\<forall>(name, v)\<in>set regs. handled v"
    and "GrpcServer_Run handled (GrpcServer_with saddr regs) = Some g"
    and "service_reach (service_start g (request_start as ch)) s"
  shows "(\<forall>t<length (sp_calls s). served (requests_of s t) (sp_calls s ! t)) \<and>
    (\<forall>i. waiting (sp_reqs s) i \<longrightarrow> (\<exists>!t. i \<in> requests_of s t) \<and> (\<exists>t<length (sp_calls s). i \<in> requests_of s t \<and> g_alive (sp_calls s ! t))) \<and>
    (\<forall>name v. map_of regs name = Some v \<longrightarrow> (\<exists>t. listening v (sp_calls s) = {t})) \<and>
    (\<forall>k. card (allClients (rs_pools (sp_reqs s) k)) = length (as k) \<and>
      (\<forall>a\<in>allClients (rs_pools (sp_reqs s) k). conn (rs_pools (sp_reqs s) k) a \<noteq> None \<and> a \<notin> clients (rs_pools (sp_reqs s) k) \<longrightarrow>
        (\<exists>!i. holds (sp_reqs s) i k a))) \<and>
    (\<forall>x. service_ok s x \<and> is_turn x \<longrightarrow> service_do x s \<noteq> None)"
proof -
  from service_reach_inv [OF service_inv_start [OF assms(1-4)] assms(5)]
  have inv: "service_inv {v. \<exists>name. map_of regs name = Some v} s" and m: "\<forall>k. maxSize (rs_pools (sp_reqs s) k) = length (as k)"
    using request_inv_start(2) [OF assms(1)] by (auto simp: same_sizes_def service_start_def)
  then have "request_inv (sp_reqs s)" by (simp add: service_inv_def requests_ok_def busy_inv_none)
  note pool = request_inv_conserves [OF this m]
  have own: "(\<exists>!t. i \<in> requests_of s t) \<and> (\<exists>t<length (sp_calls s). i \<in> requests_of s t \<and> g_alive (sp_calls s ! t))"
    if w: "waiting (sp_reqs s) i" for i
  proof -
    from waiting_served [OF inv w] obtain t where
      t: "t < length (sp_calls s)" "ws_event (fst (sp_clients s ! i)) = Some t" "g_alive (sp_calls s ! t)" by blast
    with w have "i \<in> requests_of s u \<longleftrightarrow> u = t" for u by (auto simp: requests_of_def)
    with t show ?thesis by auto
  qed
  have held: "\<exists>!i. holds (sp_reqs s) i k a"
    if "a \<in> allClients (rs_pools (sp_reqs s) k)" "conn (rs_pools (sp_reqs s) k) a \<noteq> None \<and> a \<notin> clients (rs_pools (sp_reqs s) k)" for k a
    using pool(2) [OF that(1)] that(2) by presburger
  have call: "served (requests_of s t) (sp_calls s ! t)" if "t < length (sp_calls s)" for t using inv that by (simp add: service_inv_def)
  have one: "\<exists>t. listening v (sp_calls s) = {t}" if "map_of regs name = Some v" for name v
    using inv that unfolding service_inv_def by blast
  show ?thesis
  proof (intro conjI allI ballI impI)
    show "served (requests_of s t) (sp_calls s ! t)" if "t < length (sp_calls s)" for t by (rule call [OF that])
    show "\<exists>!t. i \<in> requests_of s t" "\<exists>t<length (sp_calls s). i \<in> requests_of s t \<and> g_alive (sp_calls s ! t)"
      if "waiting (sp_reqs s) i" for i using own [OF that] by simp_all
    show "\<exists>t. listening v (sp_calls s) = {t}" if "map_of regs name = Some v" for name v by (rule one [OF that])
    show "card (allClients (rs_pools (sp_reqs s) k)) = length (as k)" for k by (rule pool(1))
    show "\<exists>!i. holds (sp_reqs s) i k a" if "a \<in> allClients (rs_pools (sp_reqs s) k)"
      "conn (rs_pools (sp_reqs s) k) a \<noteq> None \<and> a \<notin> clients (rs_pools (sp_reqs s) k)" for k a by (rule held [OF that])
    show "service_do x s \<noteq> None" if "service_ok s x \<and> is_turn x" for x using service_turn_runs [OF inv] that by blast
  qed
qed

text \<open>
  C31.  Calls end.  A call whose message handler means to make \<open>n\<close> requests has at most \<open>n + 2\<close> turns of its own, from the message to the
  return of its response, whatever others do between them; and as long as it has had fewer it exists and has a turn to
  come: one request is under way, or its response is.
\<close>

theorem Service_call_ends:
  assumes "\<forall>k. distinct (as k)" "distinct (map snd regs)" "\<forall>(name, v)\<in>set regs. handled v"
    and "GrpcServer_Run handled (GrpcServer_with saddr regs) = Some g"
    and "service_reach (service_start g (request_start as ch)) s" "t < length (sp_calls s)" "g_server (sp_calls s ! t) = SPROCESS"
    and "service_run (SReturn t ok n env # xs) s = Some s'"
  shows "turns t (SReturn t ok n env # xs) s \<le> n + 2 \<and>
    (if g_alive (sp_calls s' ! t) then turns t (SReturn t ok n env # xs) s < n + 2 \<and>
       ((\<exists>i. requests_of s' t = {i}) \<or> g_pending (sp_calls s' ! t) = 1)
     else requests_of s' t = {} \<and> g_pending (sp_calls s' ! t) = 0)"
proof -
  from service_reach_inv [OF service_inv_start [OF assms(1-4)] assms(5)]
  have inv: "service_inv {v. \<exists>name. map_of regs name = Some v} s" by blast
  from assms(8) obtain s1 where s1: "handler_ok env t n s" "service_return t ok n env s = Some s1" "service_run xs s1 = Some s'"
    by (auto simp: bind_eq_Some_conv split: if_splits)
  from service_return_ok [OF inv s1(1), of ok] s1(2) assms(6,7) have
    w: "service_inv {v. \<exists>name. map_of regs name = Some v} s1" "t < length (sp_calls s1)" "g_server (sp_calls s1 ! t) = SPROCESSING"
      "work s1 t \<le> Suc n" "g_pending (sp_calls s ! t) = 1" by auto
  from service_run_work [OF w(1) s1(3) w(2,3)] w(4) have
    r: "turns t xs s1 + work s' t \<le> Suc n" "service_inv {v. \<exists>name. map_of regs name = Some v} s'" "t < length (sp_calls s')"
      "g_server (sp_calls s' ! t) = SPROCESSING" by auto
  have "served (requests_of s' t) (sp_calls s' ! t)" using r(2,3) by (simp add: service_inv_def)
  with r(1,4) s1(2) w(5) show ?thesis by (auto simp: served_def work_def split: if_splits)
qed

section \<open>One service on a pool of one client\<close>

lemma one_server: "GrpcServer_Run (\<lambda>_. True) (GrpcServer_with ''addr'' [(''a'', 5)]) = Some [GrpcServiceEvent_new 5]"
  by (simp add: GrpcServer_Run_def GrpcServer_with_def GrpcServer_Register_def GrpcServer_Init_def GrpcServer_new_def
      GrpcService_CreateEvent_def GrpcServerEvent_Init_def)

definition one_pool :: "nat ClientChannel" where
  "one_pool = ClientChannel_new\<lparr>ch_balancer := Some (RandomLbPolicy_new 0)\<rparr>"

lemmas request_make_defs = BaseClient_take_def BaseClient_doReq_def BaseClient_SetTimeoutMs_def BaseClient_new_def
  ClientChannel_GetClientPool_def RandomLbPolicy_Get_def RandomLbPolicy_new_def ClientManager_GetClientPool_def
  ClientPool_Get_def set_pool_def waiting_def call_def

lemmas call_turn_defs = GrpcLooper_next_def GrpcServerEvent_Proceed_def GrpcServiceEvent_Proceed_def
  GrpcServerEvent_Init_def GrpcServiceEvent_Finish_def GrpcServiceEvent_new_def GrpcServiceEvent_myself_def upd_def
  WithService_GetServiceEvent_def WithService_SetServiceEvent_def service_client_def

text \<open>A channel whose node \<open>a:1\<close> names pool 3, which holds one client, at address 10.\<close>

definition ready_sys :: "request_sys" where
  "ready_sys = (let p = fst (ClientPool_Init [10] (ClientPool_new 1)) in
     \<lparr>rs_pools = (\<lambda>_. p)(3 := the (pool_exec (PConnected 10 (fst (Event_new 5 0))) p)),
      rs_channel = the (Balancer_notify (\<lambda>_. Some ('''', Some 3)) [''a:1''] one_pool), rs_reqs = []\<rparr>)"

lemma ready_pool:
  "clients (rs_pools ready_sys 3) = {10}" "conn (rs_pools ready_sys 3) 10 \<noteq> None" "allClients (rs_pools ready_sys k) = {10}"
  "a \<noteq> 10 \<Longrightarrow> conn (rs_pools ready_sys k) a = None" "rs_reqs ready_sys = []"
  "ClientChannel_GetClientPool 0 (rs_channel ready_sys) = Some (True, Some 3)"
  apply (simp_all add: ready_sys_def Let_def ClientPool_Insert_def ClientPool_new_def ClientPool_initClient_def)
  apply (simp add: Balancer_notify_def ClientManager_Update_def ClientManager_addAddr_def ClientChannel_GetClientPool_def
        RandomLbPolicy_Get_def RandomLbPolicy_UpdateAllWithoutWeight_def ClientManager_GetClientPool_def map_keys_def
        ClientChannel_new_def one_pool_def)
  done

lemma ready_reach:
  "service_reach (service_start g (request_start (\<lambda>_. [10]) one_pool)) (service_start g ready_sys)"
proof -
  let ?r0 = "request_start (\<lambda>_. [10]) one_pool" and ?p0 = "fst (ClientPool_Init [10] (ClientPool_new 1))"
  let ?mk = "\<lambda>_ :: string. Some ('''', Some (3 :: nat))"
  let ?s0 = "service_start g ?r0"
  let ?e = "fst (Event_new 5 0)"
  obtain ch where ch: "Balancer_notify ?mk [''a:1''] one_pool = Some ch"
    by (simp add: Balancer_notify_def ClientManager_Update_def ClientManager_addAddr_def map_keys_def ClientChannel_new_def one_pool_def)
  obtain p where p: "pool_exec (PConnected 10 ?e) ?p0 = Some p" and p0: "10 \<in> allClients ?p0" "conn ?p0 10 = None" "clients ?p0 = {}"
    by (simp add: ClientPool_Insert_def ClientPool_new_def ClientPool_initClient_def)
  let ?s1 = "?s0\<lparr>sp_reqs := ?r0\<lparr>rs_channel := ch\<rparr>\<rparr>"
  have d1: "service_do (SNotify ?mk [''a:1'']) ?s0 = Some ?s1" using ch by (simp add: service_start_def request_start_def)
  have 1: "service_reach ?s0 ?s1" by (rule service_reach.step [OF service_reach.start, OF _ d1]) simp
  have r: "rs_pools (?r0\<lparr>rs_channel := ch\<rparr>) 3 = ?p0" "sp_reqs ?s1 = ?r0\<lparr>rs_channel := ch\<rparr>" by (simp_all add: request_start_def)
  have e: "ready_sys = set_pool 3 p (?r0\<lparr>rs_channel := ch\<rparr>)"
    using ch p by (simp add: ready_sys_def request_start_def Let_def set_pool_def del: ClientPool_Init.simps pool_exec.simps One_nat_def) simp
  have d2: "service_do (SPool 3 (PConnected 10 ?e)) ?s1 = Some (service_start g ready_sys)"
    using p r e by (simp add: service_start_def del: ClientPool_Init.simps pool_exec.simps One_nat_def)
  have "service_ok ?s1 (SPool 3 (PConnected 10 ?e))" using p0 r by (simp del: ClientPool_Init.simps One_nat_def)
  then show ?thesis by (rule service_reach.step [OF 1, OF _ d2])
qed


text \<open>One message comes, and its handler makes a request, which the pool's client carries.\<close>

lemma ready_take:
  "BaseClient_take 0 0 '''' ready_sys =
     Some ((set_pool 3 ((rs_pools ready_sys 3)\<lparr>clients := {}\<rparr>) ready_sys)
       \<lparr>rs_reqs := [(call CallAsyncWrite BaseClient_new, Some (3, 10))]\<rparr>)"
  using ready_pool(2) by (simp add: BaseClient_take_def BaseClient_doReq_def BaseClient_SetTimeoutMs_def BaseClient_new_def
      ready_pool ClientPool_Get_def set_pool_def)

definition one_env :: request_env where "one_env = (\<lambda>_. (0, 0, '''', 20))"

definition asked_once :: service_sys where
  "asked_once =
     \<lparr>sp_calls = [(GrpcServiceEvent_new 5)\<lparr>g_server := SPROCESSING, g_service := FINISH, g_pending := 0\<rparr>, GrpcServiceEvent_new 5],
      sp_reqs = the (BaseClient_take 0 0 '''' ready_sys), sp_clients = [(\<lparr>ws_client = 0, ws_event = Some 0\<rparr>, 0)]\<rparr>"

lemma asked_once_waiting: "waiting (sp_reqs asked_once) i \<longleftrightarrow> i = 0"
  by (auto simp: asked_once_def ready_take waiting_def call_def BaseClient_new_def)

lemma asked_once_handler:
  "service_handler one_env 0 1 (service_start [e] ready_sys) = Some (asked_once\<lparr>sp_calls := [e]\<rparr>, False)" if "g_alive e"
proof -
  have "waiting (the (BaseClient_take 0 0 '''' ready_sys)) 0" using asked_once_waiting [of 0] by (simp add: asked_once_def)
  with that show ?thesis
    by (simp add: one_env_def ready_take service_start_def asked_once_def ready_pool service_client_def GrpcServiceEvent_myself_def
        WithService_SetServiceEvent_def)
qed

lemma asked_once_return:
  "service_return 0 True 1 one_env (service_start [GrpcServiceEvent_new 5] ready_sys) = Some asked_once"
  using asked_once_handler [of "GrpcServiceEvent_new 5"]
  by (simp add: service_return_def service_start_def call_turn_defs) (simp add: asked_once_def call_turn_defs)

lemma asked_once_ok: "service_ok (service_start [GrpcServiceEvent_new 5] ready_sys) (SReturn 0 True 1 one_env)"
proof -
  have "waiting (the (BaseClient_take 0 0 '''' ready_sys)) 0" using asked_once_waiting [of 0] by (simp add: asked_once_def)
  then show ?thesis by (simp add: one_env_def channel_names_def ready_pool service_start_def ready_take)
qed

lemma asked_once_reach:
  "service_reach (service_start [GrpcServiceEvent_new 5] (request_start (\<lambda>_. [10]) one_pool)) asked_once"
  using service_reach.step [OF ready_reach asked_once_ok] asked_once_return by simp

lemma answered_once_ok: "service_ok asked_once (SEvent 0 (Received '''' '''' True) 20 one_env)"
  by (simp add: asked_once_def fresh_after_def fresh_def request_stepped_def ready_take set_pool_def ready_pool)

lemma answered_once:
  "\<exists>q. service_event 0 (Received '''' '''' True) 20 one_env asked_once =
     Some (asked_once\<lparr>sp_reqs := q, sp_calls := GrpcServiceEvent_Finish 0 (sp_calls asked_once)\<rparr>)"
proof -
  have "\<exists>p. ClientPool_Insert 10 '''' 20 ((rs_pools ready_sys 3)\<lparr>clients := {}\<rparr>) = Some p"
    using ready_pool(2) by (auto simp: ClientPool_Insert_def)
  then show ?thesis
    using asked_once_waiting [of 0]
    by (auto simp: service_event_def asked_once_def ready_take waiting_def request_stepped_def call_def BaseClient_new_def
       BaseClient_onRead_def BaseClient_Finish_def Let_def ready_pool WithService_GetServiceEvent_def GrpcServiceEvent_new_def
       BaseClient_back_def set_pool_def)
qed

lemma asked_once_serves: "requests_of asked_once t = (if t = 0 then {0} else {})"
  unfolding requests_of_def asked_once_waiting by (auto simp: asked_once_def)

theorem Service_calls_own_requests_witness:
  "requests_of asked_once 0 = {0} \<and> served {0} (sp_calls asked_once ! 0) \<and> (\<exists>t. listening 5 (sp_calls asked_once) = {t}) \<and>
    waiting (sp_reqs asked_once) 0 \<and> (\<exists>!t. 0 \<in> requests_of asked_once t) \<and> card (allClients (rs_pools (sp_reqs asked_once) 3)) = 1 \<and>
    service_do (SEvent 0 (Received '''' '''' True) 20 one_env) asked_once \<noteq> None"
proof -
  have "\<forall>k. distinct ((\<lambda>_ :: nat. [10 :: nat]) k)" "distinct (map snd [(''a'', 5)])" "\<forall>(name, v)\<in>set [(''a'', 5)]. True" by simp_all
  note c = Service_calls_own_requests [OF this one_server asked_once_reach]
  have l: "0 < length (sp_calls asked_once)" by (simp add: asked_once_def)
  have w: "waiting (sp_reqs asked_once) 0" by (simp add: asked_once_waiting)
  have m: "map_of [(''a'', 5)] ''a'' = Some 5" by simp
  from c [THEN conjunct1, rule_format, OF l] c [THEN conjunct2, THEN conjunct1, rule_format, OF w, THEN conjunct1]
    c [THEN conjunct2, THEN conjunct2, THEN conjunct1, rule_format, OF m]
    c [THEN conjunct2, THEN conjunct2, THEN conjunct2, THEN conjunct1, rule_format, THEN conjunct1, of 3]
    c [THEN conjunct2, THEN conjunct2, THEN conjunct2, THEN conjunct2, rule_format, of "SEvent 0 (Received '''' '''' True) 20 one_env"]
    answered_once_ok w
  show ?thesis by (simp add: asked_once_serves is_turn_def del: service_do.simps service_ok.simps)
qed

theorem Service_call_ends_witness:
  "\<exists>s'. service_run [SReturn 0 True 1 one_env, SEvent 0 (Received '''' '''' True) 20 one_env, SReturn 0 True 0 one_env]
       (service_start [GrpcServiceEvent_new 5] ready_sys) = Some s' \<and>
     turns 0 [SReturn 0 True 1 one_env, SEvent 0 (Received '''' '''' True) 20 one_env, SReturn 0 True 0 one_env]
       (service_start [GrpcServiceEvent_new 5] ready_sys) \<le> 3 \<and> requests_of s' 0 = {} \<and> g_pending (sp_calls s' ! 0) = 0"
proof -
  let ?s0 = "service_start [GrpcServiceEvent_new 5] ready_sys"
  let ?e1 = "SReturn 0 True 1 one_env" and ?e2 = "SEvent 0 (Received '''' '''' True) 20 one_env" and ?e3 = "SReturn 0 True 0 one_env"
  have h: "\<forall>k. distinct ((\<lambda>_ :: nat. [10 :: nat]) k)" "distinct (map snd [(''a'', 5)])" "\<forall>(name, v)\<in>set [(''a'', 5)]. True" by simp_all
  obtain s2 where s2: "service_do ?e2 asked_once = Some s2" "sp_calls s2 = GrpcServiceEvent_Finish 0 (sp_calls asked_once)"
    using answered_once by auto
  obtain s3 where s3: "service_do ?e3 s2 = Some s3" "\<not> g_alive (sp_calls s3 ! 0)"
    by (simp add: service_return_def s2(2) asked_once_def call_turn_defs)
  have run: "service_run [?e1, ?e2, ?e3] ?s0 = Some s3"
    using asked_once_return asked_once_ok answered_once_ok s2(1) s3(1) by simp
  have t: "0 < length (sp_calls ?s0)" "g_server (sp_calls ?s0 ! 0) = SPROCESS"
    by (simp_all add: service_start_def GrpcServiceEvent_new_def)
  from Service_call_ends [OF h one_server ready_reach t run] run s3(2) show ?thesis by auto
qed

text \<open>
  The handler of an answer runs before the client is back in its pool: on a pool of one client, a request
  that it makes is refused, though nothing else uses the pool.
\<close>

theorem Service_next_request_refused:
  "\<exists>s1 s2. service_return 0 True 2 one_env (service_start [GrpcServiceEvent_new 5] ready_sys) = Some s1 \<and>
     bc_calls (fst (rs_reqs (sp_reqs s1) ! 0)) = [CallAsyncWrite] \<and>
     service_event 0 (Received '''' '''' True) 20 one_env s1 = Some s2 \<and>
     bc_calls (fst (rs_reqs (sp_reqs s2) ! 1)) = [OnDone ''client nullptr''] \<and> clients (rs_pools (sp_reqs s2) 3) = {10}"
proof -
  let ?s1 = "asked_once\<lparr>sp_clients := [(\<lparr>ws_client = 0, ws_event = Some 0\<rparr>, 1)]\<rparr>"
  have "waiting (the (BaseClient_take 0 0 '''' ready_sys)) 0" using asked_once_waiting [of 0] by (simp add: asked_once_def)
  then have "service_handler one_env 0 2 (service_start [GrpcServiceEvent_new 5] ready_sys) = Some (?s1\<lparr>sp_calls := [GrpcServiceEvent_new 5]\<rparr>, False)"
    by (simp add: numeral_2_eq_2 one_env_def ready_take service_start_def asked_once_def ready_pool service_client_def GrpcServiceEvent_myself_def
        WithService_SetServiceEvent_def GrpcServiceEvent_new_def)
  then have 1: "service_return 0 True 2 one_env (service_start [GrpcServiceEvent_new 5] ready_sys) = Some ?s1"
    by (simp add: service_return_def service_start_def call_turn_defs) (simp add: asked_once_def call_turn_defs)
  let ?q = "(the (BaseClient_take 0 0 '''' ready_sys))"
  let ?q1 = "request_stepped 0 (Received '''' '''' True) ?q"
  let ?r = "(BaseClient_doReq True False '''' (BaseClient_SetTimeoutMs 0 BaseClient_new), None)"
  have p: "clients (rs_pools ?q 3) = {}" "conn (rs_pools ?q 3) 10 \<noteq> None" "rs_channel ?q = rs_channel ready_sys" "length (rs_reqs ?q) = 1"
    using ready_pool(2) by (simp_all add: ready_take set_pool_def)
  have take: "BaseClient_take 0 0 '''' ?q1 = Some (?q1\<lparr>rs_reqs := rs_reqs ?q1 @ [?r]\<rparr>)"
    using p by (simp add: BaseClient_take_def request_stepped_def ready_pool ClientPool_Get_def)
  obtain p' where ins: "ClientPool_Insert 10 '''' 20 (rs_pools ?q 3) = Some p'" "clients p' = {10}"
    using p(1,2) by (auto simp: ClientPool_Insert_def)
  have q0: "rs_reqs ?q = [(call CallAsyncWrite BaseClient_new, Some (3, 10))]" "snd ?r = None"
    "bc_calls (fst ?r) = [OnDone ''client nullptr'']"
    by (simp_all add: ready_take BaseClient_doReq_def BaseClient_SetTimeoutMs_def BaseClient_new_def call_def)
  let ?c1 = "BaseClient_onRead '''' '''' True (call CallAsyncWrite BaseClient_new)"
  have q1: "rs_reqs ?q1 = [(?c1, Some (3, 10))]" "bc_finished ?c1" "last (bc_calls ?c1) = PoolInsert ''''" "rs_pools ?q1 = rs_pools ?q"
    by (simp_all add: request_stepped_def q0 BaseClient_onRead_def BaseClient_Finish_def call_def BaseClient_new_def Let_def)
  let ?s1' = "?s1\<lparr>sp_reqs := ?q1\<rparr>"
  let ?w = "service_client 0 0 ?s1'"
  have h: "service_handler one_env 0 1 ?s1' = Some (?s1'\<lparr>sp_reqs := ?q1\<lparr>rs_reqs := rs_reqs ?q1 @ [?r]\<rparr>, sp_clients := sp_clients ?s1 @ [?w]\<rparr>, True)"
    using take q1 by (simp add: one_env_def waiting_def BaseClient_back_def nth_append WithService_GetServiceEvent_def service_client_def
        WithService_SetServiceEvent_def GrpcServiceEvent_myself_def asked_once_def GrpcServiceEvent_new_def)
  have e: "waiting ?q 0" "\<not> waiting ?q1 0" using asked_once_waiting [of 0] q1(1,2) by (simp_all add: asked_once_def waiting_def)
  have b: "BaseClient_back 0 20 (?q1\<lparr>rs_reqs := rs_reqs ?q1 @ [?r]\<rparr>) = Some (set_pool 3 p' (?q1\<lparr>rs_reqs := rs_reqs ?q1 @ [?r]\<rparr>))"
    using ins q1 by (simp add: BaseClient_back_def)
  have s1: "sp_reqs ?s1 = ?q" "sp_clients ?s1 ! 0 = (\<lparr>ws_client = 0, ws_event = Some 0\<rparr>, 1)"
    "WithService_GetServiceEvent (sp_calls ?s1) \<lparr>ws_client = 0 :: nat, ws_event = Some 0\<rparr> = Some 0"
    by (simp_all add: asked_once_def WithService_GetServiceEvent_def GrpcServiceEvent_new_def)
  have "\<exists>s2. service_event 0 (Received '''' '''' True) 20 one_env ?s1 = Some s2 \<and>
    sp_reqs s2 = set_pool 3 p' (?q1\<lparr>rs_reqs := rs_reqs ?q1 @ [?r]\<rparr>)"
    unfolding service_event_def Let_def using h e b q0(1) s1 by (simp del: service_handler.simps)
  then show ?thesis using 1 q0 q1 ins(2) s1(1) by (fastforce simp: set_pool_def call_def BaseClient_new_def)
qed

end
