(* ===== verification/Spec2Isabelle.thy ===== *)
theory Spec2Isabelle
  imports Event_Callbacks Tcp_Stream Host_Interface Context_Switch Loop_Threads Logging Coroutine_Mutex Co_Net Request_Path Flow_Service
    Client_Objects Config_Files Resolvers Timer_Handlers Grpc_Handlers Service_Path
begin

text \<open>
  A model of \<^verbatim>\<open>sheep_cpp\<close>, a C++ framework for network services, and proofs of what makes it
  correct.  Paths are below \<^verbatim>\<open>src/src\<close> of the repository.

  \<^bold>\<open>The program.\<close>  One thread runs an \<^verbatim>\<open>EventLoop\<close>.  A pass of the loop asks three pollers
  for the events that are ready (tasks posted from other threads, timers that are due, descriptors that
  \<^verbatim>\<open>epoll\<close> reports) and runs their callbacks, which may create, change and destroy events.  On events
  stand \<^verbatim>\<open>Asyncer\<close> (post a task), \<^verbatim>\<open>Timer\<close>, and \<^verbatim>\<open>TcpConnection\<close> with
  its two byte buffers; on connections the \<^verbatim>\<open>Acceptor\<close> and \<^verbatim>\<open>Server\<close>, the
  \<^verbatim>\<open>Connector\<close> and \<^verbatim>\<open>Client\<close>, and the \<^verbatim>\<open>ClientPool\<close>.  A
  \<^verbatim>\<open>ClientChannel\<close> keeps one pool per node: a resolver (a fixed list, DNS, or a watcher of etcd)
  reports the nodes, a load-balancing policy chooses one.  \<^verbatim>\<open>BaseClient\<close> makes one request on a
  pooled connection, with a timeout; the HTTP and Redis clients encode and decode.  A coroutine scheduler runs
  functions that suspend; mutexes, condition variables and futures for them, and the \<^verbatim>\<open>Co\<close>
  wrappers, let such a function use the network as if it blocked.  The gRPC server and client multiplex calls
  over a completion queue; a service call runs its handlers under its own lock, may make client requests that
  are bound to it, and may be organised as a flow of steps.

  \<^bold>\<open>Conventions\<close> (\<open>Prelude\<close>).  A class is a record, a method \<^verbatim>\<open>C::m\<close> the
  definition \<open>C_m\<close>; \<open>errmsg\<close> is the out-parameter for errors, empty for success; \<open>None\<close> or \<open>Inl\<close> is a
  crash: a null or dangling pointer, an access outside a vector, an uncaught exception, a logged FATAL.
  Integers whose width matters are words.  What other parts do with a callback is returned as a list of
  observations or is a step of a history; concurrent operations are cut into their atomic pieces and a step
  relation interleaves them.

  \<^bold>\<open>Theories\<close>, in the order of the imports.
  \<^item> \<open>Intrusive_List\<close>: \<^verbatim>\<open>util/intrusive_list.h\<close> on an explicit heap of nodes; \<open>Ordered_Map\<close>:
    \<^verbatim>\<open>std::map\<close> with its order and its \<^verbatim>\<open>insert\<close> that keeps the first value;
    \<open>Byte_Buffer\<close>: \<^verbatim>\<open>net/common/tcp/buffer\<close>, a growing vector with two indices; \<open>Text_Util\<close>:
    \<^verbatim>\<open>urlcode.h\<close>, \<^verbatim>\<open>small_strings.h\<close> and decimal numbers; \<open>Locks\<close>:
    \<^verbatim>\<open>small_lock\<close> and \<^verbatim>\<open>small_block_queue\<close>.
  \<^item> \<open>Net_Event\<close>: \<^verbatim>\<open>event.h\<close>, \<^verbatim>\<open>event.cpp\<close> and the contract of a poller;
    \<open>Asyncer_Poller\<close>, \<open>Timer_Poller\<close>, \<open>Epoller\<close>: \<^verbatim>\<open>net/common/poller\<close>; \<open>Event_Loop\<close>:
    \<^verbatim>\<open>event_loop.cpp\<close>; \<open>Event_Callbacks\<close>: the event object with its callbacks, its getters, and
    \<^verbatim>\<open>GetPoller\<close>.
  \<^item> \<open>Async_Timer\<close>: \<^verbatim>\<open>asyncer\<close> and \<^verbatim>\<open>timer\<close>; \<open>Timer_Loop\<close>: any number of timers
    on the loop with its two pollers, and \<open>Timer_Programs\<close>: programs that make, use and destroy them, and
    \<open>Timer_Handlers\<close>: handlers that do so during a pass; \<open>Net_Socket\<close>:
    \<^verbatim>\<open>tcp/socket\<close>; \<open>Tcp_Connection\<close>: \<^verbatim>\<open>tcp_connection\<close>; \<open>Tcp_Stream\<close>: two connections,
    their owners and the kernel between them, as one system; \<open>Net_Server\<close>:
    \<^verbatim>\<open>net/server\<close>; \<open>Net_Client\<close>: \<^verbatim>\<open>net/client\<close>; \<open>Host_Interface\<close>: the clock of
    \<^verbatim>\<open>util.h\<close> and \<^verbatim>\<open>small_time.h\<close>, \<^verbatim>\<open>small_ioutils\<close>, socket addresses, read and
    write guards.
  \<^item> \<open>Coroutine_Scheduler\<close>: \<^verbatim>\<open>coroutine_scheduler\<close> and \<^verbatim>\<open>coroutine_info\<close>;
    \<open>Context_Switch\<close>: the saved contexts and jumps of \<^verbatim>\<open>coroutine_info.cpp\<close> that implement it;
    \<open>Loop_Threads\<close>: the threads of \<^verbatim>\<open>looper.h\<close>, \<^verbatim>\<open>grpc_looper.h\<close>, the scheduler and the
    block queue; \<open>Logging\<close>: \<^verbatim>\<open>log\<close>;
    \<open>Coroutine_Mutex\<close>: \<^verbatim>\<open>coroutine_mutex.h\<close>; \<open>Co_Net\<close>: \<^verbatim>\<open>co_tcp_connection\<close>,
    \<^verbatim>\<open>co_client\<close>, \<^verbatim>\<open>co_server\<close> on the models of what they wrap.
  \<^item> \<open>Http_Message\<close>: \<^verbatim>\<open>small_http_parser\<close>; \<open>Client_Channel\<close>: \<^verbatim>\<open>client_channel\<close>;
    \<open>Base_Client\<close>: \<^verbatim>\<open>base_client.h\<close>, \<^verbatim>\<open>http_client.h\<close>, \<^verbatim>\<open>redis_client.h\<close>;
    \<open>Request_Path\<close>: requests on the models of the channel, its pools and their connections.
  \<^item> \<open>Grpc_Service\<close>: \<^verbatim>\<open>grpc_server.h\<close>, \<^verbatim>\<open>grpc_service.h\<close>, \<^verbatim>\<open>trace_id.h\<close>;
    \<open>Grpc_Client\<close>: \<^verbatim>\<open>grpc_client.h\<close>, \<^verbatim>\<open>grpc_client_channel.h\<close>, \<^verbatim>\<open>grpc_looper.h\<close>;
    \<open>Grpc_Handlers\<close>: client handlers that request themselves; \<open>Service_Clients\<close>: the clients of a service call;
    \<open>Service_Path\<close>: service calls that answer from their own requests, on \<open>Grpc_Service\<close> and \<open>Request_Path\<close>; \<open>Client_Objects\<close>: the memory of a Redis client, trace id and
    deadline of a gRPC client, the callback table of the response parser; \<open>Flow_Service\<close>: \<^verbatim>\<open>small_flow.h\<close>.
  \<^item> \<open>Small_Config\<close>: \<^verbatim>\<open>small_json.h\<close> and \<^verbatim>\<open>small_toml.h\<close>; \<open>Config_Files\<close>:
    \<^verbatim>\<open>small_config.h\<close> and \<^verbatim>\<open>small_output.h\<close>; \<open>Etcd_Watcher\<close>: \<^verbatim>\<open>small_watcher\<close>;
    \<open>Resolvers\<close>: the resolver objects, their factories, and a channel on a watched directory.
\<close>

text \<open>
  \<^bold>\<open>Interfaces\<close> are locales, each interpreted on the model of the code that provides it: \<open>list_store\<close> (the
  intrusive list; the scheduler's four lists rest on it), \<open>byte_queue\<close> (the connection's buffer), \<open>poller\<close>
  (registration of events; the asyncer poller, the timer poller and, through \<open>epoll_kernel\<close>, the epoll
  poller), \<open>first_wins_map\<close> (\<^verbatim>\<open>std::map\<close>, for header maps, registries and the server's services),
  \<open>reentrant_lock\<close> (guards and the handlers of a service call), \<open>lb_policy\<close> (the random policy of a channel) and
  \<open>config_format\<close> (JSON and TOML, for the file methods).

  \<^bold>\<open>What is proved.\<close>
  \<^item> Data: moving a node between intrusive lists; the buffer is a byte queue in every history; URL and query
    encodings, configuration texts and files are read back (in TOML, classes without vectors and empty classes).
  \<^item> Loop: the asyncer poller refines a queue; a timer poll returns what is due; the kernel's interest set
    follows the flags of the events; a poll returns the reported events; a pass never runs a callback of an event
    destroyed earlier in it, whatever the callbacks create and destroy, as long as its id is not used again in that pass.  Tasks and timers run exactly once unless cancelled, never early; on the loop, with any
    number of timers, each timer behaves as its own operations say, life after life, and one that is not cancelled fires; handlers may act on
    timers, their own included, during the pass, and their cascades end, as long as no timer that a handler destroys is cancelled.
  \<^item> Connections: every byte pushed is sent once and in order, whatever the socket takes and whatever the
    callbacks do, until a \<^verbatim>\<open>write(2)\<close> returns \<open>-1\<close>, when the code sends a byte twice; the finish handler runs exactly once
    per life; two joined connections are, with the same reservation, a pair of byte queues in every
    interleaving of owners, callbacks and kernel, and every byte pushed can be delivered; the server's set holds the
    open connections, and those their connected handler finished before it returned; a connect is answered once; the pool never exceeds its size.
  \<^item> Coroutines: the four lists partition the coroutines in every history; a turn runs whatever is ready; a
    sleeper is not lost; the machine of saved contexts and jumps implements the scheduler's lists of actions; stopping a
    loop's thread ends when its pass does; both mutexes exclude, in every interleaving, and \<open>Mutex\<close> loses no wake-up, with
    threads and coroutines as users; a read, a write and a connect in a coroutine suspend it and wake it once.
  \<^item> Clients and services: a request is answered exactly once; over all requests, events and reports of the resolver
    every pool keeps its number of clients, each of which is offered alive, connecting, or held by one request, and no request
    crashes; a channel on a watched directory has the pools of the last listing; the gRPC server always listens and never touches a deleted call; client
    handlers may request themselves, with one call per client; a handler made for a call runs
    under its lock while the call exists and never after; a call that answers from its own requests always has one of them
    or its response under way, and ends after a bounded number of turns; a flow whose steps do not run it themselves runs each step once, and
    every flow terminates; the etcd key is kept alive after every answer but a malformed one, and the watch goes on.
  \<^item> Where the code does something else than it means to, a theorem shows it on the model, beside the
    property whose hypothesis excludes the case: a second request on a client object, a second
    \<^verbatim>\<open>Finish\<close> of a call, a refused write, a timer destroyed while it is being cancelled, a connection reset after it was finished, a wake-up given to a waiter that
    has timed out, a queue whose callbacks never run, and others.

  \<^bold>\<open>Loops and bounds.\<close>  A loop that the code does not bound is \<open>partial_function (option)\<close>, where \<open>None\<close>
  is a loop that goes on for ever, and the theorem about it shows the result \<open>Some\<close>: the recursion of the
  pollers' \<open>updateEvent\<close>, the walk over an intrusive list, the reading loops of the HTTP and Redis clients,
  the settling of a connection, the cascade of timer handlers that act.  The fuel of \<open>FlowService_Run\<close> bounds the nesting of runs inside steps; each
  nested run starts at a later step, so one more than the number of steps suffices (\<open>FlowService_Run_total\<close>).
  The fuel of \<open>BlockQueue_looper\<close> bounds the callbacks that callbacks push; it matters to no theorem, since the
  loop never gets there.  The scheduler has any number of coroutines, queues and buffers any length; trace
  ids are 64-bit words, since their wrap-around is part of a statement, and event ids integers that do not wrap.

  \<^bold>\<open>Code outside the repository\<close> is an argument of the definitions that use it: the answers of
  \<^verbatim>\<open>epoll\<close> and of the socket calls, the clock, the callbacks \<^verbatim>\<open>http_parser\<close> makes for a
  piece of input, what hiredis returns, the operations of rapidjson and tinytoml (records with their laws as
  named hypotheses, \<open>json_lib_ok\<close> and \<open>toml_lib_ok\<close>, each with an instance), the order in which gRPC's
  completion queue returns tags, \<^verbatim>\<open>gethostbyname\<close>, the random number, the file system.

  \<^bold>\<open>Not modelled.\<close>  The registers that the assembly of \<^verbatim>\<open>tc_fcontext\<close> saves (a context is what its
  coroutine has still to do, and a jump exchanges it as the header documents); the profiler, of which the repository only includes a header;
  floating-point fields of a configuration (with JSON a class that has one does not compile, since both of its
  overloads match); members that only forward (\<^verbatim>\<open>CoroutineScheduler\<close> to its implementation, the
  \<^verbatim>\<open>Get\<close> of a factory) and pure interfaces.  Data races are seen only where
  operations are cut into atomic pieces (mutexes, condition variables, trace ids, posted tasks); elsewhere a turn of a loop, or a handler under its
  call's lock, is one step.

  \<^bold>\<open>Open.\<close>  Two compositions are left: the server's connections across threads, and a service call whose requests
  are made with gRPC clients (\<open>Service_Path\<close> has those of the HTTP and Redis clients, over the pools).
\<close>

end
